(* ===== verification/Prelude.thy ===== *)
theory Prelude
  imports Main "HOL-Library.Word" "HOL-Library.Monad_Syntax"
begin

text \<open>
  Shared vocabulary of the development: the machine integer types, the result and
  execution types, first-match scans over index ranges, null-terminated pointer lists,
  the generation counters that skip zero, and the lemmas about them that the
  component theories use.

  Conventions. A Rust \<open>Result\<close> is a sum, \<open>Err\<close> to the left and \<open>Ok\<close> to the right.
  A kernel routine that may panic (a failed \<open>assert!\<close>, an index out of bounds, an
  arithmetic overflow: both build profiles set \<open>overflow-checks = true\<close>) or that may
  loop for ever has an \<open>option\<close> result, and \<open>None\<close> stands for "does not return".
  A fixed-size static table is a function from indices; an index that the code does
  not check against the table size is checked in the model, with \<open>None\<close> otherwise.
\<close>

unbundle bit_operations_syntax

section \<open>Types\<close>

type_synonym u8 = "8 word"
type_synonym u16 = "16 word"
type_synonym u32 = "32 word"
type_synonym u64 = "64 word"

abbreviation Ok :: "'a \<Rightarrow> 'e + 'a" where "Ok \<equiv> Inr"
abbreviation Err :: "'e \<Rightarrow> 'e + 'a" where "Err \<equiv> Inl"

abbreviation U16_MAX :: nat where "U16_MAX \<equiv> 65535"
abbreviation U32_MAX :: nat where "U32_MAX \<equiv> 4294967295"
abbreviation U64_MAX :: nat where "U64_MAX \<equiv> 18446744073709551615"

section \<open>Checked arithmetic and loops that may panic\<close>

text \<open>\<open>add64\<close> is \<open>+\<close> on \<open>u64\<close> (and \<open>usize\<close>) under overflow checks; \<open>foldM\<close> is a \<open>for\<close> loop
  over a list whose body may panic.\<close>

definition add64 :: "nat \<Rightarrow> nat \<Rightarrow> nat option" where
  "add64 a b = (if a + b \<le> U64_MAX then Some (a + b) else None)"

definition sub64 :: "nat \<Rightarrow> nat \<Rightarrow> nat option" where
  "sub64 a b = (if b \<le> a then Some (a - b) else None)"

primrec foldM :: "('a \<Rightarrow> 's \<Rightarrow> 's option) \<Rightarrow> 'a list \<Rightarrow> 's \<Rightarrow> 's option" where
  "foldM f [] s = Some s"
| "foldM f (x # xs) s = f x s \<bind> foldM f xs"

lemma foldM_append: "foldM f (xs @ ys) s = foldM f xs s \<bind> foldM f ys"
  by (induction xs arbitrary: s) (auto simp: bind_assoc split: Option.bind_splits)

lemma foldM_invariant:
  assumes "foldM f xs s = Some s'" "P s"
    and "\<And>x t t'. x \<in> set xs \<Longrightarrow> P t \<Longrightarrow> f x t = Some t' \<Longrightarrow> P t'"
  shows "P s'"
  using assms
proof (induction xs arbitrary: s)
  case (Cons x xs)
  then obtain t where t: "f x s = Some t" "foldM f xs t = Some s'"
    by (auto split: Option.bind_splits)
  with Cons.prems have "P t" by (meson list.set_intros(1))
  with t Cons.prems Cons.IH [of t] show ?case by auto
qed simp

lemma foldM_total:
  assumes "P s" "\<And>x t. x \<in> set xs \<Longrightarrow> P t \<Longrightarrow> \<exists>t'. f x t = Some t' \<and> P t'"
  shows "\<exists>s'. foldM f xs s = Some s' \<and> P s'"
  using assms
proof (induction xs arbitrary: s)
  case (Cons x xs)
  then obtain t where "f x s = Some t" "P t" by (metis list.set_intros(1))
  with Cons show ?case by auto
qed simp

lemma foldM_sum:
  assumes "a + sum_list (map g xs) \<le> U64_MAX"
  shows "foldM (\<lambda>x acc. add64 acc (g x)) xs a = Some (a + sum_list (map g xs))"
  using assms by (induction xs arbitrary: a) (auto simp: add64_def ac_simps)

text \<open>The code writes minima and maxima as conditionals.\<close>

lemma if_min_max:
  "(if a < b then a else b) = min a (b::nat)"
  "(if b < a then a else b) = max a (b::nat)"
  by (auto simp: min_def max_def)

section \<open>First-match scans\<close>

text \<open>The loop \<open>for i in 0..n { if P(i) { return Some(i) } }\<close> is \<open>find P [0..<n]\<close>.\<close>

lemma find_upt_None_iff: "find P [0..<n] = None \<longleftrightarrow> (\<forall>i<n. \<not> P i)"
  by (auto simp: find_None_iff)

lemma find_upt_Some_iff:
  "find P [0..<n] = Some i \<longleftrightarrow> i < n \<and> P i \<and> (\<forall>j<i. \<not> P j)"
  by (auto simp: find_Some_iff)

lemma find_upt_SomeD:
  "find P [0..<n] = Some i \<Longrightarrow> i < n \<and> P i"
  by (simp add: find_upt_Some_iff)

lemma find_upt_exists: "i < n \<Longrightarrow> P i \<Longrightarrow> \<exists>j\<le>i. find P [0..<n] = Some j"
proof -
  assume "i < n" "P i"
  then obtain j where "find P [0..<n] = Some j"
    by (metis find_upt_None_iff not_None_eq)
  moreover from this \<open>P i\<close> have "j \<le> i" by (auto simp: find_upt_Some_iff not_less [symmetric])
  ultimately show ?thesis by blast
qed

lemma find_upt_0: "0 < n \<Longrightarrow> P 0 \<Longrightarrow> find P [0..<n] = Some 0"
  by (simp add: find_upt_Some_iff)

lemma find_upt_1: "1 < n \<Longrightarrow> \<not> P 0 \<Longrightarrow> P 1 \<Longrightarrow> find P [0..<n] = Some 1"
  by (simp add: find_upt_Some_iff)

section \<open>Null-terminated pointer lists\<close>

text \<open>
  \<open>plist nx p xs\<close>: following \<open>nx\<close> from the pointer \<open>p\<close> visits exactly the cells \<open>xs\<close>
  and then reaches null. It abstracts the intrusive lists of the kernel (wait queues,
  run queues, the child chains of the capability derivation tree).
\<close>

primrec plist :: "('a \<Rightarrow> 'a option) \<Rightarrow> 'a option \<Rightarrow> 'a list \<Rightarrow> bool" where
  "plist nx p [] \<longleftrightarrow> p = None"
| "plist nx p (x # xs) \<longleftrightarrow> p = Some x \<and> plist nx (nx x) xs"

text \<open>\<open>pseg nx p xs q\<close>: the same, from \<open>p\<close> up to the pointer \<open>q\<close>.\<close>

primrec pseg :: "('a \<Rightarrow> 'a option) \<Rightarrow> 'a option \<Rightarrow> 'a list \<Rightarrow> 'a option \<Rightarrow> bool" where
  "pseg nx p [] q \<longleftrightarrow> p = q"
| "pseg nx p (x # xs) q \<longleftrightarrow> p = Some x \<and> pseg nx (nx x) xs q"

lemma plist_None [simp]: "plist nx None xs \<longleftrightarrow> xs = []"
  by (cases xs) auto

lemma plist_Some: "plist nx (Some x) xs \<longleftrightarrow> (\<exists>ys. xs = x # ys \<and> plist nx (nx x) ys)"
  by (cases xs) auto

lemma plist_append: "plist nx p (xs @ ys) \<longleftrightarrow> (\<exists>q. pseg nx p xs q \<and> plist nx q ys)"
  by (induction xs arbitrary: p) auto

lemma pseg_append: "pseg nx p (xs @ ys) r \<longleftrightarrow> (\<exists>q. pseg nx p xs q \<and> pseg nx q ys r)"
  by (induction xs arbitrary: p) auto

lemma plist_unique: "plist nx p xs \<Longrightarrow> plist nx p ys \<Longrightarrow> xs = ys"
proof (induction xs arbitrary: p ys)
  case (Cons x xs)
  then show ?case by (cases ys) auto
qed simp

lemma plist_cong: "(\<And>x. x \<in> set xs \<Longrightarrow> nx x = nx' x) \<Longrightarrow> plist nx p xs = plist nx' p xs"
  by (induction xs arbitrary: p) auto

lemma pseg_cong: "(\<And>x. x \<in> set xs \<Longrightarrow> nx x = nx' x) \<Longrightarrow> pseg nx p xs q = pseg nx' p xs q"
  by (induction xs arbitrary: p) auto

lemma plist_distinct: "plist nx p xs \<Longrightarrow> distinct xs"
proof (induction xs arbitrary: p)
  case (Cons x xs)
  have "x \<notin> set xs"
  proof
    assume "x \<in> set xs"
    then obtain us vs where xs: "xs = us @ x # vs" by (meson split_list)
    with Cons.prems have "plist nx (Some x) (x # vs)"
      by (auto simp: plist_append)
    with Cons.prems have "x # vs = x # xs" by (auto intro: plist_unique)
    with xs show False by simp
  qed
  with Cons show ?case by auto
qed simp

section \<open>Generation counters\<close>

text \<open>
  Handle, object and inode generations advance by \<open>wrapping_add(1)\<close> and then replace
  zero by one (for instance \<open>kernel/src/ipc/object.rs\<close>, \<open>free_object_slot_locked\<close>).
\<close>

definition bump_gen :: "'w::len word \<Rightarrow> 'w word" where
  "bump_gen g = (let g' = g + 1 in if g' = 0 then 1 else g')"

lemma bump_gen_nonzero [simp]: "bump_gen g \<noteq> 0"
  by (simp add: bump_gen_def Let_def)

lemma bump_gen16_fresh [simp]: "bump_gen (g :: u16) \<noteq> g"
proof (cases "g + 1 = 0")
  case True
  then have "g = - 1" by (simp add: eq_neg_iff_add_eq_0)
  then show ?thesis by (simp add: bump_gen_def)
qed (simp add: bump_gen_def Let_def)

lemma bump_gen32_fresh [simp]: "bump_gen (g :: u32) \<noteq> g"
proof (cases "g + 1 = 0")
  case True
  then have "g = - 1" by (simp add: eq_neg_iff_add_eq_0)
  then show ?thesis by (simp add: bump_gen_def)
qed (simp add: bump_gen_def Let_def)

lemma foldM_snoc: "foldM f (xs @ [x]) s = foldM f xs s \<bind> f x"
  by (cases "foldM f xs s") (auto simp: foldM_append split: Option.bind_splits)

end
