(* ===== verification/Inventory.thy ===== *)
theory Inventory
  imports Prelude "HOL-Library.Multiset"
begin

text \<open>
  \<open>kernel/src/mm/inventory.rs\<close>: the Multiboot memory map parser and the physical memory
  inventory. A fixed-size array with its element count is the list of its first
  \<open>count\<close> elements; every append is guarded by the capacity, as in the code. Addresses
  and byte counts are \<open>nat\<close> values of \<open>u64\<close>; an addition that overflows \<open>u64\<close> is a panic.
  So is reading the Multiboot structure or the size of an entry at an address that is not a multiple of four: it
  is undefined in Rust, and a build with debug assertions panics on it. The entries themselves are packed. The linker symbols behind the kernel's own ranges are the parameter \<open>boot_layout\<close>,
  physical memory at boot is the parameter \<open>mem\<close>.
\<close>

section \<open>Data\<close>

definition MAX_INVENTORY_REGIONS :: nat where "MAX_INVENTORY_REGIONS = 32"
definition MAX_RESERVATIONS :: nat where "MAX_RESERVATIONS = 32"
definition MAX_USABLE_RANGES :: nat where "MAX_USABLE_RANGES = 32"
definition MULTIBOOT_BOOTLOADER_MAGIC :: nat where
  "MULTIBOOT_BOOTLOADER_MAGIC = 0x2BADB002"

lemmas inventory_sizes = MAX_INVENTORY_REGIONS_def MAX_RESERVATIONS_def MAX_USABLE_RANGES_def

datatype MemoryRegionType =
  AvailableRAM | ReservedRegion | AcpiReclaimable | AcpiNvs | BadRam | UnknownRegion nat

definition from_multiboot :: "nat \<Rightarrow> MemoryRegionType" where
  "from_multiboot type_code =
     (if type_code = 1 then AvailableRAM
      else if type_code = 2 then ReservedRegion
      else if type_code = 3 then AcpiReclaimable
      else if type_code = 4 then AcpiNvs
      else if type_code = 5 then BadRam
      else UnknownRegion type_code)"

definition is_available :: "MemoryRegionType \<Rightarrow> bool" where
  "is_available t \<longleftrightarrow> t = AvailableRAM"

record PhysicalMemoryRegion =
  r_start :: nat
  r_end :: nat
  region_type :: MemoryRegionType
  is_usable :: bool

definition new_region :: "nat \<Rightarrow> nat \<Rightarrow> MemoryRegionType \<Rightarrow> PhysicalMemoryRegion" where
  "new_region s e t = \<lparr>r_start = s, r_end = e, region_type = t, is_usable = is_available t\<rparr>"

definition region_size :: "PhysicalMemoryRegion \<Rightarrow> nat" where
  "region_size r = r_end r - r_start r"

definition region_overlaps :: "PhysicalMemoryRegion \<Rightarrow> PhysicalMemoryRegion \<Rightarrow> bool" where
  "region_overlaps a b =
     (let max_start = (if r_start a > r_start b then r_start a else r_start b);
          min_end = (if r_end a < r_end b then r_end a else r_end b)
      in max_start < min_end)"

record ReservationEntry =
  res_name :: string
  res_start :: nat
  res_end :: nat

definition overlaps_range :: "ReservationEntry \<Rightarrow> nat \<Rightarrow> nat \<Rightarrow> bool" where
  "overlaps_range r s e =
     (let max_start = (if res_start r > s then res_start r else s);
          min_end = (if res_end r < e then res_end r else e)
      in max_start < min_end)"

record PhysicalMemoryInventory =
  raw_regions :: "PhysicalMemoryRegion list"
  reservations :: "ReservationEntry list"
  usable_ranges :: "PhysicalMemoryRegion list"
  frame_candidates :: "PhysicalMemoryRegion list"
  total_address_space_bytes :: nat
  firmware_type1_available_bytes :: nat
  reserved_address_space_bytes :: nat
  acpi_reclaimable_bytes :: nat
  acpi_nvs_bytes :: nat
  bad_ram_bytes :: nat
  other_address_space_bytes :: nat
  unique_reservation_union_bytes :: nat
  reservation_intersection_type1_bytes :: nat
  discoverable_byte_level_ram :: nat
  page_aligned_frame_candidate_bytes :: nat
  subpage_remainder_bytes :: nat
  stage2c_candidate_frames_before_pmm :: nat
  pmm_metadata_start :: nat
  pmm_metadata_end :: nat
  pmm_metadata_frames :: nat
  stage2d_candidate_frames_after_pmm :: nat

definition new_inventory :: PhysicalMemoryInventory where
  "new_inventory =
     \<lparr>raw_regions = [], reservations = [], usable_ranges = [], frame_candidates = [],
      total_address_space_bytes = 0, firmware_type1_available_bytes = 0,
      reserved_address_space_bytes = 0, acpi_reclaimable_bytes = 0, acpi_nvs_bytes = 0,
      bad_ram_bytes = 0, other_address_space_bytes = 0,
      unique_reservation_union_bytes = 0, reservation_intersection_type1_bytes = 0,
      discoverable_byte_level_ram = 0, page_aligned_frame_candidate_bytes = 0,
      subpage_remainder_bytes = 0, stage2c_candidate_frames_before_pmm = 0,
      pmm_metadata_start = 0, pmm_metadata_end = 0, pmm_metadata_frames = 0,
      stage2d_candidate_frames_after_pmm = 0\<rparr>"

definition add_reservation ::
  "string \<Rightarrow> nat \<Rightarrow> nat \<Rightarrow> PhysicalMemoryInventory \<Rightarrow> PhysicalMemoryInventory" where
  "add_reservation name s e iv =
     (if s \<ge> e \<or> length (reservations iv) \<ge> MAX_RESERVATIONS then iv
      else iv\<lparr>reservations := reservations iv @
                 [\<lparr>res_name = name, res_start = s, res_end = e\<rparr>]\<rparr>)"

definition is_candidate_address :: "PhysicalMemoryInventory \<Rightarrow> nat \<Rightarrow> bool" where
  "is_candidate_address iv addr =
     list_ex (\<lambda>cand. addr \<ge> r_start cand \<and> addr < r_end cand) (frame_candidates iv)"

section \<open>Interval union, subtraction and page alignment\<close>

text \<open>Part A of \<open>compute_usable_memory_inventory\<close>: the union of the reservations as
  disjoint intervals. \<open>swap_remove\<close> is \<open>disjoint_res[i] = disjoint_res[count - 1]; count -= 1\<close>.\<close>

definition swap_remove :: "'a list \<Rightarrow> nat \<Rightarrow> 'a list" where
  "swap_remove ds i = butlast (ds[i := last ds])"

function merge_res :: "(nat \<times> nat) list \<Rightarrow> nat \<Rightarrow> nat \<Rightarrow> nat \<Rightarrow> (nat \<times> nat) list \<times> nat \<times> nat" where
  "merge_res ds i cur_start cur_end =
     (if i < length ds then
        let (ex_start, ex_end) = ds ! i in
        if cur_start \<le> ex_end \<and> cur_end \<ge> ex_start
        then merge_res (swap_remove ds i) i
               (if cur_start < ex_start then cur_start else ex_start)
               (if cur_end > ex_end then cur_end else ex_end)
        else merge_res ds (i + 1) cur_start cur_end
      else (ds, cur_start, cur_end))"
  by pat_completeness auto
termination
  by (relation "measure (\<lambda>(ds, i, _, _). length ds - i)") (auto simp: swap_remove_def)

declare merge_res.simps [simp del]

definition add_disjoint_res :: "ReservationEntry \<Rightarrow> (nat \<times> nat) list \<Rightarrow> (nat \<times> nat) list" where
  "add_disjoint_res res ds =
     (if res_start res \<ge> res_end res then ds
      else let (ds', cur_start, cur_end) = merge_res ds 0 (res_start res) (res_end res)
           in if length ds' < MAX_RESERVATIONS then ds' @ [(cur_start, cur_end)] else ds')"

definition disjoint_reservations :: "ReservationEntry list \<Rightarrow> (nat \<times> nat) list" where
  "disjoint_reservations rs = fold add_disjoint_res rs []"

text \<open>Part B: the bytes of available RAM that are reserved.\<close>

definition intersection_step ::
  "PhysicalMemoryRegion \<Rightarrow> nat \<times> nat \<Rightarrow> nat \<Rightarrow> nat option" where
  "intersection_step raw = (\<lambda>(res_s, res_e) acc.
     let max_s = (if r_start raw > res_s then r_start raw else res_s);
         min_e = (if r_end raw < res_e then r_end raw else res_e)
     in if max_s < min_e then add64 acc (min_e - max_s) else Some acc)"

definition intersection_bytes ::
  "PhysicalMemoryRegion list \<Rightarrow> (nat \<times> nat) list \<Rightarrow> nat option" where
  "intersection_bytes raws ds =
     foldM (\<lambda>raw acc. if \<not> is_available (region_type raw) then Some acc
                      else foldM (intersection_step raw) ds acc) raws 0"

text \<open>Part C: subtract every reserved interval from the available regions.\<close>

definition initial_ranges ::
  "PhysicalMemoryRegion list \<Rightarrow> PhysicalMemoryRegion list" where
  "initial_ranges raws =
     fold (\<lambda>raw ws. if is_available (region_type raw) \<and> region_size raw > 0
                       \<and> length ws < MAX_USABLE_RANGES then ws @ [raw] else ws) raws []"

definition subtract_range ::
  "nat \<times> nat \<Rightarrow> PhysicalMemoryRegion \<Rightarrow> PhysicalMemoryRegion list \<Rightarrow> PhysicalMemoryRegion list" where
  "subtract_range res wr next_ranges =
     (let (s, e) = res;
          max_s = (if r_start wr > s then r_start wr else s);
          min_e = (if r_end wr < e then r_end wr else e)
      in if max_s \<ge> min_e
         then (if length next_ranges < MAX_USABLE_RANGES then next_ranges @ [wr] else next_ranges)
         else
           let left_end = (if r_end wr < s then r_end wr else s);
               next1 = (if r_start wr < s \<and> length next_ranges < MAX_USABLE_RANGES
                           \<and> left_end > r_start wr
                        then next_ranges @ [new_region (r_start wr) left_end AvailableRAM]
                        else next_ranges);
               right_start = (if r_start wr > e then r_start wr else e)
           in if r_end wr > e \<and> length next1 < MAX_USABLE_RANGES \<and> r_end wr > right_start
              then next1 @ [new_region right_start (r_end wr) AvailableRAM]
              else next1)"

definition subtract_reservations ::
  "(nat \<times> nat) list \<Rightarrow> PhysicalMemoryRegion list \<Rightarrow> PhysicalMemoryRegion list" where
  "subtract_reservations ds ws = fold (\<lambda>res ws. fold (subtract_range res) ws []) ds ws"

text \<open>The bubble sort by start address.\<close>

definition bubble_step :: "nat \<Rightarrow> PhysicalMemoryRegion list \<Rightarrow> PhysicalMemoryRegion list" where
  "bubble_step j ws =
     (if r_start (ws ! j) > r_start (ws ! (j + 1))
      then ws[j := ws ! (j + 1), j + 1 := ws ! j] else ws)"

definition sort_ranges :: "PhysicalMemoryRegion list \<Rightarrow> PhysicalMemoryRegion list" where
  "sort_ranges ws =
     (let n = length ws in
      if n > 1 then fold (\<lambda>i. fold bubble_step [0..<n - i - 1]) [0..<n - 1] ws else ws)"

text \<open>Part D: page-aligned candidates; \<open>x & !4095\<close> is \<open>align_down x\<close>.\<close>

definition align_down :: "nat \<Rightarrow> nat" where "align_down x = x - x mod 4096"

definition sat_add64 :: "nat \<Rightarrow> nat \<Rightarrow> nat" where "sat_add64 a b = min U64_MAX (a + b)"

definition candidate_of :: "PhysicalMemoryRegion \<Rightarrow> PhysicalMemoryRegion" where
  "candidate_of u = new_region (align_down (sat_add64 (r_start u) 4095)) (align_down (r_end u)) AvailableRAM"

definition candidate_step ::
  "PhysicalMemoryRegion \<Rightarrow> PhysicalMemoryRegion list \<times> nat \<Rightarrow> (PhysicalMemoryRegion list \<times> nat) option" where
  "candidate_step u = (\<lambda>(cands, bytes).
     let c = candidate_of u in
     if r_start c < r_end c \<and> length cands < MAX_USABLE_RANGES
     then do { bytes' \<leftarrow> add64 bytes (region_size c); Some (cands @ [c], bytes') }
     else Some (cands, bytes))"

definition compute_usable_memory_inventory ::
  "PhysicalMemoryInventory \<Rightarrow> PhysicalMemoryInventory option" where
  "compute_usable_memory_inventory iv = do {
     let ds = disjoint_reservations (reservations iv);
     total_union \<leftarrow> foldM (\<lambda>(s, e) acc. sub64 e s \<bind> add64 acc) ds 0;
     inter \<leftarrow> intersection_bytes (raw_regions iv) ds;
     let ws = sort_ranges (subtract_reservations ds (initial_ranges (raw_regions iv)));
     discoverable \<leftarrow> foldM (\<lambda>r acc. add64 acc (region_size r)) ws 0;
     (cands, bytes) \<leftarrow> foldM candidate_step ws ([], 0);
     Some (iv\<lparr>unique_reservation_union_bytes := total_union,
               reservation_intersection_type1_bytes := inter,
               usable_ranges := ws,
               discoverable_byte_level_ram := discoverable,
               frame_candidates := cands,
               page_aligned_frame_candidate_bytes := bytes,
               subpage_remainder_bytes := discoverable - bytes\<rparr>)
   }"

section \<open>Parsing the Multiboot memory map\<close>

definition read_u32 :: "(nat \<Rightarrow> u8) \<Rightarrow> nat \<Rightarrow> nat" where
  "read_u32 mem a = unat (mem a) + 2 ^ 8 * unat (mem (a + 1)) + 2 ^ 16 * unat (mem (a + 2))
                    + 2 ^ 24 * unat (mem (a + 3))"

definition read_u64 :: "(nat \<Rightarrow> u8) \<Rightarrow> nat \<Rightarrow> nat" where
  "read_u64 mem a = read_u32 mem a + 2 ^ 32 * read_u32 mem (a + 4)"

text \<open>The fields of the \<open>repr(C)\<close> structure \<open>MultibootInfo\<close> that the parser reads, at
  their byte offsets; the structure has size 120.\<close>

record MultibootInfo =
  flags :: nat
  mods_count :: nat
  mods_addr :: nat
  mmap_length :: nat
  mmap_addr :: nat

definition read_multiboot_info :: "(nat \<Rightarrow> u8) \<Rightarrow> nat \<Rightarrow> MultibootInfo" where
  "read_multiboot_info mem p =
     \<lparr>flags = read_u32 mem p, mods_count = read_u32 mem (p + 20), mods_addr = read_u32 mem (p + 24),
      mmap_length = read_u32 mem (p + 44), mmap_addr = read_u32 mem (p + 48)\<rparr>"

definition SIZEOF_MULTIBOOT_INFO :: nat where "SIZEOF_MULTIBOOT_INFO = 120"

record BootLayout =
  kimage :: ReservationEntry
  kbss :: ReservationEntry
  ptables :: ReservationEntry
  guard :: ReservationEntry
  kstack :: ReservationEntry
  idt :: ReservationEntry
  ist1 :: ReservationEntry
  gdt :: ReservationEntry
  tss :: ReservationEntry
  pmm_metadata_range :: "nat \<times> nat"

definition account_region ::
  "MemoryRegionType \<Rightarrow> nat \<Rightarrow> PhysicalMemoryInventory \<Rightarrow> PhysicalMemoryInventory option" where
  "account_region t len iv = do {
     total \<leftarrow> add64 (total_address_space_bytes iv) len;
     let iv = iv\<lparr>total_address_space_bytes := total\<rparr>;
     (case t of
        AvailableRAM \<Rightarrow> do { n \<leftarrow> add64 (firmware_type1_available_bytes iv) len;
                            Some (iv\<lparr>firmware_type1_available_bytes := n\<rparr>) }
      | ReservedRegion \<Rightarrow> do { n \<leftarrow> add64 (reserved_address_space_bytes iv) len;
                              Some (iv\<lparr>reserved_address_space_bytes := n\<rparr>) }
      | AcpiReclaimable \<Rightarrow> do { n \<leftarrow> add64 (acpi_reclaimable_bytes iv) len;
                               Some (iv\<lparr>acpi_reclaimable_bytes := n\<rparr>) }
      | AcpiNvs \<Rightarrow> do { n \<leftarrow> add64 (acpi_nvs_bytes iv) len;
                       Some (iv\<lparr>acpi_nvs_bytes := n\<rparr>) }
      | BadRam \<Rightarrow> do { n \<leftarrow> add64 (bad_ram_bytes iv) len;
                      Some (iv\<lparr>bad_ram_bytes := n\<rparr>) }
      | UnknownRegion _ \<Rightarrow> do { n \<leftarrow> add64 (other_address_space_bytes iv) len;
                               Some (iv\<lparr>other_address_space_bytes := n\<rparr>) })
   }"

definition add_raw_region ::
  "nat \<Rightarrow> nat \<Rightarrow> nat \<Rightarrow> PhysicalMemoryInventory \<Rightarrow> PhysicalMemoryInventory option" where
  "add_raw_region base len type_code iv =
     (if base + len \<le> U64_MAX \<and> len > 0 \<and> length (raw_regions iv) < MAX_INVENTORY_REGIONS
      then let t = from_multiboot type_code in
           account_region t len
             (iv\<lparr>raw_regions := raw_regions iv @ [new_region base (base + len) t]\<rparr>)
      else Some iv)"

function parse_entries ::
  "(nat \<Rightarrow> u8) \<Rightarrow> nat \<Rightarrow> nat \<Rightarrow> nat \<Rightarrow> PhysicalMemoryInventory \<Rightarrow> PhysicalMemoryInventory option" where
  "parse_entries mem addr len offset iv =
     (if offset \<ge> len then Some iv
      else if offset + 4 > U32_MAX then None
      else if offset + 4 > len then Some iv
      else if (addr + offset) mod 4 \<noteq> 0 then None
      else
        let entry_ptr = addr + offset;
            entry_size = read_u32 mem entry_ptr;
            next_offset = offset + entry_size + 4
        in if entry_size < 20 then Some iv
           else if next_offset > U32_MAX \<or> next_offset > len then Some iv
           else case add_raw_region (read_u64 mem (entry_ptr + 4)) (read_u64 mem (entry_ptr + 12))
                       (read_u32 mem (entry_ptr + 20)) iv of
                  None \<Rightarrow> None
                | Some iv' \<Rightarrow> parse_entries mem addr len next_offset iv')"
  by pat_completeness auto
termination
  by (relation "measure (\<lambda>(_, _, len, offset, _). len - offset)") auto

declare parse_entries.simps [simp del]

definition add_entry :: "ReservationEntry \<Rightarrow> PhysicalMemoryInventory \<Rightarrow> PhysicalMemoryInventory" where
  "add_entry r = add_reservation (res_name r) (res_start r) (res_end r)"

definition boot_reservations ::
  "BootLayout \<Rightarrow> nat \<Rightarrow> MultibootInfo \<Rightarrow> PhysicalMemoryInventory \<Rightarrow> PhysicalMemoryInventory option" where
  "boot_reservations lay mbi_phys mbi iv = do {
     let iv = add_reservation ''Low Memory (IVT/BDA/ROM)'' 0 0x100000 iv;
     let iv = fold add_entry
                [kimage lay, kbss lay, ptables lay, guard lay, kstack lay, idt lay, ist1 lay,
                 gdt lay, tss lay] iv;
     mbi_end \<leftarrow> add64 mbi_phys SIZEOF_MULTIBOOT_INFO;
     let iv = add_reservation ''Multiboot Info Structure'' mbi_phys mbi_end iv;
     let iv = add_reservation ''Multiboot Memory-Map Storage'' (mmap_addr mbi)
                (mmap_addr mbi + mmap_length mbi) iv;
     Some (if mods_count mbi > 0 \<and> mods_addr mbi \<noteq> 0
           then add_reservation ''Multiboot Modules Metadata'' (mods_addr mbi)
                  (mods_addr mbi + mods_count mbi * 16) iv
           else iv)
   }"

definition parse_memory_map ::
  "(nat \<Rightarrow> u8) \<Rightarrow> BootLayout \<Rightarrow> nat \<Rightarrow> nat \<Rightarrow> (string + PhysicalMemoryInventory) option" where
  "parse_memory_map mem lay mbi_phys multiboot_magic =
     (if multiboot_magic \<noteq> MULTIBOOT_BOOTLOADER_MAGIC
      then Some (Err ''Invalid Multiboot 1 bootloader magic! Expected 0x2BADB002.'')
      else if mbi_phys = 0 then Some (Err ''Multiboot information pointer is null (0)!'')
      else if mbi_phys mod 4 \<noteq> 0 then None
      else
        let mbi = read_multiboot_info mem mbi_phys in
        if \<not> bit (flags mbi) 6
        then Some (Err ''Multiboot flags indicate memory map is not present (flag bit 6 is clear)!'')
        else if mmap_addr mbi = 0 \<or> mmap_length mbi = 0
        then Some (Err ''Multiboot memory map address or length is zero!'')
        else do {
          iv \<leftarrow> parse_entries mem (mmap_addr mbi) (mmap_length mbi) 0 new_inventory;
          if raw_regions iv = []
          then Some (Err ''No valid Multiboot memory map entries were discovered!'')
          else do {
            iv \<leftarrow> boot_reservations lay mbi_phys mbi iv;
            iv \<leftarrow> compute_usable_memory_inventory iv;
            let stage2c_cands = page_aligned_frame_candidate_bytes iv div 4096;
            let (meta_start, meta_end) = pmm_metadata_range lay;
            if list_ex (\<lambda>r. overlaps_range r meta_start meta_end) (reservations iv)
            then None
            else do {
              iv \<leftarrow> compute_usable_memory_inventory
                     (add_reservation ''PMM Bitmap Metadata'' meta_start meta_end iv);
              meta_bytes \<leftarrow> sub64 meta_end meta_start;
              Some (Ok (iv\<lparr>stage2c_candidate_frames_before_pmm := stage2c_cands,
                           pmm_metadata_start := meta_start,
                           pmm_metadata_end := meta_end,
                           pmm_metadata_frames := meta_bytes div 4096,
                           stage2d_candidate_frames_after_pmm :=
                             page_aligned_frame_candidate_bytes iv div 4096\<rparr>))
            }
          }
        })"

section \<open>The disjoint union of the reservations\<close>

definition ival :: "nat \<times> nat \<Rightarrow> nat set" where "ival p = {fst p..<snd p}"

definition touch :: "nat \<times> nat \<Rightarrow> nat \<times> nat \<Rightarrow> bool" where
  "touch a b \<longleftrightarrow> fst a \<le> snd b \<and> fst b \<le> snd a"

definition rcover :: "PhysicalMemoryRegion \<Rightarrow> nat set" where "rcover w = {r_start w..<r_end w}"

definition cover :: "PhysicalMemoryRegion list \<Rightarrow> nat set" where
  "cover ws = (\<Union>w\<in>set ws. rcover w)"

definition reserved_bytes :: "ReservationEntry list \<Rightarrow> nat set" where
  "reserved_bytes rs = (\<Union>r\<in>set rs. {res_start r..<res_end r})"

definition available_bytes :: "PhysicalMemoryRegion list \<Rightarrow> nat set" where
  "available_bytes raws = (\<Union>r\<in>{r \<in> set raws. is_available (region_type r)}. rcover r)"

definition res_wf :: "(nat \<times> nat) list \<Rightarrow> bool" where
  "res_wf ds \<longleftrightarrow> distinct ds \<and> (\<forall>d\<in>set ds. fst d < snd d) \<and>
     (\<forall>a\<in>set ds. \<forall>b\<in>set ds. a \<noteq> b \<longrightarrow> \<not> touch a b)"

lemma mset_swap_remove:
  assumes "i < length ds"
  shows "mset (swap_remove ds i) = mset ds - {#ds ! i#}"
proof -
  have ne: "ds[i := last ds] \<noteq> []" using assms by auto
  have lst: "last (ds[i := last ds]) = last ds"
    using ne by (auto simp: last_list_update)
  have "mset (butlast (ds[i := last ds])) = mset (ds[i := last ds]) - {#last ds#}"
    using append_butlast_last_id [OF ne] lst
    by (metis add_diff_cancel_right' mset.simps(1) mset.simps(2) mset_append union_commute)
  also have "\<dots> = mset ds - {#ds ! i#}"
    using assms by (simp add: mset_update)
  finally show ?thesis by (simp add: swap_remove_def)
qed

lemma swap_remove_distinct:
  assumes "i < length ds" "distinct ds"
  shows "distinct (swap_remove ds i)" "set (swap_remove ds i) = set ds - {ds ! i}"
proof -
  have "mset (swap_remove ds i) = mset (remove1 (ds ! i) ds)"
    using assms by (simp add: mset_swap_remove)
  then have "set (swap_remove ds i) = set (remove1 (ds ! i) ds)"
    "distinct (swap_remove ds i) = distinct (remove1 (ds ! i) ds)"
    by (metis set_mset_mset) (metis mset_eq_imp_distinct_iff \<open>mset _ = _\<close>)
  with assms show "distinct (swap_remove ds i)" "set (swap_remove ds i) = set ds - {ds ! i}"
    by auto
qed

lemma swap_remove_length: "length (swap_remove ds i) = length ds - 1"
  by (simp add: swap_remove_def)

lemma swap_remove_nth_less:
  "j < i \<Longrightarrow> i < length ds \<Longrightarrow> swap_remove ds i ! j = ds ! j"
  by (simp add: swap_remove_def nth_butlast)

lemma res_wf_swap_remove: "i < length ds \<Longrightarrow> res_wf ds \<Longrightarrow> res_wf (swap_remove ds i)"
  by (auto simp: res_wf_def swap_remove_distinct)

lemma hull_union:
  assumes "touch a b" "fst a < snd a" "fst b < snd b"
  shows "ival (min (fst a) (fst b), max (snd a) (snd b)) = ival a \<union> ival b"
  using assms by (auto simp: touch_def ival_def)

lemma hull_touch:
  assumes "touch a b" "\<not> touch a c" "\<not> touch b c" "fst a < snd a" "fst b < snd b" "fst c < snd c"
  shows "\<not> touch (min (fst a) (fst b), max (snd a) (snd b)) c"
  using assms by (simp add: touch_def min_def max_def split: if_splits) linarith

lemma merge_res_step:
  assumes "i < length ds" "ds ! i = (xs, xe)"
  shows "merge_res ds i cs ce =
    (if touch (cs, ce) (xs, xe) then merge_res (swap_remove ds i) i (min cs xs) (max ce xe)
     else merge_res ds (i + 1) cs ce)"
  using assms by (simp only: merge_res.simps [of ds i cs ce] if_min_max touch_def) simp

lemma merge_res_done: "\<not> i < length ds \<Longrightarrow> merge_res ds i cs ce = (ds, cs, ce)"
  by (simp add: merge_res.simps)

lemma merge_res_spec:
  assumes "merge_res ds i cs ce = (ds', cs', ce')" "res_wf ds" "cs < ce"
    "\<forall>j<i. j < length ds \<longrightarrow> \<not> touch (cs, ce) (ds ! j)"
  shows "res_wf ds' \<and> cs' < ce' \<and> length ds' \<le> length ds
    \<and> (\<forall>d\<in>set ds'. \<not> touch (cs', ce') d)
    \<and> (\<Union>d\<in>set ds'. ival d) \<union> ival (cs', ce') = (\<Union>d\<in>set ds. ival d) \<union> ival (cs, ce)"
  using assms
proof (induction ds i cs ce rule: merge_res.induct)
  case (1 ds i cs ce)
  show ?case
  proof (cases "i < length ds")
    case False
    with 1(3) have eq: "ds' = ds" "cs' = cs" "ce' = ce"
      by (simp_all add: merge_res_done)
    from False 1(6) have "\<forall>d\<in>set ds. \<not> touch (cs, ce) d"
      by (metis in_set_conv_nth leI less_le_trans)
    with eq 1(4,5) show ?thesis by simp
  next
    case True
    obtain xs xe where x: "ds ! i = (xs, xe)" by fastforce
    show ?thesis
    proof (cases "touch (cs, ce) (xs, xe)")
      case False
      then have "merge_res ds i cs ce = merge_res ds (i + 1) cs ce"
        using True x by (simp add: merge_res_step)
      with 1(3) have m: "merge_res ds (i + 1) cs ce = (ds', cs', ce')" by simp
      have "\<forall>j<i + 1. j < length ds \<longrightarrow> \<not> touch (cs, ce) (ds ! j)"
        using 1(6) False x by (auto simp: less_Suc_eq)
      with 1(2) [OF True x [symmetric] refl _ m 1(4,5)] False show ?thesis
        by (auto simp: touch_def)
    next
      case t: True
      let ?s = "swap_remove ds i"
      have wfx: "xs < xe" and wfd: "distinct ds" "(xs, xe) \<in> set ds"
        using 1(4) True x nth_mem [OF True] by (auto simp: res_wf_def)
      have m: "merge_res ?s i (min cs xs) (max ce xe) = (ds', cs', ce')"
        using 1(3) True x t by (simp add: merge_res_step)
      have wf': "res_wf ?s" using 1(4) True by (rule res_wf_swap_remove [rotated])
      have lt: "min cs xs < max ce xe" using 1(5) by auto
      have nt: "\<not> touch (min cs xs, max ce xe) (?s ! j)" if j: "j < i" "j < length ?s" for j
      proof -
        have "?s ! j = ds ! j" using j True by (simp add: swap_remove_nth_less)
        moreover have "\<not> touch (cs, ce) (ds ! j)" using 1(6) j True by auto
        moreover have "\<not> touch (xs, xe) (ds ! j)"
        proof -
          have "ds ! j \<noteq> (xs, xe)" using wfd(1) x j True by (metis nth_eq_iff_index_eq order.strict_trans less_irrefl)
          then show ?thesis using 1(4) wfd(2) j True nth_mem [of j ds]
            by (auto simp: res_wf_def)
        qed
        moreover have "fst (ds ! j) < snd (ds ! j)"
          using 1(4) j True nth_mem [of j ds] by (auto simp: res_wf_def)
        ultimately show ?thesis
          using hull_touch [OF t, of "ds ! j"] 1(5) wfx by simp
      qed
      have un: "(\<Union>d\<in>set ?s. ival d) \<union> ival (min cs xs, max ce xe)
        = (\<Union>d\<in>set ds. ival d) \<union> ival (cs, ce)"
      proof -
        have "ival (min cs xs, max ce xe) = ival (cs, ce) \<union> ival (xs, xe)"
          using hull_union [OF t] 1(5) wfx by simp
        moreover have "set ds = insert (xs, xe) (set ?s)"
          using swap_remove_distinct(2) [OF True wfd(1)] x wfd(2) by auto
        ultimately show ?thesis by auto
      qed
      have "length ?s \<le> length ds" by (simp add: swap_remove_length)
      with 1(1) [OF True x [symmetric] refl, unfolded if_min_max, OF _ m wf' lt] nt un t
      show ?thesis by (auto simp: touch_def)
    qed
  qed
qed

lemma add_disjoint_res_spec:
  assumes "res_wf ds" "length ds < MAX_RESERVATIONS"
  shows "res_wf (add_disjoint_res r ds) \<and> length (add_disjoint_res r ds) \<le> length ds + 1
    \<and> (\<Union>d\<in>set (add_disjoint_res r ds). ival d)
       = (\<Union>d\<in>set ds. ival d) \<union> {res_start r..<res_end r}"
proof (cases "res_start r < res_end r")
  case True
  obtain ds' cs ce where m: "merge_res ds 0 (res_start r) (res_end r) = (ds', cs, ce)"
    by (metis prod_cases3)
  have sp: "res_wf ds'" "cs < ce" "length ds' \<le> length ds" "\<forall>d\<in>set ds'. \<not> touch (cs, ce) d"
    "(\<Union>d\<in>set ds'. ival d) \<union> ival (cs, ce) = (\<Union>d\<in>set ds. ival d) \<union> ival (res_start r, res_end r)"
    using merge_res_spec [OF m assms(1) True] by simp_all
  with assms have len: "length ds' < MAX_RESERVATIONS" by auto
  have nt: "\<not> touch (cs, ce) d" "\<not> touch d (cs, ce)" if "d \<in> set ds'" for d
    using sp(4) that by (auto simp: touch_def)
  have ni: "(cs, ce) \<notin> set ds'" using sp(2,4) by (auto simp: touch_def)
  have eq: "add_disjoint_res r ds = ds' @ [(cs, ce)]"
    using True m len by (simp add: add_disjoint_res_def)
  have "res_wf (ds' @ [(cs, ce)])" using sp(1,2) nt ni by (auto simp: res_wf_def)
  moreover have "(\<Union>d\<in>set (ds' @ [(cs, ce)]). ival d)
      = (\<Union>d\<in>set ds. ival d) \<union> {res_start r..<res_end r}"
    using sp(5) by (simp add: Un_commute) (simp add: ival_def)
  ultimately show ?thesis unfolding eq using sp(3) by simp
next
  case False
  with assms show ?thesis by (simp add: add_disjoint_res_def)
qed

lemma fold_add_disjoint_res:
  assumes "res_wf ds" "length ds + length rs \<le> MAX_RESERVATIONS"
  shows "res_wf (fold add_disjoint_res rs ds)
    \<and> (\<Union>d\<in>set (fold add_disjoint_res rs ds). ival d) = (\<Union>d\<in>set ds. ival d) \<union> reserved_bytes rs
    \<and> length (fold add_disjoint_res rs ds) \<le> length ds + length rs"
  using assms
proof (induction rs arbitrary: ds)
  case (Cons r rs)
  then have *: "res_wf (add_disjoint_res r ds)" "length (add_disjoint_res r ds) \<le> length ds + 1"
    "(\<Union>d\<in>set (add_disjoint_res r ds). ival d)
       = (\<Union>d\<in>set ds. ival d) \<union> {res_start r..<res_end r}"
    using add_disjoint_res_spec [of ds r] by auto
  then have le: "length (add_disjoint_res r ds) + length rs \<le> MAX_RESERVATIONS"
    using Cons.prems by simp
  have rb: "reserved_bytes (r # rs) = {res_start r..<res_end r} \<union> reserved_bytes rs"
    by (simp add: reserved_bytes_def)
  show ?case using Cons.IH [OF *(1) le] *(2)
    unfolding *(3) rb by (simp add: Un_assoc)
qed (simp add: reserved_bytes_def)

lemma disjoint_reservations_spec:
  assumes "length rs \<le> MAX_RESERVATIONS"
  shows "res_wf (disjoint_reservations rs)"
    "(\<Union>d\<in>set (disjoint_reservations rs). ival d) = reserved_bytes rs"
    "length (disjoint_reservations rs) \<le> length rs"
  using fold_add_disjoint_res [of "[]" rs] assms
  by (simp_all add: disjoint_reservations_def res_wf_def)

section \<open>Subtracting the reservations\<close>

definition rdisj :: "PhysicalMemoryRegion list \<Rightarrow> bool" where
  "rdisj ws \<longleftrightarrow> distinct ws \<and> (\<forall>w\<in>set ws. r_start w < r_end w) \<and>
     (\<forall>a\<in>set ws. \<forall>b\<in>set ws. a \<noteq> b \<longrightarrow> rcover a \<inter> rcover b = {})"

lemma cover_simps [simp]:
  "cover [] = {}" "cover (w # ws) = rcover w \<union> cover ws" "cover (ws @ vs) = cover ws \<union> cover vs"
  by (auto simp: cover_def)

lemma rcover_new_region [simp]: "rcover (new_region s e t) = {s..<e}"
  by (simp add: rcover_def new_region_def)

lemma new_region_sel [simp]:
  "r_start (new_region s e t) = s" "r_end (new_region s e t) = e" "region_type (new_region s e t) = t"
  by (simp_all add: new_region_def)

lemma rdisj_snoc:
  "rdisj (ws @ [w]) \<longleftrightarrow> rdisj ws \<and> r_start w < r_end w \<and> rcover w \<inter> cover ws = {}"
  (is "?L \<longleftrightarrow> ?R")
proof
  assume ?L
  then have "rcover w \<inter> rcover a = {}" if "a \<in> set ws" for a
    using that unfolding rdisj_def by (metis Un_iff distinct_append in_set_conv_decomp
        not_distinct_conv_prefix set_append distinct.simps(2) list.set_intros(1))
  with \<open>?L\<close> show ?R by (auto simp: rdisj_def cover_def)
next
  assume R: ?R
  then have d: "rcover w \<inter> rcover a = {}" "rcover a \<inter> rcover w = {}" if "a \<in> set ws" for a
    using that by (auto simp: cover_def)
  from R have "rcover w \<noteq> {}" by (simp add: rcover_def)
  with d have "w \<notin> set ws" by auto
  with R d show ?L unfolding rdisj_def by simp
qed

lemma rdisj_rotate: "rdisj (w # ws) \<longleftrightarrow> rdisj (ws @ [w])"
  by (auto simp: rdisj_def)

lemma rdisj_Cons:
  "rdisj (w # ws) \<longleftrightarrow> rdisj ws \<and> r_start w < r_end w \<and> rcover w \<inter> cover ws = {}"
  by (simp add: rdisj_rotate rdisj_snoc)

definition pieces :: "nat \<times> nat \<Rightarrow> PhysicalMemoryRegion \<Rightarrow> PhysicalMemoryRegion list" where
  "pieces res wr =
     (if max (r_start wr) (fst res) \<ge> min (r_end wr) (snd res) then [wr]
      else (if r_start wr < fst res then [new_region (r_start wr) (fst res) AvailableRAM] else [])
         @ (if r_end wr > snd res then [new_region (snd res) (r_end wr) AvailableRAM] else []))"

lemma subtract_range_pieces:
  "subtract_range res wr nx = nx @ take (MAX_USABLE_RANGES - length nx) (pieces res wr)"
proof -
  obtain s e where res: "res = (s, e)" by fastforce
  consider "max (r_start wr) s \<ge> min (r_end wr) e"
    | "\<not> max (r_start wr) s \<ge> min (r_end wr) e" by blast
  then show ?thesis
  proof cases
    case 1
    then show ?thesis by (auto simp: subtract_range_def Let_def if_min_max pieces_def res)
  next
    case 2
    note ov = 2
    from 2 have se: "(if r_end wr < s then r_end wr else s) = s"
      "(if r_start wr > e then r_start wr else e) = e"
      "\<not> (if r_start wr > s then r_start wr else s) \<ge> (if r_end wr < e then r_end wr else e)"
      by auto
    have eq: "subtract_range res wr nx =
      (let next1 = (if r_start wr < s \<and> length nx < MAX_USABLE_RANGES
                    then nx @ [new_region (r_start wr) s AvailableRAM] else nx)
       in if r_end wr > e \<and> length next1 < MAX_USABLE_RANGES
          then next1 @ [new_region e (r_end wr) AvailableRAM] else next1)"
      by (simp only: subtract_range_def res Let_def prod.case se if_False) (simp cong: conj_cong)
    consider "MAX_USABLE_RANGES \<le> length nx" | "MAX_USABLE_RANGES = Suc (length nx)"
      | k where "MAX_USABLE_RANGES = Suc (Suc (length nx + k))"
      using that by (metis Suc_leI le_Suc_ex add_Suc le_neq_implies_less not_le)
    then show ?thesis
    proof cases
      case 1
      then show ?thesis unfolding eq by simp
    next
      case 2
      then show ?thesis unfolding eq pieces_def using ov by (simp add: res)
    next
      case 3
      then show ?thesis unfolding eq pieces_def using ov by (simp add: res)
    qed
  qed
qed

lemma take_take_append: "take k (take k p @ r) = take k (p @ r)"
  by (cases "k \<le> length p") auto

lemma fold_subtract_range:
  assumes "length nx \<le> MAX_USABLE_RANGES"
  shows "fold (subtract_range res) ws nx = take MAX_USABLE_RANGES (nx @ concat (map (pieces res) ws))"
  using assms
proof (induction ws arbitrary: nx)
  case (Cons w ws)
  have "length (subtract_range res w nx) \<le> MAX_USABLE_RANGES"
    using Cons.prems by (simp add: subtract_range_pieces)
  from Cons.IH [OF this] Cons.prems show ?case
    using take_take_append [of "MAX_USABLE_RANGES - length nx" "pieces res w"]
    by (simp only: fold_simps o_apply subtract_range_pieces append_assoc take_append take_all list.map
          concat.simps)
qed simp
lemma rdisj_Nil [simp]: "rdisj []"
  by (simp add: rdisj_def)

lemma rdisj_append: "rdisj (xs @ ys) \<longleftrightarrow> rdisj xs \<and> rdisj ys \<and> cover xs \<inter> cover ys = {}"
proof (induction ys rule: rev_induct)
  case (snoc y ys)
  have "rdisj (xs @ ys @ [y]) \<longleftrightarrow> rdisj ((xs @ ys) @ [y])" by simp
  with snoc show ?case by (simp only: rdisj_snoc) auto
qed simp

lemma rdisj_take: "rdisj ws \<Longrightarrow> rdisj (take n ws)"
  using rdisj_append [of "take n ws" "drop n ws"] by simp

lemma cover_take: "cover (take n ws) \<subseteq> cover ws"
  using cover_simps(3) [of "take n ws" "drop n ws"] by auto

lemma cover_pieces:
  "r_start w < r_end w \<Longrightarrow> fst res < snd res \<Longrightarrow> cover (pieces res w) = rcover w - ival res"
  by (auto simp: pieces_def rcover_def ival_def)

lemma rdisj_pieces:
  "r_start w < r_end w \<Longrightarrow> fst res < snd res \<Longrightarrow> rdisj (pieces res w)"
  by (auto simp: pieces_def rdisj_Cons)

lemma concat_pieces:
  assumes "rdisj ws" "fst res < snd res"
  shows "rdisj (concat (map (pieces res) ws)) \<and> cover (concat (map (pieces res) ws)) = cover ws - ival res"
  using assms(1)
proof (induction ws)
  case (Cons w ws)
  then have w: "r_start w < r_end w" "rcover w \<inter> cover ws = {}" "rdisj ws"
    by (simp_all add: rdisj_Cons)
  note p = cover_pieces [OF w(1) assms(2)] rdisj_pieces [OF w(1) assms(2)]
  from w p Cons.IH show ?case by (auto simp: rdisj_append)
qed simp

lemma straddle_unique:
  assumes "rdisj ws"
  shows "length (filter (\<lambda>w. r_start w < s \<and> s < r_end w) ws) \<le> 1"
  using assms
proof (induction ws)
  case (Cons w ws)
  show ?case
  proof (cases "r_start w < s \<and> s < r_end w")
    case True
    then have "s \<in> rcover w" by (simp add: rcover_def)
    with Cons.prems have "s \<notin> cover ws" by (auto simp: rdisj_Cons)
    then have "filter (\<lambda>w. r_start w < s \<and> s < r_end w) ws = []"
      by (auto simp: filter_empty_conv cover_def rcover_def)
    then show ?thesis by simp
  next
    case False
    then show ?thesis using Cons by (auto simp: rdisj_Cons)
  qed
qed simp

lemma length_pieces:
  "fst res < snd res \<Longrightarrow>
   length (pieces res w) \<le> 1 + (if r_start w < fst res \<and> fst res < r_end w then 1 else 0)"
  by (auto simp: pieces_def)

lemma length_concat_pieces:
  assumes "rdisj ws" "fst res < snd res"
  shows "length (concat (map (pieces res) ws)) \<le> length ws + 1"
proof -
  have "length (concat (map (pieces res) ws))
      \<le> length ws + length (filter (\<lambda>w. r_start w < fst res \<and> fst res < r_end w) ws)"
  proof (induction ws)
    case (Cons w ws)
    with length_pieces [OF assms(2), of w] show ?case by auto
  qed simp
  with straddle_unique [OF assms(1), of "fst res"] show ?thesis by linarith
qed

lemma subtract_reservations_sound:
  assumes "rdisj ws" "\<forall>d\<in>set ds. fst d < snd d" "length ws \<le> MAX_USABLE_RANGES"
  shows "rdisj (subtract_reservations ds ws) \<and> length (subtract_reservations ds ws) \<le> MAX_USABLE_RANGES
    \<and> cover (subtract_reservations ds ws) \<subseteq> cover ws - (\<Union>d\<in>set ds. ival d)"
  using assms
proof (induction ds arbitrary: ws)
  case (Cons d ds)
  let ?w = "take MAX_USABLE_RANGES (concat (map (pieces d) ws))"
  have eq: "subtract_reservations (d # ds) ws = subtract_reservations ds ?w"
    by (simp add: subtract_reservations_def fold_subtract_range)
  have c: "rdisj (concat (map (pieces d) ws))" "cover (concat (map (pieces d) ws)) = cover ws - ival d"
    using concat_pieces [of ws d] Cons.prems by auto
  then have "rdisj ?w" "cover ?w \<subseteq> cover ws - ival d"
    using cover_take by (auto intro: rdisj_take)
  with Cons.IH [of ?w] Cons.prems(2) show ?case unfolding eq by auto
qed (simp add: subtract_reservations_def)

lemma subtract_reservations_complete:
  assumes "rdisj ws" "\<forall>d\<in>set ds. fst d < snd d" "length ws + length ds \<le> MAX_USABLE_RANGES"
  shows "cover (subtract_reservations ds ws) = cover ws - (\<Union>d\<in>set ds. ival d)"
  using assms
proof (induction ds arbitrary: ws)
  case (Cons d ds)
  let ?c = "concat (map (pieces d) ws)"
  have len: "length ?c \<le> length ws + 1" using Cons.prems length_concat_pieces [of ws d] by simp
  then have eq: "subtract_reservations (d # ds) ws = subtract_reservations ds ?c"
    using Cons.prems(3) by (simp add: subtract_reservations_def fold_subtract_range)
  have c: "rdisj ?c" "cover ?c = cover ws - ival d"
    using concat_pieces [of ws d] Cons.prems by auto
  with Cons.IH [of ?c] Cons.prems len show ?case unfolding eq by auto
qed (simp add: subtract_reservations_def)
section \<open>Sorting\<close>

lemma bubble_step_props:
  assumes "Suc j < length ws"
  shows "length (bubble_step j ws) = length ws" "mset (bubble_step j ws) = mset ws"
    "k \<noteq> j \<Longrightarrow> k \<noteq> Suc j \<Longrightarrow> bubble_step j ws ! k = ws ! k"
    "r_start (bubble_step j ws ! Suc j) = max (r_start (ws ! j)) (r_start (ws ! Suc j))"
    "r_start (bubble_step j ws ! j) = min (r_start (ws ! j)) (r_start (ws ! Suc j))"
  using assms mset_swap [of j ws "Suc j"]
  by (auto simp: bubble_step_def nth_list_update list_update_swap)

lemma bubble_pass_all:
  assumes "m < length ws"
  defines "vs \<equiv> fold bubble_step [0..<m] ws"
  shows "length vs = length ws \<and> mset vs = mset ws
    \<and> (\<forall>k>m. k < length ws \<longrightarrow> vs ! k = ws ! k)
    \<and> (\<forall>k\<le>m. r_start (vs ! k) \<le> r_start (vs ! m))"
  using assms(1) unfolding vs_def
proof (induction m)
  case (Suc m)
  let ?v = "fold bubble_step [0..<m] ws"
  have v: "length ?v = length ws" "mset ?v = mset ws" "\<And>k. m < k \<Longrightarrow> k < length ws \<Longrightarrow> ?v ! k = ws ! k"
    "\<And>k. k \<le> m \<Longrightarrow> r_start (?v ! k) \<le> r_start (?v ! m)"
    using Suc by simp_all
  have eq: "fold bubble_step [0..<Suc m] ws = bubble_step m ?v" by simp
  have b: "Suc m < length ?v" using Suc.prems v(1) by simp
  note bp = bubble_step_props [OF b]
  have "r_start (bubble_step m ?v ! k) \<le> r_start (bubble_step m ?v ! Suc m)" if k: "k \<le> Suc m" for k
  proof -
    consider "k < m" | "k = m" | "k = Suc m" using k by linarith
    then show ?thesis
    proof cases
      case 1
      then have "bubble_step m ?v ! k = ?v ! k" by (simp add: bp(3))
      with v(4) [of k] 1 show ?thesis by (simp add: bp(4) le_max_iff_disj)
    next
      case 2
      then show ?thesis by (simp add: bp(4,5))
    qed simp
  qed
  moreover have "bubble_step m ?v ! k = ws ! k" if "Suc m < k" "k < length ws" for k
    using that by (simp add: bp(3) v(3))
  ultimately show ?case unfolding eq using bp(1,2) v(1,2) by simp
qed simp

lemmas bubble_pass =
  bubble_pass_all [THEN conjunct1] bubble_pass_all [THEN conjunct2, THEN conjunct1]
  bubble_pass_all [THEN conjunct2, THEN conjunct2, THEN conjunct1]
  bubble_pass_all [THEN conjunct2, THEN conjunct2, THEN conjunct2]

lemma bubble_pass_front:
  assumes "m < length ws"
  shows "set (take (Suc m) (fold bubble_step [0..<m] ws)) = set (take (Suc m) ws)"
proof -
  let ?v = "fold bubble_step [0..<m] ws"
  note b = bubble_pass [OF assms]
  have "drop (Suc m) ?v = drop (Suc m) ws"
    by (rule nth_equalityI) (use b(1,3) in auto)
  moreover have "mset (take (Suc m) ?v) + mset (drop (Suc m) ?v)
      = mset (take (Suc m) ws) + mset (drop (Suc m) ws)"
    using b(2) by (metis append_take_drop_id mset_append)
  ultimately have "mset (take (Suc m) ?v) = mset (take (Suc m) ws)" by simp
  then show ?thesis by (metis set_mset_mset)
qed

lemma bubble_passes:
  assumes "i < length ws"
  defines "vs \<equiv> fold (\<lambda>i. fold bubble_step [0..<length ws - i - 1]) [0..<i] ws"
  shows "length vs = length ws \<and> mset vs = mset ws
    \<and> (\<forall>b<length ws. length ws - i \<le> b \<longrightarrow> (\<forall>a<b. r_start (vs ! a) \<le> r_start (vs ! b)))"
  using assms(1) unfolding vs_def
proof (induction i)
  case (Suc i)
  let ?v = "fold (\<lambda>i. fold bubble_step [0..<length ws - i - 1]) [0..<i] ws"
  let ?m = "length ws - i - 1"
  let ?u = "fold bubble_step [0..<?m] ?v"
  have v: "length ?v = length ws" "mset ?v = mset ws"
    "\<And>a b. b < length ws \<Longrightarrow> length ws - i \<le> b \<Longrightarrow> a < b \<Longrightarrow> r_start (?v ! a) \<le> r_start (?v ! b)"
    using Suc by auto
  have eq: "fold (\<lambda>i. fold bubble_step [0..<length ws - i - 1]) [0..<Suc i] ws = ?u" by simp
  have m: "?m < length ?v" using Suc.prems v(1) by simp
  note b = bubble_pass [OF m] and f = bubble_pass_front [OF m]
  have "r_start (?u ! x) \<le> r_start (?u ! y)"
    if y: "y < length ws" "length ws - Suc i \<le> y" "x < y" for x y
  proof (cases "y = ?m")
    case True
    with b(4) y(3) show ?thesis by auto
  next
    case False
    with y Suc.prems have ym: "?m < y" "length ws - i \<le> y" by auto
    have uy: "?u ! y = ?v ! y" using b(3) ym(1) y(1) v(1) by auto
    have "\<exists>x'<y. ?u ! x = ?v ! x'"
    proof (cases "x \<le> ?m")
      case True
      then have "take (Suc ?m) ?u ! x \<in> set (take (Suc ?m) ?u)"
        using b(1) m by (intro nth_mem) simp
      then have "?u ! x \<in> set (take (Suc ?m) ?v)" using True by (simp only: f nth_take less_Suc_eq_le)
      then obtain x' where "x' < length (take (Suc ?m) ?v)" "take (Suc ?m) ?v ! x' = ?u ! x"
        by (auto simp only: in_set_conv_nth)
      then show ?thesis using ym(1) by (intro exI [of _ x']) simp
    next
      case False
      then show ?thesis using b(3) y v(1) by (intro exI [of _ x]) auto
    qed
    with v(3) [OF y(1) ym(2)] show ?thesis unfolding uy by auto
  qed
  with b(1,2) v(1,2) show ?case unfolding eq by simp
qed simp

lemma sort_ranges_spec:
  "mset (sort_ranges ws) = mset ws" "sorted (map r_start (sort_ranges ws))"
proof -
  have "mset (sort_ranges ws) = mset ws \<and> sorted (map r_start (sort_ranges ws))"
  proof (cases "length ws > 1")
    case True
    then have lt: "length ws - 1 < length ws" by simp
    note b = bubble_passes [OF lt]
    have eq: "sort_ranges ws = fold (\<lambda>i. fold bubble_step [0..<length ws - i - 1]) [0..<length ws - 1] ws"
      using True by (simp add: sort_ranges_def Let_def)
    have "sorted (map r_start (sort_ranges ws))"
      unfolding sorted_iff_nth_mono_less using b unfolding eq by auto
    with b show ?thesis unfolding eq by blast
  next
    case False
    then have "sorted (map r_start ws)" by (cases ws) auto
    with False show ?thesis by (simp add: sort_ranges_def Let_def)
  qed
  then show "mset (sort_ranges ws) = mset ws" "sorted (map r_start (sort_ranges ws))" by auto
qed

lemma sort_ranges_set: "set (sort_ranges ws) = set ws"
  by (rule mset_eq_setD) (rule sort_ranges_spec)

lemma sort_ranges_cover [simp]: "cover (sort_ranges ws) = cover ws"
  by (simp add: cover_def sort_ranges_set)

lemma sort_ranges_rdisj [simp]: "rdisj (sort_ranges ws) = rdisj ws"
  by (simp add: rdisj_def sort_ranges_set mset_eq_imp_distinct_iff [OF sort_ranges_spec(1)])

lemma sort_ranges_length [simp]: "length (sort_ranges ws) = length ws"
  by (rule mset_eq_length) (rule sort_ranges_spec)

section \<open>Frame candidates and byte accounting\<close>

definition raw_wf :: "PhysicalMemoryRegion list \<Rightarrow> bool" where
  "raw_wf raws \<longleftrightarrow> length raws \<le> MAX_INVENTORY_REGIONS
     \<and> rdisj (filter (\<lambda>r. is_available (region_type r)) raws)
     \<and> (\<forall>r\<in>set raws. r_end r \<le> U64_MAX)"

definition reservations_wf :: "ReservationEntry list \<Rightarrow> bool" where
  "reservations_wf rs \<longleftrightarrow> length rs \<le> MAX_RESERVATIONS \<and> (\<forall>r\<in>set rs. res_end r \<le> U64_MAX)"

lemma align_down_le: "align_down x \<le> x"
  by (simp add: align_down_def)

lemma align_down_dvd: "4096 dvd align_down x"
  by (simp add: align_down_def dvd_minus_mod)

lemma align_down_eq: "align_down x = 4096 * (x div 4096)"
  by (simp add: align_down_def minus_mod_eq_mult_div)

lemma align_down_greatest: "4096 dvd p \<Longrightarrow> p \<le> x \<Longrightarrow> p \<le> align_down x"
  by (auto simp: align_down_eq less_eq_div_iff_mult_less_eq elim!: dvdE)

lemma align_up_least:
  assumes "4096 dvd p" "x \<le> p"
  shows "align_down (x + 4095) \<le> p"
proof -
  obtain k where k: "p = 4096 * k" using assms(1) by (rule dvdE)
  with assms(2) have "x + 4095 < Suc k * 4096" by simp
  then have "(x + 4095) div 4096 < Suc k" by (rule less_mult_imp_div_less)
  with k show ?thesis by (simp add: align_down_eq)
qed

lemma align_up_ge: "x \<le> align_down (x + 4095)"
proof -
  have "(x + 4095) mod 4096 \<le> 4095" using mod_less_divisor [of 4096 "x + 4095"] by simp
  then show ?thesis by (simp add: align_down_def)
qed

lemma candidate_of_sound:
  assumes "r_start (candidate_of u) < r_end (candidate_of u)" "r_end u \<le> U64_MAX"
  shows "rcover (candidate_of u) \<subseteq> rcover u" "4096 dvd r_start (candidate_of u)"
    "4096 dvd r_end (candidate_of u)"
proof -
  have "r_start u \<le> r_start (candidate_of u)"
  proof (cases "r_start u + 4095 \<le> U64_MAX")
    case True
    then show ?thesis using align_up_ge [of "r_start u"] by (simp add: candidate_of_def sat_add64_def)
  next
    case False
    then have "r_start (candidate_of u) = align_down U64_MAX"
      by (simp add: candidate_of_def sat_add64_def)
    also have "\<dots> \<ge> r_end (candidate_of u)"
      using align_down_greatest [OF align_down_dvd, of "r_end u" U64_MAX] assms(2) align_down_le [of "r_end u"]
      by (simp add: candidate_of_def)
    finally show ?thesis using assms(1) by simp
  qed
  moreover have "r_end (candidate_of u) \<le> r_end u"
    by (simp add: candidate_of_def align_down_le)
  ultimately show "rcover (candidate_of u) \<subseteq> rcover u" by (auto simp: rcover_def)
qed (simp_all add: candidate_of_def align_down_dvd)

lemma candidate_of_complete:
  assumes "4096 dvd p" "{p..<p + 4096} \<subseteq> rcover u" "r_end u \<le> U64_MAX"
  shows "{p..<p + 4096} \<subseteq> rcover (candidate_of u)"
proof -
  have b: "r_start u \<le> p" "p + 4096 \<le> r_end u"
    using assms(2) by (auto simp: rcover_def atLeastLessThan_subset_iff)
  then have "align_down (r_start u + 4095) \<le> p" "p + 4096 \<le> align_down (r_end u)"
    using assms(1) by (auto intro: align_up_least align_down_greatest)
  moreover have "r_start u + 4095 \<le> U64_MAX" using b assms(3) by simp
  ultimately show ?thesis by (auto simp: candidate_of_def rcover_def sat_add64_def)
qed

lemma sum_region_size:
  "rdisj ws \<Longrightarrow> sum_list (map region_size ws) = card (cover ws) \<and> finite (cover ws)"
  by (induction ws) (auto simp: rdisj_Cons region_size_def rcover_def card_Un_disjoint)

lemma card_below_u64:
  assumes "A \<subseteq> {0..<U64_MAX}"
  shows "card A \<le> U64_MAX"
  using card_mono [OF _ assms] by simp

lemma sum_region_size_bound:
  assumes "rdisj ws" "cover ws \<subseteq> {0..<U64_MAX}"
  shows "sum_list (map region_size ws) \<le> U64_MAX"
  using sum_region_size [OF assms(1)] card_below_u64 [OF assms(2)] by simp

lemma foldM_candidates:
  assumes "length cands + length ws \<le> MAX_USABLE_RANGES"
    "bytes + sum_list (map region_size (filter (\<lambda>c. r_start c < r_end c) (map candidate_of ws))) \<le> U64_MAX"
  shows "foldM candidate_step ws (cands, bytes) =
    Some (cands @ filter (\<lambda>c. r_start c < r_end c) (map candidate_of ws),
          bytes + sum_list (map region_size (filter (\<lambda>c. r_start c < r_end c) (map candidate_of ws))))"
  using assms
proof (induction ws arbitrary: cands bytes)
  case (Cons w ws)
  then show ?case
    by (cases "r_start (candidate_of w) < r_end (candidate_of w)")
       (simp_all add: candidate_step_def Let_def add64_def add.assoc)
qed simp

lemma candidates_rdisj:
  assumes "rdisj ws" "cover ws \<subseteq> {0..<U64_MAX}"
  shows "rdisj (filter (\<lambda>c. r_start c < r_end c) (map candidate_of ws))
    \<and> cover (filter (\<lambda>c. r_start c < r_end c) (map candidate_of ws)) \<subseteq> cover ws"
  using assms
proof (induction ws)
  case (Cons w ws)
  have "r_end w \<le> U64_MAX"
  proof -
    have "r_end w - 1 \<in> rcover w" using Cons.prems(1) by (auto simp: rdisj_Cons rcover_def)
    then have "r_end w - 1 < U64_MAX" using Cons.prems(2) by auto
    then show ?thesis by simp
  qed
  note sub = candidate_of_sound(1) [OF _ this]
  let ?C = "filter (\<lambda>c. r_start c < r_end c) (map candidate_of ws)"
  have w: "rdisj ws" "rcover w \<inter> cover ws = {}" using Cons.prems(1) by (simp_all add: rdisj_Cons)
  have IH: "rdisj ?C" "cover ?C \<subseteq> cover ws" using Cons.IH w(1) Cons.prems(2) by simp_all
  show ?case
  proof (cases "r_start (candidate_of w) < r_end (candidate_of w)")
    case True
    have "rcover (candidate_of w) \<inter> cover ?C = {}" using sub [OF True] IH(2) w(2) by blast
    moreover have "rcover (candidate_of w) \<union> cover ?C \<subseteq> rcover w \<union> cover ws"
      using sub [OF True] IH(2) by blast
    ultimately show ?thesis using True IH(1) by (simp add: rdisj_Cons)
  next
    case False
    then show ?thesis using IH by (simp add: le_supI2)
  qed
qed simp
lemma intersection_step_eq:
  assumes "acc + card (rcover raw \<inter> ival d) \<le> U64_MAX"
  shows "intersection_step raw d acc = Some (acc + card (rcover raw \<inter> ival d))"
proof -
  have "rcover raw \<inter> ival d = {max (r_start raw) (fst d)..<min (r_end raw) (snd d)}"
    by (auto simp: rcover_def ival_def)
  with assms show ?thesis
    by (cases d) (auto simp: intersection_step_def Let_def if_min_max add64_def)
qed

lemma foldM_intersection_step:
  assumes "res_wf ds" "acc + card (rcover raw \<inter> (\<Union>d\<in>set ds. ival d)) \<le> U64_MAX"
  shows "foldM (intersection_step raw) ds acc = Some (acc + card (rcover raw \<inter> (\<Union>d\<in>set ds. ival d)))"
  using assms
proof (induction ds arbitrary: acc)
  case (Cons d ds)
  let ?A = "rcover raw \<inter> ival d" and ?B = "rcover raw \<inter> (\<Union>d\<in>set ds. ival d)"
  have "ival d \<inter> ival d' = {}" if "d' \<in> set ds" for d'
  proof -
    have "d \<noteq> d'" "\<not> touch d d'" using Cons.prems(1) that by (auto simp: res_wf_def)
    then show ?thesis by (auto simp: ival_def touch_def)
  qed
  then have "?A \<inter> ?B = {}" by blast
  moreover have "finite ?A" "finite ?B" by (simp_all add: rcover_def)
  ultimately have c: "card (rcover raw \<inter> (\<Union>d\<in>set (d # ds). ival d)) = card ?A + card ?B"
    by (simp add: Int_Un_distrib card_Un_disjoint)
  have "res_wf ds" using Cons.prems(1) by (simp add: res_wf_def)
  with Cons.IH [of "acc + card ?A"] Cons.prems(2) c show ?case
    by (simp add: intersection_step_eq add.assoc)
qed simp

lemma intersection_bytes_spec:
  assumes "res_wf ds" "rdisj (filter (\<lambda>r. is_available (region_type r)) raws)"
    "available_bytes raws \<subseteq> {0..<U64_MAX}"
  shows "intersection_bytes raws ds = Some (card (available_bytes raws \<inter> (\<Union>d\<in>set ds. ival d)))"
proof -
  let ?R = "\<Union>d\<in>set ds. ival d"
  have "foldM (\<lambda>raw acc. if \<not> is_available (region_type raw) then Some acc
             else foldM (intersection_step raw) ds acc) raws acc
        = Some (acc + card (available_bytes raws \<inter> ?R))"
    if "acc + card (available_bytes raws \<inter> ?R) \<le> U64_MAX" for acc
    using assms(2) that
  proof (induction raws arbitrary: acc)
    case (Cons r raws)
    show ?case
    proof (cases "is_available (region_type r)")
      case True
      have av: "available_bytes (r # raws) = rcover r \<union> available_bytes raws"
        using True by (auto simp: available_bytes_def)
      have "cover (filter (\<lambda>r. is_available (region_type r)) raws) = available_bytes raws"
        by (simp add: cover_def available_bytes_def)
      with Cons.prems(1) True have d: "rcover r \<inter> available_bytes raws = {}"
        and rd: "rdisj (filter (\<lambda>r. is_available (region_type r)) raws)"
        by (simp_all add: rdisj_Cons)
      have fin: "finite (available_bytes raws)" "finite (rcover r)"
        by (simp_all add: available_bytes_def rcover_def)
      have "card (available_bytes (r # raws) \<inter> ?R) = card (rcover r \<inter> ?R) + card (available_bytes raws \<inter> ?R)"
        unfolding av Int_Un_distrib2 using d fin by (intro card_Un_disjoint) auto
      with Cons.IH [OF rd, of "acc + card (rcover r \<inter> ?R)"] Cons.prems(2) True assms(1) show ?thesis
        by (simp add: foldM_intersection_step add.assoc)
    next
      case False
      then have "available_bytes (r # raws) = available_bytes raws"
        by (auto simp: available_bytes_def)
      with False Cons show ?thesis by simp
    qed
  qed (simp add: available_bytes_def)
  moreover have "card (available_bytes raws \<inter> ?R) \<le> U64_MAX"
    using assms(3) by (intro card_below_u64) auto
  ultimately show ?thesis by (simp add: intersection_bytes_def)
qed

lemma sum_res_bytes:
  assumes "res_wf ds" "acc + card (\<Union>d\<in>set ds. ival d) \<le> U64_MAX"
  shows "foldM (\<lambda>(s, e) acc. sub64 e s \<bind> add64 acc) ds acc = Some (acc + card (\<Union>d\<in>set ds. ival d))"
  using assms
proof (induction ds arbitrary: acc)
  case (Cons d ds)
  have "ival d \<inter> ival d' = {}" if "d' \<in> set ds" for d'
  proof -
    have "d \<noteq> d'" "\<not> touch d d'" using Cons.prems(1) that by (auto simp: res_wf_def)
    then show ?thesis by (auto simp: ival_def touch_def)
  qed
  then have "ival d \<inter> (\<Union>d\<in>set ds. ival d) = {}" by blast
  then have c: "card (\<Union>d\<in>set (d # ds). ival d) = card (ival d) + card (\<Union>d\<in>set ds. ival d)"
    by (simp add: card_Un_disjoint ival_def)
  have "res_wf ds" "fst d < snd d" using Cons.prems(1) by (simp_all add: res_wf_def)
  with Cons.IH [of "acc + card (ival d)"] Cons.prems(2) c show ?case
    by (cases d) (simp add: sub64_def add64_def ival_def add.assoc)
qed simp

lemma initial_ranges_eq:
  assumes "raw_wf raws"
  shows "initial_ranges raws = filter (\<lambda>r. is_available (region_type r)) raws"
proof -
  have "fold (\<lambda>raw ws. if is_available (region_type raw) \<and> region_size raw > 0
             \<and> length ws < MAX_USABLE_RANGES then ws @ [raw] else ws) raws acc
        = acc @ filter (\<lambda>r. is_available (region_type r)) raws"
    if "length acc + length raws \<le> MAX_USABLE_RANGES"
      "rdisj (filter (\<lambda>r. is_available (region_type r)) raws)" for acc
    using that
  proof (induction raws arbitrary: acc)
    case (Cons r raws)
    then show ?case
      by (cases "is_available (region_type r)") (simp_all add: rdisj_Cons region_size_def)
  qed simp
  with assms show ?thesis by (simp add: initial_ranges_def raw_wf_def inventory_sizes)
qed

lemma cover_available: "cover (filter (\<lambda>r. is_available (region_type r)) raws) = available_bytes raws"
  by (simp add: cover_def available_bytes_def)

lemma available_below: "raw_wf raws \<Longrightarrow> available_bytes raws \<subseteq> {0..<U64_MAX}"
  by (fastforce simp: raw_wf_def available_bytes_def rcover_def)

lemma reserved_below: "reservations_wf rs \<Longrightarrow> reserved_bytes rs \<subseteq> {0..<U64_MAX}"
  by (fastforce simp: reservations_wf_def reserved_bytes_def)

section \<open>Soundness of the inventory\<close>

definition nonempty_regions :: "PhysicalMemoryRegion list \<Rightarrow> bool" where
  "nonempty_regions ws \<longleftrightarrow> (\<forall>w\<in>set ws. r_start w < r_end w \<and> r_end w \<le> U64_MAX)"

lemma nonempty_pieces:
  "r_start w < r_end w \<Longrightarrow> r_end w \<le> U64_MAX \<Longrightarrow> fst d < snd d \<Longrightarrow> nonempty_regions (pieces d w)"
  by (auto simp: nonempty_regions_def pieces_def)

lemma nonempty_regions_simps [simp]:
  "nonempty_regions []"
  "nonempty_regions (w # ws) \<longleftrightarrow> r_start w < r_end w \<and> r_end w \<le> U64_MAX \<and> nonempty_regions ws"
  "nonempty_regions (xs @ ys) \<longleftrightarrow> nonempty_regions xs \<and> nonempty_regions ys"
  by (auto simp: nonempty_regions_def)

lemma nonempty_regions_take: "nonempty_regions ws \<Longrightarrow> nonempty_regions (take n ws)"
  by (metis append_take_drop_id nonempty_regions_simps(3))

lemma cover_concat_pieces:
  assumes "nonempty_regions ws" "fst d < snd d"
  shows "nonempty_regions (concat (map (pieces d) ws)) \<and> cover (concat (map (pieces d) ws)) = cover ws - ival d"
  using assms(1)
proof (induction ws)
  case (Cons w ws)
  then have w: "r_start w < r_end w" "r_end w \<le> U64_MAX" "nonempty_regions ws" by simp_all
  show ?case using nonempty_pieces [OF w(1,2) assms(2)] cover_pieces [OF w(1) assms(2)] Cons.IH [OF w(3)]
    by (simp add: Un_Diff)
qed simp

lemma subtract_reservations_cover:
  assumes "nonempty_regions ws" "\<forall>d\<in>set ds. fst d < snd d"
  shows "nonempty_regions (subtract_reservations ds ws)
    \<and> cover (subtract_reservations ds ws) \<subseteq> cover ws - (\<Union>d\<in>set ds. ival d)"
  using assms
proof (induction ds arbitrary: ws)
  case (Cons d ds)
  let ?c = "concat (map (pieces d) ws)"
  let ?w = "take MAX_USABLE_RANGES ?c"
  have eq: "subtract_reservations (d # ds) ws = subtract_reservations ds ?w"
    by (simp add: subtract_reservations_def fold_subtract_range)
  have c: "nonempty_regions ?c" "cover ?c = cover ws - ival d"
    using cover_concat_pieces [of ws d] Cons.prems by auto
  then have "nonempty_regions ?w" "cover ?w \<subseteq> cover ws - ival d"
    using cover_take [of MAX_USABLE_RANGES ?c] by (simp_all add: nonempty_regions_take)
  with Cons.IH [of ?w] Cons.prems(2) show ?case unfolding eq by auto
qed (simp add: subtract_reservations_def)

lemma initial_ranges_sub:
  "set (initial_ranges raws) \<subseteq> {r \<in> set raws. is_available (region_type r) \<and> r_start r < r_end r}"
proof -
  have "set (fold (\<lambda>raw ws. if is_available (region_type raw) \<and> region_size raw > 0
             \<and> length ws < MAX_USABLE_RANGES then ws @ [raw] else ws) raws acc)
        \<subseteq> set acc \<union> {r \<in> set raws. is_available (region_type r) \<and> r_start r < r_end r}" for acc
  proof (induction raws arbitrary: acc)
    case (Cons r raws)
    show ?case using Cons.IH [of "acc @ [r]"] Cons.IH [of acc] by (auto simp: region_size_def)
  qed simp
  from this [of "[]"] show ?thesis by (simp add: initial_ranges_def)
qed

lemma foldM_candidates_sound:
  assumes "foldM candidate_step ws (cands, bytes) = Some (cands', bytes')"
  shows "set cands' \<subseteq> set cands \<union> {candidate_of w |w. w \<in> set ws \<and> r_start (candidate_of w) < r_end (candidate_of w)}"
  using assms
proof (induction ws arbitrary: cands bytes)
  case (Cons w ws)
  obtain c1 b1 where s: "candidate_step w (cands, bytes) = Some (c1, b1)"
    "foldM candidate_step ws (c1, b1) = Some (cands', bytes')"
    using Cons.prems by (auto split: Option.bind_splits)
  then have "set c1 \<subseteq> set cands \<union> {candidate_of w |_. r_start (candidate_of w) < r_end (candidate_of w)}"
    by (auto simp: candidate_step_def Let_def split: if_splits Option.bind_splits)
  with Cons.IH [OF s(2)] show ?case by auto
qed simp

lemma compute_usable_sound:
  assumes "compute_usable_memory_inventory iv = Some iv'"
    "\<forall>r\<in>set (raw_regions iv). r_end r \<le> U64_MAX"
    "length (reservations iv) \<le> MAX_RESERVATIONS"
  shows "cover (usable_ranges iv') \<subseteq> available_bytes (raw_regions iv) - reserved_bytes (reservations iv)"
    "sorted (map r_start (usable_ranges iv'))"
    "\<And>c. c \<in> set (frame_candidates iv') \<Longrightarrow>
       4096 dvd r_start c \<and> 4096 dvd r_end c \<and> r_start c < r_end c \<and> rcover c \<subseteq> cover (usable_ranges iv')"
    "raw_regions iv' = raw_regions iv" "reservations iv' = reservations iv"
proof -
  let ?ds = "disjoint_reservations (reservations iv)"
  let ?i = "initial_ranges (raw_regions iv)"
  let ?ws = "sort_ranges (subtract_reservations ?ds ?i)"
  obtain bytes where u: "usable_ranges iv' = ?ws"
    "foldM candidate_step ?ws ([], 0) = Some (frame_candidates iv', bytes)"
    "raw_regions iv' = raw_regions iv" "reservations iv' = reservations iv"
    using assms(1) by (auto simp: compute_usable_memory_inventory_def Let_def split: Option.bind_splits)
  show "raw_regions iv' = raw_regions iv" "reservations iv' = reservations iv" by (fact u(3), fact u(4))
  have i: "nonempty_regions ?i" using initial_ranges_sub [of "raw_regions iv"] assms(2)
    by (auto simp: nonempty_regions_def)
  have ic: "cover ?i \<subseteq> available_bytes (raw_regions iv)"
    using initial_ranges_sub [of "raw_regions iv"] by (auto simp: cover_def available_bytes_def)
  note ds = disjoint_reservations_spec [OF assms(3)]
  have "\<forall>d\<in>set ?ds. fst d < snd d" using ds(1) by (simp add: res_wf_def)
  note s = subtract_reservations_cover [OF i this]
  show "cover (usable_ranges iv') \<subseteq> available_bytes (raw_regions iv) - reserved_bytes (reservations iv)"
    using s ic ds(2) unfolding u(1) by auto
  show "sorted (map r_start (usable_ranges iv'))" unfolding u(1) by (rule sort_ranges_spec)
  fix c assume "c \<in> set (frame_candidates iv')"
  with foldM_candidates_sound [OF u(2)] obtain w where w: "c = candidate_of w" "w \<in> set ?ws"
    "r_start (candidate_of w) < r_end (candidate_of w)" by auto
  have "r_end w \<le> U64_MAX" using s w(2) by (simp add: nonempty_regions_def sort_ranges_set)
  note cs = candidate_of_sound [OF w(3) this]
  have "rcover w \<subseteq> cover (usable_ranges iv')" using w(2) unfolding u(1) by (auto simp: cover_def)
  with cs w show "4096 dvd r_start c \<and> 4096 dvd r_end c \<and> r_start c < r_end c \<and> rcover c \<subseteq> cover (usable_ranges iv')"
    by auto
qed

lemma compute_usable_total:
  assumes "raw_wf (raw_regions iv)" "reservations_wf (reservations iv)"
  shows "\<exists>iv'. compute_usable_memory_inventory iv = Some iv'
    \<and> rdisj (usable_ranges iv') \<and> rdisj (frame_candidates iv')
    \<and> unique_reservation_union_bytes iv' = card (reserved_bytes (reservations iv))
    \<and> reservation_intersection_type1_bytes iv'
       = card (available_bytes (raw_regions iv) \<inter> reserved_bytes (reservations iv))
    \<and> discoverable_byte_level_ram iv' = card (cover (usable_ranges iv'))
    \<and> page_aligned_frame_candidate_bytes iv' = card (cover (frame_candidates iv'))
    \<and> usable_ranges iv' = sort_ranges (subtract_reservations (disjoint_reservations (reservations iv))
         (filter (\<lambda>r. is_available (region_type r)) (raw_regions iv)))
    \<and> frame_candidates iv' = filter (\<lambda>c. r_start c < r_end c) (map candidate_of (usable_ranges iv'))"
proof -
  let ?ds = "disjoint_reservations (reservations iv)"
  let ?i = "filter (\<lambda>r. is_available (region_type r)) (raw_regions iv)"
  let ?ws = "sort_ranges (subtract_reservations ?ds ?i)"
  let ?cs = "filter (\<lambda>c. r_start c < r_end c) (map candidate_of ?ws)"
  have len: "length (reservations iv) \<le> MAX_RESERVATIONS" using assms(2) by (simp add: reservations_wf_def)
  note ds = disjoint_reservations_spec [OF len]
  have dne: "\<forall>d\<in>set ?ds. fst d < snd d" using ds(1) by (simp add: res_wf_def)
  have rd: "rdisj ?i" and li: "length (raw_regions iv) \<le> MAX_INVENTORY_REGIONS"
    using assms(1) by (simp_all add: raw_wf_def)
  have lf: "length ?i \<le> MAX_USABLE_RANGES"
    using li by (intro order_trans [OF length_filter_le]) (simp add: inventory_sizes)
  have ci: "cover ?i \<subseteq> {0..<U64_MAX}" using available_below [OF assms(1)] by (simp add: cover_available)
  note s = subtract_reservations_sound [OF rd dne lf]
  then have wsd: "rdisj ?ws" and wsl: "length ?ws \<le> MAX_USABLE_RANGES" by simp_all
  have wsc: "cover ?ws \<subseteq> {0..<U64_MAX}" using s ci by auto
  note cd = candidates_rdisj [OF wsd wsc]
  have csc: "cover ?cs \<subseteq> {0..<U64_MAX}" using cd wsc by blast
  have 1: "foldM (\<lambda>(s, e) acc. sub64 e s \<bind> add64 acc) ?ds 0 = Some (card (reserved_bytes (reservations iv)))"
    using sum_res_bytes [OF ds(1), of 0] card_below_u64 [OF reserved_below [OF assms(2)]]
    by (simp add: ds(2))
  have 2: "intersection_bytes (raw_regions iv) ?ds
      = Some (card (available_bytes (raw_regions iv) \<inter> reserved_bytes (reservations iv)))"
    using intersection_bytes_spec [OF ds(1) rd available_below [OF assms(1)]] by (simp add: ds(2))
  have 3: "foldM (\<lambda>r acc. add64 acc (region_size r)) ?ws 0 = Some (card (cover ?ws))"
    using foldM_sum [of 0 region_size ?ws] sum_region_size_bound [OF wsd wsc] sum_region_size [OF wsd]
    by simp
  have 4: "foldM candidate_step ?ws ([], 0) = Some (?cs, card (cover ?cs))"
    using foldM_candidates [of "[]" ?ws 0] wsl sum_region_size_bound [of ?cs] cd csc sum_region_size [of ?cs]
    by simp
  show ?thesis
    unfolding compute_usable_memory_inventory_def initial_ranges_eq [OF assms(1)] Let_def 1 2 3 4
    using wsd cd by simp
qed

lemma compute_usable_complete:
  assumes "raw_wf (raw_regions iv)" "reservations_wf (reservations iv)"
    "length (filter (\<lambda>r. is_available (region_type r)) (raw_regions iv)) + length (reservations iv)
       \<le> MAX_USABLE_RANGES"
    "compute_usable_memory_inventory iv = Some iv'"
  shows "cover (usable_ranges iv') = available_bytes (raw_regions iv) - reserved_bytes (reservations iv)"
proof -
  let ?ds = "disjoint_reservations (reservations iv)"
  have len: "length (reservations iv) \<le> MAX_RESERVATIONS" using assms(2) by (simp add: reservations_wf_def)
  note ds = disjoint_reservations_spec [OF len]
  have dne: "\<forall>d\<in>set ?ds. fst d < snd d" using ds(1) by (simp add: res_wf_def)
  have rd: "rdisj (filter (\<lambda>r. is_available (region_type r)) (raw_regions iv))"
    using assms(1) by (simp add: raw_wf_def)
  from compute_usable_total [OF assms(1,2)] assms(4)
  have "usable_ranges iv' = sort_ranges (subtract_reservations ?ds
      (filter (\<lambda>r. is_available (region_type r)) (raw_regions iv)))" by auto
  with subtract_reservations_complete [OF rd dne] assms(3) ds(2,3) show ?thesis
    by (simp add: cover_available)
qed

lemma card_available_split:
  "finite A \<Longrightarrow> card (A - R) + card (A \<inter> R) = card A"
  by (metis card_Diff_subset_Int card_mono finite_Int inf_le1 le_add_diff_inverse2)

section \<open>Parsing\<close>

lemma account_region_frame:
  "account_region t len iv = Some iv' \<Longrightarrow>
     raw_regions iv' = raw_regions iv \<and> reservations iv' = reservations iv"
  by (cases t) (auto simp: account_region_def Let_def split: Option.bind_splits)

lemma add_raw_region_props:
  assumes "add_raw_region base len t iv = Some iv'"
    "\<forall>r\<in>set (raw_regions iv). r_end r \<le> U64_MAX"
  shows "(\<forall>r\<in>set (raw_regions iv'). r_end r \<le> U64_MAX) \<and> reservations iv' = reservations iv"
  using assms by (auto simp: add_raw_region_def Let_def dest!: account_region_frame split: if_splits)

lemma parse_entries_props:
  assumes "parse_entries mem addr len off iv = Some iv'"
    "\<forall>r\<in>set (raw_regions iv). r_end r \<le> U64_MAX"
  shows "(\<forall>r\<in>set (raw_regions iv'). r_end r \<le> U64_MAX) \<and> reservations iv' = reservations iv"
  using assms
proof (induction mem addr len off iv rule: parse_entries.induct)
  case (1 mem addr len off iv)
  let ?sz = "read_u32 mem (addr + off)"
  let ?no = "off + ?sz + 4"
  note eq = parse_entries.simps [of mem addr len off iv]
  show ?case
  proof (cases "\<not> len \<le> off \<and> \<not> off + 4 > U32_MAX \<and> \<not> off + 4 > len \<and> \<not> (addr + off) mod 4 \<noteq> 0 \<and> \<not> ?sz < 20
      \<and> \<not> (?no > U32_MAX \<or> ?no > len)")
    case False
    then have "parse_entries mem addr len off iv \<in> {None, Some iv}"
      unfolding eq Let_def by (simp only: de_Morgan_conj not_not) auto
    with 1(2,3) show ?thesis by auto
  next
    case True
    then have e: "parse_entries mem addr len off iv
        = (case add_raw_region (read_u64 mem (addr + off + 4)) (read_u64 mem (addr + off + 12))
                  (read_u32 mem (addr + off + 20)) iv of
             None \<Rightarrow> None | Some iv' \<Rightarrow> parse_entries mem addr len ?no iv')"
      unfolding eq Let_def by (simp only: if_False)
    with 1(2) obtain iv1 where iv1: "add_raw_region (read_u64 mem (addr + off + 4))
        (read_u64 mem (addr + off + 12)) (read_u32 mem (addr + off + 20)) iv = Some iv1"
      "parse_entries mem addr len ?no iv1 = Some iv'" by (auto split: option.splits)
    note p = add_raw_region_props [OF iv1(1) 1(3)]
    from True 1(1) [OF _ _ _ _ refl refl refl _ _ iv1(1) iv1(2)] p show ?thesis by simp
  qed
qed

lemma add_reservation_frame [simp]:
  "raw_regions (add_reservation n s e iv) = raw_regions iv"
  "frame_candidates (add_reservation n s e iv) = frame_candidates iv"
  by (simp_all add: add_reservation_def)

lemma add_reservation_length:
  "length (reservations (add_reservation n s e iv)) \<le> length (reservations iv) + 1"
  by (simp add: add_reservation_def)

lemma add_reservation_capacity:
  "length (reservations iv) \<le> MAX_RESERVATIONS \<Longrightarrow>
   length (reservations (add_reservation n s e iv)) \<le> MAX_RESERVATIONS"
  by (simp add: add_reservation_def)

lemma add_reservation_reserves:
  "length (reservations iv) < MAX_RESERVATIONS \<Longrightarrow>
   reserved_bytes (reservations (add_reservation n s e iv)) = reserved_bytes (reservations iv) \<union> {s..<e}"
  by (auto simp: add_reservation_def reserved_bytes_def)

lemma fold_add_entry:
  "length (reservations iv) + length es \<le> MAX_RESERVATIONS \<Longrightarrow>
   raw_regions (fold add_entry es iv) = raw_regions iv
   \<and> length (reservations (fold add_entry es iv)) \<le> length (reservations iv) + length es
   \<and> reserved_bytes (reservations (fold add_entry es iv))
      = reserved_bytes (reservations iv) \<union> reserved_bytes es"
proof (induction es arbitrary: iv)
  case (Cons e es)
  let ?v = "add_entry e iv"
  have l: "length (reservations ?v) \<le> length (reservations iv) + 1"
    unfolding add_entry_def by (rule add_reservation_length)
  have r: "reserved_bytes (reservations ?v) = reserved_bytes (reservations iv) \<union> {res_start e..<res_end e}"
    using Cons.prems by (simp add: add_entry_def add_reservation_reserves)
  have "raw_regions ?v = raw_regions iv" by (simp add: add_entry_def)
  moreover have "reserved_bytes (e # es) = {res_start e..<res_end e} \<union> reserved_bytes es"
    by (simp add: reserved_bytes_def)
  ultimately show ?case using Cons.IH [of ?v] l r Cons.prems by (simp add: Un_assoc)
qed (simp add: reserved_bytes_def)

definition layout_entries :: "BootLayout \<Rightarrow> ReservationEntry list" where
  "layout_entries lay = [kimage lay, kbss lay, ptables lay, guard lay, kstack lay, idt lay, ist1 lay,
     gdt lay, tss lay]"

lemma boot_reservations_spec:
  assumes "boot_reservations lay p mbi iv = Some iv'" "reservations iv = []"
  shows "raw_regions iv' = raw_regions iv \<and> length (reservations iv') \<le> 13
    \<and> {0..<0x100000} \<union> reserved_bytes (layout_entries lay) \<union> {p..<p + SIZEOF_MULTIBOOT_INFO}
        \<union> {mmap_addr mbi..<mmap_addr mbi + mmap_length mbi} \<subseteq> reserved_bytes (reservations iv')"
proof -
  let ?a = "add_reservation ''Low Memory (IVT/BDA/ROM)'' 0 0x100000 iv"
  let ?b = "fold add_entry (layout_entries lay) ?a"
  let ?c = "add_reservation ''Multiboot Info Structure'' p (p + SIZEOF_MULTIBOOT_INFO) ?b"
  let ?d = "add_reservation ''Multiboot Memory-Map Storage'' (mmap_addr mbi) (mmap_addr mbi + mmap_length mbi) ?c"
  let ?e = "add_reservation ''Multiboot Modules Metadata'' (mods_addr mbi) (mods_addr mbi + mods_count mbi * 16) ?d"
  have iv': "iv' = ?d \<or> iv' = ?e"
    using assms(1) unfolding boot_reservations_def layout_entries_def [symmetric] Let_def
    by (auto simp: add64_def split: Option.bind_splits if_splits)
  have le: "length (layout_entries lay) = 9" by (simp add: layout_entries_def)
  have la: "length (reservations ?a) \<le> 1"
    using add_reservation_length [of _ 0 "0x100000" iv] assms(2) by simp
  have ra: "reserved_bytes (reservations ?a) = {0..<0x100000}"
    using add_reservation_reserves [of iv] assms(2) by (simp add: inventory_sizes reserved_bytes_def)
  have b: "raw_regions ?b = raw_regions iv" "length (reservations ?b) \<le> 10"
    "reserved_bytes (reservations ?b) = {0..<0x100000} \<union> reserved_bytes (layout_entries lay)"
    using fold_add_entry [of ?a "layout_entries lay"] la le ra by (simp_all add: inventory_sizes)
  have lc: "length (reservations ?c) \<le> 11"
    using add_reservation_length [of "''Multiboot Info Structure''" p "p + SIZEOF_MULTIBOOT_INFO" ?b] b(2) by linarith
  have rc: "reserved_bytes (reservations ?c) = reserved_bytes (reservations ?b) \<union> {p..<p + SIZEOF_MULTIBOOT_INFO}"
    using b(2) by (intro add_reservation_reserves) (simp add: inventory_sizes)
  have ld: "length (reservations ?d) \<le> 12"
    using add_reservation_length [of "''Multiboot Memory-Map Storage''" "mmap_addr mbi"
        "mmap_addr mbi + mmap_length mbi" ?c] lc by linarith
  have rd: "reserved_bytes (reservations ?d) = reserved_bytes (reservations ?c)
      \<union> {mmap_addr mbi..<mmap_addr mbi + mmap_length mbi}"
    using lc by (intro add_reservation_reserves) (simp add: inventory_sizes)
  have lm: "length (reservations ?e) \<le> 13"
    using add_reservation_length [of "''Multiboot Modules Metadata''" "mods_addr mbi"
        "mods_addr mbi + mods_count mbi * 16" ?d] ld by linarith
  have re: "reserved_bytes (reservations ?d) \<subseteq> reserved_bytes (reservations ?e)"
    using add_reservation_reserves [of ?d] ld by (simp add: inventory_sizes)
  have raw: "raw_regions ?d = raw_regions iv" "raw_regions ?e = raw_regions iv" using b(1) by simp_all
  have cov: "{0..<0x100000} \<union> reserved_bytes (layout_entries lay) \<union> {p..<p + SIZEOF_MULTIBOOT_INFO}
        \<union> {mmap_addr mbi..<mmap_addr mbi + mmap_length mbi} = reserved_bytes (reservations ?d)"
    unfolding rd rc b(3) by simp
  show ?thesis unfolding cov using iv' raw ld lm re by (elim disjE) simp_all
qed

lemma parse_memory_map_sound:
  assumes "parse_memory_map mem lay p magic = Some (Ok iv)"
  shows "\<forall>c\<in>set (frame_candidates iv). 4096 dvd r_start c \<and> 4096 dvd r_end c \<and> r_start c < r_end c
      \<and> rcover c \<subseteq> available_bytes (raw_regions iv) - reserved_bytes (reservations iv)"
    "{0..<0x100000} \<union> reserved_bytes (layout_entries lay) \<union> {p..<p + SIZEOF_MULTIBOOT_INFO}
       \<union> ival (pmm_metadata_range lay) \<subseteq> reserved_bytes (reservations iv)"
    "\<forall>r\<in>set (raw_regions iv). r_end r \<le> U64_MAX"
proof -
  let ?mbi = "read_multiboot_info mem p"
  let ?m = "pmm_metadata_range lay"
  obtain iv1 iv2 iv3 iv4 where
    s: "parse_entries mem (mmap_addr ?mbi) (mmap_length ?mbi) 0 new_inventory = Some iv1"
      "boot_reservations lay p ?mbi iv1 = Some iv2"
      "compute_usable_memory_inventory iv2 = Some iv3"
      "compute_usable_memory_inventory (add_reservation ''PMM Bitmap Metadata'' (fst ?m) (snd ?m) iv3) = Some iv4"
      "frame_candidates iv = frame_candidates iv4" "raw_regions iv = raw_regions iv4"
      "reservations iv = reservations iv4"
    using assms unfolding parse_memory_map_def Let_def
    by (auto split: if_splits Option.bind_splits prod.splits)
  let ?iv3 = "add_reservation ''PMM Bitmap Metadata'' (fst ?m) (snd ?m) iv3"
  have 1: "\<forall>r\<in>set (raw_regions iv1). r_end r \<le> U64_MAX" "reservations iv1 = []"
    using parse_entries_props [OF s(1)] by (simp_all add: new_inventory_def)
  note 2 = boot_reservations_spec [OF s(2) 1(2)]
  then have len2: "length (reservations iv2) \<le> MAX_RESERVATIONS" by (simp add: inventory_sizes)
  have b2: "\<forall>r\<in>set (raw_regions iv2). r_end r \<le> U64_MAX" using 1(1) 2 by simp
  note 3 = compute_usable_sound [OF s(3) b2 len2]
  have len3: "length (reservations ?iv3) \<le> MAX_RESERVATIONS"
    using len2 3(5) by (intro add_reservation_capacity) simp
  have b3: "\<forall>r\<in>set (raw_regions ?iv3). r_end r \<le> U64_MAX" using b2 3(4) by simp
  note 4 = compute_usable_sound [OF s(4) b3 len3]
  show "\<forall>r\<in>set (raw_regions iv). r_end r \<le> U64_MAX" using b3 4(4) s(6) by simp
  show "\<forall>c\<in>set (frame_candidates iv). 4096 dvd r_start c \<and> 4096 dvd r_end c \<and> r_start c < r_end c
      \<and> rcover c \<subseteq> available_bytes (raw_regions iv) - reserved_bytes (reservations iv)"
    unfolding s(5-7) 4(4,5) using 4(1,3) by blast
  have "reserved_bytes (reservations ?iv3) = reserved_bytes (reservations iv3) \<union> {fst ?m..<snd ?m}"
    using 2 3(5) by (intro add_reservation_reserves) (simp add: inventory_sizes)
  with 2 show "{0..<0x100000} \<union> reserved_bytes (layout_entries lay) \<union> {p..<p + SIZEOF_MULTIBOOT_INFO}
       \<union> ival (pmm_metadata_range lay) \<subseteq> reserved_bytes (reservations iv)"
    unfolding s(7) 4(5) 3(5) by (auto simp: ival_def)
qed

text \<open>The definitions that evaluate the interval algorithm on a concrete inventory.\<close>

lemmas inventory_eval = compute_usable_memory_inventory_def disjoint_reservations_def add_disjoint_res_def
  merge_res.simps swap_remove_def sub64_def add64_def intersection_bytes_def intersection_step_def
  is_available_def initial_ranges_def region_size_def subtract_reservations_def subtract_range_def
  sort_ranges_def candidate_step_def candidate_of_def align_down_def sat_add64_def inventory_sizes Let_def

section \<open>Properties\<close>

text \<open>C10: the memory inventory is exact. For firmware regions whose available parts do not
  overlap, \<open>compute_usable_memory_inventory\<close> does not panic; when the 32-entry tables are
  large enough for every split, the usable ranges are sorted, pairwise disjoint and cover
  exactly the available RAM minus the union of the reservations, the byte counters are the
  sizes of these sets, and the accounting identity that the boot diagnostics check
  (type-1 bytes minus reserved intersection equals discoverable bytes) holds.\<close>

theorem compute_usable_exact:
  assumes "raw_wf (raw_regions iv)" "reservations_wf (reservations iv)"
    "length (filter (\<lambda>r. is_available (region_type r)) (raw_regions iv)) + length (reservations iv)
       \<le> MAX_USABLE_RANGES"
  shows "\<exists>iv'. compute_usable_memory_inventory iv = Some iv'
    \<and> cover (usable_ranges iv') = available_bytes (raw_regions iv) - reserved_bytes (reservations iv)
    \<and> sorted (map r_start (usable_ranges iv')) \<and> rdisj (usable_ranges iv')
    \<and> unique_reservation_union_bytes iv' = card (reserved_bytes (reservations iv))
    \<and> discoverable_byte_level_ram iv' + reservation_intersection_type1_bytes iv'
       = card (available_bytes (raw_regions iv))"
proof -
  obtain iv' where iv': "compute_usable_memory_inventory iv = Some iv'" "rdisj (usable_ranges iv')"
    "unique_reservation_union_bytes iv' = card (reserved_bytes (reservations iv))"
    "reservation_intersection_type1_bytes iv'
       = card (available_bytes (raw_regions iv) \<inter> reserved_bytes (reservations iv))"
    "discoverable_byte_level_ram iv' = card (cover (usable_ranges iv'))"
    "usable_ranges iv' = sort_ranges (subtract_reservations (disjoint_reservations (reservations iv))
         (filter (\<lambda>r. is_available (region_type r)) (raw_regions iv)))"
    using compute_usable_total [OF assms(1,2)] by blast
  note c = compute_usable_complete [OF assms iv'(1)]
  have "finite (available_bytes (raw_regions iv))" by (simp add: available_bytes_def rcover_def)
  with iv' c show ?thesis by (simp add: card_available_split sort_ranges_spec(2))
qed

definition demo_inventory :: PhysicalMemoryInventory where
  "demo_inventory = new_inventory\<lparr>
     raw_regions := [new_region 0 0x9FC00 AvailableRAM, new_region 0xF0000 0x100000 ReservedRegion,
                     new_region 0x100000 0x8000000 AvailableRAM],
     reservations := [\<lparr>res_name = ''Low'', res_start = 0, res_end = 0x100000\<rparr>,
                      \<lparr>res_name = ''Kernel'', res_start = 0x100000, res_end = 0x123456\<rparr>]\<rparr>"

lemma demo_inventory_sel:
  "raw_regions demo_inventory = [new_region 0 0x9FC00 AvailableRAM, new_region 0xF0000 0x100000 ReservedRegion,
     new_region 0x100000 0x8000000 AvailableRAM]"
  "reservations demo_inventory = [\<lparr>res_name = ''Low'', res_start = 0, res_end = 0x100000\<rparr>,
     \<lparr>res_name = ''Kernel'', res_start = 0x100000, res_end = 0x123456\<rparr>]"
  by (simp_all add: demo_inventory_def)

theorem compute_usable_exact_witness:
  "\<exists>iv'. compute_usable_memory_inventory demo_inventory = Some iv'
    \<and> cover (usable_ranges iv') = {0x123456..<0x8000000}"
proof -
  have "available_bytes (raw_regions demo_inventory) - reserved_bytes (reservations demo_inventory)
      = {0x123456..<0x8000000}"
    by (auto simp: demo_inventory_sel available_bytes_def reserved_bytes_def is_available_def)
  then show ?thesis
    using compute_usable_exact [of demo_inventory]
    by (auto simp: demo_inventory_sel raw_wf_def reservations_wf_def inventory_sizes is_available_def
        rdisj_Cons)
qed

end
