(* ===== verification/Pmm.thy ===== *)
theory Pmm
  imports Inventory
begin

text \<open>
  \<open>kernel/src/mm/pmm.rs\<close>: the physical frame manager. The manager's counters and the static
  bitmap \<open>PMM_METADATA\<close> it owns are one record. Frame states are packed two bits per frame into
  64-bit words, as in the code; a word index beyond the bitmap is a panic. A \<open>PhysFrame\<close> is its
  physical address.
\<close>

section \<open>Data\<close>

definition PAGE_SIZE :: nat where "PAGE_SIZE = 4096"
definition PMM_MAX_TRACKED_FRAMES :: nat where "PMM_MAX_TRACKED_FRAMES = 65536"
definition BITS_PER_FRAME :: nat where "BITS_PER_FRAME = 2"
definition FRAMES_PER_U64 :: nat where "FRAMES_PER_U64 = 64 div BITS_PER_FRAME"
definition BITMAP_WORDS :: nat where "BITMAP_WORDS = PMM_MAX_TRACKED_FRAMES div FRAMES_PER_U64"

lemma pmm_sizes [simp]:
  "PAGE_SIZE = 4096" "PMM_MAX_TRACKED_FRAMES = 65536" "BITS_PER_FRAME = 2" "FRAMES_PER_U64 = 32"
  "BITMAP_WORDS = 2048"
  by (simp_all add: PAGE_SIZE_def PMM_MAX_TRACKED_FRAMES_def BITS_PER_FRAME_def FRAMES_PER_U64_def
      BITMAP_WORDS_def)

datatype FrameState = Free | Allocated | Reserved | Unusable

definition from_bits :: "u8 \<Rightarrow> FrameState" where
  "from_bits bits =
     (let b = bits AND 3 in
      if b = 0 then Free else if b = 1 then Allocated else if b = 2 then Reserved else Unusable)"

definition to_bits :: "FrameState \<Rightarrow> u8" where
  "to_bits st = (case st of Free \<Rightarrow> 0 | Allocated \<Rightarrow> 1 | Reserved \<Rightarrow> 2 | Unusable \<Rightarrow> 3)"

datatype PmmError =
  DoubleFree | FrameReserved | FrameUnusable | FrameOutOfRange | FrameMisaligned | AddressOverflow

datatype PmmInitError = CapacityExceeded nat nat | ZeroCandidates

type_synonym FrameNumber = nat
type_synonym PhysFrame = nat

definition number_from_address :: "nat \<Rightarrow> PmmError + FrameNumber" where
  "number_from_address addr =
     (if addr mod PAGE_SIZE \<noteq> 0 then Err FrameMisaligned else Ok (addr div PAGE_SIZE))"

definition to_address :: "FrameNumber \<Rightarrow> PmmError + nat" where
  "to_address n = (if n * PAGE_SIZE \<le> U64_MAX then Ok (n * PAGE_SIZE) else Err AddressOverflow)"

definition frame_from_address :: "nat \<Rightarrow> PmmError + PhysFrame" where
  "frame_from_address addr = (if addr mod PAGE_SIZE \<noteq> 0 then Err FrameMisaligned else Ok addr)"

definition frame_number :: "PhysFrame \<Rightarrow> FrameNumber" where
  "frame_number f = f div PAGE_SIZE"

record PhysicalMemoryManager =
  bitmap :: "nat \<Rightarrow> u64"
  tracked_frames :: nat
  free_frames :: nat
  allocated_frames :: nat
  reserved_frames :: nat
  unusable_frames :: nat
  initialized :: bool

definition new_pmm :: PhysicalMemoryManager where
  "new_pmm = \<lparr>bitmap = (\<lambda>_. 0), tracked_frames = 0, free_frames = 0, allocated_frames = 0,
     reserved_frames = 0, unusable_frames = 0, initialized = False\<rparr>"

section \<open>Operations\<close>

definition get_state :: "PhysicalMemoryManager \<Rightarrow> nat \<Rightarrow> FrameState" where
  "get_state pmm idx =
     (if idx \<ge> PMM_MAX_TRACKED_FRAMES then Unusable
      else let word_idx = idx div FRAMES_PER_U64;
               bit_offset = (idx mod FRAMES_PER_U64) * BITS_PER_FRAME
           in from_bits (ucast (drop_bit bit_offset (bitmap pmm word_idx) AND 3)))"

definition set_state :: "nat \<Rightarrow> FrameState \<Rightarrow> PhysicalMemoryManager \<Rightarrow> PhysicalMemoryManager" where
  "set_state idx st pmm =
     (if idx \<ge> PMM_MAX_TRACKED_FRAMES then pmm
      else let word_idx = idx div FRAMES_PER_U64;
               bit_offset = (idx mod FRAMES_PER_U64) * BITS_PER_FRAME;
               mask = NOT (push_bit bit_offset 3);
               val = push_bit bit_offset (ucast (to_bits st))
           in pmm\<lparr>bitmap := (bitmap pmm)(word_idx := (bitmap pmm word_idx AND mask) OR val)\<rparr>)"

definition count_states :: "PhysicalMemoryManager \<Rightarrow> nat \<times> nat \<times> nat \<times> nat" where
  "count_states pmm =
     fold (\<lambda>f (a, b, c, d). case get_state pmm f of
             Free \<Rightarrow> (a + 1, b, c, d) | Allocated \<Rightarrow> (a, b + 1, c, d)
           | Reserved \<Rightarrow> (a, b, c + 1, d) | Unusable \<Rightarrow> (a, b, c, d + 1))
       [0..<tracked_frames pmm] (0, 0, 0, 0)"

definition verify_invariants :: "PhysicalMemoryManager \<Rightarrow> string + unit" where
  "verify_invariants pmm =
     (let (count_free, count_allocated, count_reserved, count_unusable) = count_states pmm in
      if count_free \<noteq> free_frames pmm
      then Err ''PMM Invariant Violated: Free frames count mismatch!''
      else if count_allocated \<noteq> allocated_frames pmm
      then Err ''PMM Invariant Violated: Allocated frames count mismatch!''
      else if count_reserved \<noteq> reserved_frames pmm
      then Err ''PMM Invariant Violated: Reserved frames count mismatch!''
      else if count_unusable \<noteq> unusable_frames pmm
      then Err ''PMM Invariant Violated: Unusable frames count mismatch!''
      else if count_free + count_allocated + count_reserved + count_unusable \<noteq> tracked_frames pmm
      then Err ''PMM Invariant Violated: Total states sum != tracked_frames!''
      else Ok ())"

text \<open>\<open>init_from_inventory\<close>, in the five numbered steps of the code.\<close>

definition max_ram_addr :: "PhysicalMemoryInventory \<Rightarrow> nat" where
  "max_ram_addr iv =
     fold (\<lambda>cand m. if r_end cand > m then r_end cand else m) (frame_candidates iv)
       (fold (\<lambda>reg m. if region_type reg = AvailableRAM \<and> r_end reg > m then r_end reg else m)
          (raw_regions iv) 0)"

definition is_type1 :: "PhysicalMemoryInventory \<Rightarrow> nat \<Rightarrow> bool" where
  "is_type1 iv frame_addr =
     list_ex (\<lambda>reg. region_type reg = AvailableRAM \<and> frame_addr \<ge> r_start reg \<and> frame_addr < r_end reg)
       (raw_regions iv)"

definition init_default_states ::
  "PhysicalMemoryInventory \<Rightarrow> PhysicalMemoryManager \<Rightarrow> PhysicalMemoryManager" where
  "init_default_states iv pmm =
     fold (\<lambda>idx. set_state idx (if is_type1 iv (idx * PAGE_SIZE) then Reserved else Unusable))
       [0..<tracked_frames pmm] pmm"

definition set_range ::
  "nat \<Rightarrow> nat \<Rightarrow> FrameState \<Rightarrow> PhysicalMemoryManager \<Rightarrow> PhysicalMemoryManager" where
  "set_range start_f end_f st pmm =
     (let bounded_end = (if end_f > tracked_frames pmm then tracked_frames pmm else end_f)
      in fold (\<lambda>f. set_state f st) [start_f..<bounded_end] pmm)"

definition mark_reservation ::
  "ReservationEntry \<Rightarrow> PhysicalMemoryManager \<Rightarrow> PhysicalMemoryManager option" where
  "mark_reservation res pmm = do {
     e \<leftarrow> add64 (res_end res) PAGE_SIZE;
     Some (set_range (res_start res div PAGE_SIZE) ((e - 1) div PAGE_SIZE) Reserved pmm)
   }"

definition promote_candidate ::
  "PhysicalMemoryRegion \<Rightarrow> PhysicalMemoryManager \<Rightarrow> PhysicalMemoryManager" where
  "promote_candidate cand = set_range (r_start cand div PAGE_SIZE) (r_end cand div PAGE_SIZE) Free"

definition init_from_inventory ::
  "PhysicalMemoryInventory \<Rightarrow> PhysicalMemoryManager
     \<Rightarrow> ((PmmInitError + unit) \<times> PhysicalMemoryManager) option" where
  "init_from_inventory iv pmm =
     (if frame_candidates iv = [] then Some (Err ZeroCandidates, pmm)
      else do {
        let pmm = pmm\<lparr>bitmap := (\<lambda>w. if w < BITMAP_WORDS then NOT 0 else bitmap pmm w)\<rparr>;
        m \<leftarrow> add64 (max_ram_addr iv) PAGE_SIZE;
        let required_frames = (m - 1) div PAGE_SIZE;
        if required_frames > PMM_MAX_TRACKED_FRAMES
        then Some (Err (CapacityExceeded required_frames PMM_MAX_TRACKED_FRAMES), pmm)
        else do {
          let pmm = init_default_states iv (pmm\<lparr>tracked_frames := required_frames\<rparr>);
          pmm \<leftarrow> foldM mark_reservation (reservations iv) pmm;
          let pmm = fold promote_candidate (frame_candidates iv) pmm;
          let (a, b, c, d) = count_states pmm;
          let pmm = pmm\<lparr>free_frames := a, allocated_frames := b, reserved_frames := c,
                         unusable_frames := d, initialized := True\<rparr>;
          Some (case verify_invariants pmm of Inl _ \<Rightarrow> Err ZeroCandidates | Inr _ \<Rightarrow> Ok (), pmm)
        }
      })"

text \<open>\<open>alloc_frame\<close>: a scan over words with a fast reject, then over the slots of a word.\<close>

definition word_full :: "u64 \<Rightarrow> bool" where
  "word_full w =
     (let odd_bits = w AND 0xAAAAAAAAAAAAAAAA;
          even_bits = w AND 0x5555555555555555;
          active_mask = drop_bit 1 odd_bits OR even_bits
      in active_mask = 0x5555555555555555)"

fun scan_slots :: "PhysicalMemoryManager \<Rightarrow> nat \<Rightarrow> nat list \<Rightarrow> nat option" where
  "scan_slots pmm base [] = None"
| "scan_slots pmm base (slot # slots) =
     (if base + slot \<ge> tracked_frames pmm then None
      else if get_state pmm (base + slot) = Free then Some (base + slot)
      else scan_slots pmm base slots)"

fun scan_words :: "PhysicalMemoryManager \<Rightarrow> nat list \<Rightarrow> nat option option" where
  "scan_words pmm [] = Some None"
| "scan_words pmm (w # ws) =
     (if w \<ge> BITMAP_WORDS then None
      else if word_full (bitmap pmm w) then scan_words pmm ws
      else case scan_slots pmm (w * FRAMES_PER_U64) [0..<FRAMES_PER_U64] of
             Some f \<Rightarrow> Some (Some f)
           | None \<Rightarrow> scan_words pmm ws)"

definition alloc_frame ::
  "PhysicalMemoryManager \<Rightarrow> (PhysFrame option \<times> PhysicalMemoryManager) option" where
  "alloc_frame pmm =
     (if \<not> initialized pmm \<or> free_frames pmm = 0 then Some (None, pmm)
      else
        let words_to_scan = (tracked_frames pmm + FRAMES_PER_U64 - 1) div FRAMES_PER_U64 in
        case scan_words pmm [0..<words_to_scan] of
          None \<Rightarrow> None
        | Some None \<Rightarrow> Some (None, pmm)
        | Some (Some frame_idx) \<Rightarrow>
            let pmm = set_state frame_idx Allocated pmm;
                pmm = pmm\<lparr>free_frames := free_frames pmm - 1,
                           allocated_frames := allocated_frames pmm + 1\<rparr>
            in Some (Some (frame_idx * PAGE_SIZE), pmm))"

definition free_frame ::
  "PhysFrame \<Rightarrow> PhysicalMemoryManager \<Rightarrow> (PmmError + unit) \<times> PhysicalMemoryManager" where
  "free_frame frame pmm =
     (if frame mod PAGE_SIZE \<noteq> 0 then (Err FrameMisaligned, pmm)
      else
        let idx = frame div PAGE_SIZE in
        if idx \<ge> tracked_frames pmm then (Err FrameOutOfRange, pmm)
        else case get_state pmm idx of
            Allocated \<Rightarrow>
              let pmm = set_state idx Free pmm;
                  pmm = pmm\<lparr>allocated_frames := allocated_frames pmm - 1,
                             free_frames := free_frames pmm + 1\<rparr>
              in (Ok (), pmm)
          | Free \<Rightarrow> (Err DoubleFree, pmm)
          | Reserved \<Rightarrow> (Err FrameReserved, pmm)
          | Unusable \<Rightarrow> (Err FrameUnusable, pmm))"

text \<open>\<open>run_smoke_test\<close>: every \<open>assert!\<close> and \<open>expect\<close> is a panic when it fails.\<close>

definition assert_that :: "bool \<Rightarrow> unit option" where
  "assert_that b = (if b then Some () else None)"

definition run_smoke_test ::
  "PhysicalMemoryInventory \<Rightarrow> PhysicalMemoryManager \<Rightarrow> PhysicalMemoryManager option" where
  "run_smoke_test iv pmm = do {
     let initial_free = free_frames pmm;
     let initial_alloc = allocated_frames pmm;
     (r, pmm) \<leftarrow> alloc_frame pmm;
     a \<leftarrow> r;
     assert_that (a mod PAGE_SIZE = 0);
     assert_that (is_candidate_address iv a);
     (r, pmm) \<leftarrow> alloc_frame pmm;
     b \<leftarrow> r;
     assert_that (b mod PAGE_SIZE = 0);
     assert_that (is_candidate_address iv b);
     assert_that (a \<noteq> b);
     let (res, pmm) = free_frame a pmm;
     assert_that (res = Ok ());
     (r, pmm) \<leftarrow> alloc_frame pmm;
     c \<leftarrow> r;
     assert_that (c mod PAGE_SIZE = 0);
     assert_that (is_candidate_address iv c);
     assert_that (c = a);
     let (res, pmm) = free_frame b pmm;
     assert_that (res = Ok ());
     let (res, pmm) = free_frame c pmm;
     assert_that (res = Ok ());
     let (res, pmm) = free_frame c pmm;
     assert_that (res = Err DoubleFree);
     let (res, pmm) = free_frame 0 pmm;
     assert_that (res = Err FrameReserved);
     let (res, pmm) = free_frame 0x15D001 pmm;
     assert_that (res = Err FrameMisaligned);
     assert_that (free_frames pmm = initial_free);
     assert_that (allocated_frames pmm = initial_alloc);
     assert_that (verify_invariants pmm = Ok ());
     Some pmm
   }"

section \<open>The bitmap\<close>

definition state_of :: "bool \<Rightarrow> bool \<Rightarrow> FrameState" where
  "state_of b0 b1 = (if b1 then (if b0 then Unusable else Reserved) else (if b0 then Allocated else Free))"

lemma bit_3_int: "bit (3 :: int) n \<longleftrightarrow> n < 2"
proof -
  have m: "(3 :: int) = mask 2" by (simp add: mask_eq_exp_minus_1)
  show ?thesis unfolding m bit_mask_iff by auto
qed

lemma bit_3_u64: "bit (3 :: u64) n \<longleftrightarrow> n < 2"
  by (auto simp: bit_3_int)

lemma and3_eq: "(w :: u64) AND 3 = (if bit w 0 then 1 else 0) OR (if bit w 1 then 2 else 0)"
  by (rule bit_word_eqI) (auto simp: bit_and_iff bit_or_iff bit_3_int bit_1_iff bit_2_iff less_2_cases_iff intro!: gr0I)

lemma from_bits_and3:
  "from_bits (ucast ((w :: u64) AND 3)) = state_of (bit w 0) (bit w 1)"
  unfolding and3_eq by (auto simp: from_bits_def state_of_def Let_def)

lemma to_bits_bits:
  "bit (ucast (to_bits st) :: u64) n \<longleftrightarrow>
     n = 0 \<and> (st = Allocated \<or> st = Unusable) \<or> n = 1 \<and> (st = Reserved \<or> st = Unusable)"
  by (cases st) (auto simp: to_bits_def bit_1_iff bit_2_iff bit_3_int less_2_cases_iff)

lemma get_state_bits:
  "idx < 65536 \<Longrightarrow> get_state pmm idx =
     state_of (bit (bitmap pmm (idx div 32)) (2 * (idx mod 32))) (bit (bitmap pmm (idx div 32)) (2 * (idx mod 32) + 1))"
  by (simp add: get_state_def Let_def from_bits_and3 bit_drop_bit_eq mult.commute)

lemma state_of_inject: "state_of (st = Allocated \<or> st = Unusable) (st = Reserved \<or> st = Unusable) = st"
  by (cases st) (simp_all add: state_of_def)

lemma set_state_bit:
  assumes "n < 64" "idx < 65536"
  shows "bit (bitmap (set_state idx st pmm) w) n =
    (if w = idx div 32 \<and> n = 2 * (idx mod 32) then st = Allocated \<or> st = Unusable
     else if w = idx div 32 \<and> n = 2 * (idx mod 32) + 1 then st = Reserved \<or> st = Unusable
     else bit (bitmap pmm w) n)"
proof (cases "w = idx div 32")
  case True
  let ?o = "2 * (idx mod 32)"
  have "bit (push_bit ?o (3 :: u64)) n \<longleftrightarrow> n = ?o \<or> n = ?o + 1"
    using assms(1) by (auto simp: bit_push_bit_iff bit_3_int)
  moreover have "bit (push_bit ?o (ucast (to_bits st) :: u64)) n \<longleftrightarrow>
      n = ?o \<and> (st = Allocated \<or> st = Unusable) \<or> n = ?o + 1 \<and> (st = Reserved \<or> st = Unusable)"
    using assms(1) by (auto simp: bit_push_bit_iff to_bits_bits)
  ultimately show ?thesis using True assms
    by (simp add: set_state_def Let_def bit_or_iff bit_and_iff bit_not_iff mult.commute)
next
  case False
  then show ?thesis using assms(2) by (simp add: set_state_def Let_def)
qed

lemma get_set_state [simp]:
  assumes "idx < 65536"
  shows "get_state (set_state idx st pmm) j = (if j = idx then st else get_state pmm j)"
proof (cases "j < 65536")
  case True
  have lt: "2 * (j mod 32) < 64" "2 * (j mod 32) + 1 < 64" by auto
  have ne: "j \<noteq> idx \<Longrightarrow> j div 32 = idx div 32 \<Longrightarrow> j mod 32 \<noteq> idx mod 32"
    by (metis div_mult_mod_eq)
  have "2 * a \<noteq> 2 * b + 1" for a b :: nat by presburger
  then have par: "2 * (j mod 32) \<noteq> 2 * (idx mod 32) + 1" "2 * (j mod 32) + 1 \<noteq> 2 * (idx mod 32)"
    by (blast, metis)
  show ?thesis
    unfolding get_state_bits [OF True] set_state_bit [OF lt(1) assms] set_state_bit [OF lt(2) assms]
    using ne par by (cases "j = idx") (auto simp: state_of_inject)
next
  case False
  with assms show ?thesis by (auto simp: get_state_def)
qed

lemma set_state_frame [simp]:
  "tracked_frames (set_state idx st pmm) = tracked_frames pmm"
  "free_frames (set_state idx st pmm) = free_frames pmm"
  "allocated_frames (set_state idx st pmm) = allocated_frames pmm"
  "reserved_frames (set_state idx st pmm) = reserved_frames pmm"
  "unusable_frames (set_state idx st pmm) = unusable_frames pmm"
  "initialized (set_state idx st pmm) = initialized pmm"
  by (simp_all add: set_state_def Let_def)

lemma get_state_counters [simp]:
  "get_state (pmm\<lparr>free_frames := a\<rparr>) j = get_state pmm j"
  "get_state (pmm\<lparr>allocated_frames := a\<rparr>) j = get_state pmm j"
  "get_state (pmm\<lparr>reserved_frames := a\<rparr>) j = get_state pmm j"
  "get_state (pmm\<lparr>unusable_frames := a\<rparr>) j = get_state pmm j"
  "get_state (pmm\<lparr>tracked_frames := a\<rparr>) j = get_state pmm j"
  "get_state (pmm\<lparr>initialized := b\<rparr>) j = get_state pmm j"
  by (simp_all add: get_state_def)

text \<open>The fast reject skips a word exactly when none of its 32 frames is free.\<close>

lemma mask_bits_list:
  "list_all (\<lambda>n. bit (0x5555555555555555 :: int) n = even n) [0..<64]"
  "list_all (\<lambda>n. bit (0xAAAAAAAAAAAAAAAA :: int) n = odd n) [0..<64]"
  by code_simp+

lemma mask_bits:
  "n < 64 \<Longrightarrow> bit (0x5555555555555555 :: int) n = even n"
  "n < 64 \<Longrightarrow> bit (0xAAAAAAAAAAAAAAAA :: int) n = odd n"
  using mask_bits_list unfolding list_all_iff by auto

lemma word_full_iff: "word_full w \<longleftrightarrow> (\<forall>s<32. bit w (2 * s) \<or> bit w (2 * s + 1))"
proof -
  let ?m = "drop_bit 1 (w AND 0xAAAAAAAAAAAAAAAA) OR (w AND 0x5555555555555555) :: u64"
  have b: "bit ?m n \<longleftrightarrow> n < 64 \<and> even n \<and> (bit w n \<or> bit w (n + 1))" for n
  proof (cases "n < 64")
    case True
    have "bit w (n + 1) \<Longrightarrow> n + 1 < 64" using bit_imp_le_length [of w "n + 1"] by simp
    with True show ?thesis
      using mask_bits(1) [of n] mask_bits(2) [of "n + 1"]
      by (auto simp: bit_or_iff bit_and_iff bit_drop_bit_eq)
  next
    case False
    then have "\<not> n < LENGTH(64)" by simp
    then have "\<not> bit ?m n" by (meson bit_imp_le_length)
    with False show ?thesis by simp
  qed
  have "word_full w \<longleftrightarrow> (\<forall>n<64. bit ?m n = bit (0x5555555555555555 :: u64) n)"
    unfolding word_full_def Let_def by (auto intro: bit_word_eqI)
  also have "\<dots> \<longleftrightarrow> (\<forall>n<64. even n \<longrightarrow> bit w n \<or> bit w (n + 1))"
    unfolding b using mask_bits(1) by auto
  also have "\<dots> \<longleftrightarrow> (\<forall>s<32. bit w (2 * s) \<or> bit w (2 * s + 1))"
  proof (intro iffI allI impI)
    fix s :: nat
    assume a: "\<forall>n<64. even n \<longrightarrow> bit w n \<or> bit w (n + 1)" and "s < 32"
    then show "bit w (2 * s) \<or> bit w (2 * s + 1)" using a [rule_format, of "2 * s"] by simp
  qed (auto elim!: evenE)
  finally show ?thesis .
qed

lemma word_full_state:
  "w < 2048 \<Longrightarrow> word_full (bitmap pmm w) \<longleftrightarrow> (\<forall>s<32. get_state pmm (w * 32 + s) \<noteq> Free)"
  by (auto simp: word_full_iff get_state_bits state_of_def)

section \<open>First-free scan\<close>

lemma scan_slots_find:
  assumes "sorted slots"
  shows "scan_slots pmm base slots = find (\<lambda>f. f < tracked_frames pmm \<and> get_state pmm f = Free) (map ((+) base) slots)"
  using assms
proof (induction slots)
  case (Cons s ss)
  have "find (\<lambda>f. f < tracked_frames pmm \<and> get_state pmm f = Free) (map ((+) base) ss) = None"
    if "base + s \<ge> tracked_frames pmm"
    using that Cons.prems by (auto simp: find_None_iff)
  with Cons show ?case by (auto simp: not_le)
qed simp

lemma find_append: "find P (xs @ ys) = (case find P xs of None \<Rightarrow> find P ys | Some x \<Rightarrow> Some x)"
  by (induction xs) auto

lemma scan_words_find:
  assumes "m \<le> 2048" "n \<le> m"
  shows "scan_words pmm [n..<m] =
    Some (find (\<lambda>f. f < tracked_frames pmm \<and> get_state pmm f = Free) [n * 32..<m * 32])"
  using assms(2)
proof (induction rule: inc_induct)
  case (step n)
  let ?P = "\<lambda>f. f < tracked_frames pmm \<and> get_state pmm f = Free"
  have n: "n < 2048" using step.hyps assms by simp
  have m: "map ((+) (n * 32)) [0..<32] = [n * 32..<Suc n * 32]"
    by (rule nth_equalityI) (simp_all del: upt_Suc)
  have s: "scan_slots pmm (n * 32) [0..<32] = find ?P [n * 32..<Suc n * 32]"
    unfolding m [symmetric] by (rule scan_slots_find) simp
  have u: "[n * 32..<m * 32] = [n * 32..<Suc n * 32] @ [Suc n * 32..<m * 32]"
  proof -
    from step.hyps obtain k where "m = Suc n + k" by (metis Suc_leI le_iff_add)
    then have "m * 32 = Suc n * 32 + k * 32" by simp
    then show ?thesis using upt_add_eq_append [of "n * 32" "Suc n * 32" "k * 32"] by (simp only:) simp
  qed
  have f: "word_full (bitmap pmm n) \<Longrightarrow> find ?P [n * 32..<Suc n * 32] = None"
    using word_full_state [OF n, of pmm]
    by (auto simp: find_None_iff) (metis add.commute add_diff_inverse_nat linorder_not_less nat_add_left_cancel_less)
  have "[n..<m] = n # [Suc n..<m]" using step.hyps by (simp add: upt_conv_Cons)
  then show ?case using n s f step.IH unfolding u find_append
    by (auto split: option.splits)
qed simp

section \<open>Invariant and functional behaviour\<close>

definition frames_in :: "PhysicalMemoryManager \<Rightarrow> FrameState \<Rightarrow> nat set" where
  "frames_in pmm st = {f. f < tracked_frames pmm \<and> get_state pmm f = st}"

definition pmm_inv :: "PhysicalMemoryManager \<Rightarrow> bool" where
  "pmm_inv pmm \<longleftrightarrow> initialized pmm \<and> tracked_frames pmm \<le> PMM_MAX_TRACKED_FRAMES
     \<and> verify_invariants pmm = Ok ()"

lemma finite_frames_in [simp]: "finite (frames_in pmm st)"
  by (simp add: frames_in_def)

lemma count_states_eq:
  "count_states pmm = (card (frames_in pmm Free), card (frames_in pmm Allocated),
     card (frames_in pmm Reserved), card (frames_in pmm Unusable))"
proof -
  have "fold (\<lambda>f (a, b, c, d). case get_state pmm f of
             Free \<Rightarrow> (a + 1, b, c, d) | Allocated \<Rightarrow> (a, b + 1, c, d)
           | Reserved \<Rightarrow> (a, b, c + 1, d) | Unusable \<Rightarrow> (a, b, c, d + 1)) [0..<n] (0, 0, 0, 0)
       = (card {f. f < n \<and> get_state pmm f = Free}, card {f. f < n \<and> get_state pmm f = Allocated},
          card {f. f < n \<and> get_state pmm f = Reserved}, card {f. f < n \<and> get_state pmm f = Unusable})" for n
  proof (induction n)
    case (Suc n)
    have "{f. f < Suc n \<and> get_state pmm f = st} =
        (if get_state pmm n = st then insert n {f. f < n \<and> get_state pmm f = st}
         else {f. f < n \<and> get_state pmm f = st})" for st
      by (auto simp: less_Suc_eq)
    then have "card {f. f < Suc n \<and> get_state pmm f = st} =
        card {f. f < n \<and> get_state pmm f = st} + (if get_state pmm n = st then 1 else 0)" for st
      by simp
    with Suc show ?case by (cases "get_state pmm n") simp_all
  qed simp
  then show ?thesis by (simp add: count_states_def frames_in_def)
qed

lemma frames_total:
  "card (frames_in pmm Free) + card (frames_in pmm Allocated) + card (frames_in pmm Reserved)
     + card (frames_in pmm Unusable) = tracked_frames pmm"
proof -
  have "{..<tracked_frames pmm} = frames_in pmm Free \<union> frames_in pmm Allocated \<union> frames_in pmm Reserved
      \<union> frames_in pmm Unusable"
    by (auto simp: frames_in_def intro: FrameState.exhaust)
  then have "tracked_frames pmm = card (frames_in pmm Free \<union> frames_in pmm Allocated \<union> frames_in pmm Reserved
      \<union> frames_in pmm Unusable)" by (metis card_lessThan)
  also have "\<dots> = card (frames_in pmm Free) + card (frames_in pmm Allocated) + card (frames_in pmm Reserved)
     + card (frames_in pmm Unusable)"
    by (subst card_Un_disjoint; (subst card_Un_disjoint)?; (subst card_Un_disjoint)?; auto simp: frames_in_def)
  finally show ?thesis by simp
qed

lemma verify_invariants_iff:
  "verify_invariants pmm = Ok () \<longleftrightarrow>
     free_frames pmm = card (frames_in pmm Free) \<and> allocated_frames pmm = card (frames_in pmm Allocated)
     \<and> reserved_frames pmm = card (frames_in pmm Reserved) \<and> unusable_frames pmm = card (frames_in pmm Unusable)"
  using frames_total [of pmm] by (auto simp: verify_invariants_def count_states_eq)

definition first_free :: "PhysicalMemoryManager \<Rightarrow> nat option" where
  "first_free pmm = find (\<lambda>f. get_state pmm f = Free) [0..<tracked_frames pmm]"

lemma find_upt_bounded:
  assumes "n \<le> m"
  shows "find (\<lambda>f. f < n \<and> P f) [0..<m] = find P [0..<n]"
proof (cases "find P [0..<n]")
  case None
  then have "find (\<lambda>f. f < n \<and> P f) [0..<m] = None" by (auto simp: find_upt_None_iff)
  with None show ?thesis by simp
next
  case (Some a)
  then have "find (\<lambda>f. f < n \<and> P f) [0..<m] = Some a" using assms by (auto simp: find_upt_Some_iff)
  with Some show ?thesis by simp
qed

lemma scan_words_first_free:
  assumes "tracked_frames pmm \<le> 65536"
  shows "scan_words pmm [0..<(tracked_frames pmm + 32 - 1) div 32] = Some (first_free pmm)"
proof -
  let ?m = "(tracked_frames pmm + 32 - 1) div 32"
  have "tracked_frames pmm \<le> ?m * 32" "?m \<le> 2048" using assms by linarith+
  then show ?thesis using scan_words_find [of ?m 0 pmm] by (simp add: find_upt_bounded first_free_def)
qed

text \<open>\<open>grant\<close> and \<open>release\<close>: the two state changes, as seen through the bitmap.\<close>

definition grant :: "nat \<Rightarrow> PhysicalMemoryManager \<Rightarrow> PhysicalMemoryManager" where
  "grant f pmm = (set_state f Allocated pmm)\<lparr>free_frames := free_frames pmm - 1,
     allocated_frames := allocated_frames pmm + 1\<rparr>"

definition release :: "nat \<Rightarrow> PhysicalMemoryManager \<Rightarrow> PhysicalMemoryManager" where
  "release f pmm = (set_state f Free pmm)\<lparr>allocated_frames := allocated_frames pmm - 1,
     free_frames := free_frames pmm + 1\<rparr>"

lemma alloc_frame_eq:
  assumes "pmm_inv pmm"
  shows "alloc_frame pmm = Some (case first_free pmm of None \<Rightarrow> (None, pmm)
           | Some f \<Rightarrow> (Some (f * 4096), grant f pmm))"
proof (cases "free_frames pmm = 0")
  case True
  then have "frames_in pmm Free = {}" using assms by (simp add: pmm_inv_def verify_invariants_iff)
  then have "first_free pmm = None" by (auto simp: first_free_def find_upt_None_iff frames_in_def)
  with True show ?thesis by (simp add: alloc_frame_def)
next
  case False
  then show ?thesis using assms scan_words_first_free [of pmm]
    by (simp add: alloc_frame_def pmm_inv_def Let_def grant_def split: option.splits)
qed

lemma free_frame_Ok_iff:
  "free_frame a pmm = (Ok (), pmm') \<longleftrightarrow>
     4096 dvd a \<and> a div 4096 < tracked_frames pmm \<and> get_state pmm (a div 4096) = Allocated
     \<and> pmm' = release (a div 4096) pmm"
  by (auto simp: free_frame_def Let_def release_def dvd_eq_mod_eq_0 split: FrameState.splits)

lemma frames_in_grant:
  assumes "f < 65536" "f \<in> frames_in pmm Free"
  shows "frames_in (grant f pmm) Free = frames_in pmm Free - {f}"
    "frames_in (grant f pmm) Allocated = insert f (frames_in pmm Allocated)"
    "frames_in (grant f pmm) Reserved = frames_in pmm Reserved"
    "frames_in (grant f pmm) Unusable = frames_in pmm Unusable"
  using assms by (auto simp: frames_in_def grant_def)

lemma frames_in_release:
  assumes "f < 65536" "f \<in> frames_in pmm Allocated"
  shows "frames_in (release f pmm) Free = insert f (frames_in pmm Free)"
    "frames_in (release f pmm) Allocated = frames_in pmm Allocated - {f}"
    "frames_in (release f pmm) Reserved = frames_in pmm Reserved"
    "frames_in (release f pmm) Unusable = frames_in pmm Unusable"
  using assms by (auto simp: frames_in_def release_def)

lemma frames_in_disjoint: "f \<in> frames_in pmm st \<Longrightarrow> st \<noteq> st' \<Longrightarrow> f \<notin> frames_in pmm st'"
  by (auto simp: frames_in_def)

lemma frame_bound: "pmm_inv pmm \<Longrightarrow> f \<in> frames_in pmm st \<Longrightarrow> f < 65536"
  by (auto simp: pmm_inv_def frames_in_def)

lemma grant_inv: "pmm_inv pmm \<Longrightarrow> f \<in> frames_in pmm Free \<Longrightarrow> pmm_inv (grant f pmm)"
proof -
  assume a: "pmm_inv pmm" "f \<in> frames_in pmm Free"
  note g = frames_in_grant [OF frame_bound [OF a] a(2)] and n = frames_in_disjoint [OF a(2), of Allocated]
  from a g n show ?thesis unfolding pmm_inv_def verify_invariants_iff g
    by (simp add: grant_def)
qed

lemma release_inv: "pmm_inv pmm \<Longrightarrow> f \<in> frames_in pmm Allocated \<Longrightarrow> pmm_inv (release f pmm)"
proof -
  assume a: "pmm_inv pmm" "f \<in> frames_in pmm Allocated"
  note g = frames_in_release [OF frame_bound [OF a] a(2)] and n = frames_in_disjoint [OF a(2), of Free]
  from a g n show ?thesis unfolding pmm_inv_def verify_invariants_iff g
    by (simp add: release_def)
qed

lemma first_free_Some: "first_free pmm = Some f \<Longrightarrow> f \<in> frames_in pmm Free \<and> (\<forall>g\<in>frames_in pmm Free. f \<le> g)"
  by (auto simp: first_free_def find_upt_Some_iff frames_in_def not_less [symmetric])

lemma first_free_None: "first_free pmm = None \<longleftrightarrow> frames_in pmm Free = {}"
  by (auto simp: first_free_def find_upt_None_iff frames_in_def)

section \<open>The interface of the frame allocator\<close>

text \<open>
  What the clients of the PMM rely on: an allocation either hands out a free frame or reports
  that none is left, a release of an owned frame succeeds, and both only move that frame.
  \<open>alloc_frames\<close> is the transactional loop of \<open>kernel/src/ipc/shm.rs\<close> (\<open>shm_create\<close>): allocate
  \<open>n\<close> frames, and on exhaustion release the ones already taken.
\<close>

primrec release_frames :: "(nat \<Rightarrow> 's \<Rightarrow> 'r \<times> 's) \<Rightarrow> nat list \<Rightarrow> 's \<Rightarrow> 's" where
  "release_frames fr [] s = s"
| "release_frames fr (f # fs) s = release_frames fr fs (snd (fr f s))"

primrec alloc_frames ::
  "('s \<Rightarrow> (nat option \<times> 's) option) \<Rightarrow> (nat \<Rightarrow> 's \<Rightarrow> 'r \<times> 's) \<Rightarrow> nat \<Rightarrow> nat list \<Rightarrow> 's
     \<Rightarrow> (nat list option \<times> 's) option" where
  "alloc_frames al fr 0 got s = Some (Some got, s)"
| "alloc_frames al fr (Suc n) got s =
     (case al s of
        None \<Rightarrow> None
      | Some (r, s') \<Rightarrow> (case r of
            Some f \<Rightarrow> alloc_frames al fr n (got @ [f]) s'
          | None \<Rightarrow> Some (None, release_frames fr got s')))"

locale frame_allocator =
  fixes fa_inv :: "'s \<Rightarrow> bool"
    and fa_free :: "'s \<Rightarrow> nat set"
    and fa_owned :: "'s \<Rightarrow> nat set"
    and fa_alloc :: "'s \<Rightarrow> (nat option \<times> 's) option"
    and fa_release :: "nat \<Rightarrow> 's \<Rightarrow> ('e + unit) \<times> 's"
  assumes alloc_empty: "fa_inv s \<Longrightarrow> fa_free s = {} \<Longrightarrow> fa_alloc s = Some (None, s)"
    and alloc_some: "fa_inv s \<Longrightarrow> fa_free s \<noteq> {} \<Longrightarrow>
      \<exists>a s'. fa_alloc s = Some (Some a, s') \<and> a \<in> fa_free s \<and> fa_inv s'
        \<and> fa_free s' = fa_free s - {a} \<and> fa_owned s' = insert a (fa_owned s)"
    and release_ok: "fa_inv s \<Longrightarrow> a \<in> fa_owned s \<Longrightarrow>
      \<exists>s'. fa_release a s = (Ok (), s') \<and> fa_inv s'
        \<and> fa_free s' = insert a (fa_free s) \<and> fa_owned s' = fa_owned s - {a}"
    and free_not_owned: "fa_inv s \<Longrightarrow> fa_free s \<inter> fa_owned s = {}"
    and free_finite: "fa_inv s \<Longrightarrow> finite (fa_free s)"
begin

lemma release_frames_spec:
  "fa_inv s \<Longrightarrow> distinct fs \<Longrightarrow> set fs \<subseteq> fa_owned s \<Longrightarrow>
   fa_inv (release_frames fa_release fs s)
   \<and> fa_free (release_frames fa_release fs s) = fa_free s \<union> set fs
   \<and> fa_owned (release_frames fa_release fs s) = fa_owned s - set fs"
proof (induction fs arbitrary: s)
  case (Cons f fs)
  then obtain s' where s': "fa_release f s = (Ok (), s')" "fa_inv s'"
    "fa_free s' = insert f (fa_free s)" "fa_owned s' = fa_owned s - {f}"
    using release_ok [of s f] by auto
  moreover have "set fs \<subseteq> fa_owned s'" using Cons.prems s'(4) by auto
  ultimately show ?case using Cons.IH [of s'] Cons.prems by auto
qed simp

lemma alloc_frames_spec:
  assumes "fa_inv s" "distinct got" "set got \<subseteq> fa_owned s"
  shows "if n \<le> card (fa_free s)
    then \<exists>fs s'. alloc_frames fa_alloc fa_release n got s = Some (Some (got @ fs), s') \<and> length fs = n
           \<and> fa_inv s' \<and> distinct (got @ fs) \<and> set fs \<subseteq> fa_free s
           \<and> fa_free s' = fa_free s - set fs \<and> fa_owned s' = fa_owned s \<union> set fs
    else \<exists>s'. alloc_frames fa_alloc fa_release n got s = Some (None, s') \<and> fa_inv s'
           \<and> fa_free s' = fa_free s \<union> set got \<and> fa_owned s' = fa_owned s - set got"
  using assms
proof (induction n arbitrary: got s)
  case (Suc n)
  show ?case
  proof (cases "fa_free s = {}")
    case True
    with Suc.prems show ?thesis using release_frames_spec [of s got] alloc_empty [of s] by simp
  next
    case False
    then obtain a s1 where a: "fa_alloc s = Some (Some a, s1)" "a \<in> fa_free s" "fa_inv s1"
      "fa_free s1 = fa_free s - {a}" "fa_owned s1 = insert a (fa_owned s)"
      using alloc_some [of s] Suc.prems by blast
    have na: "a \<notin> fa_owned s" using free_not_owned [of s] a(2) Suc.prems by auto
    have c: "card (fa_free s) = Suc (card (fa_free s1))"
      using card_Suc_Diff1 [OF free_finite [OF Suc.prems(1)] a(2)] a(4) by simp
    have g: "distinct (got @ [a])" "set (got @ [a]) \<subseteq> fa_owned s1" using Suc.prems na a(5) by auto
    have step: "alloc_frames fa_alloc fa_release (Suc n) got s
        = alloc_frames fa_alloc fa_release n (got @ [a]) s1" using a(1) by simp
    note IH = Suc.IH [OF a(3) g]
    show ?thesis
    proof (cases "n \<le> card (fa_free s1)")
      case True
      with IH obtain fs s' where fs: "alloc_frames fa_alloc fa_release n (got @ [a]) s1 = Some (Some ((got @ [a]) @ fs), s')"
        "length fs = n" "fa_inv s'" "distinct ((got @ [a]) @ fs)" "set fs \<subseteq> fa_free s1"
        "fa_free s' = fa_free s1 - set fs" "fa_owned s' = fa_owned s1 \<union> set fs" by auto
      have "\<exists>fs s'. alloc_frames fa_alloc fa_release (Suc n) got s = Some (Some (got @ fs), s') \<and> length fs = Suc n
           \<and> fa_inv s' \<and> distinct (got @ fs) \<and> set fs \<subseteq> fa_free s
           \<and> fa_free s' = fa_free s - set fs \<and> fa_owned s' = fa_owned s \<union> set fs"
        by (rule exI [of _ "a # fs"], rule exI [of _ s'], unfold step) (use fs a in auto)
      with True c show ?thesis by simp
    next
      case False
      with IH obtain s' where s': "alloc_frames fa_alloc fa_release n (got @ [a]) s1 = Some (None, s')" "fa_inv s'"
        "fa_free s' = fa_free s1 \<union> set (got @ [a])" "fa_owned s' = fa_owned s1 - set (got @ [a])" by auto
      have "\<exists>s'. alloc_frames fa_alloc fa_release (Suc n) got s = Some (None, s') \<and> fa_inv s'
           \<and> fa_free s' = fa_free s \<union> set got \<and> fa_owned s' = fa_owned s - set got"
        by (rule exI [of _ s'], unfold step) (use s' a na in auto)
      with False c show ?thesis by simp
    qed
  qed
qed simp

end

abbreviation addrs :: "nat set \<Rightarrow> nat set" where "addrs F \<equiv> (\<lambda>f. f * 4096) ` F"

interpretation pmm_fa: frame_allocator pmm_inv "\<lambda>p. addrs (frames_in p Free)"
  "\<lambda>p. addrs (frames_in p Allocated)" alloc_frame free_frame
proof
  fix p assume i: "pmm_inv p"
  { assume "addrs (frames_in p Free) = {}"
    then show "alloc_frame p = Some (None, p)"
      using alloc_frame_eq [OF i] first_free_None [of p] by simp }
  { assume "addrs (frames_in p Free) \<noteq> {}"
    then obtain f where f: "first_free p = Some f" using first_free_None [of p] by auto
    then have ff: "f \<in> frames_in p Free" using first_free_Some by blast
    note g = frames_in_grant [OF frame_bound [OF i ff] ff]
    show "\<exists>a s'. alloc_frame p = Some (Some a, s') \<and> a \<in> addrs (frames_in p Free) \<and> pmm_inv s'
        \<and> addrs (frames_in s' Free) = addrs (frames_in p Free) - {a}
        \<and> addrs (frames_in s' Allocated) = insert a (addrs (frames_in p Allocated))"
      using alloc_frame_eq [OF i] f ff grant_inv [OF i ff] g by auto }
  show "addrs (frames_in p Free) \<inter> addrs (frames_in p Allocated) = {}"
    by (auto simp: frames_in_def)
  show "finite (addrs (frames_in p Free))" by simp
next
  fix p a assume i: "pmm_inv p" and "a \<in> addrs (frames_in p Allocated)"
  then obtain f where f: "a = f * 4096" "f \<in> frames_in p Allocated" by auto
  note g = frames_in_release [OF frame_bound [OF i f(2)] f(2)]
  have "free_frame a p = (Ok (), release f p)" using f by (simp add: free_frame_Ok_iff frames_in_def)
  then show "\<exists>s'. free_frame a p = (Ok (), s') \<and> pmm_inv s'
        \<and> addrs (frames_in s' Free) = insert a (addrs (frames_in p Free))
        \<and> addrs (frames_in s' Allocated) = addrs (frames_in p Allocated) - {a}"
    using release_inv [OF i f(2)] g f(1) by auto
qed

section \<open>Initialisation from the inventory\<close>

lemma fold_set_state_frame [simp]:
  "tracked_frames (fold (\<lambda>f. set_state f (st f)) fs pmm) = tracked_frames pmm"
  by (induction fs arbitrary: pmm) simp_all

lemma fold_set_state:
  "\<forall>f\<in>set fs. f < 65536 \<Longrightarrow> distinct fs \<Longrightarrow>
   get_state (fold (\<lambda>f. set_state f (st f)) fs pmm) j = (if j \<in> set fs then st j else get_state pmm j)"
  by (induction fs arbitrary: pmm) auto

lemma set_range_state:
  "tracked_frames pmm \<le> 65536 \<Longrightarrow>
   get_state (set_range a b st pmm) f = (if a \<le> f \<and> f < b \<and> f < tracked_frames pmm then st else get_state pmm f)"
  unfolding set_range_def Let_def by (subst fold_set_state) auto

lemma set_range_frame [simp]: "tracked_frames (set_range a b st pmm) = tracked_frames pmm"
  by (simp add: set_range_def Let_def)

lemma init_default_states_props:
  assumes "tracked_frames pmm \<le> 65536" "\<forall>f. get_state pmm f = Unusable"
  shows "tracked_frames (init_default_states iv pmm) = tracked_frames pmm"
    "\<forall>f. get_state (init_default_states iv pmm) f \<noteq> Free \<and> get_state (init_default_states iv pmm) f \<noteq> Allocated"
  using assms unfolding init_default_states_def by (auto simp: fold_set_state)

lemma mark_reservation_props:
  assumes "foldM mark_reservation rs pmm = Some pmm'" "tracked_frames pmm \<le> 65536"
    "\<forall>f. get_state pmm f \<noteq> Free \<and> get_state pmm f \<noteq> Allocated"
  shows "tracked_frames pmm' = tracked_frames pmm \<and> (\<forall>f. get_state pmm' f \<noteq> Free \<and> get_state pmm' f \<noteq> Allocated)"
proof -
  have "tracked_frames pmm' = tracked_frames pmm \<and> tracked_frames pmm' \<le> 65536
      \<and> (\<forall>f. get_state pmm' f \<noteq> Free \<and> get_state pmm' f \<noteq> Allocated)"
    by (rule foldM_invariant [OF assms(1)])
       (use assms(2,3) in \<open>auto simp: mark_reservation_def set_range_state split: Option.bind_splits if_splits\<close>)
  then show ?thesis by simp
qed

lemma mark_reservation_reserves:
  "foldM mark_reservation rs pmm = Some pmm' \<Longrightarrow> tracked_frames pmm \<le> 65536 \<Longrightarrow> f < tracked_frames pmm \<Longrightarrow>
   get_state pmm f = Reserved \<or> (\<exists>r\<in>set rs. res_start r div 4096 \<le> f \<and> f * 4096 < res_end r) \<Longrightarrow> get_state pmm' f = Reserved"
proof (induction rs arbitrary: pmm)
  case (Cons r rs)
  then obtain p1 where p1: "mark_reservation r pmm = Some p1" "foldM mark_reservation rs p1 = Some pmm'"
    by (auto split: Option.bind_splits)
  have p: "p1 = set_range (res_start r div 4096) ((res_end r + 4096 - 1) div 4096) Reserved pmm"
    using p1(1) by (auto simp: mark_reservation_def add64_def split: if_splits)
  have "f * 4096 < res_end r \<Longrightarrow> f < (res_end r + 4096 - 1) div 4096" by linarith
  then show ?case using Cons.prems by (intro Cons.IH [OF p1(2)]) (auto simp: p set_range_state)
qed simp

lemma promote_props:
  "tracked_frames pmm \<le> 65536 \<Longrightarrow>
   tracked_frames (fold promote_candidate cs pmm) = tracked_frames pmm
   \<and> get_state (fold promote_candidate cs pmm) f =
       (if f < tracked_frames pmm \<and> (\<exists>c\<in>set cs. r_start c div 4096 \<le> f \<and> f < r_end c div 4096)
        then Free else get_state pmm f)"
  by (induction cs arbitrary: pmm) (auto simp: promote_candidate_def set_range_state)

lemma all_ones_unusable: "get_state (pmm\<lparr>bitmap := (\<lambda>w. if w < BITMAP_WORDS then NOT 0 else bitmap pmm w)\<rparr>) f = Unusable"
proof (cases "f < 65536")
  case True
  then have w: "f div 32 < 2048" by (simp add: div_less_iff_less_mult)
  have "2 * (f mod 32) < 64" "2 * (f mod 32) + 1 < 64" by auto
  then show ?thesis using w by (simp add: get_state_bits [OF True] state_of_def bit_not_iff)
qed (simp add: get_state_def)

definition candidate_frames :: "PhysicalMemoryInventory \<Rightarrow> nat set" where
  "candidate_frames iv = {f. \<exists>c\<in>set (frame_candidates iv). r_start c div 4096 \<le> f \<and> f < r_end c div 4096}"

lemma init_from_inventory_spec:
  assumes "init_from_inventory iv pmm = Some (Ok (), pmm')"
  shows "pmm_inv pmm'" "frames_in pmm' Allocated = {}"
    "frames_in pmm' Free = candidate_frames iv \<inter> {..<tracked_frames pmm'}"
    "tracked_frames pmm' = (max_ram_addr iv + 4095) div 4096"
    "\<And>f r. r \<in> set (reservations iv) \<Longrightarrow> res_start r div 4096 \<le> f \<Longrightarrow> f * 4096 < res_end r \<Longrightarrow> f \<notin> candidate_frames iv \<Longrightarrow>
       f < tracked_frames pmm' \<Longrightarrow> get_state pmm' f = Reserved"
proof -
  let ?p0 = "pmm\<lparr>bitmap := (\<lambda>w. if w < BITMAP_WORDS then NOT 0 else bitmap pmm w)\<rparr>"
  let ?n = "(max_ram_addr iv + 4096 - 1) div 4096"
  let ?p1 = "init_default_states iv (?p0\<lparr>tracked_frames := ?n\<rparr>)"
  obtain p2 where n: "?n \<le> 65536" and p2: "foldM mark_reservation (reservations iv) ?p1 = Some p2"
    and pmm': "pmm' = (fold promote_candidate (frame_candidates iv) p2)
      \<lparr>free_frames := card (frames_in (fold promote_candidate (frame_candidates iv) p2) Free),
       allocated_frames := card (frames_in (fold promote_candidate (frame_candidates iv) p2) Allocated),
       reserved_frames := card (frames_in (fold promote_candidate (frame_candidates iv) p2) Reserved),
       unusable_frames := card (frames_in (fold promote_candidate (frame_candidates iv) p2) Unusable),
       initialized := True\<rparr>"
    using assms unfolding init_from_inventory_def
    by (auto simp: Let_def add64_def count_states_eq not_less split: if_splits Option.bind_splits sum.splits)
  let ?q = "fold promote_candidate (frame_candidates iv) p2"
  have 1: "tracked_frames ?p1 = ?n" "\<forall>f. get_state ?p1 f \<noteq> Free \<and> get_state ?p1 f \<noteq> Allocated"
    using init_default_states_props [of "?p0\<lparr>tracked_frames := ?n\<rparr>" iv] n all_ones_unusable [of pmm]
    by simp_all
  have 2: "tracked_frames p2 = ?n" "\<forall>f. get_state p2 f \<noteq> Free \<and> get_state p2 f \<noteq> Allocated"
    using mark_reservation_props [OF p2] 1 n by auto
  have q: "tracked_frames ?q = ?n" "get_state ?q f =
       (if f < ?n \<and> (\<exists>c\<in>set (frame_candidates iv). r_start c div 4096 \<le> f \<and> f < r_end c div 4096)
        then Free else get_state p2 f)" for f
    using promote_props [of p2 "frame_candidates iv" f] 2(1) n by simp_all
  have fr: "frames_in pmm' st = frames_in ?q st" for st by (simp add: frames_in_def pmm')
  show "pmm_inv pmm'" using q(1) n unfolding pmm_inv_def verify_invariants_iff fr by (simp add: pmm')
  show "tracked_frames pmm' = (max_ram_addr iv + 4095) div 4096" using q(1) by (simp add: pmm')
  have g: "get_state p2 f \<noteq> Free" "get_state p2 f \<noteq> Allocated" for f using 2(2) by auto
  have gs: "get_state pmm' f = get_state ?q f" for f by (simp add: pmm')
  have tr: "tracked_frames pmm' = ?n" using q(1) by (simp add: pmm')
  show "frames_in pmm' Allocated = {}"
    unfolding frames_in_def tr gs q(2) using g by (auto split: if_splits)
  show "frames_in pmm' Free = candidate_frames iv \<inter> {..<tracked_frames pmm'}"
    unfolding frames_in_def tr gs q(2) candidate_frames_def using g by auto
  show "get_state pmm' f = Reserved"
    if "r \<in> set (reservations iv)" "res_start r div 4096 \<le> f" "f * 4096 < res_end r" "f \<notin> candidate_frames iv" "f < tracked_frames pmm'" for f r
    using that mark_reservation_reserves [OF p2, of f] 1(1) n unfolding gs q(2) tr candidate_frames_def by auto
qed

lemma init_from_inventory_total:
  assumes "frame_candidates iv \<noteq> []" "max_ram_addr iv + 4096 \<le> U64_MAX" "(max_ram_addr iv + 4095) div 4096 \<le> 65536"
    "\<forall>r\<in>set (reservations iv). res_end r + 4096 \<le> U64_MAX"
  shows "\<exists>pmm'. init_from_inventory iv pmm = Some (Ok (), pmm')"
proof -
  have m: "\<exists>p'. foldM mark_reservation (reservations iv) p = Some p'" for p
    using foldM_total [of "\<lambda>_. True" p "reservations iv" mark_reservation] assms(4)
    by (auto simp: mark_reservation_def add64_def)
  let ?n = "(max_ram_addr iv + 4096 - 1) div 4096"
  let ?p = "init_default_states iv (pmm\<lparr>bitmap := (\<lambda>w. if w < BITMAP_WORDS then NOT 0 else bitmap pmm w),
      tracked_frames := ?n\<rparr>)"
  obtain p' where p': "foldM mark_reservation (reservations iv) ?p = Some p'" using m by blast
  let ?q = "fold promote_candidate (frame_candidates iv) p'"
  have v: "verify_invariants (?q\<lparr>free_frames := card (frames_in ?q Free), allocated_frames := card (frames_in ?q Allocated),
      reserved_frames := card (frames_in ?q Reserved), unusable_frames := card (frames_in ?q Unusable),
      initialized := True\<rparr>) = Ok ()"
    unfolding verify_invariants_iff by (simp add: frames_in_def)
  show ?thesis
    using assms(1-3) p' v
    by (simp add: init_from_inventory_def Let_def add64_def count_states_eq)
qed

section \<open>Reachable states\<close>

inductive pmm_reach :: "PhysicalMemoryManager \<Rightarrow> PhysicalMemoryManager \<Rightarrow> bool" for p0 where
  start: "pmm_reach p0 p0"
| alloc: "pmm_reach p0 p \<Longrightarrow> alloc_frame p = Some (r, p') \<Longrightarrow> pmm_reach p0 p'"
| free: "pmm_reach p0 p \<Longrightarrow> free_frame a p = (r, p') \<Longrightarrow> pmm_reach p0 p'"

definition pool :: "PhysicalMemoryManager \<Rightarrow> nat set" where
  "pool p = frames_in p Free \<union> frames_in p Allocated"

lemma free_frame_cases:
  "free_frame a p = (r, p') \<Longrightarrow> p' = p \<or> (r = Ok () \<and> free_frame a p = (Ok (), p'))"
  by (auto simp: free_frame_def Let_def split: FrameState.splits if_splits)

lemma pmm_reach_inv:
  "pmm_reach p0 p \<Longrightarrow> pmm_inv p0 \<Longrightarrow> pmm_inv p \<and> pool p = pool p0"
proof (induction rule: pmm_reach.induct)
  case (alloc p r p')
  then have i: "pmm_inv p" and po: "pool p = pool p0" by simp_all
  show ?case
  proof (cases "first_free p")
    case None
    then show ?thesis using alloc.hyps(2) alloc_frame_eq [OF i] i po by simp
  next
    case (Some f)
    then have ff: "f \<in> frames_in p Free" using first_free_Some by blast
    note g = frames_in_grant [OF frame_bound [OF i ff] ff]
    from Some have "p' = grant f p" using alloc.hyps(2) alloc_frame_eq [OF i] by simp
    then show ?thesis using grant_inv [OF i ff] g ff po by (auto simp: pool_def)
  qed
next
  case (free p a r p')
  then have i: "pmm_inv p" and po: "pool p = pool p0" by simp_all
  from free_frame_cases [OF free.hyps(2)] consider "p' = p" | "free_frame a p = (Ok (), p')" by blast
  then show ?case
  proof cases
    case 2
    then have ff: "a div 4096 \<in> frames_in p Allocated" and p': "p' = release (a div 4096) p"
      by (simp_all add: free_frame_Ok_iff frames_in_def)
    note g = frames_in_release [OF frame_bound [OF i ff] ff]
    show ?thesis using release_inv [OF i ff] g ff po p' by (auto simp: pool_def)
  qed (use i po in simp)
qed simp

section \<open>Properties\<close>

lemma first_freeI:
  "f \<in> frames_in pmm Free \<Longrightarrow> (\<And>g. g \<in> frames_in pmm Free \<Longrightarrow> f \<le> g) \<Longrightarrow> first_free pmm = Some f"
  unfolding first_free_def find_upt_Some_iff frames_in_def
  by (metis (mono_tags, lifting) mem_Collect_eq not_le order_less_trans)

lemma get_state_grant: "f < 65536 \<Longrightarrow> get_state (grant f pmm) j = (if j = f then Allocated else get_state pmm j)"
  by (simp add: grant_def)

lemma get_state_release: "f < 65536 \<Longrightarrow> get_state (release f pmm) j = (if j = f then Free else get_state pmm j)"
  by (simp add: release_def)

lemma counters_grant [simp]:
  "tracked_frames (grant f pmm) = tracked_frames pmm" "free_frames (grant f pmm) = free_frames pmm - 1"
  "allocated_frames (grant f pmm) = allocated_frames pmm + 1"
  by (simp_all add: grant_def)

lemma counters_release [simp]:
  "tracked_frames (release f pmm) = tracked_frames pmm" "free_frames (release f pmm) = free_frames pmm + 1"
  "allocated_frames (release f pmm) = allocated_frames pmm - 1"
  by (simp_all add: release_def)

lemma free_frame_owned:
  "f \<in> frames_in p Allocated \<Longrightarrow> free_frame (f * 4096) p = (Ok (), release f p)"
  by (simp add: free_frame_Ok_iff frames_in_def)

text \<open>C9: \<open>alloc_frame\<close> returns the lowest-numbered free frame. In every state that satisfies the
  manager's own \<open>verify_invariants\<close>, allocation does not panic; it returns \<open>None\<close> only when no
  tracked frame is free, and otherwise the page-aligned address of the lowest free frame, whose
  state alone changes, to Allocated; the counters still match the bitmap afterwards. The word
  scan with its bit-mask reject is thereby equivalent to a plain first-free search.\<close>

theorem alloc_frame_first_free:
  assumes "pmm_inv pmm"
  shows "\<exists>r pmm'. alloc_frame pmm = Some (r, pmm') \<and> pmm_inv pmm'
    \<and> (case r of
         None \<Rightarrow> pmm' = pmm \<and> frames_in pmm Free = {}
       | Some a \<Rightarrow> \<exists>f. a = f * PAGE_SIZE \<and> f \<in> frames_in pmm Free \<and> (\<forall>g\<in>frames_in pmm Free. f \<le> g)
           \<and> (\<forall>j. get_state pmm' j = (if j = f then Allocated else get_state pmm j)))"
proof (cases "first_free pmm")
  case None
  then show ?thesis using alloc_frame_eq [OF assms] assms first_free_None [of pmm] by simp
next
  case (Some f)
  note f = first_free_Some [OF Some]
  have "f < 65536" using frame_bound [OF assms] f by blast
  then show ?thesis
    using alloc_frame_eq [OF assms] Some f grant_inv [OF assms] get_state_grant [of f pmm] by auto
qed

definition demo_pmm :: PhysicalMemoryManager where
  "demo_pmm = \<lparr>bitmap = (\<lambda>w. if w = 0 then 0x42 else NOT 0), tracked_frames = 4, free_frames = 2,
     allocated_frames = 1, reserved_frames = 1, unusable_frames = 0, initialized = True\<rparr>"

lemma demo_pmm_states:
  "tracked_frames demo_pmm = 4" "get_state demo_pmm 0 = Reserved" "get_state demo_pmm 1 = Free"
  "get_state demo_pmm 2 = Free" "get_state demo_pmm 3 = Allocated"
  by (simp_all add: demo_pmm_def get_state_bits state_of_def)

lemma demo_pmm_frames:
  "frames_in demo_pmm Free = {1, 2}" "frames_in demo_pmm Allocated = {3}"
  "frames_in demo_pmm Reserved = {0}" "frames_in demo_pmm Unusable = {}"
proof -
  have "f < 4 \<longleftrightarrow> f \<in> {0, 1, 2, 3}" for f :: nat by auto
  then have "frames_in demo_pmm st = {f \<in> {0, 1, 2, 3}. get_state demo_pmm f = st}" for st
    by (simp add: frames_in_def demo_pmm_states(1))
  then show "frames_in demo_pmm Free = {1, 2}" "frames_in demo_pmm Allocated = {3}"
    "frames_in demo_pmm Reserved = {0}" "frames_in demo_pmm Unusable = {}"
    using demo_pmm_states(2-5) by (auto simp del: One_nat_def intro!: gr0I)
qed

lemma demo_pmm_inv: "pmm_inv demo_pmm"
  unfolding pmm_inv_def verify_invariants_iff demo_pmm_frames by (simp add: demo_pmm_def)

theorem alloc_frame_first_free_witness:
  "\<exists>r pmm'. alloc_frame demo_pmm = Some (r, pmm') \<and> pmm_inv pmm' \<and> r = Some 4096"
  using alloc_frame_first_free [OF demo_pmm_inv] demo_pmm_frames by (auto split: option.splits)

text \<open>C27: \<open>free_frame\<close> accepts exactly the frames that are allocated. A misaligned address, an index
  beyond the tracked range, a free, a reserved and an unusable frame are rejected with their own
  error and leave the manager unchanged; an allocated frame becomes free and nothing else
  changes. The invariant is kept in every case.\<close>

theorem free_frame_spec:
  assumes "pmm_inv pmm"
  shows "case free_frame a pmm of (r, pmm') \<Rightarrow> pmm_inv pmm'
    \<and> r = (if \<not> PAGE_SIZE dvd a then Err FrameMisaligned
           else if a div PAGE_SIZE \<ge> tracked_frames pmm then Err FrameOutOfRange
           else case get_state pmm (a div PAGE_SIZE) of
                  Allocated \<Rightarrow> Ok () | Free \<Rightarrow> Err DoubleFree
                | Reserved \<Rightarrow> Err FrameReserved | Unusable \<Rightarrow> Err FrameUnusable)
    \<and> (if r = Ok () then \<forall>j. get_state pmm' j = (if j = a div PAGE_SIZE then Free else get_state pmm j)
       else pmm' = pmm)"
proof (cases "\<exists>p. free_frame a pmm = (Ok (), p)")
  case True
  then have a: "4096 dvd a" "a div 4096 < tracked_frames pmm" "get_state pmm (a div 4096) = Allocated"
    "free_frame a pmm = (Ok (), release (a div 4096) pmm)" by (auto simp: free_frame_Ok_iff)
  then have "a div 4096 \<in> frames_in pmm Allocated" by (simp add: frames_in_def)
  with frame_bound [OF assms this] release_inv [OF assms this] a show ?thesis
    by (simp add: get_state_release not_le)
next
  case False
  then show ?thesis using assms
    by (auto simp: free_frame_def Let_def dvd_eq_mod_eq_0 split: FrameState.splits)
qed

theorem free_frame_spec_witness:
  "case free_frame (3 * 4096) demo_pmm of (r, pmm') \<Rightarrow> pmm_inv pmm' \<and> r = Ok () \<and> get_state pmm' 3 = Free"
  using free_frame_spec [OF demo_pmm_inv, of "3 * 4096"] demo_pmm_states
  by (auto split: prod.splits if_splits)

section \<open>The boot smoke test\<close>

text \<open>With two free frames, all of them candidates, and frame 0 reserved, every \<open>assert!\<close> and \<open>expect\<close> succeeds;
  with fewer than two the second \<open>expect\<close> panics at the latest.\<close>

lemma run_smoke_test_passes:
  assumes "pmm_inv pmm" "card (frames_in pmm Free) \<ge> 2" "0 < tracked_frames pmm" "get_state pmm 0 = Reserved"
    "\<And>f. f \<in> frames_in pmm Free \<Longrightarrow> is_candidate_address iv (f * PAGE_SIZE)"
  shows "\<exists>pmm'. run_smoke_test iv pmm = Some pmm' \<and> pmm_inv pmm'
    \<and> (\<forall>f. get_state pmm' f = get_state pmm f)"
proof -
  have ne: "frames_in pmm Free \<noteq> {}" using assms(2) by auto
  then obtain a where a: "first_free pmm = Some a" using first_free_None [of pmm] by auto
  note a' = first_free_Some [OF a]
  have al: "a < 65536" using frame_bound [OF assms(1)] a' by blast
  let ?p1 = "grant a pmm"
  note g1 = frames_in_grant [OF al conjunct1 [OF a']]
  have i1: "pmm_inv ?p1" using grant_inv assms(1) a' by blast
  have "frames_in ?p1 Free \<noteq> {}"
    using assms(2) a' unfolding g1 by (metis card.empty card_Suc_Diff1 finite_frames_in not_less_eq_eq numeral_2_eq_2 le0)
  then obtain b where b: "first_free ?p1 = Some b" using first_free_None [of ?p1] by auto
  note b' = first_free_Some [OF b]
  have bl: "b < 65536" using frame_bound [OF i1] b' by blast
  have bF: "b \<in> frames_in pmm Free" "b \<noteq> a" using b' g1(1) by auto
  let ?p2 = "grant b ?p1"
  note g2 = frames_in_grant [OF bl conjunct1 [OF b']]
  have i2: "pmm_inv ?p2" using grant_inv i1 b' by blast
  have a2: "a \<in> frames_in ?p2 Allocated" using g1 g2 by simp
  let ?p3 = "release a ?p2"
  note g3 = frames_in_release [OF al a2]
  have i3: "pmm_inv ?p3" using release_inv [OF i2 a2] .
  have "first_free ?p3 = Some a"
    by (rule first_freeI) (use g1 g2 g3 a' in auto)
  note ff3 = this
  have a3: "a \<in> frames_in ?p3 Free" using g3 by simp
  let ?p4 = "grant a ?p3"
  note g4 = frames_in_grant [OF al a3]
  have i4: "pmm_inv ?p4" using grant_inv [OF i3 a3] .
  have b4: "b \<in> frames_in ?p4 Allocated" using g4 g3 g2 bF(2) by simp
  let ?p5 = "release b ?p4"
  note g5 = frames_in_release [OF bl b4]
  have i5: "pmm_inv ?p5" using release_inv [OF i4 b4] .
  have a5: "a \<in> frames_in ?p5 Allocated" using g5 g4 bF(2) by auto
  let ?p6 = "release a ?p5"
  have i6: "pmm_inv ?p6" using release_inv [OF i5 a5] .
  have st: "get_state ?p6 f = get_state pmm f" for f
    using a' bF al bl by (auto simp: get_state_grant get_state_release frames_in_def)
  have atr: "a < tracked_frames pmm" "a \<noteq> 0" using a' assms(4) by (auto simp: frames_in_def intro: ccontr)
  have df: "free_frame (a * 4096) ?p6 = (Err DoubleFree, ?p6)"
    using st [of a] a' atr by (simp add: free_frame_def frames_in_def)
  have fr: "free_frame 0 ?p6 = (Err FrameReserved, ?p6)"
    using st [of 0] assms(3,4) by (simp add: free_frame_def)
  have fm: "free_frame 0x15D001 ?p6 = (Err FrameMisaligned, ?p6)" by (simp add: free_frame_def)
  have cnt: "free_frames pmm \<ge> 2"
    using assms(1,2) by (simp add: pmm_inv_def verify_invariants_iff)
  have al_a: "alloc_frame pmm = Some (Some (a * 4096), ?p1)" using alloc_frame_eq [OF assms(1)] a by simp
  have al_b: "alloc_frame ?p1 = Some (Some (b * 4096), ?p2)" using alloc_frame_eq [OF i1] b by simp
  have al_c: "alloc_frame ?p3 = Some (Some (a * 4096), ?p4)" using alloc_frame_eq [OF i3] ff3 by simp
  have cand: "is_candidate_address iv (a * 4096)" "is_candidate_address iv (b * 4096)"
    using assms(5) a' bF by auto
  have v: "verify_invariants ?p6 = Ok ()" using i6 by (simp add: pmm_inv_def)
  have "run_smoke_test iv pmm = Some ?p6"
    unfolding run_smoke_test_def Let_def
    using cnt cand v bF(2)
    by (simp add: al_a al_b al_c assert_that_def free_frame_owned [OF a2] free_frame_owned [OF b4]
        free_frame_owned [OF a5] df fr fm)
  with i6 st show ?thesis by blast
qed

lemma run_smoke_test_short:
  assumes "pmm_inv pmm" "card (frames_in pmm Free) < 2"
  shows "run_smoke_test iv pmm = None"
proof (cases "first_free pmm")
  case None
  then show ?thesis using alloc_frame_eq [OF assms(1)] by (simp add: run_smoke_test_def)
next
  case (Some a)
  note a = first_free_Some [OF Some]
  have al: "a < 65536" using frame_bound [OF assms(1)] a by blast
  have "card (frames_in pmm Free - {a}) = 0" using assms(2) a by simp
  then have "frames_in (grant a pmm) Free = {}" using frames_in_grant(1) [OF al conjunct1 [OF a]] by simp
  then have "first_free (grant a pmm) = None" using first_free_None by blast
  then have "alloc_frame (grant a pmm) = Some (None, grant a pmm)" using alloc_frame_eq [OF grant_inv [OF assms(1)]] a by simp
  then show ?thesis using alloc_frame_eq [OF assms(1)] Some by (simp add: run_smoke_test_def Let_def split: Option.bind_splits)
qed

end
