(* ===== verification/Heap.thy ===== *)
theory Heap
  imports Prelude
begin

text \<open>
  \<open>kernel/src/mm/heap.rs\<close>: the first-fit kernel heap. The headers that the code writes into the heap memory
  are a function from addresses; a null pointer is \<open>None\<close> in a link and 0 as a result. The spin lock makes
  each operation atomic. \<open>None\<close> is a panic.
\<close>

section \<open>Data and operations\<close>

definition KERNEL_HEAP_SIZE :: nat where [simp]: "KERNEL_HEAP_SIZE = 512 * 1024"

record BlockHeader =
  b_size :: nat
  is_free :: bool
  b_next :: "nat option"

text \<open>\<open>size_of::<BlockHeader>()\<close>: three words, rounded up to the alignment of 16.\<close>

definition header_size :: nat where [simp]: "header_size = 32"

type_synonym headers = "nat \<Rightarrow> BlockHeader"

record heap =
  hdr :: headers
  heap_start :: nat
  total_allocated :: nat
  alloc_count :: nat
  dealloc_count :: nat

definition new_heap :: "headers \<Rightarrow> heap" where
  "new_heap H = \<lparr>hdr = H, heap_start = 0, total_allocated = 0, alloc_count = 0, dealloc_count = 0\<rparr>"

text \<open>\<open>base\<close> is the address of \<open>HEAP_MEMORY\<close>.\<close>

definition heap_init :: "nat \<Rightarrow> heap \<Rightarrow> heap" where
  "heap_init base h = h\<lparr>heap_start := base,
     hdr := (hdr h)(base := \<lparr>b_size = KERNEL_HEAP_SIZE - header_size, is_free = True, b_next = None\<rparr>)\<rparr>"



definition wrap64 :: "nat \<Rightarrow> nat" where
  "wrap64 n = n mod 2 ^ 64"

definition round_up :: "nat \<Rightarrow> nat \<Rightarrow> nat option" where
  "round_up sz align = do {
     n \<leftarrow> add64 sz align;
     Some (unat ((word_of_nat (n - 1) :: u64) AND NOT (word_of_nat (align - 1))))
   }"

text \<open>The search of \<open>alloc\<close>: the first free block that is large enough.\<close>

partial_function (option) find_fit :: "headers \<Rightarrow> nat \<Rightarrow> nat option \<Rightarrow> nat option option" where
  "find_fit H req c =
     (case c of
        None \<Rightarrow> Some None
      | Some a \<Rightarrow> if is_free (H a) \<and> b_size (H a) \<ge> req then Some (Some a) else find_fit H req (b_next (H a)))"

definition take_block :: "nat \<Rightarrow> nat \<Rightarrow> nat \<Rightarrow> headers \<Rightarrow> headers" where
  "take_block a req used H =
     (let b = H a; remainder = b_size b - used in
      if remainder \<ge> 32
      then (let n = a + header_size + req;
                H = H(n := \<lparr>b_size = remainder, is_free = True, b_next = b_next b\<rparr>)
            in H(a := b\<lparr>b_size := req, b_next := Some n, is_free := False\<rparr>))
      else H(a := b\<lparr>is_free := False\<rparr>))"

definition heap_alloc :: "nat \<Rightarrow> nat \<Rightarrow> heap \<Rightarrow> (nat \<times> heap) option" where
  "heap_alloc sz align h =
     (if heap_start h = 0 then Some (0, h)
      else do {
        req \<leftarrow> round_up sz (max align 16);
        r \<leftarrow> find_fit (hdr h) req (Some (heap_start h));
        case r of
          None \<Rightarrow> Some (0, h)
        | Some a \<Rightarrow> do {
            used \<leftarrow> add64 req header_size;
            let H = take_block a req used (hdr h);
            Some (a + header_size, h\<lparr>hdr := H, total_allocated := wrap64 (total_allocated h + b_size (H a)),
                     alloc_count := wrap64 (alloc_count h + 1)\<rparr>)
          }
      })"

text \<open>The coalescing loop of \<open>dealloc\<close>.\<close>

partial_function (option) coalesce :: "nat option \<Rightarrow> headers \<Rightarrow> headers option" where
  "coalesce c H =
     (case c of
        None \<Rightarrow> Some H
      | Some a \<Rightarrow>
          (case b_next (H a) of
             None \<Rightarrow> coalesce None H
           | Some n \<Rightarrow>
               if is_free (H a) \<and> is_free (H n)
               then do {
                 x \<leftarrow> add64 header_size (b_size (H n));
                 sz \<leftarrow> add64 (b_size (H a)) x;
                 coalesce (Some a) (H(a := (H a)\<lparr>b_size := sz, b_next := b_next (H n)\<rparr>))
               }
               else coalesce (Some n) H))"

definition heap_dealloc :: "nat \<Rightarrow> heap \<Rightarrow> heap option" where
  "heap_dealloc ptr h =
     (if ptr = 0 \<or> heap_start h = 0 then Some h
      else do {
        a \<leftarrow> sub64 ptr header_size;
        let H = (hdr h)(a := (hdr h a)\<lparr>is_free := True\<rparr>);
        let total = wrap64 (total_allocated h + 2 ^ 64 - b_size (H a));
        H \<leftarrow> coalesce (Some (heap_start h)) H;
        Some (h\<lparr>hdr := H, total_allocated := total, dealloc_count := wrap64 (dealloc_count h + 1)\<rparr>)
      })"

section \<open>Rounding\<close>

lemma round_up_eq:
  assumes "align = 2 ^ k" "sz + align \<le> U64_MAX"
  shows "round_up sz align = Some ((sz + align - 1) div align * align)"
proof -
  let ?n = "sz + align - 1"
  have "(2 :: nat) ^ k < 2 ^ 64" using assms by simp
  then have k: "k < 64" by (rule power_less_imp_less_exp [rotated]) simp
  have n: "?n < 2 ^ 64" using assms(2) by simp
  have m: "(word_of_nat (align - 1) :: u64) = mask k" using assms(1) by (simp add: mask_eq_exp_minus_1 of_nat_diff)
  have "(word_of_nat ?n :: u64) AND NOT (mask k) = push_bit k (drop_bit k (word_of_nat ?n))"
    by (rule bit_word_eqI) (auto simp: bit_simps)
  moreover have "unat (push_bit k (drop_bit k (word_of_nat ?n :: u64))) = ?n div 2 ^ k * 2 ^ k"
  proof -
    have u: "unat (drop_bit k (word_of_nat ?n :: u64)) = ?n div 2 ^ k"
      using n unfolding unat_drop_bit_eq by (simp add: drop_bit_eq_div unat_of_nat)
    have le: "?n div 2 ^ k * 2 ^ k \<le> ?n" by simp
    have "?n div 2 ^ k * 2 ^ k < 2 ^ LENGTH(64)" using le_less_trans [OF le n] by simp
    moreover have "push_bit k (drop_bit k (word_of_nat ?n :: u64)) = word_of_nat (?n div 2 ^ k * 2 ^ k)"
      unfolding push_bit_eq_mult u [symmetric] by simp
    ultimately show ?thesis by (metis of_nat_inverse)
  qed
  ultimately have "unat ((word_of_nat ?n :: u64) AND NOT (word_of_nat (align - 1))) = ?n div align * align"
    unfolding m by (simp only: assms(1))
  then show ?thesis using assms(2) by (simp add: round_up_def add64_def)
qed

section \<open>The blocks of the heap\<close>

text \<open>\<open>heap_rep H p a e bs\<close>: from address \<open>a\<close>, reached through link \<open>p\<close>, the blocks \<open>bs\<close> (size and free flag)
  lie one behind the other and end exactly at \<open>e\<close>, each size a multiple of 16.\<close>

fun heap_rep :: "headers \<Rightarrow> nat option \<Rightarrow> nat \<Rightarrow> nat \<Rightarrow> (nat \<times> bool) list \<Rightarrow> bool" where
  "heap_rep H p a e [] \<longleftrightarrow> p = None \<and> a = e"
| "heap_rep H p a e ((n, f) # bs) \<longleftrightarrow> p = Some a \<and> b_size (H a) = n \<and> is_free (H a) = f \<and> 16 dvd n
     \<and> heap_rep H (b_next (H a)) (a + 32 + n) e bs"

fun span :: "(nat \<times> bool) list \<Rightarrow> nat" where
  "span [] = 0"
| "span ((n, f) # bs) = 32 + n + span bs"

lemma span_append [simp]: "span (xs @ ys) = span xs + span ys"
  by (induction xs rule: span.induct) auto

lemma heap_rep_end: "heap_rep H p a e bs \<Longrightarrow> e = a + span bs"
proof (induction bs arbitrary: p a rule: span.induct)
  case (2 n f bs)
  then have "heap_rep H (b_next (H a)) (a + 32 + n) e bs" by simp
  from 2(1) [OF this] show ?case by simp
qed simp

text \<open>The link with which the next block is reached.\<close>

definition link_to :: "nat \<Rightarrow> (nat \<times> bool) list \<Rightarrow> nat option" where
  "link_to a bs = (if bs = [] then None else Some a)"

lemma heap_rep_link: "heap_rep H p a e bs \<Longrightarrow> p = link_to a bs"
  by (cases bs) (auto simp: link_to_def)

lemma heap_rep_cong:
  "heap_rep H p a e bs \<Longrightarrow> (\<And>x. a \<le> x \<Longrightarrow> x < a + span bs \<Longrightarrow> H' x = H x) \<Longrightarrow> heap_rep H' p a e bs"
proof (induction bs arbitrary: p a rule: span.induct)
  case (2 n f bs)
  then have "H' a = H a" by simp
  then show ?case using 2 by simp
qed simp

lemma heap_rep_split:
  "heap_rep H p a e (us @ (n, f) # vs) \<Longrightarrow>
     b_size (H (a + span us)) = n \<and> is_free (H (a + span us)) = f \<and> 16 dvd n
     \<and> b_next (H (a + span us)) = link_to (a + span us + 32 + n) vs \<and> heap_rep H (link_to (a + span us + 32 + n) vs) (a + span us + 32 + n) e vs"
proof (induction us arbitrary: p a rule: span.induct)
  case 1
  then show ?case using heap_rep_link by fastforce
next
  case (2 m g us)
  then have "heap_rep H (b_next (H a)) (a + 32 + m) e (us @ (n, f) # vs)" by simp
  from 2(1) [OF this] show ?case by (simp add: ac_simps)
qed

lemma heap_rep_replace:
  assumes "heap_rep H p a e (us @ xs)" "heap_rep H' (link_to (a + span us) ys) (a + span us) e ys" "ys \<noteq> []" "xs \<noteq> []"
    "\<And>x. a \<le> x \<Longrightarrow> x < a + span us \<Longrightarrow> H' x = H x"
  shows "heap_rep H' p a e (us @ ys)"
  using assms
proof (induction us arbitrary: p a rule: span.induct)
  case 1
  then show ?case using heap_rep_link [of H p a e xs] by (simp add: link_to_def)
next
  case (2 m g us)
  have "H' a = H a" using 2(6) by simp
  moreover have "heap_rep H' (b_next (H a)) (a + 32 + m) e (us @ ys)"
    by (rule 2(1)) (use 2(2-6) in \<open>auto simp: ac_simps\<close>)
  ultimately show ?case using 2(2) by simp
qed

section \<open>Allocation\<close>

definition fits :: "nat \<Rightarrow> nat \<times> bool \<Rightarrow> bool" where
  "fits req b \<longleftrightarrow> snd b \<and> req \<le> fst b"


lemma find_fit_some:
  "heap_rep H p a e (us @ (n, True) # vs) \<Longrightarrow> \<forall>b\<in>set us. \<not> fits req b \<Longrightarrow> req \<le> n \<Longrightarrow> find_fit H req p = Some (Some (a + span us))"
proof (induction us arbitrary: p a rule: span.induct)
  case 1 then show ?case by (simp add: find_fit.simps [of H req "Some a"])
next
  case (2 m f us)
  then have "heap_rep H (b_next (H a)) (a + 32 + m) e (us @ (n, True) # vs)" by simp
  from 2(1) [OF this] show ?case using 2(2-4) by (auto simp: find_fit.simps [of H req "Some a"] fits_def ac_simps)
qed

text \<open>What becomes of a free block of size \<open>n\<close> from which \<open>req\<close> bytes are taken.\<close>

definition taken :: "nat \<Rightarrow> nat \<Rightarrow> (nat \<times> bool) list" where
  "taken req n = (if n - (req + 32) \<ge> 32 then [(req, False), (n - (req + 32), True)] else [(n, False)])"

lemma taken_span: "req \<le> n \<Longrightarrow> span (taken req n) = 32 + n"
  by (simp add: taken_def)

lemma take_block_rep:
  assumes rep: "heap_rep H p a e (us @ (n, True) # vs)" and req: "req \<le> n" "16 dvd req" and A: "A = a + span us"
  shows "heap_rep (take_block A req (req + 32) H) p a e (us @ taken req n @ vs)"
    and "b_size (take_block A req (req + 32) H A) = fst (hd (taken req n))"
proof -
  let ?H = "take_block A req (req + 32) H"
  have s: "b_size (H A) = n" "16 dvd n" "b_next (H A) = link_to (A + 32 + n) vs" "heap_rep H (link_to (A + 32 + n) vs) (A + 32 + n) e vs"
    using heap_rep_split [OF rep] A by simp_all
  show "b_size (?H A) = fst (hd (taken req n))" using s(1) by (simp add: take_block_def taken_def Let_def)
  have out: "?H x = H x" if "x < A \<or> A + 32 + n \<le> x" for x
    using that s(1) by (auto simp: take_block_def Let_def)
  have vs: "heap_rep ?H (link_to (A + 32 + n) vs) (A + 32 + n) e vs" by (rule heap_rep_cong [OF s(4)]) (simp add: out)
  have "heap_rep ?H (link_to A (taken req n @ vs)) A e (taken req n @ vs)"
  proof (cases "n - (req + 32) \<ge> 32")
    case True
    then have n: "A + 32 + req + 32 + (n - (req + 32)) = A + 32 + n" by simp
    have "16 dvd n - (req + 32)" using s(2) req(2) by (intro dvd_diff_nat dvd_add) simp_all
    then show ?thesis using True s(1,3) req(2) vs by (simp add: take_block_def taken_def Let_def link_to_def n ac_simps)
  next
    case False
    then show ?thesis using s vs by (simp add: take_block_def taken_def Let_def link_to_def)
  qed
  then show "heap_rep ?H p a e (us @ taken req n @ vs)"
    using heap_rep_replace [OF rep, of ?H "taken req n @ vs"] out by (simp add: taken_def A)
qed

definition used :: "(nat \<times> bool) list \<Rightarrow> nat" where
  "used bs = sum_list (map fst (filter (\<lambda>b. \<not> snd b) bs))"

lemma used_simps [simp]: "used [] = 0" "used ((n, f) # bs) = (if f then 0 else n) + used bs" "used (xs @ ys) = used xs + used ys"
  by (simp_all add: used_def)

lemma used_le_span: "used bs \<le> span bs"
  by (induction bs rule: span.induct) auto

definition heap_inv :: "nat \<Rightarrow> heap \<Rightarrow> (nat \<times> bool) list \<Rightarrow> bool" where
  "heap_inv base h bs \<longleftrightarrow> heap_start h = base \<and> base \<noteq> 0 \<and> base + KERNEL_HEAP_SIZE \<le> U64_MAX
     \<and> heap_rep (hdr h) (Some base) base (base + KERNEL_HEAP_SIZE) bs \<and> total_allocated h = used bs"

lemma heap_inv_span: "heap_inv base h bs \<Longrightarrow> span bs = KERNEL_HEAP_SIZE"
  using heap_rep_end by (fastforce simp: heap_inv_def)

text \<open>The live allocations: data address and size of every block in use.\<close>

fun allocs :: "nat \<Rightarrow> (nat \<times> bool) list \<Rightarrow> (nat \<times> nat) set" where
  "allocs a [] = {}"
| "allocs a ((n, f) # bs) = (if f then {} else {(a + 32, n)}) \<union> allocs (a + 32 + n) bs"

lemma allocs_append: "allocs a (xs @ ys) = allocs a xs \<union> allocs (a + span xs) ys"
  by (induction xs arbitrary: a rule: span.induct) (auto simp: ac_simps)

lemma allocs_range: "(p, n) \<in> allocs a bs \<Longrightarrow> a + 32 \<le> p \<and> p + n \<le> a + span bs"
  by (induction bs arbitrary: a rule: span.induct) (fastforce split: if_splits)+

lemma allocs_split: "(p, n) \<in> allocs a bs \<Longrightarrow> \<exists>us vs. bs = us @ (n, False) # vs \<and> p = a + span us + 32"
proof (induction bs arbitrary: a rule: span.induct)
  case (2 m f bs)
  show ?case
  proof (cases "(p, n) \<in> allocs (a + 32 + m) bs")
    case True
    then obtain us vs where "bs = us @ (n, False) # vs" "p = a + 32 + m + span us + 32" using 2(1) by blast
    then show ?thesis by - (rule exI [of _ "(m, f) # us"], auto)
  next
    case False
    then have "\<not> f" "p = a + 32" "n = m" using 2(2) by (auto split: if_splits)
    then show ?thesis by - (rule exI [of _ "[]"], auto)
  qed
qed simp


lemma alloc_block:
  assumes inv: "heap_inv base h (us @ (n, True) # vs)" and req: "round_up sz (max align 16) = Some req" "16 dvd req" "req \<le> n"
    "\<forall>b\<in>set us. \<not> fits req b"
  shows "\<exists>h'. heap_alloc sz align h = Some (base + span us + 32, h') \<and> heap_inv base h' (us @ taken req n @ vs)"
proof -
  have i: "heap_start h = base" "base \<noteq> 0" "base + KERNEL_HEAP_SIZE \<le> U64_MAX" "total_allocated h = used (us @ (n, True) # vs)"
    "heap_rep (hdr h) (Some base) base (base + KERNEL_HEAP_SIZE) (us @ (n, True) # vs)" using inv by (simp_all add: heap_inv_def)
  let ?A = "base + span us"
  let ?H = "take_block ?A req (req + 32) (hdr h)"
  have sp: "span us + 32 + n + span vs = KERNEL_HEAP_SIZE" using heap_inv_span [OF inv] by simp
  have f: "find_fit (hdr h) req (Some base) = Some (Some ?A)" by (rule find_fit_some [OF i(5) req(4,3)])
  have u: "add64 req 32 = Some (req + 32)" using sp i(3) req(3) by (simp add: add64_def)
  note t = take_block_rep [OF i(5) req(3,2) refl]
  have us: "used (us @ taken req n @ vs) = used (us @ (n, True) # vs) + fst (hd (taken req n))" by (simp add: taken_def)
  have "used (us @ taken req n @ vs) \<le> KERNEL_HEAP_SIZE"
    using used_le_span [of "us @ taken req n @ vs"] taken_span [OF req(3)] sp by simp
  then have w: "wrap64 (total_allocated h + b_size (?H ?A)) = used (us @ taken req n @ vs)"
    using us t(2) i(4) by (simp add: wrap64_def)
  let ?h = "h\<lparr>hdr := ?H, total_allocated := used (us @ taken req n @ vs), alloc_count := wrap64 (alloc_count h + 1)\<rparr>"
  have "heap_alloc sz align h = Some (?A + 32, ?h)"
    using i(1,2) req(1) f u w by (simp add: heap_alloc_def Let_def)
  moreover have "heap_inv base ?h (us @ taken req n @ vs)" using i(1-3) t(1) by (simp add: heap_inv_def)
  ultimately show ?thesis by blast
qed


section \<open>Release\<close>

function merge :: "(nat \<times> bool) list \<Rightarrow> (nat \<times> bool) list" where
  "merge (b # c # bs) = (if snd b \<and> snd c then merge ((fst b + 32 + fst c, True) # bs) else b # merge (c # bs))"
| "merge [b] = [b]"
| "merge [] = []"
  by pat_completeness auto
termination by (relation "measure length") auto

lemma span_Cons [simp]: "span (b # bs) = 32 + fst b + span bs"
  by (cases b) simp

lemma allocs_Cons: "allocs a (b # bs) = (if snd b then {} else {(a + 32, fst b)}) \<union> allocs (a + 32 + fst b) bs"
  by (cases b) simp

lemma used_Cons: "used (b # bs) = (if snd b then 0 else fst b) + used bs"
  by (cases b) simp

lemma merge_span [simp]: "span (merge bs) = span bs"
  by (induction bs rule: merge.induct) auto

lemma merge_used [simp]: "used (merge bs) = used bs"
  by (induction bs rule: merge.induct) (auto simp: used_Cons)

lemma merge_allocs [simp]: "allocs a (merge bs) = allocs a bs"
  by (induction bs arbitrary: a rule: merge.induct) (simp_all add: allocs_Cons ac_simps del: allocs.simps)

fun no_adjacent_free :: "(nat \<times> bool) list \<Rightarrow> bool" where
  "no_adjacent_free (b # c # bs) \<longleftrightarrow> \<not> (snd b \<and> snd c) \<and> no_adjacent_free (c # bs)"
| "no_adjacent_free bs \<longleftrightarrow> True"

lemma merge_hd: "merge (b # bs) \<noteq> [] \<and> snd (hd (merge (b # bs))) = snd b"
  by (induction "b # bs" arbitrary: b bs rule: merge.induct) auto

lemma merge_no_adjacent: "no_adjacent_free (merge bs)"
proof (induction bs rule: merge.induct)
  case (1 b c bs)
  show ?case
  proof (cases "snd b \<and> snd c")
    case True then show ?thesis using 1(1) by simp
  next
    case False
    then have "no_adjacent_free (merge (c # bs))" using 1(2) by simp
    moreover obtain d ds where "merge (c # bs) = d # ds" "snd d = snd c" using merge_hd [of c bs] by (cases "merge (c # bs)") auto
    ultimately show ?thesis using False by auto
  qed
qed simp_all

lemma heap_rep_Cons:
  "heap_rep H p a e (b # bs) \<longleftrightarrow> p = Some a \<and> b_size (H a) = fst b \<and> is_free (H a) = snd b \<and> 16 dvd fst b
     \<and> heap_rep H (b_next (H a)) (a + 32 + fst b) e bs"
  by (cases b) simp

lemma coalesce_rep:
  assumes "heap_rep H p a e bs" "e \<le> U64_MAX"
  shows "\<exists>H'. coalesce p H = Some H' \<and> heap_rep H' p a e (merge bs) \<and> (\<forall>x<a. H' x = H x)"
  using assms
proof (induction bs arbitrary: H p a rule: merge.induct)
  case (1 b c bs)
  let ?n = "a + 32 + fst b"
  have r: "p = Some a" "b_size (H a) = fst b" "is_free (H a) = snd b" "16 dvd fst b" "b_next (H a) = Some ?n"
    "b_size (H ?n) = fst c" "is_free (H ?n) = snd c" "16 dvd fst c" "heap_rep H (b_next (H ?n)) (?n + 32 + fst c) e bs"
    using 1(3) unfolding heap_rep_Cons by auto
  have tail: "heap_rep H (Some ?n) ?n e (c # bs)" using r by (simp add: heap_rep_Cons)
  show ?case
  proof (cases "snd b \<and> snd c")
    case True
    let ?s = "fst b + 32 + fst c"
    let ?H = "H(a := (H a)\<lparr>b_size := ?s, b_next := b_next (H ?n)\<rparr>)"
    have "e = a + span (b # c # bs)" by (rule heap_rep_end [OF 1(3)])
    then have ad: "add64 header_size (fst c) = Some (32 + fst c)" "add64 (fst b) (32 + fst c) = Some ?s"
      using 1(4) by (auto simp: add64_def)
    have "heap_rep ?H (b_next (H ?n)) (?n + 32 + fst c) e bs" by (rule heap_rep_cong [OF r(9)]) auto
    moreover have "?n + 32 + fst c = a + 32 + ?s" by simp
    moreover have "16 dvd ?s" using r(4,8) by (intro dvd_add) simp_all
    ultimately have h: "heap_rep ?H (Some a) a e ((?s, True) # bs)" using True r(3) by (simp add: ac_simps)
    have "coalesce p H = coalesce (Some a) ?H"
      using True r ad by (simp add: coalesce.simps [of "Some a" H] r(1))
    moreover obtain H' where "coalesce (Some a) ?H = Some H'" "heap_rep H' (Some a) a e (merge ((?s, True) # bs))" "\<forall>x<a. H' x = ?H x"
      using 1(1) [OF True h 1(4)] by blast
    ultimately show ?thesis using True r(1) by (intro exI [of _ H']) simp
  next
    case False
    have "coalesce p H = coalesce (Some ?n) H" using False r by (auto simp: coalesce.simps [of "Some a" H])
    moreover obtain H' where h: "coalesce (Some ?n) H = Some H'" "heap_rep H' (Some ?n) ?n e (merge (c # bs))" "\<forall>x<?n. H' x = H x"
      using 1(2) [OF False tail 1(4)] by blast
    moreover have "H' a = H a" using h(3) by simp
    ultimately show ?thesis using False r by (auto simp: heap_rep_Cons)
  qed
next
  case (2 b)
  then have "p = Some a" "b_next (H a) = None" by (auto simp: heap_rep_Cons)
  then show ?case using 2 by (simp add: coalesce.simps [of "Some a" H] coalesce.simps [of None H])
next
  case 3
  then show ?case by (simp add: coalesce.simps [of None H])
qed

lemma dealloc_block:
  assumes inv: "heap_inv base h (us @ (n, False) # vs)"
  shows "\<exists>h'. heap_dealloc (base + span us + 32) h = Some h' \<and> heap_inv base h' (merge (us @ (n, True) # vs))"
proof -
  have i: "heap_start h = base" "base \<noteq> 0" "base + KERNEL_HEAP_SIZE \<le> U64_MAX" "total_allocated h = used us + n + used vs"
    "heap_rep (hdr h) (Some base) base (base + KERNEL_HEAP_SIZE) (us @ (n, False) # vs)" using inv by (simp_all add: heap_inv_def)
  let ?A = "base + span us"
  let ?H = "(hdr h)(?A := (hdr h ?A)\<lparr>is_free := True\<rparr>)"
  note s = heap_rep_split [OF i(5)]
  have "heap_rep ?H (link_to (?A + 32 + n) vs) (?A + 32 + n) (base + KERNEL_HEAP_SIZE) vs"
    by (rule heap_rep_cong [of "hdr h"]) (use s in auto)
  then have "heap_rep ?H (link_to ?A ((n, True) # vs)) ?A (base + KERNEL_HEAP_SIZE) ((n, True) # vs)"
    using s by (simp add: link_to_def)
  then have r: "heap_rep ?H (Some base) base (base + KERNEL_HEAP_SIZE) (us @ (n, True) # vs)"
    by (rule heap_rep_replace [OF i(5)]) simp_all
  obtain H' where c: "coalesce (Some base) ?H = Some H'" "heap_rep H' (Some base) base (base + KERNEL_HEAP_SIZE) (merge (us @ (n, True) # vs))"
    using coalesce_rep [OF r i(3)] by blast
  have "used (us @ (n, False) # vs) \<le> KERNEL_HEAP_SIZE" using used_le_span [of "us @ (n, False) # vs"] heap_inv_span [OF inv] by simp
  then have lt: "used us + used vs < 2 ^ 64" by simp
  have "total_allocated h + 2 ^ 64 - b_size (?H ?A) = (used us + used vs) + 2 ^ 64" using i(4) s by simp
  then have w: "wrap64 (total_allocated h + 2 ^ 64 - b_size (?H ?A)) = used us + used vs"
    unfolding wrap64_def using lt by (simp only: mod_add_self2 mod_less)
  let ?h = "h\<lparr>hdr := H', total_allocated := used us + used vs, dealloc_count := wrap64 (dealloc_count h + 1)\<rparr>"
  have "heap_dealloc (?A + 32) h = Some ?h"
    using i(1,2) c(1) w by (simp add: heap_dealloc_def sub64_def Let_def)
  moreover have "heap_inv base ?h (merge (us @ (n, True) # vs))" using i(1-3) c(2) by (simp add: heap_inv_def)
  ultimately show ?thesis by blast
qed

lemma allocs_delete:
  "allocs a (us @ (n, True) # vs) = allocs a (us @ (n, False) # vs) - {(a + span us + 32, n)}"
  using allocs_range [of "a + span us + 32" n a us] allocs_range [of "a + span us + 32" n "a + span us + 32 + n" vs]
  by (auto simp: allocs_append)

lemma allocs_empty: "allocs a bs = {} \<Longrightarrow> no_adjacent_free bs \<Longrightarrow> bs \<noteq> [] \<Longrightarrow> bs = [(span bs - 32, True)]"
  by (induction bs arbitrary: a rule: no_adjacent_free.induct) (auto simp: allocs_Cons split: if_splits)


section \<open>Properties\<close>


text \<open>C23: releasing an allocation frees exactly it and leaves no fragmentation behind. The release of a
  live allocation terminates without a panic; the live allocations are then the other ones, where they
  were; no two neighbouring blocks are free; and when it was the last allocation, the heap is again the
  single free block it was after initialisation.\<close>

theorem heap_dealloc_exact:
  assumes inv: "heap_inv base h bs" and p: "(p, n) \<in> allocs base bs"
  shows "\<exists>h' bs'. heap_dealloc p h = Some h' \<and> heap_inv base h' bs' \<and> allocs base bs' = allocs base bs - {(p, n)}
    \<and> no_adjacent_free bs' \<and> (allocs base bs = {(p, n)} \<longrightarrow> bs' = [(KERNEL_HEAP_SIZE - header_size, True)])"
proof -
  obtain us vs where b: "bs = us @ (n, False) # vs" "p = base + span us + 32" using allocs_split [OF p] by blast
  let ?bs = "merge (us @ (n, True) # vs)"
  obtain h' where h': "heap_dealloc p h = Some h'" "heap_inv base h' ?bs" using dealloc_block inv b by blast
  have a: "allocs base ?bs = allocs base bs - {(p, n)}" using allocs_delete [of base us n vs] b by simp
  have na: "no_adjacent_free ?bs" by (rule merge_no_adjacent)
  have "?bs = [(KERNEL_HEAP_SIZE - header_size, True)]" if "allocs base bs = {(p, n)}"
  proof -
    have "?bs \<noteq> []" using h'(2) by (cases ?bs) (simp_all add: heap_inv_def)
    moreover have "allocs base ?bs = {}" using a that by simp
    ultimately have "?bs = [(span ?bs - 32, True)]" using allocs_empty na by blast
    then show ?thesis unfolding heap_inv_span [OF h'(2)] header_size_def .
  qed
  then show ?thesis using h' a na by blast
qed

lemma heap_init_inv:
  "base \<noteq> 0 \<Longrightarrow> base + KERNEL_HEAP_SIZE \<le> U64_MAX \<Longrightarrow>
     heap_inv base (heap_init base (new_heap H)) [(KERNEL_HEAP_SIZE - header_size, True)]"
  by (simp add: heap_inv_def heap_init_def new_heap_def)

text \<open>C37: alignments above 16 are not honoured. The request is only rounded up in size, and the data
  address is always the block address plus the header size: the first allocation after initialisation
  is at the base plus 32 whatever its alignment, so with a page-aligned base a request for a larger
  alignment gets an address that is not a multiple of it.\<close>

theorem heap_alignment_ignored:
  assumes "base \<noteq> 0" "4096 dvd base" "base + KERNEL_HEAP_SIZE \<le> U64_MAX" "5 < k" "k \<le> 12" "0 < sz" "sz \<le> 4096"
  shows "\<exists>h'. heap_alloc sz (2 ^ k) (heap_init base (new_heap H)) = Some (base + 32, h') \<and> \<not> 2 ^ k dvd base + 32"
proof -
  have k: "(64 :: nat) \<le> 2 ^ k" "(2 :: nat) ^ k \<le> 4096"
    using power_increasing [of 6 k "2 :: nat"] power_increasing [of k 12 "2 :: nat"] assms(4,5) by simp_all
  let ?req = "(sz + 2 ^ k - 1) div 2 ^ k * 2 ^ k"
  have r: "round_up sz (max (2 ^ k) 16) = Some ?req" using round_up_eq [of "2 ^ k" k sz] k assms(7) by simp
  have "(16 :: nat) dvd 2 ^ k" using le_imp_power_dvd [of 4 k "2 :: nat"] assms(4) by simp
  then have d: "16 dvd ?req" by (rule dvd_mult)
  have le: "?req \<le> sz + 2 ^ k - 1" by simp
  have "sz + 2 ^ k - 1 \<le> KERNEL_HEAP_SIZE - header_size" using k(2) assms(7) by simp
  with le have rq: "?req \<le> KERNEL_HEAP_SIZE - header_size" by (rule le_trans)
  have "heap_inv base (heap_init base (new_heap H)) ([] @ (KERNEL_HEAP_SIZE - header_size, True) # [])"
    using heap_init_inv [OF assms(1,3)] by simp
  from alloc_block [OF this r d rq] obtain h' where "heap_alloc sz (2 ^ k) (heap_init base (new_heap H)) = Some (base + 32, h')"
    by auto
  moreover have "\<not> 2 ^ k dvd base + 32"
  proof
    assume "2 ^ k dvd base + 32"
    moreover have "(64 :: nat) dvd 2 ^ k" using le_imp_power_dvd [of 6 k "2 :: nat"] assms(4) by simp
    ultimately have "64 dvd base + 32" using dvd_trans by blast
    moreover have "64 dvd base" using assms(2) by (rule dvd_trans [rotated]) simp
    ultimately show False by (simp add: dvd_add_right_iff)
  qed
  ultimately show ?thesis by blast
qed

section \<open>Concrete heaps\<close>

definition demo_heap :: heap where
  "demo_heap = heap_init 0x100000 (new_heap (\<lambda>_. \<lparr>b_size = 0, is_free = False, b_next = None\<rparr>))"

lemma demo_heap_inv: "heap_inv 0x100000 demo_heap [(KERNEL_HEAP_SIZE - header_size, True)]"
  unfolding demo_heap_def by (rule heap_init_inv) simp_all


theorem heap_dealloc_exact_witness:
  "\<exists>h h'. heap_alloc 100 8 demo_heap = Some (0x100020, h) \<and> heap_dealloc 0x100020 h = Some h'
     \<and> heap_inv 0x100000 h' [(KERNEL_HEAP_SIZE - header_size, True)]"
proof -
  have r: "round_up 100 (max 8 16) = Some 112" using round_up_eq [of 16 4 100] by simp
  obtain h where h: "heap_alloc 100 8 demo_heap = Some (0x100020, h)" "heap_inv 0x100000 h (taken 112 524256)"
    using alloc_block [where us = "[]" and vs = "[]" and req = 112 and n = 524256 and h = demo_heap and base = "0x100000", OF _ r]
      demo_heap_inv by auto
  have a: "allocs 0x100000 (taken 112 524256) = {(0x100020, 112)}" by (simp add: taken_def)
  then have "(0x100020, 112) \<in> allocs 0x100000 (taken 112 524256)" by simp
  from heap_dealloc_exact [OF h(2) this] show ?thesis using h(1) a by auto
qed

theorem heap_alignment_ignored_witness:
  "\<exists>h'. heap_alloc 100 (2 ^ 12) demo_heap = Some (0x100020, h') \<and> \<not> 2 ^ 12 dvd (0x100020 :: nat)"
  using heap_alignment_ignored [of "0x100000" 12 100 "\<lambda>_. \<lparr>b_size = 0, is_free = False, b_next = None\<rparr>"]
  by (simp add: demo_heap_def)

end
