(* ===== verification/IpcTypes.thy ===== *)
theory IpcTypes
  imports Prelude
begin

text \<open>
  \<open>kernel/src/ipc/types.rs\<close> and the rights masks of \<open>kernel/src/cap/types.rs\<close>: error codes, rights,
  signals and the fixed-size IPC message.
\<close>

datatype IpcError =
    InvalidHandle | BadHandleGeneration | PermissionDenied | ObjectTableFull | ChannelTableFull
  | ShmTableFull | MappingTableFull | HandleTableFull | ObjectIdExhausted | InvalidProcess
  | InvalidEndpoint | EndpointClosed | PeerClosedErr | WouldBlock | ConcurrentOperation
  | BadMessageSize | BadAlignment | InvalidAddress | PmmExhausted | VmmError | Timeout
  | CapabilityRevoked | RightsAmplificationRejected | MaxDerivationDepthExceeded
  | NotCapabilityOwner | CapabilityNotTransferable | CapabilityNotDuplicable
  | CapabilityIdExhausted | InvalidCapability

text \<open>The legacy handle rights (\<open>ipc::types::rights\<close>).\<close>

definition READ :: u16 where "READ = push_bit 0 1"
definition WRITE :: u16 where "WRITE = push_bit 1 1"
definition MAP_RO :: u16 where "MAP_RO = push_bit 2 1"
definition MAP_RW :: u16 where "MAP_RW = push_bit 3 1"
definition TRANSFER :: u16 where "TRANSFER = push_bit 4 1"
definition DUPLICATE :: u16 where "DUPLICATE = push_bit 5 1"
definition SIGNAL :: u16 where "SIGNAL = push_bit 6 1"
definition WAIT :: u16 where "WAIT = push_bit 7 1"

text \<open>The capability rights (\<open>cap::types::cap_rights\<close>).\<close>

definition CAP_DUPLICATE :: u16 where "CAP_DUPLICATE = push_bit 8 1"
definition CAP_TRANSFER :: u16 where "CAP_TRANSFER = push_bit 9 1"
definition CAP_REVOKE :: u16 where "CAP_REVOKE = push_bit 10 1"
definition CAP_CLOSE :: u16 where "CAP_CLOSE = push_bit 11 1"
definition CAP_INSPECT :: u16 where "CAP_INSPECT = push_bit 12 1"
definition CAP_AUDIT :: u16 where "CAP_AUDIT = push_bit 13 1"
definition CHANNEL_RECEIVE :: u16 where "CHANNEL_RECEIVE = push_bit 0 1"
definition CHANNEL_SEND :: u16 where "CHANNEL_SEND = push_bit 1 1"
definition SHM_MAP_READ :: u16 where "SHM_MAP_READ = push_bit 2 1"
definition SHM_MAP_WRITE :: u16 where "SHM_MAP_WRITE = push_bit 3 1"
definition SHM_UNMAP :: u16 where "SHM_UNMAP = push_bit 4 1"
definition FILE_READ :: u16 where "FILE_READ = push_bit 5 1"
definition NET_SEND :: u16 where "NET_SEND = push_bit 4 1"
definition NET_RECV :: u16 where "NET_RECV = push_bit 5 1"

lemmas rights_defs = READ_def WRITE_def MAP_RO_def MAP_RW_def TRANSFER_def DUPLICATE_def SIGNAL_def
  WAIT_def CAP_DUPLICATE_def CAP_TRANSFER_def CAP_REVOKE_def CAP_CLOSE_def CAP_INSPECT_def
  CAP_AUDIT_def CHANNEL_RECEIVE_def CHANNEL_SEND_def SHM_MAP_READ_def SHM_MAP_WRITE_def SHM_UNMAP_def FILE_READ_def NET_SEND_def NET_RECV_def

definition is_rights_subset :: "u16 \<Rightarrow> u16 \<Rightarrow> bool" where
  "is_rights_subset child parent \<longleftrightarrow> child AND NOT parent = 0"

definition has_rights :: "u16 \<Rightarrow> u16 \<Rightarrow> bool" where
  "has_rights r required \<longleftrightarrow> r AND required = required"

text \<open>Signals asserted on kernel objects (\<open>ipc::types::signals\<close>).\<close>

definition READABLE :: u32 where "READABLE = push_bit 0 1"
definition WRITABLE :: u32 where "WRITABLE = push_bit 1 1"
definition PEER_CLOSED :: u32 where "PEER_CLOSED = push_bit 2 1"
definition OBJECT_DESTROYED :: u32 where "OBJECT_DESTROYED = push_bit 3 1"

section \<open>Subset of rights\<close>

lemma rights_subset_iff: "is_rights_subset c p \<longleftrightarrow> (\<forall>n. bit c n \<longrightarrow> bit p n)"
proof
  assume s: "is_rights_subset c p"
  show "\<forall>n. bit c n \<longrightarrow> bit p n"
  proof (intro allI impI)
    fix n assume n: "bit c n"
    then have "n < LENGTH(16)" by (rule bit_imp_le_length)
    moreover have "bit (c AND NOT p) n = bit (0 :: u16) n"
      using s by (simp only: is_rights_subset_def)
    ultimately show "bit p n" using n by (simp add: bit_and_iff bit_not_iff)
  qed
next
  assume "\<forall>n. bit c n \<longrightarrow> bit p n"
  then show "is_rights_subset c p"
    unfolding is_rights_subset_def by (auto intro!: bit_word_eqI simp: bit_and_iff bit_not_iff)
qed

lemma rights_subset_refl [simp]: "is_rights_subset r r"
  by (simp add: rights_subset_iff)

lemma rights_subset_trans: "is_rights_subset a b \<Longrightarrow> is_rights_subset b c \<Longrightarrow> is_rights_subset a c"
  by (simp add: rights_subset_iff)

lemma has_rights_iff: "has_rights r q \<longleftrightarrow> is_rights_subset q r"
proof
  assume "has_rights r q"
  then have "r AND q = q" by (simp add: has_rights_def)
  then show "is_rights_subset q r" unfolding rights_subset_iff by (metis bit_and_iff)
next
  assume "is_rights_subset q r"
  then have "r AND q = q" unfolding rights_subset_iff
    by (intro bit_word_eqI) (auto simp: bit_and_iff)
  then show "has_rights r q" by (simp add: has_rights_def)
qed

lemma has_rights_mono: "is_rights_subset c p \<Longrightarrow> has_rights c q \<Longrightarrow> has_rights p q"
  unfolding has_rights_iff by (rule rights_subset_trans)

end
