(* ===== verification/Objects.thy ===== *)
theory Objects
  imports IpcTypes
begin

text \<open>
  \<open>kernel/src/ipc/object.rs\<close>: the kernel object table and the monotonic object identifiers. The
  table is a function from indices below \<open>MAX_KERNEL_OBJECTS\<close>. The operations run under
  \<open>KERNEL_OBJECT_TABLE_LOCK\<close>, so each is one atomic state change; the compare-exchange loop of the
  identifier allocator therefore succeeds at its first iteration.
\<close>

section \<open>Data\<close>

definition MAX_KERNEL_OBJECTS :: nat where [simp]: "MAX_KERNEL_OBJECTS = 256"

datatype KernelObjectType =
  FreeObject | ChannelObject | ShmObjectType | EventObject | ProcessObject | StorageObject | DeviceObject | SocketObject

datatype ObjectLifecycleState = LFree | Active | PeerClosed | Quiescent | Reclaiming

record KernelObjectHeader =
  object_id :: nat
  creator_pid :: nat
  handle_refs :: nat
  mapping_refs :: nat
  in_flight_op_refs :: nat
  lifecycle :: ObjectLifecycleState
  signals :: u32

definition empty_header :: KernelObjectHeader where
  "empty_header = \<lparr>object_id = 0, creator_pid = 0, handle_refs = 0, mapping_refs = 0,
     in_flight_op_refs = 0, lifecycle = LFree, signals = 0\<rparr>"

definition ref_count :: "KernelObjectHeader \<Rightarrow> nat" where
  "ref_count h = handle_refs h + mapping_refs h + in_flight_op_refs h"

record KernelObjectSlot =
  o_occupied :: bool
  obj_type :: KernelObjectType
  o_generation :: u16
  pool_index :: nat
  header :: KernelObjectHeader

definition empty_object_slot :: KernelObjectSlot where
  "empty_object_slot = \<lparr>o_occupied = False, obj_type = FreeObject, o_generation = 1, pool_index = 0,
     header = empty_header\<rparr>"

record objects_state =
  objects :: "nat \<Rightarrow> KernelObjectSlot"
  next_object_id :: nat

section \<open>Operations\<close>

definition allocate_object_id ::
  "'a objects_state_scheme \<Rightarrow> (IpcError + nat) \<times> 'a objects_state_scheme" where
  "allocate_object_id s =
     (let current = next_object_id s in
      if current = U64_MAX then (Err ObjectIdExhausted, s)
      else (Ok current, s\<lparr>next_object_id := current + 1\<rparr>))"

definition allocate_object_slot_locked ::
  "KernelObjectType \<Rightarrow> nat \<Rightarrow> nat \<Rightarrow> 'a objects_state_scheme
     \<Rightarrow> (IpcError + nat) \<times> 'a objects_state_scheme" where
  "allocate_object_slot_locked ty pool pid s =
     (case allocate_object_id s of
        (Inl e, s) \<Rightarrow> (Err e, s)
      | (Inr oid, s) \<Rightarrow>
          (case find (\<lambda>i. \<not> o_occupied (objects s i)) [0..<MAX_KERNEL_OBJECTS] of
             Some i \<Rightarrow>
               (Ok i, s\<lparr>objects := (objects s)(i := (objects s i)
                  \<lparr>o_occupied := True, obj_type := ty, pool_index := pool,
                   header := \<lparr>object_id = oid, creator_pid = pid, handle_refs = 0, mapping_refs = 0,
                     in_flight_op_refs = 0, lifecycle = Active, signals = 0\<rparr>\<rparr>)\<rparr>)
           | None \<Rightarrow> (Err ObjectTableFull, s)))"

definition free_object_slot_locked ::
  "nat \<Rightarrow> 'a objects_state_scheme \<Rightarrow> 'a objects_state_scheme option" where
  "free_object_slot_locked i s =
     (if i < MAX_KERNEL_OBJECTS \<and> o_occupied (objects s i)
      then Some (s\<lparr>objects := (objects s)(i := (objects s i)
             \<lparr>o_generation := bump_gen (o_generation (objects s i)), o_occupied := False,
              obj_type := FreeObject, header := empty_header\<rparr>)\<rparr>)
      else None)"

text \<open>The reference count updates that the code writes out in place.\<close>

definition update_header ::
  "nat \<Rightarrow> (KernelObjectHeader \<Rightarrow> KernelObjectHeader) \<Rightarrow> 'a objects_state_scheme \<Rightarrow> 'a objects_state_scheme" where
  "update_header i f s = s\<lparr>objects := (objects s)(i := (objects s i)\<lparr>header := f (header (objects s i))\<rparr>)\<rparr>"

section \<open>Behaviour\<close>

text \<open>
  The contract of the two identifier allocators (objects here, capabilities in
  \<open>kernel/src/cap/node.rs\<close>): identifiers are handed out in strictly increasing order and the
  counter stops at \<open>u64::MAX\<close> instead of wrapping.
\<close>

primrec alloc_ids :: "('s \<Rightarrow> ('e + nat) \<times> 's) \<Rightarrow> nat \<Rightarrow> 's \<Rightarrow> nat list" where
  "alloc_ids al 0 s = []"
| "alloc_ids al (Suc n) s =
     (case al s of (Inl _, s') \<Rightarrow> alloc_ids al n s' | (Inr i, s') \<Rightarrow> i # alloc_ids al n s')"

locale id_allocator =
  fixes counter :: "'s \<Rightarrow> nat" and alloc :: "'s \<Rightarrow> ('e + nat) \<times> 's" and exhausted :: 'e
  assumes alloc_next: "counter s \<noteq> U64_MAX \<Longrightarrow> \<exists>s'. alloc s = (Ok (counter s), s') \<and> counter s' = counter s + 1"
    and alloc_end: "counter s = U64_MAX \<Longrightarrow> alloc s = (Err exhausted, s)"
begin

lemma alloc_ids_increasing:
  "sorted_wrt (<) (alloc_ids alloc n s) \<and> (\<forall>i\<in>set (alloc_ids alloc n s). counter s \<le> i \<and> i \<noteq> U64_MAX)"
proof (induction n arbitrary: s)
  case (Suc n)
  show ?case
  proof (cases "counter s = U64_MAX")
    case True
    then show ?thesis using alloc_end [OF True] Suc [of s] by simp
  next
    case False
    then obtain s' where s': "alloc s = (Ok (counter s), s')" "counter s' = counter s + 1"
      using alloc_next by blast
    show ?thesis using s' False Suc [of s'] by (auto simp: Suc_le_eq)
  qed
qed simp

lemma alloc_ids_distinct: "distinct (alloc_ids alloc n s)"
  using alloc_ids_increasing strict_sorted_iff by blast

end

interpretation object_ids: id_allocator next_object_id allocate_object_id ObjectIdExhausted
  by unfold_locales (simp_all add: allocate_object_id_def Let_def)

lemma allocate_object_slot_spec:
  assumes "allocate_object_slot_locked ty pool pid s = (Ok i, s')"
  shows "i < MAX_KERNEL_OBJECTS" "\<not> o_occupied (objects s i)" "\<forall>j<i. o_occupied (objects s j)"
    "o_occupied (objects s' i)" "obj_type (objects s' i) = ty" "pool_index (objects s' i) = pool"
    "o_generation (objects s' i) = o_generation (objects s i)"
    "handle_refs (header (objects s' i)) = 0" "object_id (header (objects s' i)) = next_object_id s"
    "\<forall>j. j \<noteq> i \<longrightarrow> objects s' j = objects s j" "next_object_id s' = next_object_id s + 1"
  using assms
  by (auto simp: allocate_object_slot_locked_def allocate_object_id_def Let_def find_upt_Some_iff
      split: if_splits option.splits)

lemma free_object_slot_spec:
  assumes "free_object_slot_locked i s = Some s'"
  shows "\<not> o_occupied (objects s' i)" "o_generation (objects s' i) \<noteq> o_generation (objects s i)"
    "o_generation (objects s' i) \<noteq> 0" "\<forall>j. j \<noteq> i \<longrightarrow> objects s' j = objects s j"
  using assms by (auto simp: free_object_slot_locked_def split: if_splits)

lemma update_header_simps [simp]:
  "objects (update_header i f s) j =
     (if j = i then (objects s i)\<lparr>header := f (header (objects s i))\<rparr> else objects s j)"
  "next_object_id (update_header i f s) = next_object_id s"
  by (simp_all add: update_header_def)

end
