(* ===== verification/Handles.thy ===== *)
theory Handles
  imports Objects
begin

text \<open>
  \<open>kernel/src/ipc/handle.rs\<close>: the 32-bit handle token, handle entries, and the per-process handle
  tables, indexed here by a \<open>slot\<close> (process slot, handle slot). Of a process slot
  (\<open>kernel/src/task/process.rs\<close>) only the occupancy flag and the process id matter to handle lookup.
\<close>

section \<open>Data\<close>

definition MAX_PROCESSES :: nat where [simp]: "MAX_PROCESSES = 16"
definition MAX_HANDLES_PER_PROCESS :: nat where [simp]: "MAX_HANDLES_PER_PROCESS = 32"

type_synonym Handle = u32

datatype slot = Slot (pslot: nat) (hslot: nat)

definition handle_new :: "nat \<Rightarrow> u16 \<Rightarrow> Handle" where
  "handle_new slot_idx gen = push_bit 16 (ucast gen) OR ucast (word_of_nat slot_idx :: u16)"

definition handle_slot_index :: "Handle \<Rightarrow> nat" where
  "handle_slot_index h = unat (h AND 0xFFFF)"

definition handle_gen :: "Handle \<Rightarrow> u16" where
  "handle_gen h = ucast (drop_bit 16 h AND 0xFFFF)"

record HandleEntry =
  object_index :: nat
  handle_generation :: u16
  object_generation :: u16
  rights :: u16
  endpoint :: nat
  occupied :: bool

definition empty_handle_entry :: HandleEntry where
  "empty_handle_entry = \<lparr>object_index = 0, handle_generation = 1, object_generation = 0, rights = 0,
     endpoint = 0, occupied = False\<rparr>"

record ProcessSlot =
  p_occupied :: bool
  p_id :: nat

record handles_state = objects_state +
  entries :: "slot \<Rightarrow> HandleEntry"
  hcount :: "nat \<Rightarrow> nat"
  processes :: "nat \<Rightarrow> ProcessSlot"

definition valid_slot :: "slot \<Rightarrow> bool" where
  "valid_slot s \<longleftrightarrow> pslot s < MAX_PROCESSES \<and> hslot s < MAX_HANDLES_PER_PROCESS"

section \<open>Operations\<close>

definition resolve_current_process_slot :: "nat \<Rightarrow> 'a handles_state_scheme \<Rightarrow> IpcError + nat" where
  "resolve_current_process_slot pid s =
     (case find (\<lambda>i. p_occupied (processes s i) \<and> p_id (processes s i) = pid) [0..<MAX_PROCESSES] of
        Some i \<Rightarrow> Ok i
      | None \<Rightarrow> Err InvalidProcess)"

text \<open>The invalidation of an entry that every closing path writes out: clear the occupancy flag and
  advance the handle generation, skipping zero.\<close>

definition invalidate_entry :: "HandleEntry \<Rightarrow> HandleEntry" where
  "invalidate_entry e = e\<lparr>occupied := False, handle_generation := bump_gen (handle_generation e)\<rparr>"

section \<open>Handle tokens\<close>

lemma handle_slot_roundtrip: "slot_idx < 65536 \<Longrightarrow> handle_slot_index (handle_new slot_idx g) = slot_idx"
proof -
  assume lt: "slot_idx < 65536"
  have m: "(0xFFFF :: u32) = mask 16" by (simp add: mask_eq_exp_minus_1)
  have "(handle_new slot_idx g AND 0xFFFF) = (ucast (word_of_nat slot_idx :: u16) :: u32)"
    unfolding m handle_new_def
    by (rule bit_word_eqI) (auto simp: bit_and_iff bit_or_iff bit_mask_iff bit_push_bit_iff bit_ucast_iff
        dest: bit_imp_le_length)
  then have "handle_slot_index (handle_new slot_idx g) = unat (ucast (word_of_nat slot_idx :: u16) :: u32)"
    by (simp add: handle_slot_index_def)
  also have "\<dots> = slot_idx" using lt
    by (simp add: unsigned_ucast_eq unat_of_nat take_bit_nat_eq_self_iff)
  finally show ?thesis .
qed

lemma handle_gen_roundtrip: "handle_gen (handle_new slot_idx g) = g"
proof -
  have m: "(0xFFFF :: u32) = mask 16" by (simp add: mask_eq_exp_minus_1)
  show ?thesis
    unfolding handle_gen_def handle_new_def m
    by (rule bit_word_eqI)
       (auto simp: bit_and_iff bit_or_iff bit_mask_iff bit_push_bit_iff bit_ucast_iff bit_drop_bit_eq
         dest: bit_imp_le_length)
qed

lemma invalidate_entry_simps [simp]:
  "occupied (invalidate_entry e) = False"
  "handle_generation (invalidate_entry e) \<noteq> handle_generation e"
  "handle_generation (invalidate_entry e) \<noteq> 0"
  "object_index (invalidate_entry e) = object_index e"
  by (simp_all add: invalidate_entry_def)

end
