(* ===== verification/CapNode.thy ===== *)
theory CapNode
  imports Handles
begin

text \<open>
  \<open>kernel/src/cap/types.rs\<close> and \<open>kernel/src/cap/node.rs\<close>: the nodes of the capability derivation tree
  (CDT) and the child-chain operations. A link of the code is a pair of bytes (process slot,
  handle slot) with 0xFF for "none"; it is a \<open>slot\<close> here, with \<open>NO_SLOT\<close> = \<open>Slot 255 255\<close>.
  The loops that follow sibling links are partial functions: a cyclic chain gives \<open>None\<close>.
\<close>

section \<open>Data\<close>

definition MAX_DERIVATION_DEPTH :: nat where [simp]: "MAX_DERIVATION_DEPTH = 8"
definition MAX_CAPABILITY_NODES :: nat where
  "MAX_CAPABILITY_NODES = MAX_PROCESSES * MAX_HANDLES_PER_PROCESS"

definition NO_SLOT :: slot where "NO_SLOT = Slot 0xFF 0xFF"

record CapabilityNode =
  capability_id :: nat
  parent :: slot
  parent_gen :: u16
  derivation_depth :: nat
  is_revoked :: bool
  node_flags :: u16
  first_child :: slot
  next_sibling :: slot

definition empty_node :: CapabilityNode where
  "empty_node = \<lparr>capability_id = 0, parent = NO_SLOT, parent_gen = 0, derivation_depth = 0,
     is_revoked = False, node_flags = 0, first_child = NO_SLOT, next_sibling = NO_SLOT\<rparr>"

definition is_root :: "CapabilityNode \<Rightarrow> bool" where
  "is_root n \<longleftrightarrow> parent n = NO_SLOT"

record caps_state = handles_state +
  nodes :: "slot \<Rightarrow> CapabilityNode"
  next_capability_id :: nat

section \<open>Identifiers and lookup\<close>

definition allocate_capability_id ::
  "'a caps_state_scheme \<Rightarrow> (IpcError + nat) \<times> 'a caps_state_scheme" where
  "allocate_capability_id s =
     (let current = next_capability_id s in
      if current = U64_MAX then (Err CapabilityIdExhausted, s)
      else (Ok current, s\<lparr>next_capability_id := current + 1\<rparr>))"

interpretation capability_ids: id_allocator next_capability_id allocate_capability_id CapabilityIdExhausted
  by unfold_locales (simp_all add: allocate_capability_id_def Let_def)

definition all_slots :: "slot list" where
  "all_slots = [Slot p h. p \<leftarrow> [0..<MAX_PROCESSES], h \<leftarrow> [0..<MAX_HANDLES_PER_PROCESS]]"

definition lookup_capability_by_id_locked :: "nat \<Rightarrow> 'a caps_state_scheme \<Rightarrow> IpcError + slot" where
  "lookup_capability_by_id_locked target_id s =
     (if target_id = 0 then Err InvalidCapability
      else case find (\<lambda>x. occupied (entries s x) \<and> \<not> is_revoked (nodes s x)
                          \<and> capability_id (nodes s x) = target_id) all_slots of
             Some x \<Rightarrow> Ok x
           | None \<Rightarrow> Err InvalidCapability)"

section \<open>Child chains\<close>

definition add_child_locked ::
  "slot \<Rightarrow> slot \<Rightarrow> (slot \<Rightarrow> CapabilityNode) \<Rightarrow> (slot \<Rightarrow> CapabilityNode) option" where
  "add_child_locked p c N =
     (if valid_slot p \<and> valid_slot c
      then let old_first = first_child (N p);
               N = N(c := (N c)\<lparr>next_sibling := old_first\<rparr>)
           in Some (N(p := (N p)\<lparr>first_child := c\<rparr>))
      else None)"

text \<open>The scan shared by \<open>remove_child_locked\<close> and \<open>replace_child_locked\<close>: the chain element whose
  next sibling is the target.\<close>

partial_function (option) find_pred ::
  "(slot \<Rightarrow> CapabilityNode) \<Rightarrow> slot \<Rightarrow> slot \<Rightarrow> slot option option" where
  "find_pred N target cur =
     (if valid_slot cur
      then (if next_sibling (N cur) = target then Some (Some cur)
            else find_pred N target (next_sibling (N cur)))
      else Some None)"

definition remove_child_locked ::
  "slot \<Rightarrow> slot \<Rightarrow> (slot \<Rightarrow> CapabilityNode) \<Rightarrow> (slot \<Rightarrow> CapabilityNode) option" where
  "remove_child_locked p c N =
     (if valid_slot p \<and> valid_slot c
      then
        let unlink = (\<lambda>N. N(c := (N c)\<lparr>next_sibling := NO_SLOT\<rparr>)) in
        if first_child (N p) = c
        then Some (unlink (N(p := (N p)\<lparr>first_child := next_sibling (N c)\<rparr>)))
        else case find_pred N c (first_child (N p)) of
               None \<Rightarrow> None
             | Some None \<Rightarrow> Some (unlink N)
             | Some (Some x) \<Rightarrow> Some (unlink (N(x := (N x)\<lparr>next_sibling := next_sibling (N c)\<rparr>)))
      else None)"

definition replace_child_locked ::
  "slot \<Rightarrow> slot \<Rightarrow> slot \<Rightarrow> (slot \<Rightarrow> CapabilityNode) \<Rightarrow> (slot \<Rightarrow> CapabilityNode) option" where
  "replace_child_locked p old new N =
     (if valid_slot p \<and> valid_slot old \<and> valid_slot new
      then
        if first_child (N p) = old
        then let N = N(new := (N new)\<lparr>next_sibling := next_sibling (N old)\<rparr>)
             in Some (N(p := (N p)\<lparr>first_child := new\<rparr>))
        else case find_pred N old (first_child (N p)) of
               None \<Rightarrow> None
             | Some None \<Rightarrow> Some N
             | Some (Some x) \<Rightarrow>
                 let N = N(new := (N new)\<lparr>next_sibling := next_sibling (N old)\<rparr>)
                 in Some (N(x := (N x)\<lparr>next_sibling := new\<rparr>))
      else None)"

text \<open>The loop that rewrites every node of a child chain (moving, closing and promoting children);
  it also returns the last node visited.\<close>

partial_function (option) walk_children ::
  "(CapabilityNode \<Rightarrow> CapabilityNode) \<Rightarrow> slot \<Rightarrow> slot option \<Rightarrow> (slot \<Rightarrow> CapabilityNode)
     \<Rightarrow> ((slot \<Rightarrow> CapabilityNode) \<times> slot option) option" where
  "walk_children f cur lst N =
     (if valid_slot cur
      then let N' = N(cur := f (N cur)) in walk_children f (next_sibling (N' cur)) (Some cur) N'
      else Some (N, lst))"

section \<open>Chains as lists\<close>

definition link :: "slot \<Rightarrow> slot option" where
  "link l = (if valid_slot l then Some l else None)"

definition chain :: "(slot \<Rightarrow> CapabilityNode) \<Rightarrow> slot \<Rightarrow> slot list \<Rightarrow> bool" where
  "chain N l cs \<longleftrightarrow> plist (\<lambda>c. link (next_sibling (N c))) (link l) cs"

lemma link_simps [simp]: "valid_slot l \<Longrightarrow> link l = Some l" "\<not> valid_slot l \<Longrightarrow> link l = None"
  by (simp_all add: link_def)

lemma NO_SLOT_invalid [simp]: "\<not> valid_slot NO_SLOT"
  by (simp add: NO_SLOT_def valid_slot_def)

lemma valid_not_NO_SLOT: "valid_slot s \<Longrightarrow> s \<noteq> NO_SLOT"
  by auto

lemma chain_Nil [simp]: "chain N l [] \<longleftrightarrow> \<not> valid_slot l"
  by (cases "valid_slot l") (simp_all add: chain_def)

lemma chain_Cons [simp]: "chain N l (c # cs) \<longleftrightarrow> l = c \<and> valid_slot c \<and> chain N (next_sibling (N c)) cs"
  by (cases "valid_slot l") (auto simp: chain_def)

lemma chain_NO_SLOT [simp]: "chain N NO_SLOT cs \<longleftrightarrow> cs = []"
  by (cases cs) auto

lemma chain_distinct: "chain N l cs \<Longrightarrow> distinct cs"
  unfolding chain_def by (rule plist_distinct)

lemma chain_unique: "chain N l cs \<Longrightarrow> chain N l ds \<Longrightarrow> cs = ds"
  unfolding chain_def by (rule plist_unique)

lemma chain_valid: "chain N l cs \<Longrightarrow> c \<in> set cs \<Longrightarrow> valid_slot c"
  by (induction cs arbitrary: l) auto

lemma chain_cong:
  "(\<And>c. c \<in> set cs \<Longrightarrow> next_sibling (N c) = next_sibling (M c)) \<Longrightarrow> chain N l cs = chain M l cs"
  unfolding chain_def by (rule plist_cong) simp

lemma chain_upd [simp]:
  "x \<notin> set cs \<Longrightarrow> chain (N(x := n)) l cs = chain N l cs"
  by (rule chain_cong) auto

lemma chain_tail:
  "chain N l (us @ x # vs) \<Longrightarrow> chain N (next_sibling (N x)) vs"
  by (induction us arbitrary: l) auto

lemma find_pred_found:
  assumes "chain N l (us @ x # c # vs)"
  shows "find_pred N c l = Some (Some x)"
  using assms
proof (induction us arbitrary: l)
  case Nil
  then show ?case by (subst find_pred.simps) simp
next
  case (Cons u us)
  have "next_sibling (N u) \<noteq> c"
  proof
    assume "next_sibling (N u) = c"
    with Cons.prems have "chain N c (us @ x # c # vs)" by simp
    moreover from Cons.prems have "chain N c (c # vs)"
      using chain_tail [of N l "u # us" x "c # vs"] by simp
    ultimately have "us @ x # c # vs = c # vs" by (rule chain_unique)
    then have "length (us @ x # c # vs) = length (c # vs)" by simp
    then show False by simp
  qed
  with Cons show ?case by (subst find_pred.simps) simp
qed

lemma walk_children_chain:
  assumes "chain N l cs" "\<And>n. next_sibling (f n) = next_sibling n"
  shows "walk_children f l lst N
    = Some (\<lambda>s. if s \<in> set cs then f (N s) else N s, if cs = [] then lst else Some (last cs))"
  using assms(1)
proof (induction cs arbitrary: l lst N)
  case Nil
  then show ?case by (subst walk_children.simps) simp
next
  case (Cons c cs)
  have d: "c \<notin> set cs" using chain_distinct [OF Cons.prems] by simp
  let ?N = "N(c := f (N c))"
  have ch: "chain ?N (next_sibling (?N c)) cs" using Cons.prems d assms(2) by simp
  have "walk_children f l lst N = walk_children f (next_sibling (?N c)) (Some c) ?N"
    using Cons.prems by (subst walk_children.simps) (simp add: Let_def)
  also have "\<dots> = Some (\<lambda>s. if s \<in> set cs then f (?N s) else ?N s, if cs = [] then Some c else Some (last cs))"
    by (rule Cons.IH [OF ch])
  also have "(\<lambda>s. if s \<in> set cs then f (?N s) else ?N s) = (\<lambda>s. if s \<in> set (c # cs) then f (N s) else N s)"
    using d by auto
  finally show ?case by simp
qed

end
