(* ===== verification/CapOps.thy ===== *)
theory CapOps
  imports CapNode
begin

text \<open>
  \<open>kernel/src/cap/ops.rs\<close>, \<open>kernel/src/cap/transfer.rs\<close> and the handle operations of
  \<open>kernel/src/ipc/handle.rs\<close> that call them: installing root, derived and moved capabilities, closing
  with reparenting, delegation and transfer, validation. All run under \<open>KERNEL_OBJECT_TABLE_LOCK\<close>.
  The result is \<open>None\<close> on a panic, otherwise the returned \<open>Result\<close> and the new state.
\<close>

section \<open>Slots, counters and reference counts\<close>

definition allocate_handle_slot_locked :: "nat \<Rightarrow> 'a handles_state_scheme \<Rightarrow> (IpcError + nat) option" where
  "allocate_handle_slot_locked ps s =
     (if ps < MAX_PROCESSES
      then Some (case find (\<lambda>i. \<not> occupied (entries s (Slot ps i))) [0..<MAX_HANDLES_PER_PROCESS] of
                   Some i \<Rightarrow> Ok i | None \<Rightarrow> Err HandleTableFull)
      else None)"

definition inc_hcount :: "nat \<Rightarrow> 'a handles_state_scheme \<Rightarrow> 'a handles_state_scheme option" where
  "inc_hcount ps s =
     (if hcount s ps + 1 \<le> U16_MAX then Some (s\<lparr>hcount := (hcount s)(ps := hcount s ps + 1)\<rparr>) else None)"

definition dec_hcount :: "nat \<Rightarrow> 'a handles_state_scheme \<Rightarrow> 'a handles_state_scheme" where
  "dec_hcount ps s = s\<lparr>hcount := (hcount s)(ps := hcount s ps - 1)\<rparr>"

definition add_handle_ref ::
  "nat \<Rightarrow> 'a objects_state_scheme \<Rightarrow> (IpcError + unit) \<times> 'a objects_state_scheme" where
  "add_handle_ref i s =
     (if handle_refs (header (objects s i)) + 1 \<le> U16_MAX
      then (Ok (), update_header i (\<lambda>h. h\<lparr>handle_refs := handle_refs h + 1\<rparr>) s)
      else (Err HandleTableFull, s))"

definition drop_handle_ref :: "nat \<Rightarrow> 'a objects_state_scheme \<Rightarrow> 'a objects_state_scheme" where
  "drop_handle_ref i s =
     (if i < MAX_KERNEL_OBJECTS \<and> o_occupied (objects s i)
      then update_header i (\<lambda>h. h\<lparr>handle_refs := handle_refs h - 1\<rparr>) s else s)"

definition set_entry :: "slot \<Rightarrow> HandleEntry \<Rightarrow> 'a handles_state_scheme \<Rightarrow> 'a handles_state_scheme" where
  "set_entry x e s = s\<lparr>entries := (entries s)(x := e)\<rparr>"

definition set_node :: "slot \<Rightarrow> CapabilityNode \<Rightarrow> 'a caps_state_scheme \<Rightarrow> 'a caps_state_scheme" where
  "set_node x n s = s\<lparr>nodes := (nodes s)(x := n)\<rparr>"

text \<open>The tail of both installations: count the handle, then the object reference.\<close>

definition commit_handle ::
  "slot \<Rightarrow> nat \<Rightarrow> 'a handles_state_scheme \<Rightarrow> ((IpcError + Handle) \<times> 'a handles_state_scheme) option" where
  "commit_handle x obj s =
     (case inc_hcount (pslot x) s of
        None \<Rightarrow> None
      | Some s \<Rightarrow>
          (case add_handle_ref obj s of
             (Inl e, s) \<Rightarrow> Some (Err e, s)
           | (Inr _, s) \<Rightarrow> Some (Ok (handle_new (hslot x) (handle_generation (entries s x))), s)))"

section \<open>Installing capabilities\<close>

definition root_node :: "nat \<Rightarrow> CapabilityNode" where
  "root_node cap_id = \<lparr>capability_id = cap_id, parent = NO_SLOT, parent_gen = 0, derivation_depth = 0,
     is_revoked = False, node_flags = 0, first_child = NO_SLOT, next_sibling = NO_SLOT\<rparr>"

definition install_root_capability_locked ::
  "slot \<Rightarrow> nat \<Rightarrow> u16 \<Rightarrow> nat \<Rightarrow> 'a caps_state_scheme \<Rightarrow> ((IpcError + Handle) \<times> 'a caps_state_scheme) option" where
  "install_root_capability_locked x obj r ep s =
     (if valid_slot x \<and> obj < MAX_KERNEL_OBJECTS \<and> o_occupied (objects s obj)
      then case allocate_capability_id s of
             (Inl e, s) \<Rightarrow> Some (Err e, s)
           | (Inr cap_id, s) \<Rightarrow>
               (if occupied (entries s x) then None
                else
                  let s = set_entry x ((entries s x)\<lparr>occupied := True, object_index := obj,
                            object_generation := o_generation (objects s obj), rights := r, endpoint := ep\<rparr>) s;
                      s = set_node x (root_node cap_id) s
                  in commit_handle x obj s)
      else None)"

definition allocate_handle_entry_locked ::
  "nat \<Rightarrow> nat \<Rightarrow> u16 \<Rightarrow> nat \<Rightarrow> 'a caps_state_scheme \<Rightarrow> ((IpcError + Handle) \<times> 'a caps_state_scheme) option" where
  "allocate_handle_entry_locked ps obj r ep s =
     (case allocate_handle_slot_locked ps s of
        None \<Rightarrow> None
      | Some (Inl e) \<Rightarrow> Some (Err e, s)
      | Some (Inr i) \<Rightarrow> install_root_capability_locked (Slot ps i) obj r ep s)"

definition install_derived_capability_locked ::
  "slot \<Rightarrow> slot \<Rightarrow> u16 \<Rightarrow> 'a caps_state_scheme \<Rightarrow> ((IpcError + Handle) \<times> 'a caps_state_scheme) option" where
  "install_derived_capability_locked d p req s =
     (if valid_slot d \<and> valid_slot p
      then
        let pe = entries s p; pn = nodes s p; obj = object_index pe in
        if \<not> occupied pe then Some (Err InvalidHandle, s)
        else if is_revoked pn then Some (Err CapabilityRevoked, s)
        else if rights pe AND (CAP_DUPLICATE OR DUPLICATE) = 0 then Some (Err CapabilityNotDuplicable, s)
        else if req AND NOT (rights pe) \<noteq> 0 then Some (Err RightsAmplificationRejected, s)
        else if derivation_depth pn \<ge> MAX_DERIVATION_DEPTH then Some (Err MaxDerivationDepthExceeded, s)
        else if obj \<ge> MAX_KERNEL_OBJECTS then Some (Err InvalidHandle, s)
        else if \<not> o_occupied (objects s obj) \<or> o_generation (objects s obj) \<noteq> object_generation pe
        then Some (Err BadHandleGeneration, s)
        else case allocate_capability_id s of
               (Inl e, s) \<Rightarrow> Some (Err e, s)
             | (Inr cap_id, s) \<Rightarrow>
                 (if occupied (entries s d) then None
                  else
                    let s = set_entry d ((entries s d)\<lparr>occupied := True, object_index := obj,
                              object_generation := object_generation pe, rights := req, endpoint := endpoint pe\<rparr>) s;
                        s = set_node d \<lparr>capability_id = cap_id, parent = p,
                              parent_gen = handle_generation pe, derivation_depth = derivation_depth pn + 1,
                              is_revoked = False, node_flags = 0, first_child = NO_SLOT, next_sibling = NO_SLOT\<rparr> s
                    in case add_child_locked p d (nodes s) of
                         None \<Rightarrow> None
                       | Some N \<Rightarrow> commit_handle d obj (s\<lparr>nodes := N\<rparr>))
      else None)"

definition has_parent :: "slot \<Rightarrow> bool" where
  "has_parent l \<longleftrightarrow> pslot l \<noteq> 0xFF \<and> hslot l \<noteq> 0xFF"

text \<open>The tree part of \<open>install_moved_capability_locked\<close>: copy the source node to the destination
  under the reserved identifier, splice it into the parent's chain in place of the source, hand it
  the source's children, and reset the source.\<close>

definition move_node :: "slot \<Rightarrow> slot \<Rightarrow> nat \<Rightarrow> u16 \<Rightarrow> (slot \<Rightarrow> CapabilityNode) \<Rightarrow> (slot \<Rightarrow> CapabilityNode) option" where
  "move_node d c reserved_id dst_gen N =
     (let sn = N c;
          N = N(d := sn\<lparr>capability_id := reserved_id, is_revoked := False, next_sibling := NO_SLOT\<rparr>)
      in do {
           N \<leftarrow> (if has_parent (parent sn) then replace_child_locked (parent sn) c d N else Some N);
           (N, _) \<leftarrow> walk_children (\<lambda>n. n\<lparr>parent := d, parent_gen := dst_gen\<rparr>) (first_child sn) None N;
           Some (N(c := empty_node))
         })"

definition install_moved_capability_locked ::
  "slot \<Rightarrow> slot \<Rightarrow> nat \<Rightarrow> 'a caps_state_scheme \<Rightarrow> ((IpcError + Handle) \<times> 'a caps_state_scheme) option" where
  "install_moved_capability_locked d c reserved_id s =
     (if valid_slot d \<and> valid_slot c \<and> occupied (entries s c) \<and> \<not> is_revoked (nodes s c) \<and> \<not> occupied (entries s d)
      then
        let se = entries s c;
            dst_gen = handle_generation (entries s d);
            s = set_entry d ((entries s d)\<lparr>occupied := True, object_index := object_index se,
                  object_generation := object_generation se, rights := rights se, endpoint := endpoint se\<rparr>) s
        in do {
             N \<leftarrow> move_node d c reserved_id dst_gen (nodes s);
             let s = set_entry c (invalidate_entry (entries s c)) s;
             let s = dec_hcount (pslot c) s;
             s \<leftarrow> inc_hcount (pslot d) (s\<lparr>nodes := N\<rparr>);
             Some (Ok (handle_new (hslot d) dst_gen), s)
           }
      else None)"

section \<open>Closing\<close>

text \<open>The tree part of \<open>capability_close_locked\<close>: unlink the node, hand its children to its parent
  (spliced in front of the parent's chain), or make them roots, and reset the node.\<close>

definition close_node :: "slot \<Rightarrow> (slot \<Rightarrow> CapabilityNode) \<Rightarrow> (slot \<Rightarrow> CapabilityNode) option" where
  "close_node c N =
     (let node = N c; p = parent node in
      if has_parent p
      then do {
        N \<leftarrow> remove_child_locked p c N;
        let parent_depth = derivation_depth (N p);
        (N, lst) \<leftarrow> walk_children (\<lambda>n. n\<lparr>parent := p, parent_gen := parent_gen node,
                     derivation_depth := min 255 (parent_depth + 1)\<rparr>) (first_child node) None N;
        let N = (case lst of
                   None \<Rightarrow> N
                 | Some l \<Rightarrow> let old_first = first_child (N p);
                                 N = N(l := (N l)\<lparr>next_sibling := old_first\<rparr>)
                             in N(p := (N p)\<lparr>first_child := first_child node\<rparr>));
        Some (N(c := empty_node))
      }
      else do {
        (N, _) \<leftarrow> walk_children (\<lambda>n. n\<lparr>parent := NO_SLOT, parent_gen := 0, derivation_depth := 0\<rparr>)
                   (first_child node) None N;
        Some (N(c := empty_node))
      })"

definition capability_close_locked ::
  "slot \<Rightarrow> 'a caps_state_scheme \<Rightarrow> ((IpcError + nat \<times> nat) \<times> 'a caps_state_scheme) option" where
  "capability_close_locked c s =
     (if \<not> valid_slot c then None
      else
        let e = entries s c in
        if \<not> occupied e then Some (Err InvalidHandle, s)
        else do {
          let s = dec_hcount (pslot c) (set_entry c (invalidate_entry e) s);
          N \<leftarrow> close_node c (nodes s);
          let s = drop_handle_ref (object_index e) (s\<lparr>nodes := N\<rparr>);
          Some (Ok (object_index e, endpoint e), s)
        })"

definition close_handle_locked ::
  "nat \<Rightarrow> Handle \<Rightarrow> 'a caps_state_scheme \<Rightarrow> ((IpcError + nat \<times> nat) \<times> 'a caps_state_scheme) option" where
  "close_handle_locked ps h s =
     (if \<not> ps < MAX_PROCESSES then None
      else if handle_slot_index h \<ge> MAX_HANDLES_PER_PROCESS then Some (Err InvalidHandle, s)
      else
        let x = Slot ps (handle_slot_index h) in
        if handle_generation (entries s x) \<noteq> handle_gen h then Some (Err BadHandleGeneration, s)
        else if \<not> occupied (entries s x) then Some (Err InvalidHandle, s)
        else capability_close_locked x s)"

section \<open>Derivation, transfer and validation\<close>

definition capability_derive ::
  "nat \<Rightarrow> Handle \<Rightarrow> u16 \<Rightarrow> 'a caps_state_scheme \<Rightarrow> ((IpcError + Handle) \<times> 'a caps_state_scheme) option" where
  "capability_derive cur_pid h req s =
     (case resolve_current_process_slot cur_pid s of
        Inl e \<Rightarrow> Some (Err e, s)
      | Inr ps \<Rightarrow>
          if handle_slot_index h \<ge> MAX_HANDLES_PER_PROCESS then Some (Err InvalidHandle, s)
          else case allocate_handle_slot_locked ps s of
                 None \<Rightarrow> None
               | Some (Inl e) \<Rightarrow> Some (Err e, s)
               | Some (Inr d) \<Rightarrow>
                   install_derived_capability_locked (Slot ps d) (Slot ps (handle_slot_index h)) req s)"

definition capability_duplicate ::
  "nat \<Rightarrow> Handle \<Rightarrow> 'a caps_state_scheme \<Rightarrow> ((IpcError + Handle) \<times> 'a caps_state_scheme) option" where
  "capability_duplicate cur_pid h s =
     (case resolve_current_process_slot cur_pid s of
        Inl e \<Rightarrow> Some (Err e, s)
      | Inr ps \<Rightarrow>
          if handle_slot_index h \<ge> MAX_HANDLES_PER_PROCESS then Some (Err InvalidHandle, s)
          else
            let src = Slot ps (handle_slot_index h); e = entries s src in
            if \<not> occupied e \<or> handle_generation e \<noteq> handle_gen h then Some (Err InvalidHandle, s)
            else case allocate_handle_slot_locked ps s of
                   None \<Rightarrow> None
                 | Some (Inl er) \<Rightarrow> Some (Err er, s)
                 | Some (Inr d) \<Rightarrow> install_derived_capability_locked (Slot ps d) src (rights e) s)"

definition transfer_move_locked ::
  "slot \<Rightarrow> nat \<Rightarrow> 'a caps_state_scheme \<Rightarrow> ((IpcError + Handle) \<times> 'a caps_state_scheme) option" where
  "transfer_move_locked c dst_ps s =
     (if \<not> (valid_slot c \<and> dst_ps < MAX_PROCESSES) then None
      else
        let e = entries s c in
        if \<not> occupied e then Some (Err InvalidHandle, s)
        else if is_revoked (nodes s c) then Some (Err CapabilityRevoked, s)
        else if rights e AND (CAP_TRANSFER OR TRANSFER) = 0 then Some (Err CapabilityNotTransferable, s)
        else case allocate_handle_slot_locked dst_ps s of
               None \<Rightarrow> None
             | Some (Inl er) \<Rightarrow> Some (Err er, s)
             | Some (Inr d) \<Rightarrow>
                 (case allocate_capability_id s of
                    (Inl er, s) \<Rightarrow> Some (Err er, s)
                  | (Inr reserved_id, s) \<Rightarrow> install_moved_capability_locked (Slot dst_ps d) c reserved_id s))"

definition transfer_delegate_locked ::
  "slot \<Rightarrow> nat \<Rightarrow> u16 \<Rightarrow> 'a caps_state_scheme \<Rightarrow> ((IpcError + Handle) \<times> 'a caps_state_scheme) option" where
  "transfer_delegate_locked c dst_ps req s =
     (if \<not> (valid_slot c \<and> dst_ps < MAX_PROCESSES) then None
      else
        let e = entries s c in
        if \<not> occupied e then Some (Err InvalidHandle, s)
        else if is_revoked (nodes s c) then Some (Err CapabilityRevoked, s)
        else if rights e AND (CAP_TRANSFER OR TRANSFER) = 0 then Some (Err CapabilityNotTransferable, s)
        else if rights e AND (CAP_DUPLICATE OR DUPLICATE) = 0 then Some (Err CapabilityNotDuplicable, s)
        else if req AND NOT (rights e) \<noteq> 0 then Some (Err RightsAmplificationRejected, s)
        else if derivation_depth (nodes s c) \<ge> MAX_DERIVATION_DEPTH then Some (Err MaxDerivationDepthExceeded, s)
        else case allocate_handle_slot_locked dst_ps s of
               None \<Rightarrow> None
             | Some (Inl er) \<Rightarrow> Some (Err er, s)
             | Some (Inr d) \<Rightarrow> install_derived_capability_locked (Slot dst_ps d) c req s)"

definition validate_handle_locked ::
  "nat \<Rightarrow> Handle \<Rightarrow> u16 \<Rightarrow> 'a caps_state_scheme \<Rightarrow> (IpcError + nat \<times> nat \<times> u16) option" where
  "validate_handle_locked ps h required s =
     (if \<not> ps < MAX_PROCESSES then None
      else if handle_slot_index h \<ge> MAX_HANDLES_PER_PROCESS then Some (Err InvalidHandle)
      else
        let x = Slot ps (handle_slot_index h); e = entries s x; obj = object_index e in
        if handle_generation e \<noteq> handle_gen h then Some (Err BadHandleGeneration)
        else if \<not> occupied e then Some (Err InvalidHandle)
        else if is_revoked (nodes s x) then Some (Err CapabilityRevoked)
        else if obj \<ge> MAX_KERNEL_OBJECTS then Some (Err InvalidHandle)
        else if \<not> o_occupied (objects s obj) \<or> o_generation (objects s obj) \<noteq> object_generation e
        then Some (Err BadHandleGeneration)
        else if rights e AND required \<noteq> required then Some (Err PermissionDenied)
        else Some (Ok (obj, endpoint e, rights e)))"

definition validate_capability_locked ::
  "nat \<Rightarrow> Handle \<Rightarrow> u16 \<Rightarrow> 'a caps_state_scheme \<Rightarrow> (IpcError + nat \<times> nat \<times> u16) option" where
  "validate_capability_locked ps h required s =
     (if \<not> ps < MAX_PROCESSES then None
      else if handle_slot_index h \<ge> MAX_HANDLES_PER_PROCESS then Some (Err InvalidHandle)
      else
        let x = Slot ps (handle_slot_index h); e = entries s x; obj = object_index e in
        if handle_generation e \<noteq> handle_gen h then Some (Err BadHandleGeneration)
        else if \<not> occupied e then Some (Err InvalidHandle)
        else if is_revoked (nodes s x) then Some (Err CapabilityRevoked)
        else if obj \<ge> MAX_KERNEL_OBJECTS then Some (Err InvalidHandle)
        else if \<not> o_occupied (objects s obj) \<or> o_generation (objects s obj) \<noteq> object_generation e
        then Some (Err BadHandleGeneration)
        else if required \<noteq> 0 \<and> rights e AND required \<noteq> required then Some (Err PermissionDenied)
        else Some (Ok (obj, endpoint e, rights e)))"

end
