(* ===== verification/CapInv.thy ===== *)
theory CapInv
  imports CapOps
begin

text \<open>
  The invariant of the capability derivation tree and its preservation by every tree operation of
  \<open>cap/node.rs\<close> and \<open>cap/ops.rs\<close>. A slot is live when its handle entry is occupied. The invariant says
  that the child chain of every live node lists exactly the live nodes whose parent it is, that
  parent links go to live nodes with matching generation, smaller depth, the same object and at
  least the same rights, and that live nodes are unrevoked with unique identifiers.
\<close>

section \<open>The invariant\<close>

lemma chain_frame:
  "chain N l cs \<Longrightarrow> (\<And>c. c \<in> set cs \<Longrightarrow> next_sibling (M c) = next_sibling (N c)) \<Longrightarrow> chain M l cs"
  using chain_cong [of cs M N] by blast

definition live :: "(slot \<Rightarrow> HandleEntry) \<Rightarrow> slot \<Rightarrow> bool" where
  "live E x \<longleftrightarrow> valid_slot x \<and> occupied (E x)"

definition children :: "(slot \<Rightarrow> HandleEntry) \<Rightarrow> (slot \<Rightarrow> CapabilityNode) \<Rightarrow> slot \<Rightarrow> slot set" where
  "children E N x = {c. live E c \<and> parent (N c) = x}"

definition link_ok :: "slot \<Rightarrow> bool" where
  "link_ok l \<longleftrightarrow> valid_slot l \<or> l = NO_SLOT"

definition edge_ok :: "(slot \<Rightarrow> HandleEntry) \<Rightarrow> (slot \<Rightarrow> CapabilityNode) \<Rightarrow> slot \<Rightarrow> slot \<Rightarrow> bool" where
  "edge_ok E N p c \<longleftrightarrow> live E p \<and> parent_gen (N c) = handle_generation (E p)
     \<and> derivation_depth (N p) < derivation_depth (N c) \<and> is_rights_subset (rights (E c)) (rights (E p))
     \<and> object_index (E c) = object_index (E p) \<and> object_generation (E c) = object_generation (E p)
     \<and> endpoint (E c) = endpoint (E p)"

definition chain_ok :: "(slot \<Rightarrow> HandleEntry) \<Rightarrow> (slot \<Rightarrow> CapabilityNode) \<Rightarrow> slot \<Rightarrow> bool" where
  "chain_ok E N x \<longleftrightarrow> (\<exists>cs. chain N (first_child (N x)) cs \<and> set cs = children E N x)"

definition up_ok :: "(slot \<Rightarrow> HandleEntry) \<Rightarrow> (slot \<Rightarrow> CapabilityNode) \<Rightarrow> slot \<Rightarrow> bool" where
  "up_ok E N x \<longleftrightarrow> (parent (N x) = NO_SLOT \<and> derivation_depth (N x) = 0) \<or> edge_ok E N (parent (N x)) x"

definition local_ok :: "(slot \<Rightarrow> CapabilityNode) \<Rightarrow> nat \<Rightarrow> slot \<Rightarrow> bool" where
  "local_ok N nid x \<longleftrightarrow> \<not> is_revoked (N x) \<and> capability_id (N x) \<noteq> 0 \<and> capability_id (N x) < nid
     \<and> derivation_depth (N x) \<le> MAX_DERIVATION_DEPTH \<and> link_ok (first_child (N x)) \<and> link_ok (next_sibling (N x))"

definition cdt :: "(slot \<Rightarrow> HandleEntry) \<Rightarrow> (slot \<Rightarrow> CapabilityNode) \<Rightarrow> nat \<Rightarrow> bool" where
  "cdt E N nid \<longleftrightarrow> (\<forall>x. live E x \<longrightarrow> local_ok N nid x \<and> chain_ok E N x \<and> up_ok E N x)
     \<and> inj_on (\<lambda>x. capability_id (N x)) {x. live E x} \<and> 0 < nid"

lemma cdtI:
  assumes "\<And>x. live E x \<Longrightarrow> local_ok N nid x" "\<And>x. live E x \<Longrightarrow> chain_ok E N x" "\<And>x. live E x \<Longrightarrow> up_ok E N x"
    "inj_on (\<lambda>x. capability_id (N x)) {x. live E x}" "0 < nid"
  shows "cdt E N nid"
  using assms by (simp add: cdt_def)

lemma cdtD:
  assumes "cdt E N nid" "live E x"
  shows "local_ok N nid x" "chain_ok E N x" "up_ok E N x"
  using assms by (simp_all add: cdt_def)

lemma live_valid: "live E x \<Longrightarrow> valid_slot x"
  by (simp add: live_def)

lemma live_not_NO_SLOT: "live E x \<Longrightarrow> x \<noteq> NO_SLOT"
  by (auto simp: live_def)

lemma parent_live: "cdt E N nid \<Longrightarrow> live E c \<Longrightarrow> parent (N c) \<noteq> NO_SLOT \<Longrightarrow> edge_ok E N (parent (N c)) c"
  using cdtD(3) by (fastforce simp: up_ok_def)

lemma child_edge: "cdt E N nid \<Longrightarrow> live E x \<Longrightarrow> c \<in> children E N x \<Longrightarrow> edge_ok E N x c"
  using parent_live [of E N nid c] live_not_NO_SLOT [of E x] by (auto simp: children_def)

lemma child_not_self: "cdt E N nid \<Longrightarrow> live E x \<Longrightarrow> x \<notin> children E N x"
  using child_edge [of E N nid x x] by (auto simp: edge_ok_def)

lemma children_disjoint: "x \<noteq> y \<Longrightarrow> children E N x \<inter> children E N y = {}"
  by (auto simp: children_def)

lemma dead_has_no_children: "cdt E N nid \<Longrightarrow> \<not> live E d \<Longrightarrow> d \<noteq> NO_SLOT \<Longrightarrow> children E N d = {}"
  using parent_live by (fastforce simp: children_def edge_ok_def)

lemma has_parent_iff:
  "cdt E N nid \<Longrightarrow> live E x \<Longrightarrow> has_parent (parent (N x)) \<longleftrightarrow> parent (N x) \<noteq> NO_SLOT"
proof -
  assume a: "cdt E N nid" "live E x"
  have "parent (N x) \<noteq> NO_SLOT \<Longrightarrow> has_parent (parent (N x))"
    using parent_live [OF a] by (auto simp: edge_ok_def live_def valid_slot_def has_parent_def)
  then show ?thesis by (auto simp: has_parent_def NO_SLOT_def)
qed

lemma NO_SLOT_no_parent [simp]: "\<not> has_parent NO_SLOT"
  by (simp add: has_parent_def NO_SLOT_def)

lemma empty_node_simps [simp]:
  "capability_id empty_node = 0" "parent empty_node = NO_SLOT" "first_child empty_node = NO_SLOT"
  "next_sibling empty_node = NO_SLOT"
  by (simp_all add: empty_node_def)

text \<open>Building \<open>chain_ok\<close> for a node whose chain the operation does not touch.\<close>

lemma chain_ok_frame:
  assumes "chain_ok E N x" "first_child (M x) = first_child (N x)" "children F M x = children E N x"
    "\<And>c. c \<in> children E N x \<Longrightarrow> next_sibling (M c) = next_sibling (N c)"
  shows "chain_ok F M x"
proof -
  from assms(1) obtain cs where cs: "chain N (first_child (N x)) cs" "set cs = children E N x"
    by (auto simp: chain_ok_def)
  have "chain M (first_child (M x)) cs"
    using cs assms(2,4) chain_cong [of cs N M] by simp
  with cs(2) assms(3) show ?thesis by (auto simp: chain_ok_def)
qed

text \<open>Identifiers stay unique when one fresh identifier is added.\<close>

lemma inj_fresh:
  assumes "cdt E N nid" "\<And>x. live F x \<Longrightarrow> x = d \<or> live E x" "capability_id (M d) = nid"
    "\<And>x. live F x \<Longrightarrow> x \<noteq> d \<Longrightarrow> capability_id (M x) = capability_id (N x)"
  shows "inj_on (\<lambda>x. capability_id (M x)) {x. live F x}"
proof (rule inj_onI)
  fix x y assume a: "x \<in> {x. live F x}" "y \<in> {x. live F x}" "capability_id (M x) = capability_id (M y)"
  have lt: "capability_id (M z) < nid" if "live F z" "z \<noteq> d" for z
    using that assms(2,4) cdtD(1) [OF assms(1), of z] by (auto simp: local_ok_def)
  show "x = y"
  proof (cases "x = d \<or> y = d")
    case True
    then show ?thesis using a lt assms(3) by (metis less_irrefl mem_Collect_eq)
  next
    case False
    then have "live E x" "live E y" "capability_id (N x) = capability_id (N y)"
      using a assms(2,4) by auto
    then show ?thesis using assms(1) by (auto simp: cdt_def inj_on_def)
  qed
qed

section \<open>Adding a child\<close>

lemma cdt_add_root:
  assumes "cdt E N nid" "valid_slot d" "\<not> occupied (E d)" "occupied e"
  shows "cdt (E(d := e)) (N(d := root_node nid)) (nid + 1)"
proof (rule cdtI)
  let ?E = "E(d := e)" and ?N = "N(d := root_node nid)"
  have nl: "\<not> live E d" using assms(3) by (simp add: live_def)
  have d: "d \<noteq> NO_SLOT" using assms(2) by auto
  have lv: "live ?E x \<longleftrightarrow> x = d \<or> live E x" for x using assms by (auto simp: live_def)
  have ch: "children ?E ?N x = children E N x" if "x \<noteq> NO_SLOT" for x
    using that nl by (auto simp: children_def lv root_node_def)
  have cd: "children E N d = {}" by (rule dead_has_no_children [OF assms(1) nl d])
  show "0 < nid + 1" by simp
  show "inj_on (\<lambda>x. capability_id (?N x)) {x. live ?E x}"
    by (rule inj_fresh [OF assms(1), of _ d]) (auto simp: lv root_node_def)
  fix x assume x: "live ?E x"
  show "local_ok ?N (nid + 1) x"
  proof (cases "x = d")
    case True
    then show ?thesis using assms(1) by (simp add: local_ok_def root_node_def link_ok_def cdt_def)
  next
    case False
    then show ?thesis using cdtD(1) [OF assms(1), of x] x lv by (auto simp: local_ok_def)
  qed
  show "chain_ok ?E ?N x"
  proof (cases "x = d")
    case True
    then show ?thesis using cd ch [OF d] by (auto simp: chain_ok_def root_node_def)
  next
    case False
    then have "live E x" using x lv by auto
    then show ?thesis
      by (intro chain_ok_frame [OF cdtD(2) [OF assms(1)]])
         (use False nl in \<open>auto simp: ch live_not_NO_SLOT children_def [of E N]\<close>)
  qed
  show "up_ok ?E ?N x"
  proof (cases "x = d")
    case True
    then show ?thesis by (simp add: up_ok_def root_node_def)
  next
    case False
    then have "up_ok E N x" using x lv cdtD(3) [OF assms(1)] by auto
    then show ?thesis using False nl by (auto simp: up_ok_def edge_ok_def lv)
  qed
qed

lemma cdt_add_child:
  assumes "cdt E N nid" "valid_slot d" "\<not> occupied (E d)" "live E p" "occupied e"
    "is_rights_subset (rights e) (rights (E p))" "object_index e = object_index (E p)"
    "object_generation e = object_generation (E p)" "endpoint e = endpoint (E p)"
    "derivation_depth (N p) < MAX_DERIVATION_DEPTH"
    "n = \<lparr>capability_id = nid, parent = p, parent_gen = handle_generation (E p),
       derivation_depth = derivation_depth (N p) + 1, is_revoked = False, node_flags = 0,
       first_child = NO_SLOT, next_sibling = NO_SLOT\<rparr>"
  shows "\<exists>M. add_child_locked p d (N(d := n)) = Some M \<and> cdt (E(d := e)) M (nid + 1)
    \<and> M = N(d := n\<lparr>next_sibling := first_child (N p)\<rparr>, p := (N p)\<lparr>first_child := d\<rparr>)"
proof -
  have nl: "\<not> live E d" using assms(3) by (simp add: live_def)
  have d: "d \<noteq> NO_SLOT" using assms(2) by auto
  have pd: "p \<noteq> d" using nl assms(4) by auto
  let ?E = "E(d := e)"
  define M where M_def: "M = N(d := n\<lparr>next_sibling := first_child (N p)\<rparr>, p := (N p)\<lparr>first_child := d\<rparr>)"
  have M: "add_child_locked p d (N(d := n)) = Some M"
    using assms(2) live_valid [OF assms(4)] pd by (simp add: add_child_locked_def M_def)
  have lv: "live ?E x \<longleftrightarrow> x = d \<or> live E x" for x using assms(2,3,5) by (auto simp: live_def)
  have sel: "parent (M x) = (if x = d then p else parent (N x))"
    "parent_gen (M x) = (if x = d then handle_generation (E p) else parent_gen (N x))"
    "derivation_depth (M x) = (if x = d then derivation_depth (N p) + 1 else derivation_depth (N x))"
    "capability_id (M x) = (if x = d then nid else capability_id (N x))"
    "is_revoked (M x) = (if x = d then False else is_revoked (N x))"
    "first_child (M x) = (if x = d then NO_SLOT else if x = p then d else first_child (N x))"
    "next_sibling (M x) = (if x = d then first_child (N p) else next_sibling (N x))" for x
    using pd by (simp_all add: assms(11) M_def)
  have ch: "children ?E M x = (if x = p then insert d (children E N p) else children E N x)" for x
    using nl pd unfolding children_def lv sel by auto
  have lp: "local_ok N nid p" using cdtD(1) [OF assms(1,4)] .
  have "cdt ?E M (nid + 1)"
  proof (rule cdtI)
    show "0 < nid + 1" by simp
    show "inj_on (\<lambda>x. capability_id (M x)) {x. live ?E x}"
      by (rule inj_fresh [OF assms(1), of _ d]) (unfold lv sel, auto)
    fix x assume x: "live ?E x"
    then have xE: "x \<noteq> d \<Longrightarrow> live E x" using lv by auto
    show "local_ok M (nid + 1) x"
      unfolding local_ok_def sel
      using lp assms(10) cdtD(1) [OF assms(1) xE] assms(1) assms(2)
      by (auto simp: local_ok_def link_ok_def cdt_def)
    show "chain_ok ?E M x"
    proof (cases "x = d \<or> x = p")
      case False
      then have "live E x" using xE by auto
      then show ?thesis
        by (intro chain_ok_frame [OF cdtD(2) [OF assms(1)]])
           (use False nl in \<open>auto simp: ch sel children_def [of E N]\<close>)
    next
      case True
      then consider "x = d" | "x = p" "x \<noteq> d" using pd by auto
      then show ?thesis
      proof cases
        case 1
        then have "children ?E M x = {}"
          using ch [of d] pd dead_has_no_children [OF assms(1) nl d] by auto
        then show ?thesis using 1 by (simp add: chain_ok_def sel)
      next
        case 2
        obtain cs where cs: "chain N (first_child (N p)) cs" "set cs = children E N p"
          using cdtD(2) [OF assms(1,4)] by (auto simp: chain_ok_def)
        have dc: "d \<notin> set cs" using cs(2) nl by (auto simp: children_def)
        have "chain M (first_child (N p)) cs"
          by (rule chain_frame [OF cs(1)]) (use dc in \<open>auto simp: sel\<close>)
        then have "chain M (first_child (M p)) (d # cs)" using pd assms(2) by (simp add: sel)
        moreover have "set (d # cs) = children ?E M p" using cs(2) ch [of p] by simp
        ultimately show ?thesis unfolding chain_ok_def 2(1) by blast
      qed
    qed
    show "up_ok ?E M x"
    proof (cases "x = d")
      case True
      then show ?thesis using assms(4,6-9) pd lv unfolding up_ok_def edge_ok_def sel by simp
    next
      case False
      then have "up_ok E N x" "live E x" using cdtD(3) [OF assms(1)] xE by auto
      moreover have "parent (N x) \<noteq> d" if "parent (N x) \<noteq> NO_SLOT"
        using parent_live [OF assms(1) \<open>live E x\<close> that] nl by (auto simp: edge_ok_def)
      ultimately show ?thesis using False d unfolding up_ok_def edge_ok_def sel lv by auto
    qed
  qed
  with M M_def show ?thesis by blast
qed

section \<open>Removing and replacing a child\<close>

definition core :: "CapabilityNode \<Rightarrow> nat \<times> slot \<times> u16 \<times> nat \<times> bool \<times> u16" where
  "core n = (capability_id n, parent n, parent_gen n, derivation_depth n, is_revoked n, node_flags n)"

lemma core_upd [simp]: "core (n\<lparr>first_child := a\<rparr>) = core n" "core (n\<lparr>next_sibling := a\<rparr>) = core n"
  by (simp_all add: core_def)

lemma coreD:
  assumes "core m = core n"
  shows "capability_id m = capability_id n" "parent m = parent n" "parent_gen m = parent_gen n"
    "derivation_depth m = derivation_depth n" "is_revoked m = is_revoked n" "node_flags m = node_flags n"
  using assms by (simp_all add: core_def)

lemma chain_splice:
  assumes "chain N l (us @ x # ws)" "\<And>u. u \<in> set us \<Longrightarrow> next_sibling (M u) = next_sibling (N u)"
    "chain M (next_sibling (M x)) vs"
  shows "chain M l (us @ x # vs)"
  using assms(1,2) by (induction us arbitrary: l) (simp_all add: assms(3))

lemma remove_child_spec:
  assumes "chain N (first_child (N p)) (us @ c # vs)" "valid_slot p" "p \<noteq> c"
  shows "\<exists>M. remove_child_locked p c N = Some M \<and> chain M (first_child (M p)) (us @ vs)
    \<and> (\<forall>x. core (M x) = core (N x)) \<and> (\<forall>x. x \<noteq> p \<longrightarrow> first_child (M x) = first_child (N x))
    \<and> (\<forall>x. x \<notin> set us \<longrightarrow> x \<noteq> c \<longrightarrow> next_sibling (M x) = next_sibling (N x))
    \<and> first_child (M p) \<in> {first_child (N p), next_sibling (N c)}
    \<and> (\<forall>x. next_sibling (M x) \<in> {next_sibling (N x), next_sibling (N c), NO_SLOT})"
proof -
  have vc: "valid_slot c" using chain_valid [OF assms(1), of c] by simp
  have dist: "distinct (us @ c # vs)" using chain_distinct [OF assms(1)] .
  have tl: "chain N (next_sibling (N c)) vs" using chain_tail [OF assms(1)] .
  show ?thesis
  proof (cases us rule: rev_cases)
    case Nil
    then have fc: "first_child (N p) = c" using assms(1) by simp
    define M where M_def: "M = N(p := (N p)\<lparr>first_child := next_sibling (N c)\<rparr>, c := (N c)\<lparr>next_sibling := NO_SLOT\<rparr>)"
    have "remove_child_locked p c N = Some M"
      using fc assms(2,3) vc by (simp add: remove_child_locked_def M_def)
    moreover have "chain M (first_child (M p)) vs"
      using assms(3) by (simp add: M_def) (rule chain_frame [OF tl], use dist in auto)
    moreover have "core (M x) = core (N x)" for x by (simp add: M_def)
    ultimately show ?thesis using Nil assms(3) by (intro exI [of _ M]) (simp add: M_def)
  next
    case (snoc us' x)
    have xc: "x \<noteq> c" using dist snoc by auto
    have fc: "first_child (N p) \<noteq> c" using assms(1) dist snoc by (cases us') auto
    have fp: "find_pred N c (first_child (N p)) = Some (Some x)"
      by (rule find_pred_found [of _ _ us' _ _ vs]) (use assms(1) snoc in simp)
    define M where M_def: "M = N(x := (N x)\<lparr>next_sibling := next_sibling (N c)\<rparr>, c := (N c)\<lparr>next_sibling := NO_SLOT\<rparr>)"
    have "remove_child_locked p c N = Some M"
      using fc fp assms(2) vc xc by (simp add: remove_child_locked_def M_def)
    moreover have "chain M (first_child (M p)) (us' @ x # vs)"
    proof -
      have c1: "chain N (first_child (M p)) (us' @ x # c # vs)"
        using assms(1) snoc by (auto simp: M_def)
      have c2: "next_sibling (M u) = next_sibling (N u)" if "u \<in> set us'" for u
        using dist snoc that by (auto simp: M_def)
      have "chain M (next_sibling (M x)) vs"
        using xc by (simp add: M_def) (rule chain_frame [OF tl], use dist snoc in auto)
      from chain_splice [OF c1 c2 this] show ?thesis .
    qed
    moreover have "core (M x) = core (N x)" for x by (simp add: M_def)
    ultimately show ?thesis using snoc by (intro exI [of _ M]) (simp add: M_def)
  qed
qed

lemma replace_child_spec:
  assumes "chain N (first_child (N p)) (us @ c # vs)" "valid_slot p" "valid_slot d" "p \<noteq> c" "p \<noteq> d"
    "d \<notin> set (us @ c # vs)"
  shows "\<exists>M. replace_child_locked p c d N = Some M \<and> chain M (first_child (M p)) (us @ d # vs)
    \<and> (\<forall>x. core (M x) = core (N x)) \<and> (\<forall>x. x \<noteq> p \<longrightarrow> first_child (M x) = first_child (N x))
    \<and> (\<forall>x. x \<notin> set us \<longrightarrow> x \<noteq> d \<longrightarrow> next_sibling (M x) = next_sibling (N x))
    \<and> first_child (M p) \<in> {first_child (N p), d}
    \<and> (\<forall>x. next_sibling (M x) \<in> {next_sibling (N x), next_sibling (N c), d})"
proof -
  have vc: "valid_slot c" using chain_valid [OF assms(1), of c] by simp
  have dist: "distinct (us @ c # vs)" using chain_distinct [OF assms(1)] .
  have tl: "chain N (next_sibling (N c)) vs" using chain_tail [OF assms(1)] .
  show ?thesis
  proof (cases us rule: rev_cases)
    case Nil
    then have fc: "first_child (N p) = c" using assms(1) by simp
    define M where M_def: "M = N(d := (N d)\<lparr>next_sibling := next_sibling (N c)\<rparr>, p := (N p)\<lparr>first_child := d\<rparr>)"
    have "replace_child_locked p c d N = Some M"
      using fc assms(2,3,5) vc by (simp add: replace_child_locked_def M_def)
    moreover have "chain M (first_child (M p)) (d # vs)"
      using assms(3,5) by (simp add: M_def) (rule chain_frame [OF tl], use assms(6) in auto)
    moreover have "core (M x) = core (N x)" for x by (simp add: M_def)
    ultimately show ?thesis using Nil assms(5) by (intro exI [of _ M]) (simp add: M_def)
  next
    case (snoc us' x)
    have xd: "x \<noteq> d" "x \<noteq> c" using assms(6) dist snoc by auto
    have fc: "first_child (N p) \<noteq> c" using assms(1) dist snoc by (cases us') auto
    have fp: "find_pred N c (first_child (N p)) = Some (Some x)"
      by (rule find_pred_found [of _ _ us' _ _ vs]) (use assms(1) snoc in simp)
    define M where M_def: "M = N(d := (N d)\<lparr>next_sibling := next_sibling (N c)\<rparr>, x := (N x)\<lparr>next_sibling := d\<rparr>)"
    have "replace_child_locked p c d N = Some M"
      using fc fp assms(2,3) vc xd by (simp add: replace_child_locked_def M_def)
    moreover have "chain M (first_child (M p)) (us' @ x # d # vs)"
    proof -
      have "chain M (next_sibling (N c)) vs"
        by (rule chain_frame [OF tl]) (use assms(6) dist snoc in \<open>auto simp: M_def\<close>)
      then have c3: "chain M (next_sibling (M x)) (d # vs)"
        using xd assms(3) by (simp add: M_def)
      have c1: "chain N (first_child (M p)) (us' @ x # c # vs)"
        using assms(1) snoc by (auto simp: M_def)
      have c2: "next_sibling (M u) = next_sibling (N u)" if "u \<in> set us'" for u
        using dist assms(6) snoc that by (auto simp: M_def)
      from chain_splice [OF c1 c2 c3] show ?thesis .
    qed
    moreover have "core (M x) = core (N x)" for x by (simp add: M_def)
    ultimately show ?thesis using snoc by (intro exI [of _ M]) (simp add: M_def)
  qed
qed

section \<open>Closing a capability\<close>

lemma core_walk_sel:
  "capability_id (n\<lparr>parent := p, parent_gen := g, derivation_depth := d\<rparr>) = capability_id n"
  "is_revoked (n\<lparr>parent := p, parent_gen := g, derivation_depth := d\<rparr>) = is_revoked n"
  "first_child (n\<lparr>parent := p, parent_gen := g, derivation_depth := d\<rparr>) = first_child n"
  "next_sibling (n\<lparr>parent := p, parent_gen := g, derivation_depth := d\<rparr>) = next_sibling n"
  by simp_all

lemma live_invalidate: "live (E(c := invalidate_entry e)) x \<longleftrightarrow> x \<noteq> c \<and> live E x"
  by (simp add: live_def)

lemma chain_append_join:
  assumes "chain N l ks" "ks \<noteq> []" "\<And>k. k \<in> set ks \<Longrightarrow> k \<noteq> last ks \<Longrightarrow> next_sibling (M k) = next_sibling (N k)"
    "chain M (next_sibling (M (last ks))) ws"
  shows "chain M l (ks @ ws)"
proof -
  obtain us x where ks: "ks = us @ [x]" using assms(2) by (meson rev_exhaust)
  have d: "distinct ks" using chain_distinct [OF assms(1)] .
  have "chain M l (us @ x # ws)"
  proof (rule chain_splice)
    show "chain N l (us @ x # [])" using assms(1) ks by simp
    show "chain M (next_sibling (M x)) ws" using assms(4) ks by simp
    fix u assume "u \<in> set us"
    then show "next_sibling (M u) = next_sibling (N u)" using assms(3) [of u] ks d by auto
  qed
  then show ?thesis using ks by simp
qed

text \<open>What the tree looks like after a close, and why that is a tree again.\<close>

lemma cdt_after_close:
  assumes cdt: "cdt E N nid" and c: "live E c"
    and sel: "\<And>x. x \<noteq> c \<Longrightarrow> capability_id (M x) = capability_id (N x)"
      "\<And>x. x \<noteq> c \<Longrightarrow> is_revoked (M x) = is_revoked (N x)"
      "\<And>x. x \<noteq> c \<Longrightarrow> live E x \<Longrightarrow> link_ok (first_child (M x)) \<and> link_ok (next_sibling (M x))"
      "\<And>x. x \<noteq> c \<Longrightarrow> parent (M x) = (if x \<in> children E N c then parent (N c) else parent (N x))"
      "\<And>x. x \<noteq> c \<Longrightarrow> parent_gen (M x) = (if x \<in> children E N c then (if parent (N c) = NO_SLOT then 0 else parent_gen (N c)) else parent_gen (N x))"
      "\<And>x. x \<noteq> c \<Longrightarrow> derivation_depth (M x) = (if x \<in> children E N c
         then (if parent (N c) = NO_SLOT then 0 else derivation_depth (N (parent (N c))) + 1) else derivation_depth (N x))"
    and fc: "\<And>x. x \<noteq> c \<Longrightarrow> x \<noteq> parent (N c) \<Longrightarrow> live E x \<Longrightarrow> first_child (M x) = first_child (N x)
          \<and> (\<forall>y\<in>children E N x. next_sibling (M y) = next_sibling (N y))"
    and pc: "parent (N c) \<noteq> NO_SLOT \<Longrightarrow> \<exists>cs. chain M (first_child (M (parent (N c)))) cs
          \<and> set cs = (children E N (parent (N c)) - {c}) \<union> children E N c"
  shows "cdt (E(c := invalidate_entry (E c))) M nid"
proof (rule cdtI)
  let ?E = "E(c := invalidate_entry (E c))" and ?p = "parent (N c)"
  note lv = live_invalidate [of E c "E c"]
  have cc: "c \<notin> children E N c" by (rule child_not_self [OF cdt c])
  have pe: "edge_ok E N ?p c" if "?p \<noteq> NO_SLOT" using parent_live [OF cdt c that] .
  have ncp: "?p \<noteq> c" using cc c by (auto simp: children_def)
  have Esame: "x \<noteq> c \<Longrightarrow> ?E x = E x" for x by simp
  have ch: "children ?E M x = (if x = ?p then (children E N ?p - {c}) \<union> children E N c else children E N x)"
    if "x \<noteq> c" for x
  proof (rule set_eqI)
    fix y
    show "y \<in> children ?E M x \<longleftrightarrow>
      y \<in> (if x = ?p then (children E N ?p - {c}) \<union> children E N c else children E N x)"
    proof (cases "y = c")
      case True
      then show ?thesis using cc by (auto simp: children_def lv)
    next
      case False
      then show ?thesis using that sel(4) [OF False] by (auto simp: children_def lv)
    qed
  qed
  show "0 < nid" using cdt by (simp add: cdt_def)
  show "inj_on (\<lambda>x. capability_id (M x)) {x. live ?E x}"
    using cdt sel(1) by (auto simp: cdt_def inj_on_def lv)
  fix x assume "live ?E x"
  then have x: "live E x" "x \<noteq> c" using lv by auto
  note lx = cdtD(1) [OF cdt x(1)]
  show "local_ok M nid x"
  proof -
    have "derivation_depth (M x) \<le> 8"
    proof (cases "x \<in> children E N c \<and> ?p \<noteq> NO_SLOT")
      case True
      then have "derivation_depth (M x) = derivation_depth (N ?p) + 1" using sel(6) x by simp
      moreover have "derivation_depth (N ?p) < derivation_depth (N c)" using pe True by (auto simp: edge_ok_def)
      moreover have "derivation_depth (N c) \<le> 8" using cdtD(1) [OF cdt c] by (simp add: local_ok_def)
      ultimately show ?thesis by simp
    next
      case False
      then show ?thesis using sel(6) x lx by (auto simp: local_ok_def)
    qed
    then show ?thesis using lx sel(1-3) x by (simp add: local_ok_def)
  qed
  show "chain_ok ?E M x"
  proof (cases "x = ?p")
    case True
    then have "?p \<noteq> NO_SLOT" using x(1) live_not_NO_SLOT by auto
    from pc [OF this] ch [OF x(2)] True show ?thesis unfolding chain_ok_def by simp
  next
    case False
    from fc [OF x(2) False x(1)] ch [OF x(2)] False show ?thesis
      by (intro chain_ok_frame [OF cdtD(2) [OF cdt x(1)]]) simp_all
  qed
  show "up_ok ?E M x"
  proof (cases "x \<in> children E N c")
    case True
    then have ce: "edge_ok E N c x" using child_edge [OF cdt c] by blast
    show ?thesis
    proof (cases "?p = NO_SLOT")
      case p: True
      then show ?thesis using sel(4,6) x True by (simp add: up_ok_def)
    next
      case False
      have pnc: "?p \<notin> children E N c"
      proof
        assume "?p \<in> children E N c"
        then have "edge_ok E N c ?p" using child_edge [OF cdt c] by blast
        with pe [OF False] show False by (simp add: edge_ok_def)
      qed
      have "edge_ok ?E M ?p x"
        using pe [OF False] ce ncp x True pnc False unfolding edge_ok_def lv
        by (simp add: sel rights_subset_trans) (auto intro: rights_subset_trans)
      then show ?thesis using sel(4) x True by (simp add: up_ok_def)
    qed
  next
    case False
    have px: "parent (N x) \<noteq> c" using False x by (auto simp: children_def)
    have up: "up_ok E N x" using cdtD(3) [OF cdt x(1)] .
    show ?thesis
    proof (cases "parent (N x) = NO_SLOT")
      case True
      then show ?thesis using up False x sel(4,6) by (auto simp: up_ok_def edge_ok_def live_def)
    next
      case np: False
      then have e: "edge_ok E N (parent (N x)) x" using parent_live [OF cdt x(1)] by blast
      have dd: "derivation_depth (M (parent (N x))) \<le> derivation_depth (N (parent (N x)))"
      proof (cases "parent (N x) \<in> children E N c")
        case True
        then have "edge_ok E N c (parent (N x))" using child_edge [OF cdt c] by blast
        then have "derivation_depth (N c) < derivation_depth (N (parent (N x)))" by (simp add: edge_ok_def)
        moreover have "derivation_depth (N ?p) < derivation_depth (N c)" if "?p \<noteq> NO_SLOT"
          using pe [OF that] by (simp add: edge_ok_def)
        ultimately show ?thesis using sel(6) [OF px] True by auto
      next
        case False
        then show ?thesis using sel(6) [OF px] by simp
      qed
      have "edge_ok ?E M (parent (N x)) x"
        using e px x False dd unfolding edge_ok_def lv by (simp add: sel)
      then show ?thesis using sel(4) x False by (simp add: up_ok_def)
    qed
  qed
qed

lemma obtain_chain:
  assumes "cdt E N nid" "live E x"
  obtains cs where "chain N (first_child (N x)) cs" "set cs = children E N x" "distinct cs"
  using cdtD(2) [OF assms] chain_distinct by (auto simp: chain_ok_def)

lemma local_links: "cdt E N nid \<Longrightarrow> live E x \<Longrightarrow> link_ok (first_child (N x)) \<and> link_ok (next_sibling (N x))"
  using cdtD(1) by (auto simp: local_ok_def)

lemma close_node_root:
  assumes cdt: "cdt E N nid" and c: "live E c" and root: "parent (N c) = NO_SLOT"
  shows "\<exists>M. close_node c N = Some M \<and> cdt (E(c := invalidate_entry (E c))) M nid \<and> M c = empty_node
    \<and> (\<forall>x. x \<noteq> c \<longrightarrow> core (M x) = (if x \<in> children E N c
         then core ((N x)\<lparr>parent := NO_SLOT, parent_gen := 0, derivation_depth := 0\<rparr>) else core (N x)))"
proof -
  obtain ks where ks: "chain N (first_child (N c)) ks" "set ks = children E N c" by (rule obtain_chain [OF cdt c])
  let ?f = "\<lambda>n. n\<lparr>parent := NO_SLOT, parent_gen := 0, derivation_depth := 0\<rparr>"
  define M where M_def: "M = (\<lambda>s. if s \<in> set ks then ?f (N s) else N s)(c := empty_node)"
  have walk: "walk_children ?f (first_child (N c)) None N
      = Some (\<lambda>s. if s \<in> set ks then ?f (N s) else N s, if ks = [] then None else Some (last ks))"
    by (rule walk_children_chain [OF ks(1)]) simp
  have M: "close_node c N = Some M"
    using root walk by (simp add: close_node_def M_def)
  have same: "first_child (M x) = first_child (N x)" "next_sibling (M x) = next_sibling (N x)" if "x \<noteq> c" for x
    using that by (simp_all add: M_def)
  have "cdt (E(c := invalidate_entry (E c))) M nid"
  proof (rule cdt_after_close [OF cdt c])
    fix x assume x: "x \<noteq> c"
    show "parent (M x) = (if x \<in> children E N c then parent (N c) else parent (N x))"
      "parent_gen (M x) = (if x \<in> children E N c then (if parent (N c) = NO_SLOT then 0 else parent_gen (N c)) else parent_gen (N x))"
      "derivation_depth (M x) = (if x \<in> children E N c
         then (if parent (N c) = NO_SLOT then 0 else derivation_depth (N (parent (N c))) + 1) else derivation_depth (N x))"
      "capability_id (M x) = capability_id (N x)" "is_revoked (M x) = is_revoked (N x)"
      using x root ks(2) by (simp_all add: M_def)
  next
    fix x assume x: "x \<noteq> c" "live E x"
    show "link_ok (first_child (M x)) \<and> link_ok (next_sibling (M x))"
      using local_links [OF cdt x(2)] same [OF x(1)] by simp
  next
    fix x assume x: "x \<noteq> c" "x \<noteq> parent (N c)" "live E x"
    have "c \<notin> children E N x" using x by (auto simp: children_def)
    then show "first_child (M x) = first_child (N x) \<and> (\<forall>y\<in>children E N x. next_sibling (M y) = next_sibling (N y))"
      using same x(1) by metis
  qed (use root in simp)
  then show ?thesis using M ks(2) by (intro exI [of _ M]) (simp add: M_def)
qed

lemma close_node_child:
  assumes cdt: "cdt E N nid" and c: "live E c" and np: "parent (N c) \<noteq> NO_SLOT"
  shows "\<exists>M. close_node c N = Some M \<and> cdt (E(c := invalidate_entry (E c))) M nid \<and> M c = empty_node
    \<and> (\<forall>x. x \<noteq> c \<longrightarrow> core (M x) = (if x \<in> children E N c
         then core ((N x)\<lparr>parent := parent (N c), parent_gen := parent_gen (N c),
                derivation_depth := derivation_depth (N (parent (N c))) + 1\<rparr>) else core (N x)))"
proof -
  let ?p = "parent (N c)"
  have e: "edge_ok E N ?p c" by (rule parent_live [OF cdt c np])
  then have p: "live E ?p" and dpc: "derivation_depth (N ?p) < derivation_depth (N c)" by (simp_all add: edge_ok_def)
  have d8: "derivation_depth (N ?p) + 1 \<le> 8" using dpc cdtD(1) [OF cdt c] by (simp add: local_ok_def)
  have pc: "?p \<noteq> c" using dpc by auto
  obtain ks where ks: "chain N (first_child (N c)) ks" "set ks = children E N c" by (rule obtain_chain [OF cdt c])
  obtain cs where cs: "chain N (first_child (N ?p)) cs" "set cs = children E N ?p" by (rule obtain_chain [OF cdt p])
  have "c \<in> set cs" using cs(2) c by (simp add: children_def)
  then obtain us vs where uv: "cs = us @ c # vs" by (meson split_list)
  have dist: "distinct (us @ c # vs)" using chain_distinct [OF cs(1)] uv by simp
  have disj: "set ks \<inter> set cs = {}" using ks(2) cs(2) pc children_disjoint [of c ?p E N] by simp
  have cks: "c \<notin> set ks" using ks(2) child_not_self [OF cdt c] by simp
  have pks: "?p \<notin> set ks"
  proof
    assume "?p \<in> set ks"
    then have "edge_ok E N c ?p" using child_edge [OF cdt c] ks(2) by blast
    then show False using dpc by (simp add: edge_ok_def)
  qed
  obtain N1 where N1: "remove_child_locked ?p c N = Some N1" "chain N1 (first_child (N1 ?p)) (us @ vs)"
    "\<forall>x. core (N1 x) = core (N x)" "\<forall>x. x \<noteq> ?p \<longrightarrow> first_child (N1 x) = first_child (N x)"
    "\<forall>x. x \<notin> set us \<longrightarrow> x \<noteq> c \<longrightarrow> next_sibling (N1 x) = next_sibling (N x)"
    "first_child (N1 ?p) \<in> {first_child (N ?p), next_sibling (N c)}"
    "\<forall>x. next_sibling (N1 x) \<in> {next_sibling (N x), next_sibling (N c), NO_SLOT}"
    using remove_child_spec [of N ?p us c vs] cs(1) uv live_valid [OF p] pc by auto
  let ?f = "\<lambda>n. n\<lparr>parent := ?p, parent_gen := parent_gen (N c), derivation_depth := min 255 (derivation_depth (N1 ?p) + 1)\<rparr>"
  have ks1: "chain N1 (first_child (N c)) ks"
    by (rule chain_frame [OF ks(1)]) (use N1(5) disj cks uv in auto)
  define N2 where N2_def: "N2 = (\<lambda>s. if s \<in> set ks then ?f (N1 s) else N1 s)"
  have walk: "walk_children ?f (first_child (N c)) None N1 = Some (N2, if ks = [] then None else Some (last ks))"
    unfolding N2_def by (rule walk_children_chain [OF ks1]) simp
  define N3 where N3_def: "N3 = (if ks = [] then N2 else
     N2(last ks := (N2 (last ks))\<lparr>next_sibling := first_child (N2 ?p)\<rparr>, ?p := (N2 ?p)\<lparr>first_child := first_child (N c)\<rparr>))"
  define M where M_def: "M = N3(c := empty_node)"
  have lp: "ks \<noteq> [] \<Longrightarrow> last ks \<noteq> ?p" "ks \<noteq> [] \<Longrightarrow> last ks \<noteq> c"
    using pks cks last_in_set [of ks] by metis+
  have M: "close_node c N = Some M"
    using np has_parent_iff [OF cdt c] N1(1) walk lp
    by (cases "ks = []") (simp_all add: close_node_def M_def N3_def Let_def)
  have N2sel: "first_child (N2 x) = first_child (N1 x)" "next_sibling (N2 x) = next_sibling (N1 x)" for x
    by (simp_all add: N2_def)
  have N1p: "derivation_depth (N1 ?p) = derivation_depth (N ?p)" using N1(3) coreD(4) by blast
  have Mcore: "core (M x) = (if x \<in> children E N c
         then core ((N x)\<lparr>parent := ?p, parent_gen := parent_gen (N c),
                derivation_depth := derivation_depth (N ?p) + 1\<rparr>) else core (N x))" if "x \<noteq> c" for x
  proof -
    have "core (M x) = core (N2 x)" using that by (auto simp: M_def N3_def)
    also have "\<dots> = (if x \<in> set ks then core (?f (N1 x)) else core (N1 x))" by (simp add: N2_def)
    also have "core (?f (N1 x)) = core ((N x)\<lparr>parent := ?p, parent_gen := parent_gen (N c),
                derivation_depth := derivation_depth (N ?p) + 1\<rparr>)"
      using N1(3) [rule_format, of x] N1p d8 by (simp add: core_def)
    finally show ?thesis using ks(2) N1(3) by simp
  qed
  have Mfirst: "first_child (M x) = (if x = ?p \<and> ks \<noteq> [] then first_child (N c) else first_child (N1 x))" if "x \<noteq> c" for x
    using that pc by (auto simp: M_def N3_def N2sel)
  have Mnext: "next_sibling (M x) = (if ks \<noteq> [] \<and> x = last ks then first_child (N1 ?p) else next_sibling (N1 x))" if "x \<noteq> c" for x
    using that lp by (auto simp: M_def N3_def N2sel)
  have uvM: "chain M (first_child (N1 ?p)) (us @ vs)"
  proof (rule chain_frame [OF N1(2)])
    fix y assume y: "y \<in> set (us @ vs)"
    then have "y \<noteq> c" "y \<notin> set ks" using dist disj uv by auto
    then show "next_sibling (M y) = next_sibling (N1 y)" using Mnext by auto
  qed
  have pchain: "chain M (first_child (M ?p)) (ks @ us @ vs)"
  proof (cases "ks = []")
    case True
    then show ?thesis using uvM Mfirst [OF pc] by simp
  next
    case False
    have "chain M (first_child (N c)) (ks @ us @ vs)"
    proof (rule chain_append_join [OF ks1 False])
      show "chain M (next_sibling (M (last ks))) (us @ vs)" using Mnext [of "last ks"] lp False uvM by simp
      fix k assume "k \<in> set ks" "k \<noteq> last ks"
      then show "next_sibling (M k) = next_sibling (N1 k)" using Mnext [of k] cks by auto
    qed
    then show ?thesis using Mfirst [OF pc] False by simp
  qed
  have "cdt (E(c := invalidate_entry (E c))) M nid"
  proof (rule cdt_after_close [OF cdt c])
    fix x assume x: "x \<noteq> c"
    note cx = Mcore [OF x]
    show "parent (M x) = (if x \<in> children E N c then parent (N c) else parent (N x))"
      "parent_gen (M x) = (if x \<in> children E N c then (if parent (N c) = NO_SLOT then 0 else parent_gen (N c)) else parent_gen (N x))"
      "derivation_depth (M x) = (if x \<in> children E N c
         then (if parent (N c) = NO_SLOT then 0 else derivation_depth (N (parent (N c))) + 1) else derivation_depth (N x))"
      "capability_id (M x) = capability_id (N x)" "is_revoked (M x) = is_revoked (N x)"
      using cx np by (cases "x \<in> children E N c"; simp add: core_def)+
  next
    fix x assume x: "x \<noteq> c" "live E x"
    note lx = local_links [OF cdt x(2)] and lc = local_links [OF cdt c] and lpp = local_links [OF cdt p]
    have "link_ok (first_child (N1 y))" if "live E y" for y
      using that N1(4,6) local_links [OF cdt that] lc by (cases "y = ?p") auto
    moreover have "link_ok (next_sibling (N1 x))"
      using N1(7) [rule_format, of x] lx lc by (auto simp: link_ok_def)
    ultimately show "link_ok (first_child (M x)) \<and> link_ok (next_sibling (M x))"
      using Mfirst [OF x(1)] Mnext [OF x(1)] x(2) p lc by auto
  next
    fix x assume x: "x \<noteq> c" "x \<noteq> ?p" "live E x"
    have "next_sibling (M y) = next_sibling (N y)" if "y \<in> children E N x" for y
    proof -
      have "y \<noteq> c" "y \<notin> set ks" "y \<notin> set cs"
        using that x ks(2) cs(2) by (auto simp: children_def)
      then show ?thesis using Mnext N1(5) uv by auto
    qed
    then show "first_child (M x) = first_child (N x) \<and> (\<forall>y\<in>children E N x. next_sibling (M y) = next_sibling (N y))"
      using Mfirst [OF x(1)] N1(4) x(2) by auto
  next
    have "set (ks @ us @ vs) = (children E N ?p - {c}) \<union> children E N c"
      using ks(2) cs(2) uv dist by auto
    with pchain show "\<exists>cs. chain M (first_child (M ?p)) cs \<and> set cs = (children E N ?p - {c}) \<union> children E N c"
      by blast
  qed
  moreover have "M c = empty_node" by (simp add: M_def)
  ultimately show ?thesis using M Mcore by blast
qed

section \<open>Moving a capability\<close>

lemma move_node_spec:
  assumes cdt: "cdt E N nid" and c: "live E c" and vd: "valid_slot d" and nd: "\<not> occupied (E d)"
    and e: "e = (E d)\<lparr>occupied := True, object_index := object_index (E c),
       object_generation := object_generation (E c), rights := rights (E c), endpoint := endpoint (E c)\<rparr>"
  shows "\<exists>M. move_node d c nid (handle_generation (E d)) N = Some M
    \<and> cdt (E(d := e, c := invalidate_entry (E c))) M (nid + 1)
    \<and> M c = empty_node \<and> capability_id (M d) = nid \<and> parent (M d) = parent (N c)
    \<and> derivation_depth (M d) = derivation_depth (N c)
    \<and> (\<forall>x. x \<noteq> c \<longrightarrow> x \<noteq> d \<longrightarrow> capability_id (M x) = capability_id (N x)
         \<and> parent (M x) = (if x \<in> children E N c then d else parent (N x))
         \<and> derivation_depth (M x) = derivation_depth (N x))"
proof -
  let ?p = "parent (N c)"
  let ?E = "E(d := e, c := invalidate_entry (E c))"
  have nl: "\<not> live E d" using nd by (simp add: live_def)
  have dc: "d \<noteq> c" using nl c by auto
  have dN: "d \<noteq> NO_SLOT" using vd by auto
  obtain ks where ks: "chain N (first_child (N c)) ks" "set ks = children E N c" by (rule obtain_chain [OF cdt c])
  have cks: "c \<notin> set ks" using ks(2) child_not_self [OF cdt c] by simp
  have dks: "d \<notin> set ks" using ks(2) nl by (auto simp: children_def)
  have pd: "?p \<noteq> d" if "?p \<noteq> NO_SLOT" using parent_live [OF cdt c that] nl by (auto simp: edge_ok_def)
  have pc: "?p \<noteq> c" using child_not_self [OF cdt c] c by (auto simp: children_def)
  define N0 where N0_def: "N0 = N(d := (N c)\<lparr>capability_id := nid, is_revoked := False, next_sibling := NO_SLOT\<rparr>)"
  have c0: "core (N0 x) = (if x = d then (nid, ?p, parent_gen (N c), derivation_depth (N c), False, node_flags (N c)) else core (N x))" for x
    by (simp add: N0_def core_def)
  text \<open>Splice the destination into the parent's chain.\<close>
  obtain N1 cs where N1: "(if has_parent ?p then replace_child_locked ?p c d N0 else Some N0) = Some N1"
    "\<forall>x. core (N1 x) = core (N0 x)" "\<forall>x. x \<noteq> ?p \<longrightarrow> first_child (N1 x) = first_child (N0 x)"
    "\<forall>x. x \<notin> children E N ?p \<longrightarrow> x \<noteq> d \<longrightarrow> next_sibling (N1 x) = next_sibling (N0 x)"
    "\<forall>x. live E x \<or> x = d \<longrightarrow> link_ok (first_child (N1 x)) \<and> link_ok (next_sibling (N1 x))"
    "?p \<noteq> NO_SLOT \<Longrightarrow> chain N1 (first_child (N1 ?p)) cs \<and> set cs = insert d (children E N ?p - {c})"
  proof (cases "?p = NO_SLOT")
    case True
    have l: "link_ok (first_child (N0 x)) \<and> link_ok (next_sibling (N0 x))" if "live E x \<or> x = d" for x
      using that local_links [OF cdt c] local_links [OF cdt, of x] by (auto simp: N0_def link_ok_def)
    show ?thesis by (rule that [of N0 "[]"]) (use True l in simp_all)
  next
    case False
    have p: "live E ?p" using parent_live [OF cdt c False] by (simp add: edge_ok_def)
    obtain cs where cs: "chain N (first_child (N ?p)) cs" "set cs = children E N ?p" by (rule obtain_chain [OF cdt p])
    have "c \<in> set cs" using cs(2) c by (simp add: children_def)
    then obtain us vs where uv: "cs = us @ c # vs" by (meson split_list)
    have dcs: "d \<notin> set cs" using cs(2) nl by (auto simp: children_def)
    have ch0: "chain N0 (first_child (N0 ?p)) (us @ c # vs)"
      using cs(1) uv dcs pd [OF False] by (simp add: N0_def)
    obtain N1 where r: "replace_child_locked ?p c d N0 = Some N1" "chain N1 (first_child (N1 ?p)) (us @ d # vs)"
      "\<forall>x. core (N1 x) = core (N0 x)" "\<forall>x. x \<noteq> ?p \<longrightarrow> first_child (N1 x) = first_child (N0 x)"
      "\<forall>x. x \<notin> set us \<longrightarrow> x \<noteq> d \<longrightarrow> next_sibling (N1 x) = next_sibling (N0 x)"
      "first_child (N1 ?p) \<in> {first_child (N0 ?p), d}"
      "\<forall>x. next_sibling (N1 x) \<in> {next_sibling (N0 x), next_sibling (N0 c), d}"
      using replace_child_spec [OF ch0 live_valid [OF p] vd pc pd [OF False]] dcs uv by auto
    have l0: "link_ok (first_child (N0 x)) \<and> link_ok (next_sibling (N0 x))" if "live E x \<or> x = d" for x
      using that local_links [OF cdt c] local_links [OF cdt, of x] by (auto simp: N0_def link_ok_def)
    have ld: "link_ok d" using vd by (simp add: link_ok_def)
    have "link_ok (first_child (N1 x)) \<and> link_ok (next_sibling (N1 x))" if "live E x \<or> x = d" for x
      using l0 [OF that] l0 [of c] l0 [of ?p] c p ld r(4,6) r(7) [rule_format, of x]
      by (cases "x = ?p") auto
    moreover have "set (us @ d # vs) = insert d (children E N ?p - {c})"
      using cs(2) uv chain_distinct [OF cs(1)] by auto
    moreover have "\<forall>x. x \<notin> children E N ?p \<longrightarrow> x \<noteq> d \<longrightarrow> next_sibling (N1 x) = next_sibling (N0 x)"
      using r(5) cs(2) uv by auto
    ultimately show ?thesis
      by (intro that [of N1 "us @ d # vs"]) (use r has_parent_iff [OF cdt c] False in simp_all)
  qed
  let ?f = "\<lambda>n. n\<lparr>parent := d, parent_gen := handle_generation (E d)\<rparr>"
  have ks1: "chain N1 (first_child (N c)) ks"
  proof (rule chain_frame [OF ks(1)])
    fix y assume y: "y \<in> set ks"
    then have "y \<notin> children E N ?p" "y \<noteq> d" using ks(2) pc dks by (auto simp: children_def)
    then show "next_sibling (N1 y) = next_sibling (N y)" using N1(4) by (simp add: N0_def)
  qed
  define M where M_def: "M = (\<lambda>s. if s \<in> set ks then ?f (N1 s) else N1 s)(c := empty_node)"
  have walk: "walk_children ?f (first_child (N c)) None N1
      = Some (\<lambda>s. if s \<in> set ks then ?f (N1 s) else N1 s, if ks = [] then None else Some (last ks))"
    by (rule walk_children_chain [OF ks1]) simp
  have M: "move_node d c nid (handle_generation (E d)) N = Some M"
    unfolding move_node_def Let_def N0_def [symmetric] N1(1) using walk by (simp add: M_def)
  have lv: "live ?E x \<longleftrightarrow> x \<noteq> c \<and> (x = d \<or> live E x)" for x
    using dc vd by (auto simp: live_def e)
  have sel: "capability_id (M x) = (if x = d then nid else capability_id (N x))"
    "is_revoked (M x) = (if x = d then False else is_revoked (N x))"
    "derivation_depth (M x) = (if x = d then derivation_depth (N c) else derivation_depth (N x))"
    "parent (M x) = (if x = d then ?p else if x \<in> children E N c then d else parent (N x))"
    "parent_gen (M x) = (if x = d then parent_gen (N c) else if x \<in> children E N c then handle_generation (E d) else parent_gen (N x))"
    "first_child (M x) = first_child (N1 x)" "next_sibling (M x) = next_sibling (N1 x)" if "x \<noteq> c" for x
  proof -
    have "core (N1 x) = (if x = d then (nid, ?p, parent_gen (N c), derivation_depth (N c), False, node_flags (N c)) else core (N x))"
      using N1(2) c0 by simp
    note n1 = this [unfolded core_def]
    show "capability_id (M x) = (if x = d then nid else capability_id (N x))"
      "is_revoked (M x) = (if x = d then False else is_revoked (N x))"
      "derivation_depth (M x) = (if x = d then derivation_depth (N c) else derivation_depth (N x))"
      "parent (M x) = (if x = d then ?p else if x \<in> children E N c then d else parent (N x))"
      "parent_gen (M x) = (if x = d then parent_gen (N c) else if x \<in> children E N c then handle_generation (E d) else parent_gen (N x))"
      "first_child (M x) = first_child (N1 x)" "next_sibling (M x) = next_sibling (N1 x)"
      using that n1 dks unfolding M_def ks(2) [symmetric]
      by (cases "x = d"; cases "x \<in> set ks"; simp)+
  qed
  have ch: "children ?E M x = (if x = d then children E N c else if x = ?p then insert d (children E N ?p - {c}) else children E N x)"
    if "x \<noteq> c" "x \<noteq> NO_SLOT" for x
  proof (rule set_eqI)
    fix y
    show "y \<in> children ?E M x \<longleftrightarrow> y \<in> (if x = d then children E N c else if x = ?p then insert d (children E N ?p - {c}) else children E N x)"
    proof (cases "y = c")
      case True
      then show ?thesis using cks ks(2) dc that pd by (auto simp: children_def lv)
    next
      case False
      have "parent (N y) \<noteq> d" if "live E y" using dead_has_no_children [OF cdt nl dN] that by (auto simp: children_def)
      then show ?thesis using that sel(4) [OF False] nl False pd by (auto simp: children_def lv)
    qed
  qed
  have "cdt ?E M (nid + 1)"
  proof (rule cdtI)
    show "0 < nid + 1" by simp
    show "inj_on (\<lambda>x. capability_id (M x)) {x. live ?E x}"
      by (rule inj_fresh [OF cdt, of _ d]) (use sel(1) lv dc in auto)
    fix x assume "live ?E x"
    then have x: "x \<noteq> c" "x = d \<or> live E x" using lv by auto
    have xN: "x \<noteq> NO_SLOT" using x dN live_not_NO_SLOT by auto
    show "local_ok M (nid + 1) x"
    proof (cases "x = d")
      case True
      have "0 < nid" using cdt by (simp add: cdt_def)
      then show ?thesis using True N1(5) cdtD(1) [OF cdt c] dc by (simp add: local_ok_def sel)
    next
      case False
      then have "live E x" using x by simp
      with cdtD(1) [OF cdt this] N1(5) False x(1) show ?thesis by (simp add: local_ok_def sel less_Suc_eq)
    qed
    show "chain_ok ?E M x"
    proof -
      consider "x = d" | "x = ?p" "x \<noteq> d" | "x \<noteq> d" "x \<noteq> ?p" by blast
      then show ?thesis
      proof cases
        case 1
        have "chain M (first_child (N c)) ks"
          by (rule chain_frame [OF ks1]) (metis cks sel(7))
        moreover have "first_child (M d) = first_child (N c)"
          using sel(6) [OF dc] N1(3) pd dN by (cases "?p = d") (auto simp: N0_def)
        ultimately show ?thesis using 1 ch [OF x(1) xN] ks(2) unfolding chain_ok_def by auto
      next
        case 2
        then have pn: "?p \<noteq> NO_SLOT" using xN by simp
        have "c \<notin> set cs" using N1(6) [OF pn] dc by auto
        then have "chain M (first_child (N1 ?p)) cs"
          by (intro chain_frame [OF conjunct1 [OF N1(6) [OF pn]]]) (metis sel(7))
        then show ?thesis using 2 ch [OF x(1) xN] N1(6) [OF pn] sel(6) [OF x(1)] unfolding chain_ok_def by auto
      next
        case 3
        then have lx: "live E x" using x by auto
        show ?thesis
        proof (rule chain_ok_frame [OF cdtD(2) [OF cdt lx]])
          show "first_child (M x) = first_child (N x)" using 3 sel(6) x(1) N1(3) by (simp add: N0_def)
          show "children ?E M x = children E N x" using 3 ch [OF x(1) xN] by simp
          fix y assume y: "y \<in> children E N x"
          then have "y \<noteq> c" "y \<notin> children E N ?p" "y \<noteq> d" using 3 nl by (auto simp: children_def)
          then show "next_sibling (M y) = next_sibling (N y)" using sel(7) N1(4) by (simp add: N0_def)
        qed
      qed
    qed
    show "up_ok ?E M x"
    proof -
      consider "x = d" | "x \<in> children E N c" "x \<noteq> d" | "x \<noteq> d" "x \<notin> children E N c" by blast
      then show ?thesis
      proof cases
        case 1
        show ?thesis
        proof (cases "?p = NO_SLOT")
          case True
          then show ?thesis using 1 sel(3,4) [OF dc] cdtD(3) [OF cdt c]
            by (auto simp: up_ok_def edge_ok_def live_def)
        next
          case False
          note pe = parent_live [OF cdt c False]
          have "derivation_depth (M ?p) = derivation_depth (N ?p)" using sel(3) [OF pc] pd [OF False] by simp
          then have "edge_ok ?E M ?p d" using pe pc pd [OF False] dc
            unfolding edge_ok_def lv by (simp add: sel e)
          then show ?thesis using 1 sel(4) [OF dc] by (simp add: up_ok_def)
        qed
      next
        case 2
        note ce = child_edge [OF cdt c 2(1)]
        have "edge_ok ?E M d x" using ce 2 x dc
          unfolding edge_ok_def lv by (simp add: sel e)
        then show ?thesis using 2 sel(4) [OF x(1)] by (simp add: up_ok_def)
      next
        case 3
        then have lx: "live E x" using x by auto
        have pxc: "parent (N x) \<noteq> c" using 3 lx by (auto simp: children_def)
        show ?thesis
        proof (cases "parent (N x) = NO_SLOT")
          case True
          then show ?thesis using 3 x(1) cdtD(3) [OF cdt lx] sel by (auto simp: up_ok_def edge_ok_def live_def)
        next
          case False
          note pe = parent_live [OF cdt lx False]
          then have "parent (N x) \<noteq> d" using nl by (auto simp: edge_ok_def)
          then have "edge_ok ?E M (parent (N x)) x" using pe 3 x(1) pxc
            unfolding edge_ok_def lv by (simp add: sel)
          then show ?thesis using 3 sel(4) [OF x(1)] by (simp add: up_ok_def)
        qed
      qed
    qed
  qed
  moreover have "M c = empty_node" by (simp add: M_def)
  ultimately show ?thesis using M sel dc by (intro exI [of _ M]) auto
qed

end
