(* ===== verification/CapSpec.thy ===== *)
theory CapSpec
  imports CapInv
begin

text \<open>
  The whole-state invariant \<open>caps_inv\<close> (derivation tree, handle counts, object reference counts), what
  each capability operation returns and that it preserves the invariant, and the properties of the
  capability system that follow.
\<close>

section \<open>Counts\<close>

definition hcount_ok :: "(slot \<Rightarrow> HandleEntry) \<Rightarrow> (nat \<Rightarrow> nat) \<Rightarrow> bool" where
  "hcount_ok E h \<longleftrightarrow> (\<forall>p<MAX_PROCESSES. h p = card {i. i < MAX_HANDLES_PER_PROCESS \<and> occupied (E (Slot p i))})"

definition refs_ok :: "(nat \<Rightarrow> KernelObjectSlot) \<Rightarrow> (slot \<Rightarrow> HandleEntry) \<Rightarrow> bool" where
  "refs_ok Ob E \<longleftrightarrow>
     (\<forall>x. live E x \<longrightarrow> object_index (E x) < MAX_KERNEL_OBJECTS \<and> o_occupied (Ob (object_index (E x)))
        \<and> o_generation (Ob (object_index (E x))) = object_generation (E x)) \<and>
     (\<forall>i<MAX_KERNEL_OBJECTS. o_occupied (Ob i) \<longrightarrow>
        handle_refs (header (Ob i)) = card {x. live E x \<and> object_index (E x) = i})"

definition caps_inv :: "'a caps_state_scheme \<Rightarrow> bool" where
  "caps_inv s \<longleftrightarrow> cdt (entries s) (nodes s) (next_capability_id s) \<and> hcount_ok (entries s) (hcount s)
     \<and> refs_ok (objects s) (entries s)"

lemma valid_slots: "{x. valid_slot x} = (\<lambda>(p, h). Slot p h) ` ({..<16} \<times> {..<32})"
proof (rule set_eqI)
  fix x show "x \<in> {x. valid_slot x} \<longleftrightarrow> x \<in> (\<lambda>(p, h). Slot p h) ` ({..<16} \<times> {..<32})"
    by (cases x) (force simp: valid_slot_def)
qed

lemma finite_valid [simp]: "finite {x. valid_slot x}"
  by (simp add: valid_slots)

lemma card_valid: "card {x. valid_slot x} = 512"
proof -
  have "inj_on (\<lambda>(p, h). Slot p h) ({..<16} \<times> {..<32})" by (auto simp: inj_on_def)
  then show ?thesis by (simp add: valid_slots card_image)
qed

lemma finite_live [simp]: "finite {x. live E x \<and> P x}" "finite {x. live E x}"
  by (rule finite_subset [OF _ finite_valid]; auto simp: live_def)+

lemma card_live: "card {x. live E x \<and> P x} \<le> 512"
  using card_mono [OF finite_valid, of "{x. live E x \<and> P x}"] card_valid by (auto simp: live_def)

lemma hcount_add:
  assumes "hcount_ok E h" "valid_slot x" "\<not> occupied (E x)" "occupied e"
  shows "hcount_ok (E(x := e)) (h(pslot x := h (pslot x) + 1))" "h (pslot x) < 32"
proof -
  let ?S = "\<lambda>p. {i. i < 32 \<and> occupied (E (Slot p i))}"
  have x: "Slot (pslot x) (hslot x) = x" "hslot x < 32" "pslot x < 16"
    using assms(2) by (simp_all add: valid_slot_def)
  have S: "{i. i < 32 \<and> occupied ((E(x := e)) (Slot p i))} = (if p = pslot x then insert (hslot x) (?S p) else ?S p)" for p
    using x assms(4) by (cases x) auto
  have "hslot x \<notin> ?S (pslot x)" using assms(3) x by simp
  then have "card (insert (hslot x) (?S (pslot x))) = card (?S (pslot x)) + 1" by simp
  with assms(1) S show "hcount_ok (E(x := e)) (h(pslot x := h (pslot x) + 1))"
    by (simp add: hcount_ok_def)
  have "?S (pslot x) \<subseteq> {..<32} - {hslot x}" using \<open>hslot x \<notin> _\<close> by auto
  then have "card (?S (pslot x)) \<le> card ({..<32} - {hslot x})" by (rule card_mono [rotated]) simp
  with assms(1) x show "h (pslot x) < 32" by (simp add: hcount_ok_def)
qed

lemma hcount_del:
  assumes "hcount_ok E h" "valid_slot x" "occupied (E x)" "\<not> occupied e"
  shows "hcount_ok (E(x := e)) (h(pslot x := h (pslot x) - 1))"
proof -
  let ?S = "\<lambda>p. {i. i < 32 \<and> occupied (E (Slot p i))}"
  have x: "Slot (pslot x) (hslot x) = x" "hslot x < 32" "pslot x < 16"
    using assms(2) by (simp_all add: valid_slot_def)
  have S: "{i. i < 32 \<and> occupied ((E(x := e)) (Slot p i))} = (if p = pslot x then ?S p - {hslot x} else ?S p)" for p
    using x assms(4) by (cases x) auto
  have "hslot x \<in> ?S (pslot x)" using assms(3) x by simp
  then have "card (?S (pslot x) - {hslot x}) = card (?S (pslot x)) - 1" by simp
  with assms(1) S show ?thesis by (simp add: hcount_ok_def)
qed

lemma live_add: "valid_slot x \<Longrightarrow> occupied e \<Longrightarrow> live (E(x := e)) y \<longleftrightarrow> y = x \<or> live E y"
  by (auto simp: live_def)

lemma live_del: "\<not> occupied e \<Longrightarrow> live (E(x := e)) y \<longleftrightarrow> y \<noteq> x \<and> live E y"
  by (auto simp: live_def)

lemma refs_add:
  assumes "refs_ok Ob E" "valid_slot x" "\<not> occupied (E x)" "occupied e" "object_index e = i" "i < 256"
    "o_occupied (Ob i)" "object_generation e = o_generation (Ob i)"
    "P = Ob(i := (Ob i)\<lparr>header := (header (Ob i))\<lparr>handle_refs := handle_refs (header (Ob i)) + 1\<rparr>\<rparr>)"
  shows "refs_ok P (E(x := e))" "handle_refs (header (Ob i)) < 512"
proof -
  have nl: "\<not> live E x" using assms(3) by (simp add: live_def)
  note lv = live_add [OF assms(2,4), of E]
  have S: "{y. live (E(x := e)) y \<and> object_index ((E(x := e)) y) = j}
      = (if j = i then insert x {y. live E y \<and> object_index (E y) = j} else {y. live E y \<and> object_index (E y) = j})" for j
    using lv nl assms(5) by auto
  have ni: "x \<notin> {y. live E y \<and> object_index (E y) = i}" using nl by simp
  then have c: "card (insert x {y. live E y \<and> object_index (E y) = i}) = card {y. live E y \<and> object_index (E y) = i} + 1"
    by simp
  show "refs_ok P (E(x := e))"
    unfolding refs_ok_def S
    using assms(1,5-8) c lv nl by (auto simp: refs_ok_def assms(9))
  have "insert x {y. live E y \<and> object_index (E y) = i} \<subseteq> {y. valid_slot y}"
    using assms(2) by (auto simp: live_def)
  then have "card (insert x {y. live E y \<and> object_index (E y) = i}) \<le> 512"
    using card_mono [OF finite_valid] card_valid by metis
  with c assms(1,6,7) show "handle_refs (header (Ob i)) < 512" by (simp add: refs_ok_def)
qed

lemma refs_del:
  assumes "refs_ok Ob E" "live E x" "\<not> occupied e" "object_index (E x) = i"
    "P = Ob(i := (Ob i)\<lparr>header := (header (Ob i))\<lparr>handle_refs := handle_refs (header (Ob i)) - 1\<rparr>\<rparr>)"
  shows "refs_ok P (E(x := e))" "0 < handle_refs (header (Ob i))"
proof -
  note lv = live_del [OF assms(3), of E x]
  have i: "i < 256" "o_occupied (Ob i)" using assms(1,2,4) by (auto simp: refs_ok_def)
  have S: "{y. live (E(x := e)) y \<and> object_index ((E(x := e)) y) = j}
      = (if j = i then {y. live E y \<and> object_index (E y) = j} - {x} else {y. live E y \<and> object_index (E y) = j})" for j
    using lv assms(2,4) by auto
  have mem: "x \<in> {y. live E y \<and> object_index (E y) = i}" using assms(2,4) by simp
  then have c: "card ({y. live E y \<and> object_index (E y) = i} - {x}) = card {y. live E y \<and> object_index (E y) = i} - 1"
    by simp
  show "refs_ok P (E(x := e))"
    unfolding refs_ok_def S using assms(1) c lv by (auto simp: refs_ok_def assms(5))
  have "0 < card {y. live E y \<and> object_index (E y) = i}"
    using mem finite_live(1) [of E "\<lambda>y. object_index (E y) = i"] card_gt_0_iff by blast
  moreover have "handle_refs (header (Ob i)) = card {y. live E y \<and> object_index (E y) = i}"
    using assms(1) i by (simp add: refs_ok_def)
  ultimately show "0 < handle_refs (header (Ob i))" by (simp only:)
qed

text \<open>Moving a handle to a free slot changes neither the references of its object nor the total.\<close>

lemma refs_move:
  assumes "refs_ok Ob E" "live E c" "valid_slot d" "\<not> occupied (E d)" "occupied e" "\<not> occupied f"
    "object_index e = object_index (E c)" "object_generation e = object_generation (E c)"
  shows "refs_ok Ob (E(d := e, c := f))"
proof -
  let ?i = "object_index (E c)"
  have i: "?i < 256" "o_occupied (Ob ?i)" "o_generation (Ob ?i) = object_generation (E c)"
    using assms(1,2) by (auto simp: refs_ok_def)
  have dc: "d \<noteq> c" using assms(2,4) by (auto simp: live_def)
  let ?P = "Ob(?i := (Ob ?i)\<lparr>header := (header (Ob ?i))\<lparr>handle_refs := handle_refs (header (Ob ?i)) + 1\<rparr>\<rparr>)"
  have 1: "refs_ok ?P (E(d := e))"
    by (rule refs_add [OF assms(1,3,4,5,7)]) (use i assms(8) in simp_all)
  have lc: "live (E(d := e)) c" using assms(2) dc by (simp add: live_def)
  have 2: "object_index ((E(d := e)) c) = ?i" using dc by simp
  have "refs_ok Ob ((E(d := e))(c := f))"
    by (rule refs_del(1) [OF 1 lc assms(6) 2]) (simp add: fun_eq_iff)
  then show ?thesis .
qed

section \<open>What the operations do\<close>

lemmas cap_upd_defs = set_entry_def set_node_def dec_hcount_def inc_hcount_def add_handle_ref_def
  drop_handle_ref_def update_header_def

lemma capability_id_cases:
  "next_capability_id s = U64_MAX \<Longrightarrow> allocate_capability_id s = (Err CapabilityIdExhausted, s)"
  "next_capability_id s \<noteq> U64_MAX \<Longrightarrow>
     allocate_capability_id s = (Ok (next_capability_id s), s\<lparr>next_capability_id := next_capability_id s + 1\<rparr>)"
  by (simp_all add: allocate_capability_id_def Let_def)

lemma commit_handle_ok:
  assumes "hcount s (pslot x) < 32" "handle_refs (header (objects s obj)) < 512"
  shows "commit_handle x obj s = Some (Ok (handle_new (hslot x) (handle_generation (entries s x))),
    s\<lparr>hcount := (hcount s)(pslot x := hcount s (pslot x) + 1),
      objects := (objects s)(obj := (objects s obj)\<lparr>header := (header (objects s obj))
        \<lparr>handle_refs := handle_refs (header (objects s obj)) + 1\<rparr>\<rparr>)\<rparr>)"
  using assms by (simp add: commit_handle_def cap_upd_defs)

lemma install_root_spec:
  assumes inv: "caps_inv s" and x: "valid_slot x" "\<not> occupied (entries s x)" and o: "obj < 256" "o_occupied (objects s obj)"
  shows "if next_capability_id s = U64_MAX
    then install_root_capability_locked x obj r ep s = Some (Err CapabilityIdExhausted, s)
    else \<exists>s'. install_root_capability_locked x obj r ep s
             = Some (Ok (handle_new (hslot x) (handle_generation (entries s x))), s') \<and> caps_inv s'
           \<and> entries s' = (entries s)(x := (entries s x)\<lparr>occupied := True, object_index := obj,
                object_generation := o_generation (objects s obj), rights := r, endpoint := ep\<rparr>)
           \<and> nodes s' = (nodes s)(x := root_node (next_capability_id s))"
proof (cases "next_capability_id s = U64_MAX")
  case True
  then show ?thesis using x o by (simp add: install_root_capability_locked_def capability_id_cases)
next
  case False
  let ?e = "(entries s x)\<lparr>occupied := True, object_index := obj,
              object_generation := o_generation (objects s obj), rights := r, endpoint := ep\<rparr>"
  have c: "cdt (entries s) (nodes s) (next_capability_id s)" and h: "hcount_ok (entries s) (hcount s)"
    and rf: "refs_ok (objects s) (entries s)" using inv by (simp_all add: caps_inv_def)
  have e: "occupied ?e" by simp
  note ha = hcount_add [OF h x e]
  note ra = refs_add [OF rf x e _ o _ refl]
  have hr: "handle_refs (header (objects s obj)) < 512" using ra(2) by simp
  let ?s = "s\<lparr>next_capability_id := next_capability_id s + 1, entries := (entries s)(x := ?e),
              nodes := (nodes s)(x := root_node (next_capability_id s))\<rparr>"
  have "install_root_capability_locked x obj r ep s = commit_handle x obj ?s"
    using x o False
    by (simp add: install_root_capability_locked_def capability_id_cases set_entry_def set_node_def Let_def)
  also have "\<dots> = Some (Ok (handle_new (hslot x) (handle_generation (entries s x))),
      ?s\<lparr>hcount := (hcount s)(pslot x := hcount s (pslot x) + 1),
        objects := (objects s)(obj := (objects s obj)\<lparr>header := (header (objects s obj))
        \<lparr>handle_refs := handle_refs (header (objects s obj)) + 1\<rparr>\<rparr>)\<rparr>)"
    using commit_handle_ok [of ?s x obj] ha(2) hr by simp
  finally have eq: "install_root_capability_locked x obj r ep s = \<dots>" .
  have "caps_inv (?s\<lparr>hcount := (hcount s)(pslot x := hcount s (pslot x) + 1),
        objects := (objects s)(obj := (objects s obj)\<lparr>header := (header (objects s obj))
        \<lparr>handle_refs := handle_refs (header (objects s obj)) + 1\<rparr>\<rparr>)\<rparr>)"
    using cdt_add_root [OF c x e] ha(1) ra(1) by (simp add: caps_inv_def)
  then show ?thesis using eq False by simp
qed

definition derived_state :: "slot \<Rightarrow> slot \<Rightarrow> u16 \<Rightarrow> 'a caps_state_scheme \<Rightarrow> 'a caps_state_scheme" where
  "derived_state d p req s =
     (let pe = entries s p; pn = nodes s p; nid = next_capability_id s; obj = object_index pe in
      s\<lparr>next_capability_id := nid + 1,
        entries := (entries s)(d := (entries s d)\<lparr>occupied := True, object_index := obj,
           object_generation := object_generation pe, rights := req, endpoint := endpoint pe\<rparr>),
        nodes := (nodes s)(d := \<lparr>capability_id = nid, parent = p, parent_gen = handle_generation pe,
             derivation_depth = derivation_depth pn + 1, is_revoked = False, node_flags = 0,
             first_child = NO_SLOT, next_sibling = first_child pn\<rparr>, p := pn\<lparr>first_child := d\<rparr>),
        hcount := (hcount s)(pslot d := hcount s (pslot d) + 1),
        objects := (objects s)(obj := (objects s obj)\<lparr>header := (header (objects s obj))
              \<lparr>handle_refs := handle_refs (header (objects s obj)) + 1\<rparr>\<rparr>)\<rparr>)"

definition derive_error :: "slot \<Rightarrow> u16 \<Rightarrow> 'a caps_state_scheme \<Rightarrow> IpcError option" where
  "derive_error p req s =
     (if \<not> occupied (entries s p) then Some InvalidHandle
      else if rights (entries s p) AND (CAP_DUPLICATE OR DUPLICATE) = 0 then Some CapabilityNotDuplicable
      else if \<not> is_rights_subset req (rights (entries s p)) then Some RightsAmplificationRejected
      else if derivation_depth (nodes s p) \<ge> MAX_DERIVATION_DEPTH then Some MaxDerivationDepthExceeded
      else if next_capability_id s = U64_MAX then Some CapabilityIdExhausted
      else None)"

lemma live_object:
  assumes "caps_inv s" "live (entries s) p"
  shows "object_index (entries s p) < 256" "o_occupied (objects s (object_index (entries s p)))"
    "o_generation (objects s (object_index (entries s p))) = object_generation (entries s p)" "\<not> is_revoked (nodes s p)"
  using assms cdtD(1) [of "entries s" "nodes s" "next_capability_id s" p]
  by (auto simp: caps_inv_def refs_ok_def local_ok_def)

lemma install_derived_ok:
  assumes inv: "caps_inv s" and d: "valid_slot d" "\<not> occupied (entries s d)" and p: "valid_slot p"
    and ok: "derive_error p req s = None"
  shows "install_derived_capability_locked d p req s
      = Some (Ok (handle_new (hslot d) (handle_generation (entries s d))), derived_state d p req s)"
    and "caps_inv (derived_state d p req s)"
proof -
  let ?pe = "entries s p" and ?pn = "nodes s p" and ?nid = "next_capability_id s"
  let ?obj = "object_index ?pe"
  let ?e = "(entries s d)\<lparr>occupied := True, object_index := ?obj,
           object_generation := object_generation ?pe, rights := req, endpoint := endpoint ?pe\<rparr>"
  let ?n = "\<lparr>capability_id = ?nid, parent = p, parent_gen = handle_generation ?pe,
       derivation_depth = derivation_depth ?pn + 1, is_revoked = False, node_flags = 0,
       first_child = NO_SLOT, next_sibling = NO_SLOT\<rparr>"
  let ?M = "(nodes s)(d := ?n\<lparr>next_sibling := first_child ?pn\<rparr>, p := ?pn\<lparr>first_child := d\<rparr>)"
  have c: "cdt (entries s) (nodes s) ?nid" and h: "hcount_ok (entries s) (hcount s)"
    and rf: "refs_ok (objects s) (entries s)" using inv by (simp_all add: caps_inv_def)
  have g: "occupied ?pe" "rights ?pe AND (CAP_DUPLICATE OR DUPLICATE) \<noteq> 0" "is_rights_subset req (rights ?pe)"
      "\<not> derivation_depth ?pn \<ge> MAX_DERIVATION_DEPTH" "?nid \<noteq> U64_MAX"
    using ok by (simp_all add: derive_error_def split: if_splits)
  have lp: "live (entries s) p" using p g(1) by (simp add: live_def)
  note ob = live_object [OF inv lp]
  have e: "occupied ?e" by simp
  note ha = hcount_add [OF h d e] and ra = refs_add [OF rf d e _ ob(1,2) _ refl]
  have hr: "handle_refs (header (objects s ?obj)) < 512" using ra(2) ob(3) by simp
  obtain M where M: "add_child_locked p d ((nodes s)(d := ?n)) = Some M" "cdt ((entries s)(d := ?e)) M (?nid + 1)" "M = ?M"
    using cdt_add_child [OF c d lp e _ _ _ _ _ refl] g(3,4) by auto
  let ?s = "s\<lparr>next_capability_id := ?nid + 1, entries := (entries s)(d := ?e), nodes := ?M\<rparr>"
  have "install_derived_capability_locked d p req s = commit_handle d ?obj ?s"
    using d p g ob M(1,3)
    by (simp add: install_derived_capability_locked_def capability_id_cases set_entry_def set_node_def Let_def is_rights_subset_def)
  then show "install_derived_capability_locked d p req s
      = Some (Ok (handle_new (hslot d) (handle_generation (entries s d))), derived_state d p req s)"
    using commit_handle_ok [of ?s d ?obj] ha(2) hr by (simp add: derived_state_def Let_def)
  show "caps_inv (derived_state d p req s)" using M(2,3) ha(1) ra(1) ob(3) by (simp add: caps_inv_def derived_state_def Let_def)
qed

lemma install_derived_spec:
  assumes inv: "caps_inv s" and d: "valid_slot d" "\<not> occupied (entries s d)" and p: "valid_slot p"
  shows "install_derived_capability_locked d p req s =
    (case derive_error p req s of
       Some e \<Rightarrow> Some (Err e, s)
     | None \<Rightarrow> Some (Ok (handle_new (hslot d) (handle_generation (entries s d))), derived_state d p req s))"
proof (cases "derive_error p req s")
  case None
  then show ?thesis using install_derived_ok [OF assms None] by simp
next
  case (Some e)
  show ?thesis
  proof (cases "occupied (entries s p)")
    case True
    then have lp: "live (entries s) p" using p by (simp add: live_def)
    show ?thesis using Some True d p live_object [OF inv lp]
      by (auto simp: install_derived_capability_locked_def derive_error_def capability_id_cases Let_def
          is_rights_subset_def split: if_splits)
  next
    case False
    then show ?thesis using Some d p by (simp add: install_derived_capability_locked_def derive_error_def Let_def)
  qed
qed

text \<open>Closing: the slot is invalidated, the counts drop, and the children go to the parent.\<close>

definition adopted :: "slot \<Rightarrow> (slot \<Rightarrow> CapabilityNode) \<Rightarrow> CapabilityNode \<Rightarrow> CapabilityNode" where
  "adopted c N n =
     (if parent (N c) = NO_SLOT then n\<lparr>parent := NO_SLOT, parent_gen := 0, derivation_depth := 0\<rparr>
      else n\<lparr>parent := parent (N c), parent_gen := parent_gen (N c),
             derivation_depth := derivation_depth (N (parent (N c))) + 1\<rparr>)"

lemma close_node_spec:
  assumes "cdt E N nid" "live E c"
  shows "\<exists>M. close_node c N = Some M \<and> cdt (E(c := invalidate_entry (E c))) M nid \<and> M c = empty_node
    \<and> (\<forall>x. x \<noteq> c \<longrightarrow> core (M x) = (if x \<in> children E N c then core (adopted c N (N x)) else core (N x)))"
proof (cases "parent (N c) = NO_SLOT")
  case True
  then show ?thesis using close_node_root [OF assms True] by (simp only: adopted_def if_True refl)
next
  case False
  then show ?thesis using close_node_child [OF assms False] by (simp only: adopted_def if_False)
qed

lemma close_spec:
  assumes inv: "caps_inv s" and c: "live (entries s) c"
  shows "\<exists>s'. capability_close_locked c s = Some (Ok (object_index (entries s c), endpoint (entries s c)), s') \<and> caps_inv s'
    \<and> entries s' = (entries s)(c := invalidate_entry (entries s c))
    \<and> nodes s' c = empty_node
    \<and> (\<forall>x. x \<noteq> c \<longrightarrow> core (nodes s' x) = (if x \<in> children (entries s) (nodes s) c
          then core (adopted c (nodes s) (nodes s x)) else core (nodes s x)))
    \<and> objects s' = (objects s)(object_index (entries s c) := (objects s (object_index (entries s c)))
          \<lparr>header := (header (objects s (object_index (entries s c))))
             \<lparr>handle_refs := handle_refs (header (objects s (object_index (entries s c)))) - 1\<rparr>\<rparr>)
    \<and> 0 < handle_refs (header (objects s (object_index (entries s c))))
    \<and> next_capability_id s' = next_capability_id s \<and> processes s' = processes s"
proof -
  let ?e = "entries s c" let ?i = "object_index ?e"
  have cd: "cdt (entries s) (nodes s) (next_capability_id s)" and h: "hcount_ok (entries s) (hcount s)"
    and rf: "refs_ok (objects s) (entries s)" using inv by (simp_all add: caps_inv_def)
  have v: "valid_slot c" "occupied ?e" using c by (simp_all add: live_def)
  obtain M where M: "close_node c (nodes s) = Some M" "cdt ((entries s)(c := invalidate_entry ?e)) M (next_capability_id s)"
    "M c = empty_node" "\<forall>x. x \<noteq> c \<longrightarrow> core (M x) = (if x \<in> children (entries s) (nodes s) c
          then core (adopted c (nodes s) (nodes s x)) else core (nodes s x))"
    using close_node_spec [OF cd c] by blast
  note ob = live_object [OF inv c]
  have n: "\<not> occupied (invalidate_entry ?e)" by simp
  note rd = refs_del [OF rf c n refl refl] and hd = hcount_del [OF h v n]
  let ?s = "s\<lparr>entries := (entries s)(c := invalidate_entry ?e), hcount := (hcount s)(pslot c := hcount s (pslot c) - 1),
     nodes := M, objects := (objects s)(?i := (objects s ?i)\<lparr>header := (header (objects s ?i))
             \<lparr>handle_refs := handle_refs (header (objects s ?i)) - 1\<rparr>\<rparr>)\<rparr>"
  have eq: "capability_close_locked c s = Some (Ok (?i, endpoint ?e), ?s)"
    using v M(1) ob by (simp add: capability_close_locked_def cap_upd_defs Let_def)
  have "caps_inv ?s" using M(2) rd(1) hd by (simp add: caps_inv_def)
  with eq M(3,4) rd(2) show ?thesis by simp
qed

text \<open>Moving: a fresh identifier, the same place in the tree, and the counts unchanged.\<close>

lemma hcount_move:
  assumes "hcount_ok E h" "live E c" "valid_slot d" "\<not> occupied (E d)" "occupied e" "\<not> occupied f"
  shows "hcount_ok (E(d := e, c := f)) (let k = h(pslot c := h (pslot c) - 1) in k(pslot d := k (pslot d) + 1))"
    "(h(pslot c := h (pslot c) - 1)) (pslot d) < 32"
proof -
  have dc: "d \<noteq> c" using assms(2,4) by (auto simp: live_def)
  have c: "valid_slot c" "occupied (E c)" using assms(2) by (simp_all add: live_def)
  have "hcount_ok (E(c := f)) (h(pslot c := h (pslot c) - 1))" by (rule hcount_del [OF assms(1) c assms(6)])
  moreover have "\<not> occupied ((E(c := f)) d)" using dc assms(4) by simp
  ultimately have "hcount_ok (E(c := f, d := e)) (let k = h(pslot c := h (pslot c) - 1) in k(pslot d := k (pslot d) + 1))"
    and lt: "(h(pslot c := h (pslot c) - 1)) (pslot d) < 32"
    using hcount_add [of "E(c := f)" _ d e] assms(3,5) unfolding Let_def by blast+
  then show "hcount_ok (E(d := e, c := f)) (let k = h(pslot c := h (pslot c) - 1) in k(pslot d := k (pslot d) + 1))"
    using dc by (simp add: fun_upd_twist)
  show "(h(pslot c := h (pslot c) - 1)) (pslot d) < 32" by (rule lt)
qed

definition moved_entry :: "slot \<Rightarrow> slot \<Rightarrow> (slot \<Rightarrow> HandleEntry) \<Rightarrow> HandleEntry" where
  "moved_entry d c E = (E d)\<lparr>occupied := True, object_index := object_index (E c),
     object_generation := object_generation (E c), rights := rights (E c), endpoint := endpoint (E c)\<rparr>"

lemma move_spec:
  assumes inv: "caps_inv s" and c: "live (entries s) c" and d: "valid_slot d" "\<not> occupied (entries s d)"
  shows "\<exists>s'. install_moved_capability_locked d c (next_capability_id s) (s\<lparr>next_capability_id := next_capability_id s + 1\<rparr>)
      = Some (Ok (handle_new (hslot d) (handle_generation (entries s d))), s') \<and> caps_inv s'
    \<and> entries s' = (entries s)(d := moved_entry d c (entries s), c := invalidate_entry (entries s c))
    \<and> nodes s' c = empty_node \<and> capability_id (nodes s' d) = next_capability_id s
    \<and> parent (nodes s' d) = parent (nodes s c) \<and> derivation_depth (nodes s' d) = derivation_depth (nodes s c)
    \<and> (\<forall>x. x \<noteq> c \<longrightarrow> x \<noteq> d \<longrightarrow> capability_id (nodes s' x) = capability_id (nodes s x)
         \<and> parent (nodes s' x) = (if x \<in> children (entries s) (nodes s) c then d else parent (nodes s x))
         \<and> derivation_depth (nodes s' x) = derivation_depth (nodes s x))
    \<and> objects s' = objects s \<and> next_capability_id s' = next_capability_id s + 1 \<and> processes s' = processes s"
proof -
  let ?E = "entries s" and ?nid = "next_capability_id s"
  let ?e = "moved_entry d c ?E"
  have cd: "cdt ?E (nodes s) ?nid" and h: "hcount_ok ?E (hcount s)"
    and rf: "refs_ok (objects s) ?E" using inv by (simp_all add: caps_inv_def)
  have dc: "d \<noteq> c" using c d by (auto simp: live_def)
  have e: "occupied ?e" "\<not> occupied (invalidate_entry (?E c))" by (simp_all add: moved_entry_def)
  obtain M where M: "move_node d c ?nid (handle_generation (?E d)) (nodes s) = Some M"
    "cdt (?E(d := ?e, c := invalidate_entry (?E c))) M (?nid + 1)"
    "M c = empty_node \<and> capability_id (M d) = ?nid \<and> parent (M d) = parent (nodes s c)
    \<and> derivation_depth (M d) = derivation_depth (nodes s c)
    \<and> (\<forall>x. x \<noteq> c \<longrightarrow> x \<noteq> d \<longrightarrow> capability_id (M x) = capability_id (nodes s x)
         \<and> parent (M x) = (if x \<in> children ?E (nodes s) c then d else parent (nodes s x))
         \<and> derivation_depth (M x) = derivation_depth (nodes s x))"
    using move_node_spec [OF cd c d] unfolding moved_entry_def by blast
  note hm = hcount_move [OF h c d e]
  have rm: "refs_ok (objects s) (?E(d := ?e, c := invalidate_entry (?E c)))"
    by (rule refs_move [OF rf c d e]) (simp_all add: moved_entry_def)
  let ?k = "(hcount s)(pslot c := hcount s (pslot c) - 1)"
  let ?s = "s\<lparr>next_capability_id := ?nid + 1, entries := ?E(d := ?e, c := invalidate_entry (?E c)),
     hcount := ?k(pslot d := ?k (pslot d) + 1), nodes := M\<rparr>"
  have "install_moved_capability_locked d c ?nid (s\<lparr>next_capability_id := ?nid + 1\<rparr>)
      = Some (Ok (handle_new (hslot d) (handle_generation (?E d))), ?s)"
    using c d dc M(1) hm(2) live_object(4) [OF inv c]
    by (simp add: install_moved_capability_locked_def cap_upd_defs Let_def live_def moved_entry_def split: if_splits)
  moreover have "caps_inv ?s" using M(2) rm hm(1) by (simp add: caps_inv_def Let_def)
  ultimately show ?thesis using M(3) by simp
qed

end
