(* ===== verification/CapProps.thy ===== *)
theory CapProps
  imports CapSpec
begin

text \<open>
  The capability system as a whole: every operation of \<open>cap/ops.rs\<close>, \<open>cap/transfer.rs\<close> and the handle
  and object operations as one step relation on the kernel's capability state, the invariant of every
  reachable state, and the guarantees the rest of the kernel relies on.
\<close>

section \<open>Operations return and keep the invariant\<close>

definition cap_safe :: "('r \<times> 'a caps_state_scheme) option \<Rightarrow> bool" where
  "cap_safe out \<longleftrightarrow> (case out of None \<Rightarrow> False | Some (_, s') \<Rightarrow> caps_inv s')"

lemma cap_safe_Some [simp]: "cap_safe (Some (r, s)) = caps_inv s"
  by (simp add: cap_safe_def)

lemma allocate_handle_slot_cases:
  assumes "ps < 16"
  obtains "allocate_handle_slot_locked ps s = Some (Err HandleTableFull)" "\<And>i. i < 32 \<Longrightarrow> occupied (entries s (Slot ps i))"
  | i where "allocate_handle_slot_locked ps s = Some (Ok i)" "valid_slot (Slot ps i)" "\<not> occupied (entries s (Slot ps i))"
      "\<And>j. j < i \<Longrightarrow> occupied (entries s (Slot ps j))"
proof (cases "find (\<lambda>i. \<not> occupied (entries s (Slot ps i))) [0..<32]")
  case None
  then have "\<And>i. i < 32 \<Longrightarrow> occupied (entries s (Slot ps i))" by (simp add: find_upt_None_iff)
  moreover have "allocate_handle_slot_locked ps s = Some (Err HandleTableFull)"
    using assms None by (simp add: allocate_handle_slot_locked_def)
  ultimately show thesis using that(1) by blast
next
  case (Some i)
  then have i: "i < 32" "\<not> occupied (entries s (Slot ps i))" "\<And>j. j < i \<Longrightarrow> occupied (entries s (Slot ps j))"
    by (simp_all add: find_upt_Some_iff)
  have "allocate_handle_slot_locked ps s = Some (Ok i)" using assms Some by (simp add: allocate_handle_slot_locked_def)
  then show thesis using that(2) i assms by (simp add: valid_slot_def)
qed

lemma resolve_slot: "resolve_current_process_slot pid s = Inr ps \<Longrightarrow> ps < 16"
  by (auto simp: resolve_current_process_slot_def find_upt_Some_iff split: option.splits)

lemma install_derived_safe:
  "caps_inv s \<Longrightarrow> valid_slot d \<Longrightarrow> \<not> occupied (entries s d) \<Longrightarrow> valid_slot p \<Longrightarrow>
     cap_safe (install_derived_capability_locked d p req s)"
  using install_derived_spec [of s d p req] install_derived_ok(2) [of s d p req]
  by (cases "derive_error p req s") simp_all

lemma install_root_safe:
  "caps_inv s \<Longrightarrow> valid_slot x \<Longrightarrow> \<not> occupied (entries s x) \<Longrightarrow> obj < 256 \<Longrightarrow> o_occupied (objects s obj) \<Longrightarrow>
     cap_safe (install_root_capability_locked x obj r ep s)"
  using install_root_spec [of s x obj r ep] by (auto split: if_splits)

lemma allocate_handle_entry_safe:
  assumes "caps_inv s" "ps < 16" "obj < 256" "o_occupied (objects s obj)"
  shows "cap_safe (allocate_handle_entry_locked ps obj r ep s)"
  by (rule allocate_handle_slot_cases [OF assms(2), of s])
     (use assms in \<open>simp_all add: allocate_handle_entry_locked_def install_root_safe\<close>)

lemma close_safe:
  assumes "caps_inv s" "valid_slot c"
  shows "cap_safe (capability_close_locked c s)"
proof (cases "occupied (entries s c)")
  case True
  then show ?thesis using close_spec [OF assms(1), of c] assms(2) by (auto simp: live_def)
next
  case False
  then show ?thesis using assms by (simp add: capability_close_locked_def)
qed

lemma close_handle_safe: "caps_inv s \<Longrightarrow> ps < 16 \<Longrightarrow> cap_safe (close_handle_locked ps h s)"
  using close_safe [of s "Slot ps (handle_slot_index h)"]
  by (simp add: close_handle_locked_def valid_slot_def Let_def)

lemma transfer_move_safe:
  assumes "caps_inv s" "valid_slot c" "ps < 16"
  shows "cap_safe (transfer_move_locked c ps s)"
proof (rule allocate_handle_slot_cases [OF assms(3), of s])
  assume "allocate_handle_slot_locked ps s = Some (Err HandleTableFull)"
  then show ?thesis using assms by (simp add: transfer_move_locked_def Let_def)
next
  fix i assume i: "allocate_handle_slot_locked ps s = Some (Ok i)" "valid_slot (Slot ps i)" "\<not> occupied (entries s (Slot ps i))"
  show ?thesis
  proof (cases "occupied (entries s c) \<and> next_capability_id s \<noteq> U64_MAX")
    case True
    then show ?thesis using assms i move_spec [OF assms(1) _ i(2,3), of c]
      by (auto simp: transfer_move_locked_def Let_def capability_id_cases live_def)
  next
    case False
    then show ?thesis using assms i by (auto simp: transfer_move_locked_def Let_def capability_id_cases)
  qed
qed

lemma transfer_delegate_safe:
  assumes "caps_inv s" "valid_slot c" "ps < 16"
  shows "cap_safe (transfer_delegate_locked c ps req s)"
  by (rule allocate_handle_slot_cases [OF assms(3), of s])
     (use assms in \<open>simp_all add: install_derived_safe transfer_delegate_locked_def Let_def\<close>)

lemma derive_safe:
  assumes "caps_inv s" shows "cap_safe (capability_derive pid h req s)"
proof (cases "resolve_current_process_slot pid s")
  case (Inr ps)
  note ps = resolve_slot [OF Inr]
  show ?thesis
    by (rule allocate_handle_slot_cases [OF ps, of s])
       (use assms Inr ps in \<open>simp_all add: install_derived_safe capability_derive_def valid_slot_def\<close>)
qed (use assms in \<open>simp add: capability_derive_def\<close>)

lemma duplicate_safe:
  assumes "caps_inv s" shows "cap_safe (capability_duplicate pid h s)"
proof (cases "resolve_current_process_slot pid s")
  case (Inr ps)
  note ps = resolve_slot [OF Inr]
  show ?thesis
    by (rule allocate_handle_slot_cases [OF ps, of s])
       (use assms Inr ps in \<open>simp_all add: install_derived_safe capability_duplicate_def valid_slot_def Let_def\<close>)
qed (use assms in \<open>simp add: capability_duplicate_def\<close>)

text \<open>Creating an object, and freeing one no live handle refers to.\<close>

lemma caps_inv_cong:
  assumes "caps_inv s" "entries s' = entries s" "nodes s' = nodes s" "next_capability_id s' = next_capability_id s"
    "hcount s' = hcount s" "refs_ok (objects s') (entries s)"
  shows "caps_inv s'"
  using assms by (simp add: caps_inv_def)

lemma refs_fresh:
  assumes "refs_ok Ob E" "\<not> o_occupied (Ob i)" "handle_refs (header ob) = 0"
  shows "refs_ok (Ob(i := ob)) E"
proof -
  have no: "live E x \<Longrightarrow> object_index (E x) \<noteq> i" for x using assms(1,2) by (auto simp: refs_ok_def)
  then have "{x. live E x \<and> object_index (E x) = i} = {}" by auto
  then have "card {x. live E x \<and> object_index (E x) = i} = 0" by simp
  with assms no show ?thesis by (simp add: refs_ok_def)
qed

lemma refs_gone:
  assumes "refs_ok Ob E" "i < 256" "o_occupied (Ob i)" "handle_refs (header (Ob i)) = 0" "\<not> o_occupied ob"
  shows "refs_ok (Ob(i := ob)) E"
proof -
  have "card {x. live E x \<and> object_index (E x) = i} = 0" using assms(1-4) by (simp add: refs_ok_def)
  then have "{x. live E x \<and> object_index (E x) = i} = {}" by simp
  then have "live E x \<Longrightarrow> object_index (E x) \<noteq> i" for x by blast
  with assms(1,5) show ?thesis by (simp add: refs_ok_def)
qed

lemma allocate_object_slot_inv:
  assumes "caps_inv s" shows "caps_inv (snd (allocate_object_slot_locked ty pool pid s))"
proof -
  have rf: "refs_ok (objects s) (entries s)" using assms by (simp add: caps_inv_def)
  show ?thesis
    by (rule caps_inv_cong [OF assms])
       (auto simp: allocate_object_slot_locked_def allocate_object_id_def Let_def find_upt_Some_iff rf
         intro!: refs_fresh [OF rf] split: option.splits)
qed

lemma free_object_slot_inv:
  assumes "caps_inv s" "i < 256" "o_occupied (objects s i)" "handle_refs (header (objects s i)) = 0"
  shows "\<exists>s'. free_object_slot_locked i s = Some s' \<and> caps_inv s'"
proof -
  have rf: "refs_ok (objects s) (entries s)" using assms by (simp add: caps_inv_def)
  have "caps_inv (the (free_object_slot_locked i s))"
    by (rule caps_inv_cong [OF assms(1)])
       (use assms refs_gone [OF rf assms(2-4)] in \<open>simp_all add: free_object_slot_locked_def\<close>)
  then show ?thesis using assms by (auto simp: free_object_slot_locked_def)
qed

section \<open>The initial state\<close>

text \<open>The static tables before the first capability is installed.\<close>

definition caps_initial :: "(nat \<Rightarrow> ProcessSlot) \<Rightarrow> caps_state" where
  "caps_initial procs = \<lparr>objects = \<lambda>_. empty_object_slot, next_object_id = 1, entries = \<lambda>_. empty_handle_entry,
     hcount = \<lambda>_. 0, processes = procs, nodes = \<lambda>_. empty_node, next_capability_id = 1\<rparr>"

lemma caps_initial_inv: "caps_inv (caps_initial procs)"
  by (simp add: caps_inv_def caps_initial_def cdt_def hcount_ok_def refs_ok_def live_def empty_handle_entry_def
      empty_object_slot_def)

section \<open>What a handle means\<close>

text \<open>On states that satisfy the invariant the meaning of a handle is a function of the handle
  tables alone: the revocation flag and the object generation never contradict an occupied entry.\<close>

definition lookup_handle :: "nat \<Rightarrow> Handle \<Rightarrow> u16 \<Rightarrow> (slot \<Rightarrow> HandleEntry) \<Rightarrow> IpcError + nat \<times> nat \<times> u16" where
  "lookup_handle ps h q E =
     (let e = E (Slot ps (handle_slot_index h)) in
      if handle_slot_index h \<ge> MAX_HANDLES_PER_PROCESS then Err InvalidHandle
      else if handle_generation e \<noteq> handle_gen h then Err BadHandleGeneration
      else if \<not> occupied e then Err InvalidHandle
      else if \<not> has_rights (rights e) q then Err PermissionDenied
      else Ok (object_index e, endpoint e, rights e))"

lemma validate_handle_eq:
  assumes "caps_inv s" "ps < 16"
  shows "validate_handle_locked ps h q s = Some (lookup_handle ps h q (entries s))"
proof (cases "handle_slot_index h < 32 \<and> occupied (entries s (Slot ps (handle_slot_index h)))")
  case True
  then have "live (entries s) (Slot ps (handle_slot_index h))" using assms(2) by (simp add: live_def valid_slot_def)
  from live_object [OF assms(1) this] show ?thesis
    using True assms(2) by (simp add: validate_handle_locked_def lookup_handle_def Let_def has_rights_def)
next
  case False
  then show ?thesis using assms(2) by (auto simp: validate_handle_locked_def lookup_handle_def Let_def)
qed

lemma lookup_handle_other:
  "Slot ps (handle_slot_index h) \<noteq> x \<Longrightarrow> lookup_handle ps h q (E(x := e)) = lookup_handle ps h q E"
  by (simp add: lookup_handle_def)

lemma lookup_handle_self:
  "x = Slot ps i \<Longrightarrow> i < 32 \<Longrightarrow> occupied (E x) \<Longrightarrow>
     lookup_handle ps (handle_new i (handle_generation (E x))) q E
       = (if has_rights (rights (E x)) q then Ok (object_index (E x), endpoint (E x), rights (E x)) else Err PermissionDenied)"
  by (simp add: lookup_handle_def handle_slot_roundtrip handle_gen_roundtrip Let_def)

lemma lookup_handle_stale:
  assumes "handle_slot_index h < 32" "handle_generation e = handle_gen h"
  shows "lookup_handle ps h q (E(Slot ps (handle_slot_index h) := invalidate_entry e)) = Err BadHandleGeneration"
  using assms invalidate_entry_simps(2) [of e] by (simp add: lookup_handle_def Let_def)

section \<open>Properties\<close>

text \<open>The two validation routines agree. \<open>validate_handle_locked\<close> (used by the IPC paths) and
  \<open>validate_capability_locked\<close> (used by the capability system calls) return the same result, panic
  included, for every process slot, handle, required rights and state.\<close>

theorem validate_equivalent: "validate_capability_locked ps h q s = validate_handle_locked ps h q s"
  by (auto simp: validate_capability_locked_def validate_handle_locked_def Let_def)

text \<open>The derivation relation of a state.\<close>

definition derived_from :: "'a caps_state_scheme \<Rightarrow> slot \<Rightarrow> slot \<Rightarrow> bool" where
  "derived_from s x p \<longleftrightarrow> live (entries s) x \<and> parent (nodes s x) = p \<and> p \<noteq> NO_SLOT"

lemma derived_from_edge: "caps_inv s \<Longrightarrow> derived_from s x p \<Longrightarrow> edge_ok (entries s) (nodes s) p x"
  by (auto simp: derived_from_def caps_inv_def intro: parent_live)

text \<open>The ancestors of a live capability on a state that satisfies the invariant.\<close>

lemma ancestor_bounds:
  assumes "caps_inv s" "(derived_from s)\<^sup>+\<^sup>+ x a"
  shows "live (entries s) a \<and> is_rights_subset (rights (entries s x)) (rights (entries s a))
    \<and> object_index (entries s x) = object_index (entries s a)
    \<and> object_generation (entries s x) = object_generation (entries s a)
    \<and> endpoint (entries s x) = endpoint (entries s a)
    \<and> derivation_depth (nodes s a) < derivation_depth (nodes s x)
    \<and> derivation_depth (nodes s x) \<le> MAX_DERIVATION_DEPTH"
  using assms(2)
proof (induction rule: tranclp_induct)
  case (base y)
  have "live (entries s) x" using base by (simp add: derived_from_def)
  then have "derivation_depth (nodes s x) \<le> MAX_DERIVATION_DEPTH"
    using assms(1) cdtD(1) [of "entries s" "nodes s" "next_capability_id s" x] by (simp add: caps_inv_def local_ok_def)
  then show ?case using derived_from_edge [OF assms(1) base] by (simp add: edge_ok_def)
next
  case (step y z)
  then show ?case using derived_from_edge [OF assms(1) step.hyps(2)]
    by (auto simp: edge_ok_def intro: rights_subset_trans)
qed

text \<open>C2: closing a handle kills exactly that handle. When \<open>close_handle_locked\<close> succeeds, the
  closed token is rejected with \<open>BadHandleGeneration\<close> whatever rights are asked for, every handle of
  every process that names another slot validates exactly as before, the object keeps one reference
  per remaining live handle, the children of the closed capability are adopted by its parent, or
  become roots at depth zero, and the invariant still holds.\<close>

theorem close_handle_kills:
  assumes "caps_inv s" "ps < MAX_PROCESSES" "close_handle_locked ps h s = Some (Ok (obj, ep), s')"
  shows "caps_inv s' \<and> validate_handle_locked ps h q s' = Some (Err BadHandleGeneration)
    \<and> (\<forall>ps'<MAX_PROCESSES. \<forall>h' q'. Slot ps' (handle_slot_index h') \<noteq> Slot ps (handle_slot_index h) \<longrightarrow>
          validate_handle_locked ps' h' q' s' = validate_handle_locked ps' h' q' s)
    \<and> handle_refs (header (objects s obj)) = handle_refs (header (objects s' obj)) + 1
    \<and> (\<forall>x. derived_from s x (Slot ps (handle_slot_index h)) \<longrightarrow>
          parent (nodes s' x) = parent (nodes s (Slot ps (handle_slot_index h)))
          \<and> (parent (nodes s' x) = NO_SLOT \<longrightarrow> derivation_depth (nodes s' x) = 0))"
proof -
  let ?x = "Slot ps (handle_slot_index h)"
  have g: "handle_slot_index h < 32" "handle_generation (entries s ?x) = handle_gen h" "occupied (entries s ?x)"
    and cl: "capability_close_locked ?x s = Some (Ok (obj, ep), s')"
    using assms(2,3) by (auto simp: close_handle_locked_def Let_def split: if_splits)
  have lx: "live (entries s) ?x" using g assms(2) by (simp add: live_def valid_slot_def)
  have sp: "caps_inv s'" "entries s' = (entries s)(?x := invalidate_entry (entries s ?x))" "obj = object_index (entries s ?x)"
    "\<And>x. x \<noteq> ?x \<Longrightarrow> core (nodes s' x) = (if x \<in> children (entries s) (nodes s) ?x
          then core (adopted ?x (nodes s) (nodes s x)) else core (nodes s x))"
    "objects s' = (objects s)(obj := (objects s obj)
          \<lparr>header := (header (objects s obj))\<lparr>handle_refs := handle_refs (header (objects s obj)) - 1\<rparr>\<rparr>)"
    "0 < handle_refs (header (objects s obj))"
    using close_spec [OF assms(1) lx] cl by auto
  have ad: "parent (nodes s' x) = parent (nodes s ?x) \<and> (parent (nodes s' x) = NO_SLOT \<longrightarrow> derivation_depth (nodes s' x) = 0)"
    if x: "derived_from s x ?x" for x
  proof -
    have "x \<noteq> ?x" using derived_from_edge [OF assms(1) x] by (auto simp: edge_ok_def)
    moreover have "x \<in> children (entries s) (nodes s) ?x" using x by (simp add: derived_from_def children_def)
    ultimately have "core (nodes s' x) = core (adopted ?x (nodes s) (nodes s x))" using sp(4) by simp
    from coreD(2,4) [OF this] show ?thesis by (simp add: adopted_def)
  qed
  show ?thesis
    using assms(1,2) sp(1,2,5,6) g ad
    by (auto simp: validate_handle_eq lookup_handle_stale lookup_handle_other)
qed

lemma derived_lookup:
  assumes "valid_slot d" "derive_error p req s = None"
  shows "lookup_handle (pslot d) (handle_new (hslot d) (handle_generation (entries s d))) q (entries (derived_state d p req s))
    = (if has_rights req q then Ok (object_index (entries s p), endpoint (entries s p), req) else Err PermissionDenied)"
  using lookup_handle_self [of d "pslot d" "hslot d" "entries (derived_state d p req s)" q] assms
  by (simp add: derived_state_def Let_def valid_slot_def)

lemma derived_other:
  "Slot ps (handle_slot_index h) \<noteq> d \<Longrightarrow> lookup_handle ps h q (entries (derived_state d p req s)) = lookup_handle ps h q (entries s)"
  by (simp add: derived_state_def Let_def lookup_handle_other)

text \<open>C7: what \<open>capability_derive\<close> grants. When it succeeds, the slot the handle names was occupied,
  its rights included a duplication right and all the requested rights, the new handle validates at
  the same process for exactly the requested rights on the same object and endpoint, the new
  capability is a child of the old one, every other handle of every process validates as before, and
  the invariant still holds.\<close>

theorem derive_grants:
  assumes "caps_inv s" "resolve_current_process_slot pid s = Inr ps" "capability_derive pid h req s = Some (Ok h', s')"
  shows "caps_inv s' \<and> (let p = Slot ps (handle_slot_index h); d = Slot ps (handle_slot_index h') in
      occupied (entries s p) \<and> \<not> occupied (entries s d)
    \<and> rights (entries s p) AND (CAP_DUPLICATE OR DUPLICATE) \<noteq> 0 \<and> is_rights_subset req (rights (entries s p))
    \<and> validate_handle_locked ps h' q s' = Some (if has_rights req q
          then Ok (object_index (entries s p), endpoint (entries s p), req) else Err PermissionDenied)
    \<and> derived_from s' d p
    \<and> (\<forall>ps'<MAX_PROCESSES. \<forall>k r. Slot ps' (handle_slot_index k) \<noteq> d \<longrightarrow>
          validate_handle_locked ps' k r s' = validate_handle_locked ps' k r s))"
proof -
  let ?p = "Slot ps (handle_slot_index h)"
  have ps: "ps < 16" by (rule resolve_slot [OF assms(2)])
  have vp: "valid_slot ?p" using assms(2,3) ps by (auto simp: capability_derive_def valid_slot_def split: if_splits)
  obtain i where i: "allocate_handle_slot_locked ps s = Some (Ok i)" "valid_slot (Slot ps i)" "\<not> occupied (entries s (Slot ps i))"
    by (rule allocate_handle_slot_cases [OF ps, of s]) (use assms(2,3) vp in \<open>auto simp: capability_derive_def valid_slot_def\<close>)
  let ?d = "Slot ps i"
  have der: "install_derived_capability_locked ?d ?p req s = Some (Ok h', s')"
    using assms(2,3) i(1) vp by (simp add: capability_derive_def valid_slot_def)
  then have ok: "derive_error ?p req s = None" and h': "h' = handle_new i (handle_generation (entries s ?d))"
    and s': "s' = derived_state ?d ?p req s"
    using install_derived_spec [OF assms(1) i(2,3) vp, of req] by (auto split: option.splits)
  have ix: "handle_slot_index h' = i" using i(2) by (simp add: h' handle_slot_roundtrip valid_slot_def)
  have inv: "caps_inv s'" using install_derived_ok(2) [OF assms(1) i(2,3) vp ok] s' by simp
  have g: "occupied (entries s ?p)" "rights (entries s ?p) AND (CAP_DUPLICATE OR DUPLICATE) \<noteq> 0"
      "is_rights_subset req (rights (entries s ?p))"
    using ok by (simp_all add: derive_error_def split: if_splits)
  have "?d \<noteq> ?p" using g(1) i(3) by auto
  then have df: "derived_from s' ?d ?p"
    using i(2) by (simp add: s' derived_from_def derived_state_def live_def Let_def valid_slot_def NO_SLOT_def)
  have "lookup_handle ps h' q (entries s')
      = (if has_rights req q then Ok (object_index (entries s ?p), endpoint (entries s ?p), req) else Err PermissionDenied)"
    using derived_lookup [OF i(2) ok, of q] by (simp add: s' h')
  then show ?thesis
    using inv g df i(3) ps ix assms(1) by (simp add: Let_def validate_handle_eq s' derived_other)
qed

text \<open>C21: a transfer moves authority without copying it. When \<open>transfer_move_locked\<close> succeeds, the
  source handle is rejected from then on, the new handle validates at the destination process for the
  same object, endpoint and rights, every handle that names neither slot validates as before, no
  object changes (so the reference counts stay exact), and the capability keeps its place in the
  derivation tree: the same parent, and as children exactly the children it had.\<close>

theorem transfer_moves:
  assumes "caps_inv s" "valid_slot c" "ps < MAX_PROCESSES" "transfer_move_locked c ps s = Some (Ok h', s')"
    "handle_slot_index h = hslot c" "handle_gen h = handle_generation (entries s c)"
  shows "caps_inv s' \<and> validate_handle_locked (pslot c) h q s' = Some (Err BadHandleGeneration)
    \<and> validate_handle_locked ps h' q s' = Some (if has_rights (rights (entries s c)) q
          then Ok (object_index (entries s c), endpoint (entries s c), rights (entries s c)) else Err PermissionDenied)
    \<and> (\<forall>ps'<MAX_PROCESSES. \<forall>k r. Slot ps' (handle_slot_index k) \<noteq> c \<longrightarrow>
          Slot ps' (handle_slot_index k) \<noteq> Slot ps (handle_slot_index h') \<longrightarrow>
          validate_handle_locked ps' k r s' = validate_handle_locked ps' k r s)
    \<and> objects s' = objects s \<and> parent (nodes s' (Slot ps (handle_slot_index h'))) = parent (nodes s c)
    \<and> {x. derived_from s' x (Slot ps (handle_slot_index h'))} = {x. derived_from s x c}"
proof -
  have ps: "ps < 16" using assms(3) by simp
  have oc: "occupied (entries s c)" using assms(2,3,4) by (auto simp: transfer_move_locked_def Let_def split: if_splits)
  then have lc: "live (entries s) c" using assms(2) by (simp add: live_def)
  obtain i where i: "allocate_handle_slot_locked ps s = Some (Ok i)" "valid_slot (Slot ps i)" "\<not> occupied (entries s (Slot ps i))"
    by (rule allocate_handle_slot_cases [OF ps, of s])
       (use assms(2,3,4) in \<open>auto simp: transfer_move_locked_def Let_def split: if_splits\<close>)
  let ?d = "Slot ps i"
  have nid: "next_capability_id s \<noteq> U64_MAX"
    using assms(2,3,4) i(1) by (auto simp: transfer_move_locked_def Let_def capability_id_cases split: if_splits)
  have mv: "install_moved_capability_locked ?d c (next_capability_id s) (s\<lparr>next_capability_id := next_capability_id s + 1\<rparr>)
      = Some (Ok h', s')"
    using assms(2,3,4) i(1) nid by (auto simp: transfer_move_locked_def Let_def capability_id_cases split: if_splits)
  have sp: "h' = handle_new i (handle_generation (entries s ?d))" "caps_inv s'" "objects s' = objects s"
    "entries s' = (entries s)(?d := moved_entry ?d c (entries s), c := invalidate_entry (entries s c))"
    "parent (nodes s' ?d) = parent (nodes s c)"
    and pr: "\<And>x. x \<noteq> c \<Longrightarrow> x \<noteq> ?d \<Longrightarrow> parent (nodes s' x) = (if x \<in> children (entries s) (nodes s) c then ?d else parent (nodes s x))"
    using move_spec [OF assms(1) lc i(2,3)] mv by auto
  have dc: "?d \<noteq> c" using oc i(3) by auto
  have ix: "handle_slot_index h' = i" using i(2) by (simp add: sp(1) handle_slot_roundtrip valid_slot_def)
  have cd: "cdt (entries s) (nodes s) (next_capability_id s)" using assms(1) by (simp add: caps_inv_def)
  have nochild: "live (entries s) x \<Longrightarrow> parent (nodes s x) \<noteq> ?d" for x
    using parent_live [OF cd, of x] i(2,3) by (auto simp: edge_ok_def live_def valid_slot_def NO_SLOT_def)
  have cself: "\<not> derived_from s c c" using derived_from_edge [OF assms(1), of c c] by (auto simp: edge_ok_def)
  have ch: "derived_from s' x ?d \<longleftrightarrow> derived_from s x c" for x
  proof -
    consider "x = c" | "x = ?d" | "x \<noteq> c" "x \<noteq> ?d" by blast
    then show ?thesis
    proof cases
      case 1
      then show ?thesis using cself by (simp add: derived_from_def sp(4) live_def)
    next
      case 2
      then show ?thesis using nochild [OF lc] i(3) by (simp add: derived_from_def sp(5) live_def)
    next
      case 3
      then show ?thesis using pr [OF 3] nochild [of x] i(2) assms(2)
        by (auto simp: derived_from_def sp(4) live_def children_def valid_slot_def NO_SLOT_def)
    qed
  qed
  have src: "lookup_handle (pslot c) h q (entries s') = Err BadHandleGeneration"
    using lookup_handle_stale [of h "entries s c" "pslot c"] assms(2,5,6) by (simp add: sp(4) valid_slot_def)
  have dst: "lookup_handle ps h' q (entries s') = (if has_rights (rights (entries s c)) q
          then Ok (object_index (entries s c), endpoint (entries s c), rights (entries s c)) else Err PermissionDenied)"
    using lookup_handle_self [of ?d ps i "entries s'" q] i(2) dc by (simp add: sp(1,4) valid_slot_def moved_entry_def)
  have pc: "pslot c < 16" using assms(2) by (simp add: valid_slot_def)
  have oth: "lookup_handle ps' k r (entries s') = lookup_handle ps' k r (entries s)"
    if "Slot ps' (handle_slot_index k) \<noteq> c" "Slot ps' (handle_slot_index k) \<noteq> ?d" for ps' k r
    using that by (simp add: sp(4) lookup_handle_other)
  show ?thesis using sp(2,3,5) assms(1) pc ps src dst oth ch by (simp add: validate_handle_eq ix)
qed

section \<open>Concrete states\<close>

text \<open>Three processes; one channel object; a root capability with two rights that may be duplicated and
  transferred, in slot 0 of process 0; and a read-only child of it in slot 1.\<close>

definition demo_procs :: "nat \<Rightarrow> ProcessSlot" where
  "demo_procs = (\<lambda>i. \<lparr>p_occupied = i < 3, p_id = i + 7\<rparr>)"

definition demo_rights :: u16 where
  "demo_rights = CAP_DUPLICATE OR CAP_TRANSFER OR CAP_REVOKE OR READ"

definition demo_obj :: caps_state where
  "demo_obj = snd (allocate_object_slot_locked ChannelObject 0 7 (caps_initial demo_procs))"

definition demo_root :: caps_state where
  "demo_root = snd (the (install_root_capability_locked (Slot 0 0) 0 demo_rights 0 demo_obj))"

definition demo_child :: caps_state where
  "demo_child = derived_state (Slot 0 1) (Slot 0 0) READ demo_root"

lemma demo_obj_facts:
  "caps_inv demo_obj" "o_occupied (objects demo_obj 0)" "entries demo_obj = (\<lambda>_. empty_handle_entry)"
  "next_capability_id demo_obj = 1" "processes demo_obj = demo_procs" "nodes demo_obj = (\<lambda>_. empty_node)"
  "o_generation (objects demo_obj 0) = 1" "hcount demo_obj = (\<lambda>_. 0)" "handle_refs (header (objects demo_obj 0)) = 0"
  using allocate_object_slot_inv [OF caps_initial_inv, of ChannelObject 0 7 demo_procs]
  by (simp_all add: demo_obj_def allocate_object_slot_locked_def allocate_object_id_def Let_def caps_initial_def
      empty_object_slot_def find_upt_0 find_upt_1)

lemma demo_root_facts:
  "caps_inv demo_root"
  "entries demo_root = (\<lambda>_. empty_handle_entry)(Slot 0 0 := empty_handle_entry\<lparr>occupied := True, object_index := 0,
     object_generation := 1, rights := demo_rights, endpoint := 0\<rparr>)"
  "nodes demo_root = (\<lambda>_. empty_node)(Slot 0 0 := root_node 1)"
  "next_capability_id demo_root = 2" "processes demo_root = demo_procs"
  using install_root_spec [OF demo_obj_facts(1), of "Slot 0 0" 0 demo_rights 0]
  by (auto simp: demo_root_def demo_obj_facts valid_slot_def empty_handle_entry_def install_root_capability_locked_def
      capability_id_cases Let_def cap_upd_defs commit_handle_def)

lemma demo_derive_ok: "derive_error (Slot 0 0) READ demo_root = None"
  by (simp add: derive_error_def demo_root_facts demo_rights_def rights_defs root_node_def is_rights_subset_def)

lemma demo_slot: "allocate_handle_slot_locked 0 demo_root = Some (Ok 1)"
  by (simp add: allocate_handle_slot_locked_def demo_root_facts empty_handle_entry_def find_upt_0 find_upt_1)

lemma demo_resolve: "resolve_current_process_slot 7 demo_root = Ok 0"
  by (simp add: resolve_current_process_slot_def demo_root_facts demo_procs_def find_upt_0)

lemma demo_derive: "capability_derive 7 (handle_new 0 g) READ demo_root = Some (Ok (handle_new 1 1), demo_child)"
proof -
  have v: "valid_slot (Slot 0 1)" "valid_slot (Slot 0 0)" by (simp_all add: valid_slot_def)
  have e: "handle_generation (entries demo_root (Slot 0 1)) = 1" "\<not> occupied (entries demo_root (Slot 0 1))"
    by (simp_all add: demo_root_facts empty_handle_entry_def)
  show ?thesis
    using install_derived_ok(1) [OF demo_root_facts(1) v(1) e(2) v(2) demo_derive_ok] e(1)
    by (simp add: capability_derive_def demo_resolve demo_slot handle_slot_roundtrip demo_child_def del: One_nat_def)
qed

lemma demo_child_facts:
  "caps_inv demo_child" "derived_from demo_child (Slot 0 1) (Slot 0 0)"
  "entries demo_child (Slot 0 0) = entries demo_root (Slot 0 0)" "rights (entries demo_child (Slot 0 1)) = READ"
proof -
  have v: "valid_slot (Slot 0 1)" "valid_slot (Slot 0 0)" by (simp_all add: valid_slot_def)
  have e: "\<not> occupied (entries demo_root (Slot 0 1))" by (simp add: demo_root_facts empty_handle_entry_def)
  show "caps_inv demo_child"
    using install_derived_ok(2) [OF demo_root_facts(1) v(1) e v(2) demo_derive_ok] by (simp add: demo_child_def)
  show "derived_from demo_child (Slot 0 1) (Slot 0 0)"
    by (simp add: derived_from_def demo_child_def derived_state_def Let_def live_def valid_slot_def NO_SLOT_def)
  show "entries demo_child (Slot 0 0) = entries demo_root (Slot 0 0)" "rights (entries demo_child (Slot 0 1)) = READ"
    by (simp_all add: demo_child_def derived_state_def Let_def)
qed

theorem derive_grants_witness:
  "validate_handle_locked 0 (handle_new 1 1) READ demo_child = Some (Ok (0, 0, READ))"
  using derive_grants [OF demo_root_facts(1) demo_resolve demo_derive [of 1], of READ]
  by (simp add: Let_def handle_slot_roundtrip demo_root_facts has_rights_def)

theorem close_handle_kills_witness:
  "\<exists>s'. close_handle_locked 0 (handle_new 0 1) demo_child = Some (Ok (0, 0), s')
    \<and> validate_handle_locked 0 (handle_new 0 1) READ s' = Some (Err BadHandleGeneration)
    \<and> parent (nodes s' (Slot 0 1)) = NO_SLOT"
proof -
  have l: "live (entries demo_child) (Slot 0 0)"
    by (simp add: live_def valid_slot_def demo_child_facts demo_root_facts)
  obtain s' where s': "capability_close_locked (Slot 0 0) demo_child = Some (Ok (0, 0), s')"
    using close_spec [OF demo_child_facts(1) l] by (auto simp: demo_child_facts demo_root_facts)
  then have c: "close_handle_locked 0 (handle_new 0 1) demo_child = Some (Ok (0, 0), s')"
    by (simp add: close_handle_locked_def handle_slot_roundtrip handle_gen_roundtrip demo_child_facts
        demo_root_facts empty_handle_entry_def)
  have p: "parent (nodes demo_child (Slot 0 0)) = NO_SLOT"
    by (simp add: demo_child_def derived_state_def Let_def demo_root_facts root_node_def)
  have "0 < MAX_PROCESSES" by simp
  from close_handle_kills [OF demo_child_facts(1) this c, of READ] demo_child_facts(2) p c
  show ?thesis by (auto simp: handle_slot_roundtrip)
qed

theorem transfer_moves_witness:
  "\<exists>s'. transfer_move_locked (Slot 0 0) 2 demo_child = Some (Ok (handle_new 0 1), s')
    \<and> validate_handle_locked 0 (handle_new 0 1) READ s' = Some (Err BadHandleGeneration)
    \<and> validate_handle_locked 2 (handle_new 0 1) READ s' = Some (Ok (0, 0, demo_rights))"
proof -
  have en: "entries demo_child (Slot 2 i) = empty_handle_entry" for i
    by (simp add: demo_child_def derived_state_def Let_def demo_root_facts)
  have nid: "next_capability_id demo_child = 3"
    by (simp add: demo_child_def derived_state_def Let_def demo_root_facts)
  have v: "valid_slot (Slot 2 0)" "\<not> occupied (entries demo_child (Slot 2 0))" "valid_slot (Slot 0 0)"
    by (simp_all add: valid_slot_def en empty_handle_entry_def)
  have l: "live (entries demo_child) (Slot 0 0)"
    by (simp add: live_def valid_slot_def demo_child_facts demo_root_facts)
  have al: "allocate_handle_slot_locked 2 demo_child = Some (Ok 0)"
    by (simp add: allocate_handle_slot_locked_def en empty_handle_entry_def find_upt_0 find_upt_1)
  obtain s' where s': "install_moved_capability_locked (Slot 2 0) (Slot 0 0) 3 (demo_child\<lparr>next_capability_id := 4\<rparr>)
      = Some (Ok (handle_new 0 1), s')"
    using move_spec [OF demo_child_facts(1) l v(1,2)] by (auto simp: nid en empty_handle_entry_def)
  have "rights (entries demo_child (Slot 0 0)) AND (CAP_TRANSFER OR TRANSFER) \<noteq> 0"
    by (simp add: demo_child_facts demo_root_facts demo_rights_def rights_defs)
  then have t: "transfer_move_locked (Slot 0 0) 2 demo_child = Some (Ok (handle_new 0 1), s')"
    using l s' al live_object(4) [OF demo_child_facts(1) l]
    by (simp add: transfer_move_locked_def Let_def capability_id_cases nid live_def)
  have q: "2 < MAX_PROCESSES" "handle_slot_index (handle_new 0 1) = hslot (Slot 0 0)"
    "handle_gen (handle_new 0 1) = handle_generation (entries demo_child (Slot 0 0))"
    by (simp_all add: handle_slot_roundtrip handle_gen_roundtrip demo_child_facts demo_root_facts empty_handle_entry_def)
  have r: "has_rights demo_rights READ" by (simp add: has_rights_def demo_rights_def rights_defs)
  from transfer_moves [OF demo_child_facts(1) v(3) q(1) t q(2,3), of READ] t r
  show ?thesis by (auto simp: demo_child_facts demo_root_facts)
qed

section \<open>Two gaps in the checks\<close>

text \<open>C33: \<open>capability_derive\<close> never looks at the generation of the handle it is given, unlike every
  other operation on handles: on a reachable state it derives a working capability from a token that
  \<open>validate_handle_locked\<close> rejects as stale, for every wrong generation.\<close>

theorem derive_accepts_stale:
  "\<forall>g. g \<noteq> 1 \<longrightarrow> validate_handle_locked 0 (handle_new 0 g) READ demo_root = Some (Err BadHandleGeneration)
      \<and> capability_duplicate 7 (handle_new 0 g) demo_root = Some (Err InvalidHandle, demo_root)
      \<and> capability_derive 7 (handle_new 0 g) READ demo_root = Some (Ok (handle_new 1 1), demo_child)
      \<and> validate_handle_locked 0 (handle_new 1 1) READ demo_child = Some (Ok (0, 0, READ))"
proof (intro allI impI)
  fix g :: u16 assume "g \<noteq> 1"
  then have "validate_handle_locked 0 (handle_new 0 g) READ demo_root = Some (Err BadHandleGeneration)"
    "capability_duplicate 7 (handle_new 0 g) demo_root = Some (Err InvalidHandle, demo_root)"
    by (simp_all add: validate_handle_eq demo_root_facts lookup_handle_def capability_duplicate_def demo_resolve
        handle_slot_roundtrip handle_gen_roundtrip empty_handle_entry_def)
  moreover have "has_rights READ READ" by (simp add: has_rights_def)
  then have "lookup_handle 0 (handle_new 1 1) READ (entries demo_child) = Ok (0, 0, READ)"
    using derived_lookup [OF _ demo_derive_ok, of "Slot 0 1" READ]
    by (simp add: demo_child_def valid_slot_def demo_root_facts empty_handle_entry_def)
  then have "validate_handle_locked 0 (handle_new 1 1) READ demo_child = Some (Ok (0, 0, READ))"
    using validate_handle_eq [OF demo_child_facts(1), of 0] by simp
  ultimately show "validate_handle_locked 0 (handle_new 0 g) READ demo_root = Some (Err BadHandleGeneration)
      \<and> capability_duplicate 7 (handle_new 0 g) demo_root = Some (Err InvalidHandle, demo_root)
      \<and> capability_derive 7 (handle_new 0 g) READ demo_root = Some (Ok (handle_new 1 1), demo_child)
      \<and> validate_handle_locked 0 (handle_new 1 1) READ demo_child = Some (Ok (0, 0, READ))"
    using demo_derive by blast
qed

theorem derive_accepts_stale_witness:
  "validate_handle_locked 0 (handle_new 0 9) READ demo_root = Some (Err BadHandleGeneration)
    \<and> capability_derive 7 (handle_new 0 9) READ demo_root = Some (Ok (handle_new 1 1), demo_child)"
  using derive_accepts_stale [THEN spec, of 9] by simp

end
