(* ===== verification/Queues.thy ===== *)
theory Queues
  imports Prelude
begin

text \<open>
  The intrusive queues of threads: \<open>RunQueue\<close> of \<open>kernel/src/task/scheduler.rs\<close> (linked through
  \<open>next_runnable\<close>) and \<open>WaitQueue\<close> of \<open>kernel/src/task/waitqueue.rs\<close> (linked through \<open>next_waiter\<close>).
  A thread is its index in \<open>THREAD_TABLE\<close>, a null pointer is \<open>None\<close>, and a link field of all threads is a
  function from thread indices. A queue operation maps a queue and a link function to their new
  values; \<open>None\<close> is a panic. \<open>queue_rep\<close> relates a queue to the list of threads it holds.
\<close>

section \<open>Data and operations\<close>

type_synonym tid = nat
type_synonym links = "tid \<Rightarrow> tid option"

record queue =
  q_head :: "tid option"
  q_tail :: "tid option"
  q_count :: nat

definition new_queue :: queue where
  "new_queue = \<lparr>q_head = None, q_tail = None, q_count = 0\<rparr>"

definition queue_is_empty :: "queue \<Rightarrow> bool" where
  "queue_is_empty q \<longleftrightarrow> q_head q = None"

text \<open>\<open>RunQueue::push_back\<close>.\<close>

definition push_back :: "tid \<Rightarrow> queue \<times> links \<Rightarrow> (queue \<times> links) option" where
  "push_back t = (\<lambda>(q, nx). do {
     let nx = nx(t := None);
     let (q, nx) = (case q_tail q of
         None \<Rightarrow> (q\<lparr>q_head := Some t, q_tail := Some t\<rparr>, nx)
       | Some l \<Rightarrow> (q\<lparr>q_tail := Some t\<rparr>, nx(l := Some t)));
     c \<leftarrow> add64 (q_count q) 1;
     Some (q\<lparr>q_count := c\<rparr>, nx)
   })"

text \<open>\<open>RunQueue::pop_front\<close> and \<open>WaitQueue::pop_highest_locked\<close>, which are the same code over the two
  link fields.\<close>

definition pop_front :: "queue \<times> links \<Rightarrow> (tid option \<times> queue \<times> links) option" where
  "pop_front = (\<lambda>(q, nx).
     case q_head q of
       None \<Rightarrow> Some (None, q, nx)
     | Some t \<Rightarrow> do {
         let q = q\<lparr>q_head := nx t\<rparr>;
         let q = (if q_head q = None then q\<lparr>q_tail := None\<rparr> else q);
         let nx = nx(t := None);
         c \<leftarrow> sub64 (q_count q) 1;
         Some (Some t, q\<lparr>q_count := c\<rparr>, nx)
       })"

text \<open>The loop that looks for the predecessor of \<open>t\<close>: it stops at a cell whose link is null or \<open>t\<close>.\<close>

partial_function (option) seek_pred :: "links \<Rightarrow> tid \<Rightarrow> tid \<Rightarrow> tid option" where
  "seek_pred nx t cur =
     (case nx cur of
        None \<Rightarrow> Some cur
      | Some n \<Rightarrow> if n = t then Some cur else seek_pred nx t n)"

text \<open>\<open>RunQueue::remove\<close> and \<open>WaitQueue::remove_locked\<close>.\<close>

definition remove_queue :: "tid \<Rightarrow> queue \<times> links \<Rightarrow> (bool \<times> queue \<times> links) option" where
  "remove_queue t = (\<lambda>(q, nx).
     case q_head q of
       None \<Rightarrow> Some (False, q, nx)
     | Some h \<Rightarrow>
         if h = t then do {
           let q = q\<lparr>q_head := nx t\<rparr>;
           let q = (if q_head q = None then q\<lparr>q_tail := None\<rparr> else q);
           c \<leftarrow> sub64 (q_count q) 1;
           Some (True, q\<lparr>q_count := c\<rparr>, nx(t := None))
         }
         else do {
           cur \<leftarrow> seek_pred nx t h;
           if nx cur = None then Some (False, q, nx)
           else do {
             let nx = nx(cur := nx t);
             let q = (if q_tail q = Some t then q\<lparr>q_tail := Some cur\<rparr> else q);
             c \<leftarrow> sub64 (q_count q) 1;
             Some (True, q\<lparr>q_count := c\<rparr>, nx(t := None))
           }
         })"

text \<open>\<open>WaitQueue::push_priority_locked\<close>. The priorities of the threads are a parameter.\<close>

partial_function (option) seek_priority :: "links \<Rightarrow> (tid \<Rightarrow> nat) \<Rightarrow> nat \<Rightarrow> tid \<Rightarrow> tid option" where
  "seek_priority nx prio p cur =
     (case nx cur of
        None \<Rightarrow> Some cur
      | Some n \<Rightarrow> if prio n \<ge> p then seek_priority nx prio p n else Some cur)"

definition push_priority_locked :: "(tid \<Rightarrow> nat) \<Rightarrow> tid \<Rightarrow> queue \<times> links \<Rightarrow> (queue \<times> links) option" where
  "push_priority_locked prio t = (\<lambda>(q, nx).
     if nx t \<noteq> None then None
     else do {
       (q, nx) \<leftarrow>
         (case q_head q of
            None \<Rightarrow> Some (q\<lparr>q_head := Some t, q_tail := Some t\<rparr>, nx(t := None))
          | Some h \<Rightarrow>
              if prio t > prio h then Some (q\<lparr>q_head := Some t\<rparr>, nx(t := Some h))
              else do {
                cur \<leftarrow> seek_priority nx prio (prio t) h;
                let nx = nx(t := nx cur);
                let nx = nx(cur := Some t);
                Some (if nx t = None then q\<lparr>q_tail := Some t\<rparr> else q, nx)
              });
       c \<leftarrow> add64 (q_count q) 1;
       Some (q\<lparr>q_count := c\<rparr>, nx)
     })"

section \<open>The list a queue holds\<close>

definition queue_rep :: "queue \<Rightarrow> links \<Rightarrow> tid list \<Rightarrow> bool" where
  "queue_rep q nx xs \<longleftrightarrow> plist nx (q_head q) xs \<and> q_tail q = (if xs = [] then None else Some (last xs))
     \<and> q_count q = length xs"

text \<open>What one insertion of a thread by priority does to the list.\<close>

definition prio_insert :: "(tid \<Rightarrow> nat) \<Rightarrow> tid \<Rightarrow> tid list \<Rightarrow> tid list" where
  "prio_insert prio t xs = takeWhile (\<lambda>x. prio t \<le> prio x) xs @ t # dropWhile (\<lambda>x. prio t \<le> prio x) xs"

lemma queue_rep_new [simp]: "queue_rep new_queue nx []"
  by (simp add: queue_rep_def new_queue_def)

lemma queue_rep_distinct: "queue_rep q nx xs \<Longrightarrow> distinct xs"
  by (auto simp: queue_rep_def intro: plist_distinct)

lemma queue_rep_unique: "queue_rep q nx xs \<Longrightarrow> queue_rep q nx ys \<Longrightarrow> xs = ys"
  by (auto simp: queue_rep_def intro: plist_unique)

lemma queue_rep_empty: "queue_rep q nx xs \<Longrightarrow> queue_is_empty q \<longleftrightarrow> xs = []"
  by (cases xs) (auto simp: queue_rep_def queue_is_empty_def)

lemma queue_rep_cong:
  assumes "queue_rep q nx xs" "\<And>x. x \<in> set xs \<Longrightarrow> nx' x = nx x"
  shows "queue_rep q nx' xs"
  using assms plist_cong [of xs nx' nx "q_head q"] by (simp add: queue_rep_def)

lemma plist_last_link: "plist nx p (us @ [x]) \<Longrightarrow> nx x = None"
  by (auto simp: plist_append)

lemma plist_mid: "plist nx p (us @ x # vs) \<longleftrightarrow> pseg nx p us (Some x) \<and> plist nx (nx x) vs"
  by (auto simp: plist_append)

lemma pseg_upd: "y \<notin> set xs \<Longrightarrow> pseg (nx(y := z)) p xs q = pseg nx p xs q"
  by (rule pseg_cong) auto

lemma plist_upd: "y \<notin> set xs \<Longrightarrow> plist (nx(y := z)) p xs = plist nx p xs"
  by (rule plist_cong) auto

lemma plist_head: "plist nx p xs \<Longrightarrow> p = (case xs of [] \<Rightarrow> None | x # _ \<Rightarrow> Some x)"
  by (cases xs) auto

lemma push_back_rep:
  assumes "queue_rep q nx xs" "t \<notin> set xs" "length xs < U64_MAX"
  shows "\<exists>q' nx'. push_back t (q, nx) = Some (q', nx') \<and> queue_rep q' nx' (xs @ [t])
    \<and> (\<forall>x. x \<notin> set xs \<longrightarrow> x \<noteq> t \<longrightarrow> nx' x = nx x)"
proof (cases xs rule: rev_cases)
  case Nil
  then show ?thesis using assms by (simp add: push_back_def queue_rep_def add64_def)
next
  case (snoc us l)
  have d: "distinct xs" by (rule queue_rep_distinct [OF assms(1)])
  have p: "pseg nx (q_head q) us (Some l)" "nx l = None"
    using assms(1) snoc by (auto simp: queue_rep_def plist_mid)
  have "pseg (nx(t := None, l := Some t)) (q_head q) us (Some l)"
    using p(1) d assms(2) snoc by (simp add: pseg_upd)
  then have "plist (nx(t := None, l := Some t)) (q_head q) (us @ [l, t])"
    using assms(2) snoc by (auto simp: plist_mid)
  then show ?thesis using assms snoc by (simp add: push_back_def queue_rep_def add64_def)
qed

lemma pop_front_rep:
  assumes "queue_rep q nx xs" "length xs < U64_MAX"
  shows "case xs of
      [] \<Rightarrow> pop_front (q, nx) = Some (None, q, nx)
    | t # ys \<Rightarrow> \<exists>q'. pop_front (q, nx) = Some (Some t, q', nx(t := None)) \<and> queue_rep q' (nx(t := None)) ys"
proof (cases xs)
  case Nil
  then show ?thesis using assms by (simp add: pop_front_def queue_rep_def)
next
  case (Cons t ys)
  have "t \<notin> set ys" using queue_rep_distinct [OF assms(1)] Cons by simp
  then have "plist (nx(t := None)) (nx t) ys" using assms(1) Cons by (simp add: queue_rep_def plist_upd)
  then show ?thesis using assms Cons plist_head [of nx "nx t" ys]
    by (cases ys) (simp_all add: pop_front_def queue_rep_def sub64_def)
qed

lemma seek_pred_found: "plist nx (Some c) (us @ t # vs) \<Longrightarrow> us \<noteq> [] \<Longrightarrow> t \<notin> set us \<Longrightarrow> seek_pred nx t c = Some (last us)"
proof (induction us arbitrary: c)
  case (Cons u us)
  then show ?case by (cases us) (auto simp: seek_pred.simps [of nx t u])
qed simp

lemma seek_pred_none: "plist nx (Some c) xs \<Longrightarrow> t \<notin> set xs \<Longrightarrow> seek_pred nx t c = Some (last xs)"
proof (induction xs arbitrary: c)
  case (Cons u us)
  then show ?case by (cases us) (auto simp: seek_pred.simps [of nx t u])
qed simp

lemma plist_last: "plist nx p xs \<Longrightarrow> xs \<noteq> [] \<Longrightarrow> nx (last xs) = None"
  by (induction xs arbitrary: p) (auto split: if_splits)

lemma remove_head:
  assumes "queue_rep q nx (t # ys)" "length ys < U64_MAX"
  shows "\<exists>q'. remove_queue t (q, nx) = Some (True, q', nx(t := None)) \<and> queue_rep q' (nx(t := None)) ys"
proof -
  have "t \<notin> set ys" using queue_rep_distinct [OF assms(1)] by simp
  then have "plist (nx(t := None)) (nx t) ys" using assms(1) by (simp add: queue_rep_def plist_upd)
  then show ?thesis using assms plist_head [of nx "nx t" ys]
    by (cases ys) (simp_all add: remove_queue_def queue_rep_def sub64_def)
qed

lemma remove_inner:
  assumes "queue_rep q nx (us @ t # vs)" "us \<noteq> []"
  shows "\<exists>q'. remove_queue t (q, nx) = Some (True, q', nx(last us := nx t, t := None))
    \<and> queue_rep q' (nx(last us := nx t, t := None)) (us @ vs)"
proof -
  obtain ws p where us: "us = ws @ [p]" using assms(2) by (cases us rule: rev_cases) auto
  obtain h hs where h: "us = h # hs" using assms(2) by (cases us) auto
  have d: "distinct (us @ t # vs)" by (rule queue_rep_distinct [OF assms(1)])
  have pl: "plist nx (q_head q) (us @ t # vs)" using assms(1) by (simp add: queue_rep_def)
  then have hd: "q_head q = Some h" using h by simp
  have lk: "nx p = Some t" "pseg nx (q_head q) ws (Some p)" "plist nx (nx t) vs"
    using pl us by (auto simp: plist_mid pseg_append)
  have seek: "seek_pred nx t h = Some p" using seek_pred_found [of nx h us t vs] pl hd d assms(2) us by simp
  let ?nx = "nx(p := nx t, t := None)"
  have "pseg ?nx (q_head q) ws (Some p)" "plist ?nx (nx t) vs"
    using lk d us by (simp_all add: pseg_upd plist_upd)
  then have rep: "plist ?nx (q_head q) (us @ vs)" using us d by (auto simp: plist_mid)
  have "t \<notin> set us" using d by auto
  then have ht: "h \<noteq> t" "p \<noteq> t" using h us by (metis list.set_intros(1), metis in_set_conv_decomp)
  have tl: "q_tail q = Some t \<longleftrightarrow> vs = []"
    using assms(1) d by (cases vs rule: rev_cases) (auto simp: queue_rep_def)
  show ?thesis
    using assms(1) rep hd seek lk ht tl us
    by (auto simp: remove_queue_def queue_rep_def sub64_def)
qed

lemma remove_absent:
  assumes "queue_rep q nx xs" "t \<notin> set xs"
  shows "remove_queue t (q, nx) = Some (False, q, nx)"
proof (cases xs)
  case Nil
  then show ?thesis using assms by (simp add: remove_queue_def queue_rep_def)
next
  case (Cons h hs)
  have pl: "plist nx (Some h) xs" "q_head q = Some h" using assms(1) Cons by (auto simp: queue_rep_def)
  have "nx (last xs) = None" using plist_last [OF pl(1)] Cons by simp
  then show ?thesis using pl seek_pred_none [OF pl(1) assms(2)] assms(2) Cons by (simp add: remove_queue_def)
qed

lemma remove1_mid: "t \<notin> set us \<Longrightarrow> remove1 t (us @ t # vs) = us @ vs"
  by (induction us) auto

lemma remove_queue_rep:
  assumes "queue_rep q nx xs" "length xs < U64_MAX"
  shows "\<exists>q' nx'. remove_queue t (q, nx) = Some (t \<in> set xs, q', nx') \<and> queue_rep q' nx' (remove1 t xs)
    \<and> (\<forall>x. x \<notin> set xs \<longrightarrow> nx' x = nx x) \<and> (t \<in> set xs \<longrightarrow> nx' t = None)"
proof (cases "t \<in> set xs")
  case False
  then show ?thesis using remove_absent [OF assms(1) False] assms(1) by (simp add: remove1_idem)
next
  case True
  then obtain us vs where xs: "xs = us @ t # vs" "t \<notin> set us" by (meson split_list_first)
  show ?thesis
  proof (cases "us = []")
    case True
    then show ?thesis using remove_head [of q nx t vs] assms xs by auto
  next
    case False
    have "last us \<in> set us" using False by simp
    then show ?thesis using remove_inner [of q nx us t vs] assms xs False by (auto simp: remove1_mid)
  qed
qed

lemma seek_priority_found:
  "plist nx (Some h) xs \<Longrightarrow> xs \<noteq> [] \<Longrightarrow> p \<le> prio h \<Longrightarrow>
     seek_priority nx prio p h = Some (last (takeWhile (\<lambda>x. p \<le> prio x) xs))"
proof (induction xs arbitrary: h)
  case (Cons u us)
  show ?case
  proof (cases us)
    case Nil
    then show ?thesis using Cons.prems by (auto simp: seek_priority.simps [of nx prio p u])
  next
    case (Cons v vs)
    have uv: "h = u" "nx u = Some v" "plist nx (Some v) us" using Cons.prems Cons by auto
    show ?thesis
    proof (cases "p \<le> prio v")
      case True
      then show ?thesis using Cons.IH [OF uv(3) _ True] Cons Cons.prems uv by (simp add: seek_priority.simps [of nx prio p u])
    next
      case False
      then show ?thesis using Cons Cons.prems uv by (simp add: seek_priority.simps [of nx prio p u])
    qed
  qed
qed simp

lemma push_priority_split:
  assumes "queue_rep q nx (us @ vs)" "us \<noteq> []" "t \<notin> set (us @ vs)"
  shows "plist (nx(t := nx (last us), last us := Some t)) (q_head q) (us @ t # vs)"
proof -
  obtain ws p where us: "us = ws @ [p]" using assms(2) by (cases us rule: rev_cases) auto
  have pl: "pseg nx (q_head q) ws (Some p)" "plist nx (nx p) vs"
    using assms(1) us by (auto simp: queue_rep_def plist_mid)
  have d: "distinct (us @ vs)" by (rule queue_rep_distinct [OF assms(1)])
  have "pseg (nx(t := nx p, p := Some t)) (q_head q) ws (Some p)" "plist (nx(t := nx p, p := Some t)) (nx p) vs"
    using pl d assms(3) us by (auto simp: pseg_upd plist_upd)
  then show ?thesis using us assms(3) by (auto simp: plist_mid)
qed

lemma push_priority_rep:
  assumes "queue_rep q nx xs" "t \<notin> set xs" "nx t = None" "length xs < U64_MAX"
  shows "\<exists>q' nx'. push_priority_locked prio t (q, nx) = Some (q', nx') \<and> queue_rep q' nx' (prio_insert prio t xs)
    \<and> (\<forall>x. x \<notin> set xs \<longrightarrow> x \<noteq> t \<longrightarrow> nx' x = nx x)"
proof (cases xs)
  case Nil
  then show ?thesis using assms by (simp add: push_priority_locked_def queue_rep_def prio_insert_def add64_def)
next
  case (Cons h hs)
  have hd: "q_head q = Some h" "plist nx (Some h) xs" using assms(1) Cons by (auto simp: queue_rep_def)
  show ?thesis
  proof (cases "prio h < prio t")
    case True
    have "plist (nx(t := Some h)) (Some h) xs" using hd assms(2) by (simp add: plist_upd)
    then show ?thesis using True assms Cons hd
      by (simp add: push_priority_locked_def queue_rep_def prio_insert_def add64_def)
  next
    case False
    let ?P = "\<lambda>x. prio t \<le> prio x"
    let ?us = "takeWhile ?P xs" and ?vs = "dropWhile ?P xs"
    have us: "?us \<noteq> []" "xs = ?us @ ?vs" using Cons False by auto
    have lus: "last ?us \<in> set xs" using us(1) by (metis last_in_set set_takeWhileD)
    have lt: "last ?us \<noteq> t" using lus assms(2) by auto
    have seek: "seek_priority nx prio (prio t) h = Some (last ?us)"
      using seek_priority_found [OF hd(2), of "prio t" prio] Cons False by simp
    have pl: "plist (nx(t := nx (last ?us), last ?us := Some t)) (q_head q) (prio_insert prio t xs)"
      unfolding prio_insert_def using push_priority_split [of q nx ?us ?vs t] assms(1,2) us by simp
    have tl: "nx (last ?us) = None \<longleftrightarrow> ?vs = []"
    proof -
      have "plist nx (q_head q) (butlast ?us @ last ?us # ?vs)"
        using assms(1) us by (metis append_Cons append_Nil append_assoc append_butlast_last_id queue_rep_def)
      then have "plist nx (nx (last ?us)) ?vs" by (simp add: plist_mid)
      from plist_head [OF this] show ?thesis by (cases ?vs) auto
    qed
    have len: "length (prio_insert prio t xs) = Suc (length xs)"
      unfolding prio_insert_def using us(2) by (metis add_Suc_right length_Cons length_append)
    have la: "last (prio_insert prio t xs) = (if ?vs = [] then t else last xs)"
      unfolding prio_insert_def using us(2) by (metis last_ConsL last_ConsR last_appendR list.distinct(1))
    have ne: "prio_insert prio t xs \<noteq> []" by (simp add: prio_insert_def)
    let ?nx = "nx(t := nx (last ?us), last ?us := Some t)"
    let ?q = "(if ?nx t = None then q\<lparr>q_tail := Some t\<rparr> else q)\<lparr>q_count := length xs + 1\<rparr>"
    have "push_priority_locked prio t (q, nx) = Some (?q, ?nx)"
      using assms(1,3,4) hd(1) False seek by (simp add: push_priority_locked_def add64_def queue_rep_def)
    moreover have "queue_rep ?q ?nx (prio_insert prio t xs)"
      using pl len la ne tl lt assms(1) Cons by (simp add: queue_rep_def)
    moreover have "\<forall>x. x \<notin> set xs \<longrightarrow> x \<noteq> t \<longrightarrow> ?nx x = nx x" using lus by auto
    ultimately show ?thesis by blast
  qed
qed

section \<open>Priority order\<close>

lemma prio_insert_set [simp]: "set (prio_insert prio t xs) = insert t (set xs)"
  unfolding prio_insert_def using takeWhile_dropWhile_id [of "\<lambda>x. prio t \<le> prio x" xs]
  by (metis Un_insert_right list.simps(15) set_append)

lemma prio_insert_length [simp]: "length (prio_insert prio t xs) = Suc (length xs)"
  unfolding prio_insert_def using takeWhile_dropWhile_id [of "\<lambda>x. prio t \<le> prio x" xs]
  by (metis add_Suc_right length_Cons length_append)

lemma prio_insert_Cons:
  "prio_insert prio t (x # xs) = (if prio t \<le> prio x then x # prio_insert prio t xs else t # x # xs)"
  by (simp add: prio_insert_def)

definition by_priority :: "(tid \<Rightarrow> nat) \<Rightarrow> tid list \<Rightarrow> bool" where
  "by_priority prio xs \<longleftrightarrow> sorted_wrt (\<lambda>a b. prio b \<le> prio a) xs"

lemma prio_insert_sorted: "by_priority prio xs \<Longrightarrow> by_priority prio (prio_insert prio t xs)"
proof (induction xs)
  case (Cons x xs)
  then show ?case by (auto simp: by_priority_def prio_insert_Cons)
qed (simp add: by_priority_def prio_insert_def)

lemma prio_insert_stable:
  "by_priority prio xs \<Longrightarrow>
     filter (\<lambda>x. prio x = p) (prio_insert prio t xs) = filter (\<lambda>x. prio x = p) xs @ (if prio t = p then [t] else [])"
proof (induction xs)
  case (Cons x xs)
  have e: "\<forall>y\<in>set xs. prio y \<le> prio x" "by_priority prio xs" using Cons.prems by (simp_all add: by_priority_def)
  show ?case
  proof (cases "prio t \<le> prio x")
    case True
    then show ?thesis using Cons.IH [OF e(2)] by (simp add: prio_insert_Cons)
  next
    case False
    then have "prio t = p \<Longrightarrow> filter (\<lambda>y. prio y = p) (x # xs) = []" using e(1) by (auto simp: filter_empty_conv)
    then show ?thesis using False by (auto simp: prio_insert_Cons)
  qed
qed (simp add: prio_insert_def)

section \<open>The contract of a queue of threads\<close>

text \<open>
  What the scheduler and the blocking primitives rely on: pushing a thread that is in no queue of the
  same kind never panics and inserts it at a known place; popping returns the threads in the order of
  the list. \<open>drain\<close> is the \<open>while let Some(t) = pop()\<close> loop of \<open>wake_all\<close> and of the closing paths.
\<close>

partial_function (option) drain :: "queue \<times> links \<Rightarrow> (tid list \<times> queue \<times> links) option" where
  "drain st =
     (case pop_front st of
        None \<Rightarrow> None
      | Some (None, st') \<Rightarrow> Some ([], st')
      | Some (Some t, st') \<Rightarrow> drain st' \<bind> (\<lambda>(ts, st''). Some (t # ts, st'')))"

lemma drain_rep:
  "queue_rep q nx xs \<Longrightarrow> length xs < U64_MAX \<Longrightarrow>
     \<exists>q' nx'. drain (q, nx) = Some (xs, q', nx') \<and> queue_rep q' nx' []
       \<and> (\<forall>x. nx' x = (if x \<in> set xs then None else nx x))"
proof (induction xs arbitrary: q nx)
  case Nil
  then show ?case using pop_front_rep [OF Nil] by (simp add: drain.simps [of "(q, nx)"])
next
  case (Cons t ts)
  obtain q' where q': "pop_front (q, nx) = Some (Some t, q', nx(t := None))" "queue_rep q' (nx(t := None)) ts"
    using pop_front_rep [OF Cons.prems] by auto
  have "length ts < U64_MAX" using Cons.prems(2) by simp
  with Cons.IH [OF q'(2)] obtain q'' nx' where d: "drain (q', nx(t := None)) = Some (ts, q'', nx')" "queue_rep q'' nx' []"
    "\<forall>x. nx' x = (if x \<in> set ts then None else (nx(t := None)) x)" by blast
  then show ?case using q'(1) by (simp add: drain.simps [of "(q, nx)"])
qed

locale thread_queue =
  fixes push :: "tid \<Rightarrow> queue \<times> links \<Rightarrow> (queue \<times> links) option" and place :: "tid \<Rightarrow> tid list \<Rightarrow> tid list"
  assumes push_places: "queue_rep q nx xs \<Longrightarrow> t \<notin> set xs \<Longrightarrow> nx t = None \<Longrightarrow> length xs < U64_MAX \<Longrightarrow>
      \<exists>q' nx'. push t (q, nx) = Some (q', nx') \<and> queue_rep q' nx' (place t xs)
        \<and> (\<forall>x. x \<notin> set xs \<longrightarrow> x \<noteq> t \<longrightarrow> nx' x = nx x)"
    and place_set: "set (place t xs) = insert t (set xs)"
    and place_length: "length (place t xs) = Suc (length xs)"
begin

lemma push_all:
  assumes "queue_rep q nx xs" "distinct ts" "set ts \<inter> set xs = {}" "\<forall>t\<in>set ts. nx t = None"
    "length xs + length ts < U64_MAX"
  shows "\<exists>q' nx'. foldM push ts (q, nx) = Some (q', nx') \<and> queue_rep q' nx' (fold place ts xs)"
  using assms
proof (induction ts arbitrary: q nx xs)
  case (Cons t ts)
  obtain q' nx' where p: "push t (q, nx) = Some (q', nx')" "queue_rep q' nx' (place t xs)"
    "\<forall>x. x \<notin> set xs \<longrightarrow> x \<noteq> t \<longrightarrow> nx' x = nx x"
    using push_places [OF Cons.prems(1), of t] Cons.prems(3-5) by auto
  have "\<forall>u\<in>set ts. nx' u = None" using p(3) Cons.prems(2-4) by auto
  moreover have "set ts \<inter> set (place t xs) = {}" using Cons.prems(2,3) by (auto simp: place_set)
  ultimately show ?case using Cons.IH [OF p(2)] Cons.prems(2,5) p(1) by (simp add: place_length)
qed simp

lemma push_all_drain:
  assumes "distinct ts" "\<forall>t\<in>set ts. nx t = None" "length ts < U64_MAX"
  shows "\<exists>st st'. foldM push ts (new_queue, nx) = Some st \<and> drain st = Some (fold place ts [], st')"
proof -
  obtain q' nx' where p: "foldM push ts (new_queue, nx) = Some (q', nx')" "queue_rep q' nx' (fold place ts [])"
    using push_all [OF queue_rep_new, of ts nx] assms by auto
  have "length (fold place ts xs) = length xs + length ts" for xs
    by (induction ts arbitrary: xs) (simp_all add: place_length)
  then show ?thesis using drain_rep [OF p(2)] p(1) assms(3) by auto
qed

end

interpretation run_queue: thread_queue push_back "\<lambda>t xs. xs @ [t]"
  by unfold_locales (use push_back_rep in auto)

interpretation wait_queue: thread_queue "push_priority_locked prio" "prio_insert prio" for prio
  by unfold_locales (use push_priority_rep in auto)

lemma fold_prio_insert:
  assumes "by_priority prio xs"
  shows "by_priority prio (fold (prio_insert prio) ts xs)
    \<and> filter (\<lambda>x. prio x = p) (fold (prio_insert prio) ts xs)
        = filter (\<lambda>x. prio x = p) xs @ filter (\<lambda>x. prio x = p) ts"
  using assms
proof (induction ts arbitrary: xs)
  case (Cons t ts)
  show ?case using Cons.IH [OF prio_insert_sorted [OF Cons.prems, of t]] prio_insert_stable [OF Cons.prems, of p t] by simp
qed simp

section \<open>Properties\<close>

text \<open>C18: a wait queue serves by priority and first-in first-out within a priority. Threads that wait
  nowhere, pushed in any order onto an empty queue, are all enrolled without a panic, and popping
  until the queue is empty (the loop of \<open>wake_all\<close> and of the closing paths) terminates and returns
  each of them once, in descending priority, with the threads of one priority in the order in which
  they were pushed.\<close>

theorem wait_queue_order:
  assumes "distinct ts" "\<forall>t\<in>set ts. nx t = None" "length ts < U64_MAX"
  shows "\<exists>st xs st'. foldM (push_priority_locked prio) ts (new_queue, nx) = Some st \<and> drain st = Some (xs, st')
    \<and> by_priority prio xs \<and> set xs = set ts \<and> distinct xs
    \<and> (\<forall>p. filter (\<lambda>x. prio x = p) xs = filter (\<lambda>x. prio x = p) ts)"
proof -
  let ?xs = "fold (prio_insert prio) ts []"
  have o: "by_priority prio ?xs" "\<And>p. filter (\<lambda>x. prio x = p) ?xs = filter (\<lambda>x. prio x = p) ts"
    using fold_prio_insert [of prio "[]" ts] by (simp_all add: by_priority_def)
  have s: "set (fold (prio_insert prio) us ys) = set us \<union> set ys" for us ys
    by (induction us arbitrary: ys) auto
  have l: "length (fold (prio_insert prio) us ys) = length us + length ys" for us ys
    by (induction us arbitrary: ys) auto
  have "distinct ?xs" using assms(1) s [of ts "[]"] l [of ts "[]"] by (simp add: card_distinct distinct_card)
  then show ?thesis using wait_queue.push_all_drain [OF assms, of prio] o s [of ts "[]"] by auto
qed

theorem wait_queue_order_witness:
  "\<exists>st xs st'. foldM (push_priority_locked (\<lambda>t. t mod 2)) [2, 5, 4, 3] (new_queue, \<lambda>_. None) = Some st
    \<and> drain st = Some (xs, st') \<and> filter (\<lambda>x. x mod 2 = 1) xs = [5, 3] \<and> by_priority (\<lambda>t. t mod 2) xs"
proof -
  have "distinct [2, 5, 4, 3 :: tid]" "\<forall>t\<in>set [2, 5, 4, 3 :: tid]. (\<lambda>_. None :: tid option) t = None"
    "length [2, 5, 4, 3 :: tid] < U64_MAX" by simp_all
  from wait_queue_order [OF this, of "\<lambda>t. t mod 2"] show ?thesis by (auto dest!: spec [of _ 1])
qed

end
