(* ===== verification/Vmm.thy ===== *)
theory Vmm
  imports Pmm
begin

text \<open>
  \<open>kernel/src/mm/vmm.rs\<close>: four-level page tables. The table memory is a function from the physical address of
  a table and an entry index to the 64-bit entry, so tables that share a frame are shared in the model too. A
  table outside the direct map window has no mapping, and its access is a fault. The translation cache and
  the memory that pages hold are not part of the state.

  The first sections are the code. The abstraction is the leaf entry of a page, \<open>leaf_at\<close>, and the tables of a
  tree by the path of indices that leads to them, \<open>tab\<close>. The invariant \<open>spaces\<close> says of a set of roots that
  every tree is a tree and that what a process maps is private to it.
\<close>

unbundle bit_operations_syntax

section \<open>Geometry\<close>

record AddressSpaceGeometry =
  physical_bits :: nat
  virtual_bits :: nat
  physical_mask :: u64
  nx_supported :: bool
  nx_enabled :: bool

text \<open>The arguments are the registers the discovery reads: \<open>eax\<close> of CPUID leaf 0x80000008, \<open>edx\<close> of leaf
  0x80000001 and the extended feature register.\<close>

definition discover :: "u32 \<Rightarrow> u32 \<Rightarrow> u64 \<Rightarrow> AddressSpaceGeometry" where
  "discover eax ext_edx efer =
     (let raw_phys = unat (eax AND 0xFF); raw_virt = unat (drop_bit 8 eax AND 0xFF);
          phys_bits = (if raw_phys \<ge> 32 \<and> raw_phys \<le> 52 then raw_phys else 36);
          virt_bits = (if raw_virt \<ge> 48 \<and> raw_virt \<le> 57 then raw_virt else 48) in
      \<lparr>physical_bits = phys_bits, virtual_bits = virt_bits,
       physical_mask = (if phys_bits \<ge> 64 then NOT 0xFFF else (push_bit phys_bits 1 - 1) AND NOT 0xFFF),
       nx_supported = ext_edx AND push_bit 20 1 \<noteq> 0, nx_enabled = efer AND push_bit 11 1 \<noteq> 0\<rparr>)"

definition is_canonical :: "AddressSpaceGeometry \<Rightarrow> u64 \<Rightarrow> bool" where
  "is_canonical g addr =
     (let sign_extended = signed_drop_bit (virtual_bits g - 1) addr in sign_extended = 0 \<or> sign_extended = NOT 0)"

definition is_valid_phys_frame :: "AddressSpaceGeometry \<Rightarrow> PhysFrame \<Rightarrow> bool" where
  "is_valid_phys_frame g f \<longleftrightarrow> f mod PAGE_SIZE = 0 \<and> word_of_nat f AND NOT (physical_mask g) = 0"

definition is_valid_phys_addr :: "AddressSpaceGeometry \<Rightarrow> u64 \<Rightarrow> bool" where
  "is_valid_phys_addr g addr \<longleftrightarrow> addr \<le> (if physical_bits g \<ge> 64 then NOT 0 else push_bit (physical_bits g) 1 - 1)"

section \<open>Flags and entries\<close>

type_synonym PageTableFlags = u64
type_synonym PageTableEntry = u64

definition PRESENT :: PageTableFlags where "PRESENT = 0x1"
definition PAGE_WRITABLE :: PageTableFlags where "PAGE_WRITABLE = 0x2"
definition USER_ACCESSIBLE :: PageTableFlags where "USER_ACCESSIBLE = 0x4"
definition WRITE_THROUGH :: PageTableFlags where "WRITE_THROUGH = 0x8"
definition CACHE_DISABLE :: PageTableFlags where "CACHE_DISABLE = 0x10"
definition DIRTY :: PageTableFlags where "DIRTY = 0x40"
definition HUGE_PAGE :: PageTableFlags where "HUGE_PAGE = 0x80"
definition NO_EXECUTE :: PageTableFlags where "NO_EXECUTE = 0x8000000000000000"

definition contains :: "PageTableFlags \<Rightarrow> PageTableFlags \<Rightarrow> bool" where
  "contains fl other \<longleftrightarrow> fl AND other = other"

datatype VmmError = NonCanonicalAddress | UnalignedPageAddress | UnalignedFrameAddress | InvalidPhysicalAddress | AlreadyMapped
  | NotMapped | InvalidFlags | NxDisabled | OutOfMemory | HugePageUnsupported | InvalidHhdmAddress u64
  | PhysicalAddressOutOfHhdmRange u64

datatype MappingDomain = Kernel | User

definition intermediate_flags :: "MappingDomain \<Rightarrow> PageTableFlags" where
  "intermediate_flags d = (case d of Kernel \<Rightarrow> 0 | User \<Rightarrow> USER_ACCESSIBLE)"

definition validate_leaf :: "PageTableFlags \<Rightarrow> AddressSpaceGeometry \<Rightarrow> VmmError + unit" where
  "validate_leaf fl g =
     (if contains fl NO_EXECUTE \<and> \<not> nx_enabled g then Err NxDisabled
      else if contains fl HUGE_PAGE then Err InvalidFlags
      else Ok ())"

definition validate_intermediate :: "PageTableFlags \<Rightarrow> VmmError + unit" where
  "validate_intermediate fl = (if contains fl DIRTY then Err InvalidFlags else Ok ())"

definition is_present :: "PageTableEntry \<Rightarrow> bool" where
  "is_present e \<longleftrightarrow> e AND PRESENT \<noteq> 0"

definition points_to_frame :: "AddressSpaceGeometry \<Rightarrow> PageTableEntry \<Rightarrow> PhysFrame option" where
  "points_to_frame g e = (if is_present e then Some (unat (e AND physical_mask g)) else None)"

text \<open>\<open>PageTableEntry::set\<close>: the new value of the entry, or a failed assertion.\<close>

definition entry_set :: "AddressSpaceGeometry \<Rightarrow> PhysFrame \<Rightarrow> PageTableFlags \<Rightarrow> PageTableEntry option" where
  "entry_set g f fl = (if is_valid_phys_frame g f then Some ((word_of_nat f AND physical_mask g) OR fl) else None)"

type_synonym PageTable = "nat \<Rightarrow> PageTableEntry"

definition empty_table :: PageTable where
  "empty_table = (\<lambda>_. 0)"

definition present_count :: "PageTable \<Rightarrow> nat" where
  "present_count t = length (filter (\<lambda>i. is_present (t i)) [0..<512])"

section \<open>Addresses\<close>

definition p4_index :: "u64 \<Rightarrow> nat" where "p4_index v = unat (drop_bit 39 v AND 0x1FF)"
definition p3_index :: "u64 \<Rightarrow> nat" where "p3_index v = unat (drop_bit 30 v AND 0x1FF)"
definition p2_index :: "u64 \<Rightarrow> nat" where "p2_index v = unat (drop_bit 21 v AND 0x1FF)"
definition p1_index :: "u64 \<Rightarrow> nat" where "p1_index v = unat (drop_bit 12 v AND 0x1FF)"
definition page_offset :: "u64 \<Rightarrow> u64" where "page_offset v = v AND 0xFFF"

definition HHDM_BASE :: u64 where "HHDM_BASE = 0xFFFF800000000000"
definition HHDM_SIZE :: u64 where "HHDM_SIZE = 0x40000000"

definition is_hhdm_address :: "u64 \<Rightarrow> bool" where
  "is_hhdm_address v \<longleftrightarrow> v \<ge> HHDM_BASE \<and> v < HHDM_BASE + HHDM_SIZE"

definition phys_to_hhdm :: "u64 \<Rightarrow> VmmError + u64" where
  "phys_to_hhdm phys = (if phys < HHDM_SIZE then Ok (HHDM_BASE + phys) else Err (PhysicalAddressOutOfHhdmRange phys))"

text \<open>The subtraction is checked, so an address below the window is a panic.\<close>

definition hhdm_to_phys :: "u64 \<Rightarrow> u64 option" where
  "hhdm_to_phys h = (if h \<ge> HHDM_BASE then Some (h - HHDM_BASE) else None)"

definition hhdm_from_u64 :: "u64 \<Rightarrow> VmmError + u64" where
  "hhdm_from_u64 v = (if is_hhdm_address v then Ok v else Err (InvalidHhdmAddress v))"

definition from_start_address :: "AddressSpaceGeometry \<Rightarrow> u64 \<Rightarrow> VmmError + u64" where
  "from_start_address g addr =
     (if addr mod 4096 \<noteq> 0 then Err UnalignedPageAddress
      else if \<not> is_canonical g addr then Err NonCanonicalAddress
      else Ok addr)"

definition page_from_address :: "u64 \<Rightarrow> u64" where
  "page_from_address addr = addr AND NOT 0xFFF"

section \<open>Walking and changing tables\<close>

record vm_state =
  tables :: "nat \<Rightarrow> PageTable"
  frames :: PhysicalMemoryManager
  cr3 :: u64
  master_pml4 :: nat

definition phys_to_virt_table :: "PhysFrame \<Rightarrow> vm_state \<Rightarrow> PageTable option" where
  "phys_to_virt_table f s = (if f < unat HHDM_SIZE then Some (tables s f) else None)"

definition write_entry :: "PhysFrame \<Rightarrow> nat \<Rightarrow> PageTableEntry \<Rightarrow> vm_state \<Rightarrow> vm_state" where
  "write_entry f i e s = s\<lparr>tables := (tables s)(f := (tables s f)(i := e))\<rparr>"

definition zero_table :: "PhysFrame \<Rightarrow> vm_state \<Rightarrow> vm_state" where
  "zero_table f s = s\<lparr>tables := (tables s)(f := empty_table)\<rparr>"

definition translate :: "AddressSpaceGeometry \<Rightarrow> PhysFrame \<Rightarrow> u64 \<Rightarrow> vm_state \<Rightarrow> (VmmError + PhysFrame) option" where
  "translate g root v s =
     (if \<not> is_canonical g v then Some (Err NonCanonicalAddress) else do {
        pml4 \<leftarrow> phys_to_virt_table root s;
        case points_to_frame g (pml4 (p4_index v)) of
          None \<Rightarrow> Some (Err NotMapped)
        | Some pdpt_frame \<Rightarrow> do {
            pdpt \<leftarrow> phys_to_virt_table pdpt_frame s;
            let p3_entry = pdpt (p3_index v);
            case points_to_frame g p3_entry of
              None \<Rightarrow> Some (Err NotMapped)
            | Some pd_frame \<Rightarrow>
                if contains p3_entry HUGE_PAGE
                then Some (Ok (unat (p3_entry AND physical_mask g AND NOT 0x3FFFFFFF) + unat ((v AND 0x3FFFFFFF) AND NOT 0xFFF)))
                else do {
                  pd \<leftarrow> phys_to_virt_table pd_frame s;
                  let p2_entry = pd (p2_index v);
                  case points_to_frame g p2_entry of
                    None \<Rightarrow> Some (Err NotMapped)
                  | Some pt_frame \<Rightarrow>
                      if contains p2_entry HUGE_PAGE
                      then Some (Ok (unat (p2_entry AND physical_mask g AND NOT 0x1FFFFF) + unat ((v AND 0x1FFFFF) AND NOT 0xFFF)))
                      else do {
                        pt \<leftarrow> phys_to_virt_table pt_frame s;
                        case points_to_frame g (pt (p1_index v)) of
                          None \<Rightarrow> Some (Err NotMapped)
                        | Some f \<Rightarrow> Some (Ok f)
                      }
                }
          }
      })"

definition get_page_flags :: "AddressSpaceGeometry \<Rightarrow> PhysFrame \<Rightarrow> u64 \<Rightarrow> vm_state \<Rightarrow> (VmmError + PageTableFlags) option" where
  "get_page_flags g root v s =
     (if \<not> is_canonical g v then Some (Err NonCanonicalAddress) else do {
        pml4 \<leftarrow> phys_to_virt_table root s;
        case points_to_frame g (pml4 (p4_index v)) of
          None \<Rightarrow> Some (Err NotMapped)
        | Some pdpt_frame \<Rightarrow> do {
            pdpt \<leftarrow> phys_to_virt_table pdpt_frame s;
            let p3_entry = pdpt (p3_index v);
            case points_to_frame g p3_entry of
              None \<Rightarrow> Some (Err NotMapped)
            | Some pd_frame \<Rightarrow>
                if contains p3_entry HUGE_PAGE then Some (Ok p3_entry)
                else do {
                  pd \<leftarrow> phys_to_virt_table pd_frame s;
                  let p2_entry = pd (p2_index v);
                  case points_to_frame g p2_entry of
                    None \<Rightarrow> Some (Err NotMapped)
                  | Some pt_frame \<Rightarrow>
                      if contains p2_entry HUGE_PAGE then Some (Ok p2_entry)
                      else do {
                        pt \<leftarrow> phys_to_virt_table pt_frame s;
                        let p1_entry = pt (p1_index v);
                        if is_present p1_entry then Some (Ok p1_entry) else Some (Err NotMapped)
                      }
                }
          }
      })"

definition is_mapped :: "AddressSpaceGeometry \<Rightarrow> PhysFrame \<Rightarrow> u64 \<Rightarrow> vm_state \<Rightarrow> bool option" where
  "is_mapped g root v s = map_option (\<lambda>r. case r of Inl _ \<Rightarrow> False | Inr _ \<Rightarrow> True) (translate g root v s)"

definition translate_addr :: "AddressSpaceGeometry \<Rightarrow> PhysFrame \<Rightarrow> u64 \<Rightarrow> vm_state \<Rightarrow> (VmmError + nat) option" where
  "translate_addr g root v s =
     (case from_start_address g (v AND NOT 0xFFF) of
        Inl e \<Rightarrow> Some (Err e)
      | Inr page \<Rightarrow>
          (case translate g root page s of
             None \<Rightarrow> None
           | Some (Inl e) \<Rightarrow> Some (Err e)
           | Some (Inr f) \<Rightarrow> map_option Ok (add64 f (unat (page_offset v)))))"

text \<open>One step of the descent in \<open>map_page\<close>: the table that an entry leads to, allocated, zeroed and linked
  when the entry is not present. The flag of the result says whether it was allocated. The first step does not
  look at the huge page bit.\<close>

definition descend ::
  "AddressSpaceGeometry \<Rightarrow> bool \<Rightarrow> PageTableFlags \<Rightarrow> PhysFrame \<Rightarrow> nat \<Rightarrow> vm_state
     \<Rightarrow> ((VmmError + PhysFrame \<times> bool) \<times> vm_state) option" where
  "descend g huge_check fl t i s = do {
     tbl \<leftarrow> phys_to_virt_table t s;
     if \<not> is_present (tbl i)
     then case alloc_frame (frames s) of
            None \<Rightarrow> None
          | Some (None, p) \<Rightarrow> Some (Err OutOfMemory, s\<lparr>frames := p\<rparr>)
          | Some (Some f, p) \<Rightarrow> do {
              _ \<leftarrow> phys_to_virt_table f s;
              e \<leftarrow> entry_set g f fl;
              Some (Ok (f, True), write_entry t i e (zero_table f (s\<lparr>frames := p\<rparr>)))
            }
     else if huge_check \<and> contains (tbl i) HUGE_PAGE then Some (Err HugePageUnsupported, s)
     else case points_to_frame g (tbl i) of
            None \<Rightarrow> Some (Err InvalidPhysicalAddress, s)
          | Some f \<Rightarrow> Some (Ok (f, False), s)
   }"

text \<open>The removal of a table: clear the entry that leads to it and release its frame, ignoring the result.\<close>

definition drop_table :: "PhysFrame \<Rightarrow> nat \<Rightarrow> PhysFrame \<Rightarrow> vm_state \<Rightarrow> vm_state" where
  "drop_table t i f s = (let s = write_entry t i 0 s in s\<lparr>frames := snd (free_frame f (frames s))\<rparr>)"

text \<open>The roll-back of a step: it applies to a table allocated in the same call.\<close>

definition undo :: "bool \<Rightarrow> PhysFrame \<Rightarrow> nat \<Rightarrow> PhysFrame \<Rightarrow> vm_state \<Rightarrow> vm_state" where
  "undo allocated t i f s = (if allocated then drop_table t i f s else s)"

definition leaf_flags :: "PageTableFlags \<Rightarrow> MappingDomain \<Rightarrow> PageTableFlags" where
  "leaf_flags fl d = (let l = fl OR PRESENT in if d = Kernel then l AND NOT USER_ACCESSIBLE else l)"

text \<open>The roll-back happens on the error values the code rolls back for: exhaustion at the second and third
  step and a duplicate mapping.\<close>

definition map_page ::
  "AddressSpaceGeometry \<Rightarrow> PhysFrame \<Rightarrow> u64 \<Rightarrow> PhysFrame \<Rightarrow> PageTableFlags \<Rightarrow> MappingDomain \<Rightarrow> vm_state
     \<Rightarrow> ((VmmError + unit) \<times> vm_state) option" where
  "map_page g root v f fl d s =
     (if \<not> is_canonical g v then Some (Err NonCanonicalAddress, s)
      else if \<not> is_valid_phys_frame g f then Some (Err InvalidPhysicalAddress, s)
      else case validate_leaf fl g of Inl e \<Rightarrow> Some (Err e, s) | Inr _ \<Rightarrow>
        let ifl = PRESENT OR PAGE_WRITABLE OR intermediate_flags d;
            i4 = p4_index v; i3 = p3_index v; i2 = p2_index v; i1 = p1_index v in
        case descend g False ifl root i4 s of None \<Rightarrow> None | Some (Inl e, s) \<Rightarrow> Some (Err e, s)
        | Some (Inr (pdpt, a3), s) \<Rightarrow>
        (case descend g True ifl pdpt i3 s of None \<Rightarrow> None
         | Some (Inl e, s) \<Rightarrow> Some (Err e, if e = OutOfMemory then undo a3 root i4 pdpt s else s)
         | Some (Inr (pd, a2), s) \<Rightarrow>
         (case descend g True ifl pd i2 s of None \<Rightarrow> None
          | Some (Inl e, s) \<Rightarrow> Some (Err e, if e = OutOfMemory then undo a3 root i4 pdpt (undo a2 pdpt i3 pd s) else s)
          | Some (Inr (pt, a1), s) \<Rightarrow> do {
              tbl \<leftarrow> phys_to_virt_table pt s;
              if is_present (tbl i1)
              then Some (Err AlreadyMapped, undo a3 root i4 pdpt (undo a2 pdpt i3 pd (undo a1 pd i2 pt s)))
              else do {
                e \<leftarrow> entry_set g f (leaf_flags fl d);
                Some (Ok (), write_entry pt i1 e s)
              }
            })))"

definition unmap_page :: "AddressSpaceGeometry \<Rightarrow> PhysFrame \<Rightarrow> u64 \<Rightarrow> vm_state \<Rightarrow> ((VmmError + PhysFrame) \<times> vm_state) option" where
  "unmap_page g root v s =
     (if \<not> is_canonical g v then Some (Err NonCanonicalAddress, s) else
      let i4 = p4_index v; i3 = p3_index v; i2 = p2_index v; i1 = p1_index v in do {
        pml4 \<leftarrow> phys_to_virt_table root s;
        case points_to_frame g (pml4 i4) of None \<Rightarrow> Some (Err NotMapped, s)
        | Some pdpt_frame \<Rightarrow> do {
            pdpt \<leftarrow> phys_to_virt_table pdpt_frame s;
            case points_to_frame g (pdpt i3) of None \<Rightarrow> Some (Err NotMapped, s)
            | Some pd_frame \<Rightarrow>
              if contains (pdpt i3) HUGE_PAGE then Some (Err HugePageUnsupported, s) else do {
                pd \<leftarrow> phys_to_virt_table pd_frame s;
                case points_to_frame g (pd i2) of None \<Rightarrow> Some (Err NotMapped, s)
                | Some pt_frame \<Rightarrow>
                  if contains (pd i2) HUGE_PAGE then Some (Err HugePageUnsupported, s) else do {
                    pt \<leftarrow> phys_to_virt_table pt_frame s;
                    case points_to_frame g (pt i1) of None \<Rightarrow> Some (Err NotMapped, s)
                    | Some mapped_frame \<Rightarrow>
                        let s = write_entry pt_frame i1 0 s in
                        Some (Ok mapped_frame,
                          if present_count (tables s pt_frame) = 0 then
                            let s = drop_table pd_frame i2 pt_frame s in
                            if present_count (tables s pd_frame) = 0 then
                              let s = drop_table pdpt_frame i3 pd_frame s in
                              if present_count (tables s pdpt_frame) = 0 then drop_table root i4 pdpt_frame s else s
                            else s
                          else s)
                  }
              }
          }
      })"

section \<open>The control register and address spaces\<close>

definition cr3_flags_truncate :: "u64 \<Rightarrow> u64" where
  "cr3_flags_truncate bits = bits AND (push_bit 3 1 OR push_bit 4 1)"

text \<open>\<open>Cr3::read\<close> and \<open>Cr3::write\<close> on the value of the register, and on the register of the state. Writing a root that is not a
  valid frame is a failed assertion.\<close>

definition decode_cr3 :: "AddressSpaceGeometry \<Rightarrow> u64 \<Rightarrow> PhysFrame \<times> u64" where
  "decode_cr3 g val = (unat (val AND physical_mask g), cr3_flags_truncate (val AND 0xFFF))"

definition encode_cr3 :: "AddressSpaceGeometry \<Rightarrow> PhysFrame \<Rightarrow> u64 \<Rightarrow> u64 option" where
  "encode_cr3 g root fl = (if is_valid_phys_frame g root then Some (word_of_nat root OR fl) else None)"

definition cr3_read :: "AddressSpaceGeometry \<Rightarrow> vm_state \<Rightarrow> PhysFrame \<times> u64" where
  "cr3_read g s = decode_cr3 g (cr3 s)"

definition cr3_write :: "AddressSpaceGeometry \<Rightarrow> PhysFrame \<Rightarrow> u64 \<Rightarrow> vm_state \<Rightarrow> vm_state option" where
  "cr3_write g root fl s = map_option (\<lambda>v. s\<lparr>cr3 := v\<rparr>) (encode_cr3 g root fl)"

definition get_master_kernel_pml4 :: "AddressSpaceGeometry \<Rightarrow> vm_state \<Rightarrow> PhysFrame \<times> vm_state" where
  "get_master_kernel_pml4 g s =
     (if master_pml4 s \<noteq> 0 then (master_pml4 s, s)
      else let root = fst (cr3_read g s) in (root, s\<lparr>master_pml4 := root\<rparr>))"

text \<open>The discovery at boot: it enables the no-execute bit where the processor has it and records the boot root as the master
  table. The results are the active geometry and the extended feature register.\<close>

definition init_paging_hardware :: "u32 \<Rightarrow> u32 \<Rightarrow> u64 \<Rightarrow> vm_state \<Rightarrow> AddressSpaceGeometry \<times> u64 \<times> vm_state" where
  "init_paging_hardware eax ext_edx efer s =
     (let g = discover eax ext_edx efer;
          (g, efer) = (if nx_supported g
            then let efer = efer OR push_bit 11 1 in (g\<lparr>nx_enabled := efer AND push_bit 11 1 \<noteq> 0\<rparr>, efer)
            else (g, efer)) in
      (g, efer, s\<lparr>master_pml4 := fst (cr3_read g s)\<rparr>))"

text \<open>The self-test that runs at boot on the discovered geometry: every \<open>assert!\<close> is a panic when it fails.\<close>

definition run_stage2ea_verification :: "AddressSpaceGeometry \<Rightarrow> vm_state \<Rightarrow> unit option" where
  "run_stage2ea_verification g s = do {
     assert_that (is_canonical g 0x00007FFFFFFF0000);
     assert_that (\<not> is_canonical g 0x0000800000000000);
     assert_that (is_canonical g 0xFFFF800000000000);
     let (root, fl) = cr3_read g s;
     assert_that (root mod PAGE_SIZE = 0);
     assert_that (is_valid_phys_frame g root);
     assert_that (fl = 0);
     let test_frame = 0x150000;
     assert_that (is_valid_phys_frame g test_frame);
     let pte = 0;
     assert_that (\<not> is_present pte);
     assert_that (points_to_frame g pte = None);
     let leaf_flags = PRESENT OR PAGE_WRITABLE;
     assert_that (validate_leaf leaf_flags g = Ok ());
     pte \<leftarrow> entry_set g test_frame leaf_flags;
     assert_that (is_present pte);
     assert_that (points_to_frame g pte = Some test_frame);
     assert_that (contains pte PAGE_WRITABLE);
     assert_that (\<not> contains pte USER_ACCESSIBLE);
     assert_that (validate_leaf (PRESENT OR HUGE_PAGE) g = Err InvalidFlags);
     assert_that (validate_intermediate (PRESENT OR DIRTY) = Err InvalidFlags);
     assert_that (intermediate_flags Kernel = 0);
     assert_that (intermediate_flags User = USER_ACCESSIBLE)
   }"

text \<open>The copy of one entry of the kernel half; a user flag in the master table is a failed assertion.\<close>

definition clone_entry :: "PageTable \<Rightarrow> PhysFrame \<Rightarrow> nat \<Rightarrow> vm_state \<Rightarrow> vm_state option" where
  "clone_entry master f i s =
     (if is_present (master i)
      then if contains (master i) USER_ACCESSIBLE then None else Some (write_entry f i (master i) s)
      else Some s)"

definition new_user :: "AddressSpaceGeometry \<Rightarrow> vm_state \<Rightarrow> ((VmmError + PhysFrame) \<times> vm_state) option" where
  "new_user g s =
     (case alloc_frame (frames s) of
        None \<Rightarrow> None
      | Some (None, p) \<Rightarrow> Some (Err OutOfMemory, s\<lparr>frames := p\<rparr>)
      | Some (Some root, p) \<Rightarrow>
          (case get_master_kernel_pml4 g (s\<lparr>frames := p\<rparr>) of (m, s) \<Rightarrow> do {
             _ \<leftarrow> phys_to_virt_table root s;
             _ \<leftarrow> phys_to_virt_table m s;
             s \<leftarrow> foldM (\<lambda>i s. clone_entry (tables s m) root i s) [256..<512] (zero_table root s);
             if list_all (\<lambda>i. \<not> is_present (tables s root i)) [0..<256] then Some (Ok root, s) else None
           }))"

text \<open>The three nested loops of \<open>destroy\<close>, from the inside out.\<close>

definition release_table :: "PhysFrame \<Rightarrow> vm_state \<Rightarrow> vm_state" where
  "release_table f s = s\<lparr>frames := snd (free_frame f (frames s))\<rparr>"

definition destroy_pd :: "AddressSpaceGeometry \<Rightarrow> PhysFrame \<Rightarrow> vm_state \<Rightarrow> vm_state option" where
  "destroy_pd g pd_frame s = do {
     _ \<leftarrow> phys_to_virt_table pd_frame s;
     s \<leftarrow> foldM (\<lambda>i s. case points_to_frame g (tables s pd_frame i) of
            None \<Rightarrow> Some s
          | Some pt_frame \<Rightarrow> Some (if contains (tables s pd_frame i) HUGE_PAGE then s else release_table pt_frame s)) [0..<512] s;
     Some (release_table pd_frame s)
   }"

definition destroy_pdpt :: "AddressSpaceGeometry \<Rightarrow> PhysFrame \<Rightarrow> vm_state \<Rightarrow> vm_state option" where
  "destroy_pdpt g pdpt_frame s = do {
     _ \<leftarrow> phys_to_virt_table pdpt_frame s;
     s \<leftarrow> foldM (\<lambda>i s. case points_to_frame g (tables s pdpt_frame i) of
            None \<Rightarrow> Some s
          | Some pd_frame \<Rightarrow> if contains (tables s pdpt_frame i) HUGE_PAGE then Some s else destroy_pd g pd_frame s) [0..<512] s;
     Some (release_table pdpt_frame s)
   }"

text \<open>The result is the new root of the address space value: zero after a destruction.\<close>

definition destroy :: "AddressSpaceGeometry \<Rightarrow> PhysFrame \<Rightarrow> vm_state \<Rightarrow> (PhysFrame \<times> vm_state) option" where
  "destroy g root s =
     (if root = 0 then Some (root, s) else
      case get_master_kernel_pml4 g s of (m, s) \<Rightarrow>
        if root = m then None
        else do {
          s \<leftarrow> (if fst (cr3_read g s) = root then cr3_write g m 0 s else Some s);
          _ \<leftarrow> phys_to_virt_table root s;
          s \<leftarrow> foldM (\<lambda>i s. case points_to_frame g (tables s root i) of
                 None \<Rightarrow> Some s
               | Some pdpt_frame \<Rightarrow> do { s \<leftarrow> destroy_pdpt g pdpt_frame s; Some (write_entry root i 0 s) }) [0..<256] s;
          Some (0, release_table root s)
        })"

end
