(* ===== verification/Sched.thy ===== *)
theory Sched
  imports Queues Vmm
begin

text \<open>
  \<open>kernel/src/task/scheduler.rs\<close> and the wake operations of \<open>kernel/src/task/waitqueue.rs\<close>: the three
  priority run queues, selection, yielding, blocking and waking on the boot processor. The fields of
  \<open>KernelThread\<close> (\<open>kernel/src/task/thread.rs\<close>) that scheduling reads or writes are functions from the
  thread index; \<open>BSP_PERCPU\<close> contributes the current and idle threads, the reschedule flag and the
  interrupt nesting count. The process table, the geometry and the kernel root are not changed by scheduling; the operations that
  switch address spaces read them. Every operation runs under \<open>SCHEDULER.lock\<close> with interrupts off, so it is one
  atomic step; a context switch is the change of \<open>current_thread\<close>. \<open>None\<close> is a panic.
\<close>

section \<open>Data\<close>

datatype ThreadState = Initializing | Ready | Running | Blocked | Zombie | TReclaiming | TFree

datatype Priority = Idle | Normal | High | Critical

datatype SavedFrameType = Cooperative | Preemptive

primrec prio_rank :: "Priority \<Rightarrow> nat" where
  "prio_rank Idle = 0" | "prio_rank Normal = 1" | "prio_rank High = 2" | "prio_rank Critical = 3"

instantiation Priority :: linorder
begin

definition less_eq_Priority :: "Priority \<Rightarrow> Priority \<Rightarrow> bool" where
  "less_eq_Priority a b \<longleftrightarrow> prio_rank a \<le> prio_rank b"

definition less_Priority :: "Priority \<Rightarrow> Priority \<Rightarrow> bool" where
  "less_Priority a b \<longleftrightarrow> prio_rank a < prio_rank b"

instance
proof
  fix a b :: Priority
  show "a \<le> b \<Longrightarrow> b \<le> a \<Longrightarrow> a = b" by (cases a; cases b) (simp_all add: less_eq_Priority_def)
qed (auto simp: less_eq_Priority_def less_Priority_def)

end

definition MAX_THREADS :: nat where [simp]: "MAX_THREADS = 16"
definition DEFAULT_QUANTUM :: nat where "DEFAULT_QUANTUM = 5"

record sched =
  t_id :: "tid \<Rightarrow> nat"
  t_state :: "tid \<Rightarrow> ThreadState"
  t_priority :: "tid \<Rightarrow> Priority"
  frame_type :: "tid \<Rightarrow> SavedFrameType"
  quantum_remaining :: "tid \<Rightarrow> nat"
  t_process :: "tid \<Rightarrow> nat"
  next_runnable :: links
  next_waiter :: links
  critical_queue :: queue
  high_queue :: queue
  normal_queue :: queue
  current_thread :: tid
  idle_thread :: tid
  need_resched :: bool
  nested_irq_count :: nat
  cpu_cr3 :: u64

abbreviation rank :: "sched \<Rightarrow> tid \<Rightarrow> nat" where
  "rank s t \<equiv> prio_rank (t_priority s t)"

section \<open>The run queues\<close>

definition get_queue :: "Priority \<Rightarrow> sched \<Rightarrow> queue" where
  "get_queue p s = (case p of Critical \<Rightarrow> critical_queue s | High \<Rightarrow> high_queue s | _ \<Rightarrow> normal_queue s)"

definition put_queue :: "Priority \<Rightarrow> queue \<times> links \<Rightarrow> sched \<Rightarrow> sched" where
  "put_queue p = (\<lambda>(q, nx) s.
     (case p of Critical \<Rightarrow> s\<lparr>critical_queue := q\<rparr> | High \<Rightarrow> s\<lparr>high_queue := q\<rparr> | _ \<Rightarrow> s\<lparr>normal_queue := q\<rparr>)
       \<lparr>next_runnable := nx\<rparr>)"

definition enqueue :: "tid \<Rightarrow> sched \<Rightarrow> sched option" where
  "enqueue t s =
     (case t_priority s t of
        Idle \<Rightarrow> None
      | p \<Rightarrow> map_option (\<lambda>st. put_queue p st s) (push_back t (get_queue p s, next_runnable s)))"

definition pop_class :: "Priority \<Rightarrow> sched \<Rightarrow> (tid option \<times> sched) option" where
  "pop_class p s = map_option (\<lambda>(t, st). (t, put_queue p st s)) (pop_front (get_queue p s, next_runnable s))"

definition pop_highest_runnable :: "sched \<Rightarrow> (tid option \<times> sched) option" where
  "pop_highest_runnable s = do {
     (t, s) \<leftarrow> pop_class Critical s;
     if t \<noteq> None then Some (t, s)
     else do {
       (t, s) \<leftarrow> pop_class High s;
       if t \<noteq> None then Some (t, s)
       else pop_class Normal s
     }
   }"

definition total_runnable_count :: "sched \<Rightarrow> nat" where
  "total_runnable_count s = q_count (critical_queue s) + q_count (high_queue s) + q_count (normal_queue s)"

definition spawn :: "tid \<Rightarrow> sched \<Rightarrow> sched option" where
  "spawn t s = enqueue t (s\<lparr>t_state := (t_state s)(t := Ready)\<rparr>)"

section \<open>Switching\<close>

text \<open>The statics that a switch reads: the table of processes with their page table roots, the active geometry and the root that
  \<open>get_master_kernel_pml4\<close> returns, which boot has recorded.\<close>

record ProcessSpace =
  slot_occupied :: bool
  process_id :: nat
  address_space :: u64

record address_spaces =
  geometry :: AddressSpaceGeometry
  process_table :: "ProcessSpace list"
  kernel_pml4 :: u64

definition get_process_pml4_root :: "address_spaces \<Rightarrow> nat \<Rightarrow> u64" where
  "get_process_pml4_root root pid =
     (case find (\<lambda>p. slot_occupied p \<and> process_id p = pid) (process_table root) of
        Some p \<Rightarrow> address_space p
      | None \<Rightarrow> kernel_pml4 root)"

definition switch_address_space_locked :: "address_spaces \<Rightarrow> tid \<Rightarrow> tid \<Rightarrow> sched \<Rightarrow> sched option" where
  "switch_address_space_locked root cur nxt s =
     (if t_process s cur = t_process s nxt then Some s
      else let next_pml4 = get_process_pml4_root root (t_process s nxt) in
        if fst (decode_cr3 (geometry root) (cpu_cr3 s)) \<noteq> unat next_pml4
        then map_option (\<lambda>v. s\<lparr>cpu_cr3 := v\<rparr>) (encode_cr3 (geometry root) (unat next_pml4) 0)
        else Some s)"

definition select_next :: "sched \<Rightarrow> (tid \<times> sched) option" where
  "select_next s = map_option (\<lambda>(t, s'). (case t of Some t \<Rightarrow> t | None \<Rightarrow> idle_thread s, s')) (pop_highest_runnable s)"

definition dispatch :: "tid \<Rightarrow> sched \<Rightarrow> sched" where
  "dispatch t s = s\<lparr>t_state := (t_state s)(t := Running),
     quantum_remaining := (quantum_remaining s)(t := DEFAULT_QUANTUM), current_thread := t\<rparr>"

definition yield_now :: "address_spaces \<Rightarrow> sched \<Rightarrow> sched option" where
  "yield_now root s = (let cur = current_thread s in do {
     s \<leftarrow> (if t_state s cur = Running
          then (let s = s\<lparr>t_state := (t_state s)(cur := Ready), frame_type := (frame_type s)(cur := Cooperative)\<rparr>
                in if t_priority s cur \<noteq> Idle then enqueue cur s else Some s)
          else Some s);
     (nxt, s) \<leftarrow> select_next s;
     if nxt = cur
     then Some (s\<lparr>t_state := (t_state s)(cur := Running), quantum_remaining := (quantum_remaining s)(cur := DEFAULT_QUANTUM)\<rparr>)
     else do {
       s \<leftarrow> switch_address_space_locked root cur nxt (dispatch nxt s);
       if nested_irq_count s = 0 then Some s else None
     }
   })"

section \<open>Blocking and waking\<close>

definition wake_thread_locked :: "tid \<Rightarrow> sched \<Rightarrow> sched option" where
  "wake_thread_locked t s =
     (if t_state s t = Blocked \<and> next_waiter s t = None
      then do {
        s \<leftarrow> enqueue t (s\<lparr>t_state := (t_state s)(t := Ready)\<rparr>);
        Some (if t_priority s t > t_priority s (current_thread s) then s\<lparr>need_resched := True\<rparr> else s)
      }
      else None)"

definition push_waiter :: "tid \<Rightarrow> queue \<Rightarrow> sched \<Rightarrow> (queue \<times> sched) option" where
  "push_waiter t q s =
     map_option (\<lambda>(q', nx). (q', s\<lparr>next_waiter := nx\<rparr>)) (push_priority_locked (rank s) t (q, next_waiter s))"

definition pop_highest_locked :: "queue \<Rightarrow> sched \<Rightarrow> (tid option \<times> queue \<times> sched) option" where
  "pop_highest_locked q s =
     map_option (\<lambda>(t, q', nx). (t, q', s\<lparr>next_waiter := nx\<rparr>)) (pop_front (q, next_waiter s))"

definition remove_waiter :: "tid \<Rightarrow> queue \<Rightarrow> sched \<Rightarrow> (bool \<times> queue \<times> sched) option" where
  "remove_waiter t q s =
     map_option (\<lambda>(b, q', nx). (b, q', s\<lparr>next_waiter := nx\<rparr>)) (remove_queue t (q, next_waiter s))"

definition prepare_block_detached_locked :: "sched \<Rightarrow> sched option" where
  "prepare_block_detached_locked s =
     (let cur = current_thread s in
      if t_state s cur = Running \<and> nested_irq_count s = 0
      then do {
        let s = s\<lparr>t_state := (t_state s)(cur := Blocked), frame_type := (frame_type s)(cur := Cooperative)\<rparr>;
        (nxt, s) \<leftarrow> select_next s;
        Some (dispatch nxt s)
      }
      else None)"

definition prepare_block_locked :: "queue \<Rightarrow> sched \<Rightarrow> (queue \<times> sched) option" where
  "prepare_block_locked q s =
     (let cur = current_thread s in
      if t_state s cur = Running \<and> nested_irq_count s = 0
      then do {
        let s = s\<lparr>t_state := (t_state s)(cur := Blocked), frame_type := (frame_type s)(cur := Cooperative)\<rparr>;
        (q, s) \<leftarrow> push_waiter cur q s;
        (nxt, s) \<leftarrow> select_next s;
        Some (q, dispatch nxt s)
      }
      else None)"

definition commit_block_and_switch :: "address_spaces \<Rightarrow> tid \<Rightarrow> sched \<Rightarrow> sched option" where
  "commit_block_and_switch root out s = do {
     s \<leftarrow> switch_address_space_locked root out (current_thread s) s;
     if current_thread s \<noteq> out \<and> nested_irq_count s = 0 then Some s else None
   }"

definition block_current :: "address_spaces \<Rightarrow> queue \<Rightarrow> sched \<Rightarrow> (queue \<times> sched) option" where
  "block_current root q s = do {
     (q, s') \<leftarrow> prepare_block_locked q s;
     s' \<leftarrow> commit_block_and_switch root (current_thread s) s';
     Some (q, s')
   }"

text \<open>\<open>WaitQueue::wake_one\<close>, \<open>wake_all\<close> and \<open>wake_thread\<close>.\<close>

definition wake_one :: "queue \<Rightarrow> sched \<Rightarrow> (tid option \<times> queue \<times> sched) option" where
  "wake_one q s = do {
     (t, q, s) \<leftarrow> pop_highest_locked q s;
     case t of
       None \<Rightarrow> Some (None, q, s)
     | Some t \<Rightarrow> do { s \<leftarrow> wake_thread_locked t s; Some (Some t, q, s) }
   }"

partial_function (option) wake_all :: "queue \<Rightarrow> sched \<Rightarrow> (nat \<times> queue \<times> sched) option" where
  "wake_all q s = do {
     (t, q, s) \<leftarrow> pop_highest_locked q s;
     case t of
       None \<Rightarrow> Some (0, q, s)
     | Some t \<Rightarrow> do {
         s \<leftarrow> wake_thread_locked t s;
         (n, q, s) \<leftarrow> wake_all q s;
         Some (n + 1, q, s)
       }
   }"

definition wake_thread :: "tid \<Rightarrow> queue \<Rightarrow> sched \<Rightarrow> (bool \<times> queue \<times> sched) option" where
  "wake_thread t q s = do {
     (b, q, s) \<leftarrow> remove_waiter t q s;
     if b then do { s \<leftarrow> wake_thread_locked t s; Some (True, q, s) } else Some (False, q, s)
   }"

section \<open>The run queues as lists\<close>

lemma rank_less: "prio_rank a < prio_rank b \<longleftrightarrow> a < b"
  by (simp add: less_Priority_def)

definition queues_ok :: "sched \<Rightarrow> (Priority \<Rightarrow> tid list) \<Rightarrow> bool" where
  "queues_ok s R \<longleftrightarrow> (\<forall>p. p \<noteq> Idle \<longrightarrow> queue_rep (get_queue p s) (next_runnable s) (R p))
     \<and> (\<forall>p p' x. x \<in> set (R p) \<longrightarrow> x \<in> set (R p') \<longrightarrow> p = p') \<and> R Idle = [] \<and> (\<forall>p. \<forall>x\<in>set (R p). x < MAX_THREADS)"

lemma put_queue_sel [simp]:
  "t_id (put_queue p st s) = t_id s" "t_state (put_queue p st s) = t_state s"
  "t_priority (put_queue p st s) = t_priority s" "frame_type (put_queue p st s) = frame_type s"
  "quantum_remaining (put_queue p st s) = quantum_remaining s" "t_process (put_queue p st s) = t_process s"
  "next_runnable (put_queue p st s) = snd st" "next_waiter (put_queue p st s) = next_waiter s"
  "current_thread (put_queue p st s) = current_thread s" "idle_thread (put_queue p st s) = idle_thread s"
  "need_resched (put_queue p st s) = need_resched s" "nested_irq_count (put_queue p st s) = nested_irq_count s"
  "cpu_cr3 (put_queue p st s) = cpu_cr3 s" "quantum_remaining (put_queue p st s) = quantum_remaining s"
  by (cases st; cases p; simp add: put_queue_def)+

lemma get_put_queue:
  "p \<noteq> Idle \<Longrightarrow> p' \<noteq> Idle \<Longrightarrow> get_queue p' (put_queue p st s) = (if p' = p then fst st else get_queue p' s)"
  by (cases st; cases p; cases p'; simp add: put_queue_def get_queue_def)

lemma put_get_queue [simp]: "put_queue p (get_queue p s, next_runnable s) s = s"
  by (cases p) (simp_all add: put_queue_def get_queue_def)

lemma queues_ok_cong:
  assumes "queues_ok s R" "critical_queue s' = critical_queue s" "high_queue s' = high_queue s"
    "normal_queue s' = normal_queue s" "next_runnable s' = next_runnable s"
  shows "queues_ok s' R"
  using assms by (simp add: queues_ok_def get_queue_def cong: Priority.case_cong)

lemma queues_ok_length:
  assumes "queues_ok s R"
  shows "length (R p) \<le> 16"
proof (cases "p = Idle")
  case False
  then have "distinct (R p)" using assms by (auto simp: queues_ok_def intro: queue_rep_distinct)
  then have "length (R p) = card (set (R p))" by (simp add: distinct_card)
  also have "\<dots> \<le> card {..<16 :: nat}" using assms by (intro card_mono) (auto simp: queues_ok_def)
  finally show ?thesis by simp
qed (use assms in \<open>simp add: queues_ok_def\<close>)

lemma enqueue_ok:
  assumes "queues_ok s R" "t_priority s t = p" "p \<noteq> Idle" "t < MAX_THREADS" "\<And>p. t \<notin> set (R p)"
  shows "\<exists>st. enqueue t s = Some (put_queue p st s) \<and> queues_ok (put_queue p st s) (R(p := R p @ [t]))"
proof -
  have rep: "queue_rep (get_queue p' s) (next_runnable s) (R p')" if "p' \<noteq> Idle" for p'
    using assms(1) that by (simp add: queues_ok_def)
  have "length (R p) < U64_MAX" using queues_ok_length [OF assms(1), of p] by simp
  then obtain q nx where p: "push_back t (get_queue p s, next_runnable s) = Some (q, nx)" "queue_rep q nx (R p @ [t])"
    "\<forall>x. x \<notin> set (R p) \<longrightarrow> x \<noteq> t \<longrightarrow> nx x = next_runnable s x"
    using push_back_rep [OF rep [OF assms(3)] assms(5)] by blast
  have "queue_rep (get_queue p' s) nx (R p')" if "p' \<noteq> p" "p' \<noteq> Idle" for p'
  proof (rule queue_rep_cong [OF rep [OF that(2)]])
    fix x assume "x \<in> set (R p')"
    then have "x \<notin> set (R p)" "x \<noteq> t" using assms(1,5) that(1) by (auto simp: queues_ok_def)
    then show "nx x = next_runnable s x" using p(3) by blast
  qed
  then have "queues_ok (put_queue p (q, nx) s) (R(p := R p @ [t]))"
    using assms p(2) by (auto simp: queues_ok_def get_put_queue)
  moreover have "enqueue t s = Some (put_queue p (q, nx) s)"
    using assms(2,3) p(1) by (cases p) (simp_all add: enqueue_def)
  ultimately show ?thesis by blast
qed

lemma pop_class_ok:
  assumes "queues_ok s R" "p \<noteq> Idle"
  shows "R p = [] \<Longrightarrow> pop_class p s = Some (None, s)"
    "R p = t # ts \<Longrightarrow> \<exists>st. pop_class p s = Some (Some t, put_queue p st s) \<and> queues_ok (put_queue p st s) (R(p := ts))"
proof -
  have rep: "queue_rep (get_queue p' s) (next_runnable s) (R p')" if "p' \<noteq> Idle" for p'
    using assms(1) that by (simp add: queues_ok_def)
  have l: "length (R p) < U64_MAX" using queues_ok_length [OF assms(1), of p] by simp
  show "R p = [] \<Longrightarrow> pop_class p s = Some (None, s)"
    using pop_front_rep [OF rep [OF assms(2)] l] by (simp add: pop_class_def)
  assume R: "R p = t # ts"
  then obtain q where q: "pop_front (get_queue p s, next_runnable s) = Some (Some t, q, (next_runnable s)(t := None))"
    "queue_rep q ((next_runnable s)(t := None)) ts"
    using pop_front_rep [OF rep [OF assms(2)] l] by auto
  have "queue_rep (get_queue p' s) ((next_runnable s)(t := None)) (R p')" if "p' \<noteq> p" "p' \<noteq> Idle" for p'
  proof (rule queue_rep_cong [OF rep [OF that(2)]])
    fix x assume "x \<in> set (R p')"
    then have "x \<noteq> t" using assms(1) that(1) R by (auto simp: queues_ok_def)
    then show "((next_runnable s)(t := None)) x = next_runnable s x" by simp
  qed
  moreover have "x \<in> set (R p)" if "x \<in> set ts" for x using that R by simp
  ultimately have "queues_ok (put_queue p (q, (next_runnable s)(t := None)) s) (R(p := ts))"
    using assms q(2) unfolding queues_ok_def by (simp add: get_put_queue) blast
  then show "\<exists>st. pop_class p s = Some (Some t, put_queue p st s) \<and> queues_ok (put_queue p st s) (R(p := ts))"
    using q(1) by (auto simp: pop_class_def)
qed

text \<open>The class that is served next, the thread at its front, and what remains.\<close>

definition top_prio :: "(Priority \<Rightarrow> tid list) \<Rightarrow> Priority" where
  "top_prio R = (if R Critical \<noteq> [] then Critical else if R High \<noteq> [] then High else Normal)"

definition next_of :: "(Priority \<Rightarrow> tid list) \<Rightarrow> tid \<Rightarrow> tid" where
  "next_of R idle = (case R (top_prio R) of [] \<Rightarrow> idle | t # _ \<Rightarrow> t)"

definition rest_of :: "(Priority \<Rightarrow> tid list) \<Rightarrow> (Priority \<Rightarrow> tid list)" where
  "rest_of R = R(top_prio R := tl (R (top_prio R)))"

lemma top_prio_not_idle [simp]: "top_prio R \<noteq> Idle"
  by (simp add: top_prio_def)

lemma pop_class_Some:
  assumes "queues_ok s R" "p \<noteq> Idle" "R p \<noteq> []"
  shows "\<exists>t s'. pop_class p s = Some (Some t, s')"
proof -
  obtain t ts where "R p = t # ts" using assms(3) by (cases "R p") auto
  from pop_class_ok(2) [OF assms(1,2) this] show ?thesis by blast
qed

lemma pop_highest_top:
  assumes "queues_ok s R"
  shows "pop_highest_runnable s = pop_class (top_prio R) s"
proof (cases "R Critical = []")
  case True
  note c = pop_class_ok(1) [OF assms, of Critical, OF _ True]
  show ?thesis
  proof (cases "R High = []")
    case h: True
    show ?thesis using c pop_class_ok(1) [OF assms, of High, OF _ h] True h
      by (simp add: pop_highest_runnable_def top_prio_def)
  next
    case False
    then obtain t s' where "pop_class High s = Some (Some t, s')" using pop_class_Some [OF assms, of High] by auto
    then show ?thesis using c True False by (simp add: pop_highest_runnable_def top_prio_def)
  qed
next
  case False
  then obtain t s' where "pop_class Critical s = Some (Some t, s')" using pop_class_Some [OF assms, of Critical] by auto
  then show ?thesis using False by (simp add: pop_highest_runnable_def top_prio_def)
qed

lemma select_next_ok:
  assumes "queues_ok s R"
  shows "\<exists>st. select_next s = Some (next_of R (idle_thread s), put_queue (top_prio R) st s)
    \<and> queues_ok (put_queue (top_prio R) st s) (rest_of R)"
proof (cases "R (top_prio R)")
  case Nil
  have "rest_of R = R" using Nil by (auto simp: rest_of_def)
  moreover have "select_next s = Some (next_of R (idle_thread s), put_queue (top_prio R) (get_queue (top_prio R) s, next_runnable s) s)"
    using pop_class_ok(1) [OF assms top_prio_not_idle Nil] Nil by (simp add: select_next_def pop_highest_top [OF assms] next_of_def)
  ultimately show ?thesis using assms by (metis put_get_queue)
next
  case (Cons t ts)
  obtain st where "pop_class (top_prio R) s = Some (Some t, put_queue (top_prio R) st s)"
    "queues_ok (put_queue (top_prio R) st s) (R(top_prio R := ts))"
    using pop_class_ok(2) [OF assms top_prio_not_idle Cons] by blast
  then show ?thesis using Cons
    by (intro exI [of _ st]) (simp add: select_next_def pop_highest_top [OF assms] next_of_def rest_of_def)
qed

section \<open>The scheduling invariant\<close>

text \<open>Exactly the ready threads of a worker priority are queued, each in the queue of its priority;
  exactly the current thread runs; the idle thread is ready whenever it is not running; the roots of
  the processes are valid frames; and the address space register holds the root of the current thread's process.\<close>

definition ready_ok :: "sched \<Rightarrow> (Priority \<Rightarrow> tid list) \<Rightarrow> bool" where
  "ready_ok s R \<longleftrightarrow> (\<forall>p t. t \<in> set (R p) \<longleftrightarrow> p \<noteq> Idle \<and> t_priority s t = p \<and> t_state s t = Ready)"

definition idle_ok :: "sched \<Rightarrow> bool" where
  "idle_ok s \<longleftrightarrow> idle_thread s < MAX_THREADS \<and> t_priority s (idle_thread s) = Idle \<and> nested_irq_count s = 0"

text \<open>Every root a switch can load is a valid frame, and the register holds the root of the process of a thread.\<close>

definition roots_ok :: "address_spaces \<Rightarrow> bool" where
  "roots_ok root \<longleftrightarrow> is_valid_phys_frame (geometry root) (unat (kernel_pml4 root))
     \<and> (\<forall>p\<in>set (process_table root). slot_occupied p \<longrightarrow> is_valid_phys_frame (geometry root) (unat (address_space p)))"

definition cr3_ok :: "address_spaces \<Rightarrow> tid \<Rightarrow> sched \<Rightarrow> bool" where
  "cr3_ok root t s \<longleftrightarrow> roots_ok root
     \<and> fst (decode_cr3 (geometry root) (cpu_cr3 s)) = unat (get_process_pml4_root root (t_process s t))"

definition sched_inv :: "address_spaces \<Rightarrow> sched \<Rightarrow> (Priority \<Rightarrow> tid list) \<Rightarrow> bool" where
  "sched_inv root s R \<longleftrightarrow> queues_ok s R \<and> ready_ok s R \<and> idle_ok s
     \<and> current_thread s < MAX_THREADS \<and> (\<forall>t. t_state s t = Running \<longleftrightarrow> t = current_thread s)
     \<and> (current_thread s \<noteq> idle_thread s \<longrightarrow> t_state s (idle_thread s) = Ready \<and> t_priority s (current_thread s) \<noteq> Idle)
     \<and> cr3_ok root (current_thread s) s"

lemma next_of_cases:
  obtains "R (top_prio R) = []" "next_of R idle = idle" "rest_of R = R"
  | ts where "R (top_prio R) = next_of R idle # ts" "rest_of R = R(top_prio R := ts)"
  by (cases "R (top_prio R)") (auto simp: next_of_def rest_of_def fun_upd_idem)

lemma root_valid: "roots_ok root \<Longrightarrow> is_valid_phys_frame (geometry root) (unat (get_process_pml4_root root pid))"
  by (auto simp: roots_ok_def get_process_pml4_root_def find_Some_iff split: option.split)

lemma decode_encode_cr3:
  assumes "is_valid_phys_frame g (unat r)"
  shows "encode_cr3 g (unat r) 0 = Some r" "fst (decode_cr3 g r) = unat r"
proof -
  have "r AND NOT (physical_mask g) = 0" using assms by (simp add: is_valid_phys_frame_def)
  then have "r = r AND physical_mask g" by (metis bit.conj_disj_distrib bit.disj_cancel_right bit.conj_one_right or.right_neutral)
  then show "fst (decode_cr3 g r) = unat r" by (simp add: decode_cr3_def)
  show "encode_cr3 g (unat r) 0 = Some r" using assms by (simp add: encode_cr3_def)
qed

lemma switch_ok:
  assumes "cr3_ok root a s"
  shows "\<exists>v. switch_address_space_locked root a b s = Some (s\<lparr>cpu_cr3 := v\<rparr>) \<and> cr3_ok root b (s\<lparr>cpu_cr3 := v\<rparr>)"
proof -
  let ?r = "get_process_pml4_root root (t_process s b)"
  have v: "is_valid_phys_frame (geometry root) (unat ?r)" using assms by (simp add: cr3_ok_def root_valid)
  show ?thesis
  proof (cases "t_process s a = t_process s b \<or> fst (decode_cr3 (geometry root) (cpu_cr3 s)) = unat ?r")
    case True
    then show ?thesis using assms
      by (intro exI [of _ "cpu_cr3 s"]) (auto simp: switch_address_space_locked_def cr3_ok_def)
  next
    case False
    then show ?thesis using assms decode_encode_cr3 [OF v]
      by (intro exI [of _ ?r]) (simp add: switch_address_space_locked_def cr3_ok_def)
  qed
qed

lemma next_of_facts:
  assumes "queues_ok s R" "ready_ok s R" "idle_ok s" "t_state s (idle_thread s) = Ready"
  shows "next_of R (idle_thread s) < MAX_THREADS" "t_state s (next_of R (idle_thread s)) = Ready"
    "next_of R (idle_thread s) \<noteq> idle_thread s \<Longrightarrow> t_priority s (next_of R (idle_thread s)) = top_prio R"
    "t \<in> set (rest_of R p) \<longleftrightarrow> t \<in> set (R p) \<and> t \<noteq> next_of R (idle_thread s)"
proof -
  let ?n = "next_of R (idle_thread s)"
  have d: "distinct (R p)" if "p \<noteq> Idle" for p using assms(1) that by (auto simp: queues_ok_def intro: queue_rep_distinct)
  have notidle: "idle_thread s \<notin> set (R p)" for p using assms(2,3) by (auto simp: ready_ok_def idle_ok_def)
  consider (idle) "R (top_prio R) = []" "?n = idle_thread s" "rest_of R = R"
    | (cons) ts where "R (top_prio R) = ?n # ts" "rest_of R = R(top_prio R := ts)" by (rule next_of_cases)
  then have "?n < MAX_THREADS \<and> t_state s ?n = Ready \<and> (?n \<noteq> idle_thread s \<longrightarrow> t_priority s ?n = top_prio R)
      \<and> (t \<in> set (rest_of R p) \<longleftrightarrow> t \<in> set (R p) \<and> t \<noteq> ?n)"
  proof cases
    case idle
    then show ?thesis using assms(3,4) notidle by (auto simp: idle_ok_def)
  next
    case (cons ts)
    then have n: "?n \<in> set (R (top_prio R))" by simp
    then have f: "?n < MAX_THREADS" "t_priority s ?n = top_prio R" "t_state s ?n = Ready"
      using assms(1,2) unfolding queues_ok_def ready_ok_def by blast+
    have "?n \<notin> set ts" using d [of "top_prio R"] cons(1) by simp
    moreover have "?n \<notin> set (R p)" if "p \<noteq> top_prio R" using assms(2) f(2) that by (auto simp: ready_ok_def)
    ultimately show ?thesis using f cons by auto
  qed
  then show "?n < MAX_THREADS" "t_state s ?n = Ready" "?n \<noteq> idle_thread s \<Longrightarrow> t_priority s ?n = top_prio R"
    "t \<in> set (rest_of R p) \<longleftrightarrow> t \<in> set (R p) \<and> t \<noteq> ?n" by blast+
qed

lemma dispatch_next:
  assumes "queues_ok s R" "ready_ok s R" "idle_ok s" "t_state s (idle_thread s) = Ready"
    "\<And>t. t_state s t \<noteq> Running" "cr3_ok root cur s"
  shows "\<exists>st v. let n = next_of R (idle_thread s); d = dispatch n (put_queue (top_prio R) st s) in
    select_next s = Some (n, put_queue (top_prio R) st s)
    \<and> switch_address_space_locked root cur n d = Some (d\<lparr>cpu_cr3 := v\<rparr>) \<and> sched_inv root (d\<lparr>cpu_cr3 := v\<rparr>) (rest_of R)"
proof -
  let ?n = "next_of R (idle_thread s)"
  note nf = next_of_facts [OF assms(1-4)]
  obtain st where st: "select_next s = Some (?n, put_queue (top_prio R) st s)" "queues_ok (put_queue (top_prio R) st s) (rest_of R)"
    using select_next_ok [OF assms(1)] by blast
  let ?d = "dispatch ?n (put_queue (top_prio R) st s)"
  have "cr3_ok root cur ?d" using assms(6) by (simp add: cr3_ok_def dispatch_def)
  from switch_ok [OF this, of ?n] obtain v where v: "switch_address_space_locked root cur ?n ?d = Some (?d\<lparr>cpu_cr3 := v\<rparr>)"
    "cr3_ok root ?n (?d\<lparr>cpu_cr3 := v\<rparr>)" by blast
  let ?s = "?d\<lparr>cpu_cr3 := v\<rparr>"
  have "queues_ok ?s (rest_of R)" by (rule queues_ok_cong [OF st(2)]) (simp_all add: dispatch_def)
  moreover have "ready_ok ?s (rest_of R)"
    using assms(2) nf(2,4) by (auto simp: ready_ok_def dispatch_def)
  ultimately have "sched_inv root ?s (rest_of R)"
    using nf assms(3-5) v(2) by (auto simp: sched_inv_def idle_ok_def dispatch_def)
  then show ?thesis using st(1) v(1) unfolding Let_def by blast
qed

definition requeued :: "sched \<Rightarrow> (Priority \<Rightarrow> tid list) \<Rightarrow> (Priority \<Rightarrow> tid list)" where
  "requeued s R = (let c = current_thread s; p = t_priority s c in if p = Idle then R else R(p := R p @ [c]))"

lemma yield_now_spec:
  assumes "sched_inv root s R"
  shows "\<exists>s'. yield_now root s = Some s' \<and> sched_inv root s' (rest_of (requeued s R))
    \<and> current_thread s' = next_of (requeued s R) (idle_thread s) \<and> t_priority s' = t_priority s
    \<and> idle_thread s' = idle_thread s \<and> t_id s' = t_id s \<and> next_waiter s' = next_waiter s
    \<and> t_state s' = (t_state s)(current_thread s := Ready, next_of (requeued s R) (idle_thread s) := Running)
    \<and> quantum_remaining s' = (quantum_remaining s)(next_of (requeued s R) (idle_thread s) := DEFAULT_QUANTUM)"
proof -
  let ?c = "current_thread s" and ?R = "requeued s R" and ?p = "t_priority s (current_thread s)"
  let ?s1 = "s\<lparr>t_state := (t_state s)(?c := Ready), frame_type := (frame_type s)(?c := Cooperative)\<rparr>"
  have inv: "queues_ok s R" "ready_ok s R" "idle_ok s" "?c < MAX_THREADS" "\<And>t. t_state s t = Running \<longleftrightarrow> t = ?c"
    "?c \<noteq> idle_thread s \<Longrightarrow> t_state s (idle_thread s) = Ready \<and> ?p \<noteq> Idle" "cr3_ok root ?c s"
    using assms by (simp_all add: sched_inv_def)
  have run: "t_state s ?c = Running" using inv(5) by simp
  then have nc: "?c \<notin> set (R p)" for p using inv(2) by (simp add: ready_ok_def)
  have q1: "queues_ok ?s1 R" by (rule queues_ok_cong [OF inv(1)]) simp_all
  obtain s2 where s2: "(if ?p \<noteq> Idle then enqueue ?c ?s1 else Some ?s1) = Some s2" "queues_ok s2 ?R"
    "\<exists>st. s2 = put_queue ?p st ?s1"
  proof (cases "?p = Idle")
    case True
    have "\<exists>st. ?s1 = put_queue ?p st ?s1" by (rule exI, rule put_get_queue [symmetric])
    then show ?thesis using that [of ?s1] q1 True by (simp add: requeued_def)
  next
    case False
    then obtain st where "enqueue ?c ?s1 = Some (put_queue ?p st ?s1)" "queues_ok (put_queue ?p st ?s1) (R(?p := R ?p @ [?c]))"
      using enqueue_ok [OF q1, of ?c ?p] inv(4) nc by auto
    moreover have "\<exists>st'. put_queue ?p st ?s1 = put_queue ?p st' ?s1" by blast
    moreover have "?R = R(?p := R ?p @ [?c])" using False by (simp add: requeued_def Let_def)
    ultimately show ?thesis using that [of "put_queue ?p st ?s1"] False by presburger
  qed
  have sel: "t_state s2 = (t_state s)(?c := Ready)" "t_priority s2 = t_priority s" "idle_thread s2 = idle_thread s"
    "nested_irq_count s2 = nested_irq_count s" "cpu_cr3 s2 = cpu_cr3 s" "t_process s2 = t_process s" "current_thread s2 = ?c"
    "t_id s2 = t_id s" "next_waiter s2 = next_waiter s" "quantum_remaining s2 = quantum_remaining s"
    using s2(3) by auto
  have r2: "ready_ok s2 ?R"
    using inv(2) nc by (auto simp: ready_ok_def sel requeued_def Let_def)
  have d: "idle_ok s2" "t_state s2 (idle_thread s2) = Ready" "\<And>t. t_state s2 t \<noteq> Running"
    "cr3_ok root ?c s2"
    using inv(3,5,6,7) by (auto simp: idle_ok_def cr3_ok_def sel)
  let ?n = "next_of ?R (idle_thread s)"
  obtain st v where st: "select_next s2 = Some (?n, put_queue (top_prio ?R) st s2)"
    "switch_address_space_locked root ?c ?n (dispatch ?n (put_queue (top_prio ?R) st s2)) = Some ((dispatch ?n (put_queue (top_prio ?R) st s2))\<lparr>cpu_cr3 := v\<rparr>)"
    "sched_inv root ((dispatch ?n (put_queue (top_prio ?R) st s2))\<lparr>cpu_cr3 := v\<rparr>) (rest_of ?R)"
    using dispatch_next [where root = root and cur = ?c, OF s2(2) r2 d] unfolding sel(3) Let_def by blast
  let ?d = "dispatch ?n (put_queue (top_prio ?R) st s2)"
  have n0: "nested_irq_count s2 = 0" using d(1) by (simp add: idle_ok_def)
  have "yield_now root s = (if ?n = ?c then Some ?d else Some (?d\<lparr>cpu_cr3 := v\<rparr>))"
    using run s2(1) st(1,2) n0 sel(7) by (auto simp: yield_now_def Let_def dispatch_def)
  moreover have "?d\<lparr>cpu_cr3 := v\<rparr> = ?d" if "?n = ?c" using st(2) that by (simp add: switch_address_space_locked_def)
  ultimately have "yield_now root s = Some (?d\<lparr>cpu_cr3 := v\<rparr>)" by auto
  then show ?thesis using st(3) by (auto simp: dispatch_def sel)
qed

section \<open>Blocking and waking keep the invariant\<close>

lemma push_waiter_ok:
  assumes "queue_rep q (next_waiter s) xs" "t \<notin> set xs" "next_waiter s t = None" "length xs < U64_MAX"
  shows "\<exists>q' nx. push_waiter t q s = Some (q', s\<lparr>next_waiter := nx\<rparr>) \<and> queue_rep q' nx (prio_insert (rank s) t xs)
    \<and> (\<forall>x. x \<notin> set xs \<longrightarrow> x \<noteq> t \<longrightarrow> nx x = next_waiter s x)"
  using push_priority_rep [OF assms, of "rank s"] by (auto simp: push_waiter_def)

lemma block_spec:
  assumes inv: "sched_inv root s R" and cur: "current_thread s \<noteq> idle_thread s"
    and q: "queue_rep q (next_waiter s) xs" "current_thread s \<notin> set xs" "next_waiter s (current_thread s) = None" "length xs < U64_MAX"
  shows "\<exists>q' s'. block_current root q s = Some (q', s') \<and> sched_inv root s' (rest_of R)
    \<and> queue_rep q' (next_waiter s') (prio_insert (rank s) (current_thread s) xs)
    \<and> t_state s' = (t_state s)(current_thread s := Blocked, next_of R (idle_thread s) := Running)
    \<and> current_thread s' = next_of R (idle_thread s) \<and> t_priority s' = t_priority s \<and> idle_thread s' = idle_thread s
    \<and> t_id s' = t_id s \<and> t_process s' = t_process s
    \<and> (\<forall>x. x \<notin> set xs \<longrightarrow> x \<noteq> current_thread s \<longrightarrow> next_waiter s' x = next_waiter s x)"
proof -
  let ?c = "current_thread s"
  have i: "queues_ok s R" "ready_ok s R" "idle_ok s" "\<And>t. t_state s t = Running \<longleftrightarrow> t = ?c"
    "t_state s (idle_thread s) = Ready" "cr3_ok root ?c s" using inv cur by (simp_all add: sched_inv_def)
  have run: "t_state s ?c = Running" using i(4) by simp
  let ?s1 = "s\<lparr>t_state := (t_state s)(?c := Blocked), frame_type := (frame_type s)(?c := Cooperative)\<rparr>"
  obtain q' nx where w: "push_waiter ?c q ?s1 = Some (q', ?s1\<lparr>next_waiter := nx\<rparr>)" "queue_rep q' nx (prio_insert (rank s) ?c xs)"
    "\<forall>x. x \<notin> set xs \<longrightarrow> x \<noteq> ?c \<longrightarrow> nx x = next_waiter s x"
    using push_waiter_ok [of q ?s1 xs ?c] q by auto
  let ?s2 = "?s1\<lparr>next_waiter := nx\<rparr>"
  have q2: "queues_ok ?s2 R" by (rule queues_ok_cong [OF i(1)]) simp_all
  have r2: "ready_ok ?s2 R" using i(2) run by (auto simp: ready_ok_def)
  have d: "idle_ok ?s2" "t_state ?s2 (idle_thread ?s2) = Ready" "\<And>t. t_state ?s2 t \<noteq> Running" "cr3_ok root ?c ?s2"
    using i(3-6) cur by (auto simp: idle_ok_def cr3_ok_def)
  let ?n = "next_of R (idle_thread s)"
  obtain st v where st: "select_next ?s2 = Some (?n, put_queue (top_prio R) st ?s2)"
    "switch_address_space_locked root ?c ?n (dispatch ?n (put_queue (top_prio R) st ?s2)) = Some ((dispatch ?n (put_queue (top_prio R) st ?s2))\<lparr>cpu_cr3 := v\<rparr>)"
    "sched_inv root ((dispatch ?n (put_queue (top_prio R) st ?s2))\<lparr>cpu_cr3 := v\<rparr>) (rest_of R)"
    using dispatch_next [where root = root and cur = ?c, OF q2 r2 d] by (auto simp: Let_def)
  have nc: "?n \<noteq> ?c" using next_of_facts(2) [OF q2 r2 d(1,2)] by auto
  have n0: "nested_irq_count s = 0" using i(3) by (simp add: idle_ok_def)
  let ?d = "dispatch ?n (put_queue (top_prio R) st ?s2)"
  have "current_thread ?d = ?n" by (simp add: dispatch_def)
  then have "block_current root q s = Some (q', ?d\<lparr>cpu_cr3 := v\<rparr>)"
    using run n0 w(1) st(1,2) nc
    by (simp add: block_current_def prepare_block_locked_def commit_block_and_switch_def Let_def) (simp add: dispatch_def)
  then show ?thesis using st(3) w(2,3) by (simp add: dispatch_def)
qed

lemma wake_spec:
  assumes inv: "sched_inv root s R" and t: "t_state s t = Blocked" "next_waiter s t = None" "t_priority s t \<noteq> Idle" "t < MAX_THREADS"
  shows "\<exists>s'. wake_thread_locked t s = Some s'
    \<and> sched_inv root s' (R(t_priority s t := R (t_priority s t) @ [t]))
    \<and> t_state s' = (t_state s)(t := Ready) \<and> next_waiter s' = next_waiter s \<and> t_priority s' = t_priority s
    \<and> current_thread s' = current_thread s \<and> idle_thread s' = idle_thread s \<and> t_id s' = t_id s \<and> t_process s' = t_process s
    \<and> (need_resched s' \<longleftrightarrow> need_resched s \<or> t_priority s t > t_priority s (current_thread s))"
proof -
  let ?p = "t_priority s t" and ?s1 = "s\<lparr>t_state := (t_state s)(t := Ready)\<rparr>"
  have i: "queues_ok s R" "ready_ok s R" "idle_ok s" "current_thread s < MAX_THREADS" "\<And>u. t_state s u = Running \<longleftrightarrow> u = current_thread s"
    "current_thread s \<noteq> idle_thread s \<longrightarrow> t_state s (idle_thread s) = Ready \<and> t_priority s (current_thread s) \<noteq> Idle"
    "cr3_ok root (current_thread s) s" using inv by (simp_all add: sched_inv_def)
  have q1: "queues_ok ?s1 R" by (rule queues_ok_cong [OF i(1)]) simp_all
  have nt: "t \<notin> set (R p)" for p using i(2) t(1) by (simp add: ready_ok_def)
  obtain st where st: "enqueue t ?s1 = Some (put_queue ?p st ?s1)" "queues_ok (put_queue ?p st ?s1) (R(?p := R ?p @ [t]))"
    using enqueue_ok [OF q1, of t ?p] t(3,4) nt by auto
  let ?s2 = "put_queue ?p st ?s1"
  define s' where "s' = (if t_priority s t > t_priority s (current_thread s) then ?s2\<lparr>need_resched := True\<rparr> else ?s2)"
  have w: "wake_thread_locked t s = Some s'" using t(1,2) st(1) by (simp add: wake_thread_locked_def s'_def)
  have sel: "t_state s' = (t_state s)(t := Ready)" "next_waiter s' = next_waiter s" "t_priority s' = t_priority s"
    "current_thread s' = current_thread s" "idle_thread s' = idle_thread s" "nested_irq_count s' = nested_irq_count s"
    "cpu_cr3 s' = cpu_cr3 s" "t_process s' = t_process s" "t_id s' = t_id s"
    "need_resched s' \<longleftrightarrow> need_resched s \<or> t_priority s t > t_priority s (current_thread s)"
    by (simp_all add: s'_def)
  have "queues_ok s' (R(?p := R ?p @ [t]))"
    by (rule queues_ok_cong [OF st(2)]) (simp_all add: s'_def)
  moreover have "ready_ok s' (R(?p := R ?p @ [t]))" using i(2) t(3) by (auto simp: ready_ok_def sel)
  moreover have "t \<noteq> current_thread s" using t(1) i(5) [of t] by auto
  ultimately have "sched_inv root s' (R(?p := R ?p @ [t]))"
    using i(3-7) t(1) by (auto simp: sched_inv_def idle_ok_def cr3_ok_def sel)
  then show ?thesis using w sel by blast
qed

text \<open>The run queues after waking a list of threads in order.\<close>

definition woken :: "sched \<Rightarrow> tid list \<Rightarrow> (Priority \<Rightarrow> tid list) \<Rightarrow> (Priority \<Rightarrow> tid list)" where
  "woken s xs R = (\<lambda>p. R p @ filter (\<lambda>x. t_priority s x = p) xs)"

lemma woken_Cons: "woken s (t # ts) R = woken s ts (R(t_priority s t := R (t_priority s t) @ [t]))"
  by (auto simp: woken_def)

lemma woken_cong: "t_priority s = t_priority s' \<Longrightarrow> woken s = woken s'"
  by (simp add: woken_def fun_eq_iff)

definition waiting :: "sched \<Rightarrow> queue \<Rightarrow> tid list \<Rightarrow> bool" where
  "waiting s q xs \<longleftrightarrow> queue_rep q (next_waiter s) xs \<and> length xs < U64_MAX
     \<and> (\<forall>t\<in>set xs. t_state s t = Blocked \<and> t_priority s t \<noteq> Idle \<and> t < MAX_THREADS)"

lemma wake_all_spec:
  "sched_inv root s R \<Longrightarrow> waiting s q xs \<Longrightarrow>
     \<exists>q' s'. wake_all q s = Some (length xs, q', s') \<and> sched_inv root s' (woken s xs R) \<and> queue_rep q' (next_waiter s') []
       \<and> (\<forall>t. t_state s' t = (if t \<in> set xs then Ready else t_state s t))
       \<and> (\<forall>t. next_waiter s' t = (if t \<in> set xs then None else next_waiter s t))
       \<and> t_priority s' = t_priority s \<and> current_thread s' = current_thread s \<and> idle_thread s' = idle_thread s
       \<and> t_id s' = t_id s \<and> t_process s' = t_process s"
proof (induction xs arbitrary: q s R)
  case Nil
  then have "pop_front (q, next_waiter s) = Some (None, q, next_waiter s)"
    using pop_front_rep [of q "next_waiter s" "[]"] by (simp add: waiting_def)
  then show ?case using Nil
    by (auto simp: wake_all.simps [of q] pop_highest_locked_def woken_def waiting_def)
next
  case (Cons t ts)
  let ?nx = "(next_waiter s)(t := None)"
  obtain q1 where q1: "pop_front (q, next_waiter s) = Some (Some t, q1, ?nx)" "queue_rep q1 ?nx ts"
    using pop_front_rep [of q "next_waiter s" "t # ts"] Cons.prems(2) by (auto simp: waiting_def)
  let ?s1 = "s\<lparr>next_waiter := ?nx\<rparr>"
  have "queues_ok ?s1 R" by (rule queues_ok_cong [of s]) (use Cons.prems(1) in \<open>simp_all add: sched_inv_def\<close>)
  then have i1: "sched_inv root ?s1 R" using Cons.prems(1) by (simp add: sched_inv_def ready_ok_def idle_ok_def cr3_ok_def)
  have "t_state ?s1 t = Blocked" "next_waiter ?s1 t = None" "t_priority ?s1 t \<noteq> Idle" "t < MAX_THREADS"
    using Cons.prems(2) by (simp_all add: waiting_def)
  from wake_spec [OF i1 this] obtain s2 where w: "wake_thread_locked t ?s1 = Some s2"
    "sched_inv root s2 (R(t_priority s t := R (t_priority s t) @ [t]))" "t_state s2 = (t_state s)(t := Ready)"
    "next_waiter s2 = ?nx" "t_priority s2 = t_priority s" "current_thread s2 = current_thread s"
    "idle_thread s2 = idle_thread s" "t_id s2 = t_id s" "t_process s2 = t_process s"
    by auto
  have nt: "t \<notin> set ts" using Cons.prems(2) queue_rep_distinct [of q "next_waiter s" "t # ts"] by (simp add: waiting_def)
  have "waiting s2 q1 ts" using Cons.prems(2) q1(2) nt w(3-5) by (auto simp: waiting_def)
  from Cons.IH [OF w(2) this] obtain q' s' where r: "wake_all q1 s2 = Some (length ts, q', s')"
    "sched_inv root s' (woken s2 ts (R(t_priority s t := R (t_priority s t) @ [t])))" "queue_rep q' (next_waiter s') []"
    "\<forall>u. t_state s' u = (if u \<in> set ts then Ready else t_state s2 u)"
    "\<forall>u. next_waiter s' u = (if u \<in> set ts then None else next_waiter s2 u)"
    "t_priority s' = t_priority s2" "current_thread s' = current_thread s2" "idle_thread s' = idle_thread s2"
    "t_id s' = t_id s2" "t_process s' = t_process s2" by blast
  have "wake_all q s = Some (length (t # ts), q', s')"
    using q1(1) w(1) r(1) by (simp add: wake_all.simps [of q] pop_highest_locked_def)
  moreover have "sched_inv root s' (woken s (t # ts) R)" using r(2) woken_cong [OF w(5)] by (simp add: woken_Cons)
  ultimately show ?case using r(3-10) w(3-9) by simp
qed

section \<open>Properties\<close>

lemma set_tl_subset: "set (tl xs) \<subseteq> set xs"
  by (cases xs) auto

lemma top_prio_max: "t \<in> set (R p) \<Longrightarrow> p \<noteq> Idle \<Longrightarrow> p \<le> top_prio R"
  by (cases p) (auto simp: top_prio_def less_eq_Priority_def)

text \<open>C8: the scheduler always runs a thread of the highest ready priority, in the right address
  space. From any state that satisfies the invariant, which includes that the page table roots of the processes and of
  the kernel are frames the register accepts, \<open>yield_now\<close> returns without a panic, the assertion on the new root
  included, to a state
  that satisfies it again, where no ready thread has a higher priority than the one now running, that
  thread is the only running one, its time slice is fresh, and the page table register decodes to the root
  of its process.\<close>

theorem yield_runs_highest:
  assumes "sched_inv root s R"
  shows "\<exists>s' R'. yield_now root s = Some s' \<and> sched_inv root s' R'
    \<and> (\<forall>t. t_state s' t = Ready \<longrightarrow> t_priority s' t \<le> t_priority s' (current_thread s'))
    \<and> {t. t_state s' t = Running} = {current_thread s'} \<and> quantum_remaining s' (current_thread s') = DEFAULT_QUANTUM
    \<and> fst (decode_cr3 (geometry root) (cpu_cr3 s')) = unat (get_process_pml4_root root (t_process s' (current_thread s')))"
proof -
  let ?R = "requeued s R" and ?n = "next_of (requeued s R) (idle_thread s)"
  obtain s' where s': "yield_now root s = Some s'" "sched_inv root s' (rest_of ?R)" "current_thread s' = ?n"
    "t_priority s' = t_priority s" "idle_thread s' = idle_thread s" "quantum_remaining s' = (quantum_remaining s)(?n := DEFAULT_QUANTUM)"
    using yield_now_spec [OF assms] by blast
  have id: "idle_ok s'" and rk: "ready_ok s' (rest_of ?R)" and rn: "\<forall>t. t_state s' t = Running \<longleftrightarrow> t = current_thread s'"
    and wk: "current_thread s' \<noteq> idle_thread s' \<Longrightarrow> t_priority s' (current_thread s') \<noteq> Idle"
    and c: "fst (decode_cr3 (geometry root) (cpu_cr3 s')) = unat (get_process_pml4_root root (t_process s' (current_thread s')))"
    using s'(2) by (simp_all add: sched_inv_def cr3_ok_def)
  have "t_priority s' t \<le> t_priority s' (current_thread s')" if t: "t_state s' t = Ready" for t
  proof (cases "t_priority s' t = Idle")
    case True
    then show ?thesis by (simp add: less_eq_Priority_def)
  next
    case False
    let ?p = "t_priority s' t"
    have m: "t \<in> set (rest_of ?R ?p)" using rk t False by (simp add: ready_ok_def)
    have sub: "set (rest_of ?R ?p) \<subseteq> set (?R ?p)" using set_tl_subset [of "?R ?p"] by (auto simp: rest_of_def)
    have le: "?p \<le> top_prio ?R" using top_prio_max [of t ?R ?p] m sub False by blast
    have ne: "?R (top_prio ?R) \<noteq> []"
    proof
      assume e: "?R (top_prio ?R) = []"
      then have "?R Critical = [] \<and> ?R High = [] \<and> ?R Normal = []" by (auto simp: top_prio_def split: if_splits)
      then have "?R ?p = []" using False by (cases ?p) auto
      then show False using m sub by auto
    qed
    then have mem: "?n \<in> set (?R (top_prio ?R))" by (simp add: next_of_def split: list.splits)
    have "t_priority s ?n = top_prio ?R"
      using mem assms by (auto simp: requeued_def Let_def sched_inv_def ready_ok_def split: if_splits)
    then show ?thesis using le s'(3,4) by simp
  qed
  moreover have "quantum_remaining s' (current_thread s') = DEFAULT_QUANTUM" using s'(3,6) by simp
  ultimately show ?thesis using s'(1,2) rn c by blast
qed

primrec yields :: "address_spaces \<Rightarrow> nat \<Rightarrow> sched \<Rightarrow> sched option" where
  "yields root 0 s = Some s"
| "yields root (Suc n) s = yield_now root s \<bind> yields root n"

text \<open>C24: round-robin within a priority has bounded waiting. When the running thread has the
  highest priority that is ready and a thread of that priority is queued behind \<open>n\<close> others, then
  that thread is running after exactly \<open>n + 1\<close> yields, none of which panics.\<close>

theorem round_robin:
  assumes "sched_inv root s R" "R (t_priority s (current_thread s)) = xs @ t # ys"
    "\<forall>p. t_priority s (current_thread s) < p \<longrightarrow> R p = []"
  shows "\<exists>s' R'. yields root (length xs + 1) s = Some s' \<and> current_thread s' = t \<and> sched_inv root s' R'"
  using assms
proof (induction xs arbitrary: s R ys)
  case Nil
  let ?p = "t_priority s (current_thread s)"
  have np: "?p \<noteq> Idle" using Nil.prems(1,2) by (auto simp: sched_inv_def queues_ok_def)
  have tp: "top_prio (requeued s R) = ?p"
    using Nil.prems np by (cases ?p) (auto simp: top_prio_def requeued_def Let_def less_Priority_def)
  then have "next_of (requeued s R) (idle_thread s) = t" using Nil.prems(2) np by (simp add: next_of_def requeued_def Let_def)
  then show ?case using yield_now_spec [OF Nil.prems(1)] by auto
next
  case (Cons x xs)
  let ?p = "t_priority s (current_thread s)"
  have np: "?p \<noteq> Idle" using Cons.prems(1,2) by (auto simp: sched_inv_def queues_ok_def)
  have tp: "top_prio (requeued s R) = ?p"
    using Cons.prems np by (cases ?p) (auto simp: top_prio_def requeued_def Let_def less_Priority_def)
  then have nx: "next_of (requeued s R) (idle_thread s) = x" using Cons.prems(2) np by (simp add: next_of_def requeued_def Let_def)
  obtain s1 where s1: "yield_now root s = Some s1" "sched_inv root s1 (rest_of (requeued s R))" "current_thread s1 = x"
    "t_priority s1 = t_priority s" using yield_now_spec [OF Cons.prems(1)] nx by auto
  have "x \<in> set (R ?p)" using Cons.prems(2) by simp
  then have px: "t_priority s x = ?p" using Cons.prems(1) by (simp add: sched_inv_def ready_ok_def)
  have "rest_of (requeued s R) (t_priority s1 (current_thread s1)) = xs @ t # (ys @ [current_thread s])"
    using Cons.prems(2) np by (simp add: s1(3,4) px rest_of_def tp) (simp add: requeued_def Let_def)
  moreover have "\<forall>p. t_priority s1 (current_thread s1) < p \<longrightarrow> rest_of (requeued s R) p = []"
    using Cons.prems(3) by (auto simp: s1(3,4) px rest_of_def tp requeued_def Let_def)
  ultimately show ?case using Cons.IH [OF s1(2)] s1(1) by simp
qed

text \<open>C30: waking every waiter of a queue terminates, wakes each waiter exactly once and in the queue's
  order, and leaves nobody behind: the count is the number of waiters, each is ready and unlinked, the
  queue is empty, every thread outside it keeps its state and link, and each waiter is at the tail of
  the run queue of its priority, behind the threads that were ready before it.\<close>

theorem wake_all_wakes:
  assumes "sched_inv root s R" "waiting s q xs"
  shows "\<exists>q' s' R'. wake_all q s = Some (length xs, q', s') \<and> sched_inv root s' R' \<and> queue_is_empty q'
    \<and> (\<forall>t. t_state s' t = (if t \<in> set xs then Ready else t_state s t))
    \<and> (\<forall>t. next_waiter s' t = (if t \<in> set xs then None else next_waiter s t))
    \<and> (\<forall>p. R' p = R p @ filter (\<lambda>x. t_priority s x = p) xs)"
proof -
  obtain q' s' where "wake_all q s = Some (length xs, q', s')" "sched_inv root s' (woken s xs R)" "queue_rep q' (next_waiter s') []"
    "\<forall>t. t_state s' t = (if t \<in> set xs then Ready else t_state s t)"
    "\<forall>t. next_waiter s' t = (if t \<in> set xs then None else next_waiter s t)"
    using wake_all_spec [OF assms] by blast
  moreover have "queue_is_empty q'" using queue_rep_empty [of q' "next_waiter s'" "[]"] calculation(3) by simp
  moreover have "\<forall>p. woken s xs R p = R p @ filter (\<lambda>x. t_priority s x = p) xs" by (simp add: woken_def)
  ultimately show ?thesis by blast
qed

section \<open>A concrete scheduler\<close>

text \<open>Thread 0 runs, threads 1 and 2 are ready at the same priority, thread 3 waits with a higher
  priority, thread 4 is idle.\<close>

definition demo_sched :: sched where
  "demo_sched = \<lparr>t_id = \<lambda>t. t, t_state = (\<lambda>_. TFree)(0 := Running, 1 := Ready, 2 := Ready, 3 := Blocked, 4 := Ready),
     t_priority = (\<lambda>_. Normal)(3 := High, 4 := Idle), frame_type = \<lambda>_. Cooperative,
     quantum_remaining = \<lambda>_. 5, t_process = \<lambda>t. t, next_runnable = (\<lambda>_. None)(1 := Some 2), next_waiter = \<lambda>_. None,
     critical_queue = new_queue, high_queue = new_queue, normal_queue = \<lparr>q_head = Some 1, q_tail = Some 2, q_count = 2\<rparr>,
     current_thread = 0, idle_thread = 4, need_resched = False, nested_irq_count = 0, cpu_cr3 = 0x1000\<rparr>"

definition demo_runq :: "Priority \<Rightarrow> tid list" where
  "demo_runq p = (if p = Normal then [1, 2] else [])"

definition demo_root_of :: address_spaces where
  "demo_root_of = \<lparr>geometry = \<lparr>physical_bits = 36, virtual_bits = 48, physical_mask = 0xFFFFFF000, nx_supported = False, nx_enabled = False\<rparr>,
     process_table = [\<lparr>slot_occupied = True, process_id = 1, address_space = 0x2000\<rparr>, \<lparr>slot_occupied = True, process_id = 2, address_space = 0x3000\<rparr>],
     kernel_pml4 = 0x1000\<rparr>"

lemma demo_sched_inv: "sched_inv demo_root_of demo_sched demo_runq"
proof -
  have "queues_ok demo_sched demo_runq"
    unfolding queues_ok_def
  proof (intro conjI allI impI)
    fix p assume "p \<noteq> Idle"
    then show "queue_rep (get_queue p demo_sched) (next_runnable demo_sched) (demo_runq p)"
      by (cases p) (simp_all add: queue_rep_def get_queue_def demo_sched_def demo_runq_def new_queue_def)
  qed (auto simp: demo_runq_def split: if_splits)
  moreover have "ready_ok demo_sched demo_runq" by (auto simp: ready_ok_def demo_sched_def demo_runq_def split: if_splits)
  ultimately show ?thesis
    by (auto simp: sched_inv_def idle_ok_def demo_sched_def demo_root_of_def cr3_ok_def roots_ok_def is_valid_phys_frame_def decode_cr3_def
        get_process_pml4_root_def split: if_splits)
qed

theorem yield_runs_highest_witness:
  "\<exists>s'. yield_now demo_root_of demo_sched = Some s'
     \<and> fst (decode_cr3 (geometry demo_root_of) (cpu_cr3 s')) = unat (get_process_pml4_root demo_root_of (t_process s' (current_thread s')))"
  using yield_runs_highest [OF demo_sched_inv] by blast

theorem round_robin_witness: "\<exists>s'. yields demo_root_of 2 demo_sched = Some s' \<and> current_thread s' = 2"
proof -
  have "demo_runq (t_priority demo_sched (current_thread demo_sched)) = [1] @ 2 # []"
    "\<forall>p. t_priority demo_sched (current_thread demo_sched) < p \<longrightarrow> demo_runq p = []"
    by (auto simp: demo_runq_def demo_sched_def)
  from round_robin [OF demo_sched_inv this] show ?thesis by (auto simp: numeral_2_eq_2)
qed

theorem wake_all_wakes_witness:
  "\<exists>q' s'. wake_all \<lparr>q_head = Some 3, q_tail = Some 3, q_count = 1\<rparr> demo_sched = Some (1, q', s') \<and> t_state s' 3 = Ready"
proof -
  have "waiting demo_sched \<lparr>q_head = Some 3, q_tail = Some 3, q_count = 1\<rparr> [3]"
    by (simp add: waiting_def queue_rep_def demo_sched_def)
  from wake_all_wakes [OF demo_sched_inv this] show ?thesis by auto
qed

end
