(* ===== verification/Sync.thy ===== *)
theory Sync
  imports Sched
begin

text \<open>
  The blocking primitives over wait queues: \<open>kernel/src/task/mutex.rs\<close>, \<open>event.rs\<close>, \<open>condvar.rs\<close> and
  \<open>sleep.rs\<close>. An operation that may block returns \<open>Parked\<close> after the context switch; what the code does
  once the thread runs again is a separate \<open>_resumed\<close> definition. A mutex is identified by a number in
  the table of active mutexes. Cancellation for a terminating process (\<open>cancel_owner_locked\<close>) belongs to
  process teardown and is not modelled.
\<close>

section \<open>Mutex\<close>

datatype wait_result = Passed | Parked

datatype LockError = RecursiveLock
datatype UnlockError = NotLocked | NotOwner

record Mutex =
  m_owner :: nat
  m_waiters :: queue

definition new_mutex :: Mutex where
  "new_mutex = \<lparr>m_owner = 0, m_waiters = new_queue\<rparr>"

definition mutex_is_locked :: "Mutex \<Rightarrow> bool" where
  "mutex_is_locked m \<longleftrightarrow> m_owner m \<noteq> 0"

definition validate_lock :: "Mutex \<Rightarrow> nat \<Rightarrow> LockError + unit" where
  "validate_lock m caller_id = (if m_owner m \<noteq> 0 \<and> m_owner m = caller_id then Err RecursiveLock else Ok ())"

definition validate_unlock :: "Mutex \<Rightarrow> nat \<Rightarrow> UnlockError + unit" where
  "validate_unlock m caller_id =
     (if m_owner m = 0 then Err NotLocked else if m_owner m \<noteq> caller_id then Err NotOwner else Ok ())"

text \<open>\<open>ACTIVE_MUTEXES\<close>, the sixteen mutexes process teardown looks at.\<close>

type_synonym active_table = "nat \<Rightarrow> nat option"

definition register_active_mutex_locked :: "nat \<Rightarrow> active_table \<Rightarrow> active_table" where
  "register_active_mutex_locked i A =
     (if \<exists>k\<in>set [0..<16]. A k = Some i then A
      else case find (\<lambda>k. A k = None) [0..<16] of Some k \<Rightarrow> A(k := Some i) | None \<Rightarrow> A)"

definition unregister_active_mutex_locked :: "nat \<Rightarrow> active_table \<Rightarrow> active_table" where
  "unregister_active_mutex_locked i A =
     (case find (\<lambda>k. A k = Some i) [0..<16] of Some k \<Rightarrow> A(k := None) | None \<Rightarrow> A)"

definition mutex_lock ::
  "address_spaces \<Rightarrow> nat \<Rightarrow> Mutex \<Rightarrow> active_table \<Rightarrow> sched \<Rightarrow> (wait_result \<times> Mutex \<times> active_table \<times> sched) option" where
  "mutex_lock root i m A s =
     (let cur = current_thread s; cid = t_id s cur in
      case validate_lock m cid of
        Inl _ \<Rightarrow> None
      | Inr _ \<Rightarrow>
          if m_owner m = 0
          then Some (Passed, m\<lparr>m_owner := cid\<rparr>, register_active_mutex_locked i A, s)
          else do {
            (q, s) \<leftarrow> prepare_block_locked (m_waiters m) s;
            s \<leftarrow> commit_block_and_switch root cur s;
            Some (Parked, m\<lparr>m_waiters := q\<rparr>, A, s)
          })"


definition mutex_unlock_locked ::
  "nat \<Rightarrow> Mutex \<Rightarrow> active_table \<Rightarrow> sched \<Rightarrow> (Mutex \<times> active_table \<times> sched) option" where
  "mutex_unlock_locked i m A s = do {
     (w, q, s) \<leftarrow> pop_highest_locked (m_waiters m) s;
     case w of
       Some w \<Rightarrow>
         if next_waiter s w = None
         then do {
           s' \<leftarrow> wake_thread_locked w s;
           Some (m\<lparr>m_waiters := q, m_owner := t_id s w\<rparr>, A, s')
         }
         else None
     | None \<Rightarrow> Some (m\<lparr>m_waiters := q, m_owner := 0\<rparr>, unregister_active_mutex_locked i A, s)
   }"

definition mutex_unlock ::
  "nat \<Rightarrow> Mutex \<Rightarrow> active_table \<Rightarrow> sched \<Rightarrow> (Mutex \<times> active_table \<times> sched) option" where
  "mutex_unlock i m A s =
     (case validate_unlock m (t_id s (current_thread s)) of
        Inl _ \<Rightarrow> None
      | Inr _ \<Rightarrow> mutex_unlock_locked i m A s)"

section \<open>Event\<close>

datatype EventType = AutoReset | ManualReset

record Event =
  signaled :: bool
  event_type :: EventType
  e_waiters :: queue

definition new_event :: "bool \<Rightarrow> EventType \<Rightarrow> Event" where
  "new_event b ty = \<lparr>signaled = b, event_type = ty, e_waiters = new_queue\<rparr>"

definition consume_signal :: "Event \<Rightarrow> Event" where
  "consume_signal e = (if event_type e = AutoReset then e\<lparr>signaled := False\<rparr> else e)"

definition event_wait :: "address_spaces \<Rightarrow> Event \<Rightarrow> sched \<Rightarrow> (wait_result \<times> Event \<times> sched) option" where
  "event_wait root e s =
     (if nested_irq_count s \<noteq> 0 then None
      else if signaled e then Some (Passed, consume_signal e, s)
      else do {
        (q, s') \<leftarrow> prepare_block_locked (e_waiters e) s;
        s' \<leftarrow> commit_block_and_switch root (current_thread s) s';
        Some (Parked, e\<lparr>e_waiters := q\<rparr>, s')
      })"

definition event_try_wait :: "Event \<Rightarrow> sched \<Rightarrow> (bool \<times> Event) option" where
  "event_try_wait e s =
     (if nested_irq_count s \<noteq> 0 then None
      else if signaled e then Some (True, consume_signal e) else Some (False, e))"

definition event_signal_locked :: "Event \<Rightarrow> sched \<Rightarrow> (Event \<times> sched) option" where
  "event_signal_locked e s =
     (case event_type e of
        AutoReset \<Rightarrow> do {
          (w, q, s) \<leftarrow> pop_highest_locked (e_waiters e) s;
          case w of
            Some w \<Rightarrow> if next_waiter s w = None
                      then do { s \<leftarrow> wake_thread_locked w s; Some (e\<lparr>e_waiters := q, signaled := False\<rparr>, s) }
                      else None
          | None \<Rightarrow> Some (e\<lparr>e_waiters := q, signaled := True\<rparr>, s)
        }
      | ManualReset \<Rightarrow> do {
          (_, q, s) \<leftarrow> wake_all (e_waiters e) s;
          Some (e\<lparr>e_waiters := q, signaled := True\<rparr>, s)
        })"

definition event_reset :: "Event \<Rightarrow> Event" where
  "event_reset e = e\<lparr>signaled := False\<rparr>"

section \<open>Condition variable\<close>

definition condvar_validate_wait :: "Mutex \<Rightarrow> nat \<Rightarrow> bool" where
  "condvar_validate_wait m caller_id \<longleftrightarrow> \<not> (m_owner m = 0 \<or> m_owner m \<noteq> caller_id)"

definition condvar_wait ::
  "address_spaces \<Rightarrow> nat \<Rightarrow> queue \<Rightarrow> Mutex \<Rightarrow> active_table \<Rightarrow> sched \<Rightarrow> (queue \<times> Mutex \<times> active_table \<times> sched) option" where
  "condvar_wait root i cq m A s =
     (let cur = current_thread s in
      if m_owner m \<noteq> t_id s cur then None
      else do {
        (cq, s) \<leftarrow> push_waiter cur cq s;
        (m, A, s) \<leftarrow> mutex_unlock_locked i m A s;
        s \<leftarrow> prepare_block_detached_locked s;
        s \<leftarrow> commit_block_and_switch root cur s;
        Some (cq, m, A, s)
      })"

definition condvar_wait_resumed ::
  "address_spaces \<Rightarrow> nat \<Rightarrow> Mutex \<Rightarrow> active_table \<Rightarrow> sched \<Rightarrow> (wait_result \<times> Mutex \<times> active_table \<times> sched) option" where
  "condvar_wait_resumed root i m A s = mutex_lock root i m A s"

definition condvar_signal :: "queue \<Rightarrow> sched \<Rightarrow> (bool \<times> queue \<times> sched) option" where
  "condvar_signal cq s = map_option (\<lambda>(t, q, s). (t \<noteq> None, q, s)) (wake_one cq s)"

definition condvar_broadcast :: "queue \<Rightarrow> sched \<Rightarrow> (nat \<times> queue \<times> sched) option" where
  "condvar_broadcast cq s = wake_all cq s"

section \<open>Sleep\<close>

definition MAX_SLEEP_ENTRIES :: nat where [simp]: "MAX_SLEEP_ENTRIES = 16"

record SleepEntry =
  se_thread :: tid
  deadline_tick :: nat

record sleep_state =
  sleep_table :: "nat \<Rightarrow> SleepEntry option"
  sleep_queue :: queue

definition duration_ticks :: "nat \<Rightarrow> nat" where
  "duration_ticks ms = ms div 10 + (if ms mod 10 \<noteq> 0 then 1 else 0)"

definition sleep_deadline :: "nat \<Rightarrow> nat \<Rightarrow> nat" where
  "sleep_deadline now ms = min U64_MAX (now + duration_ticks ms)"

definition sleep_ms ::
  "address_spaces \<Rightarrow> nat \<Rightarrow> nat \<Rightarrow> sleep_state \<Rightarrow> sched \<Rightarrow> (bool \<times> sleep_state \<times> sched) option" where
  "sleep_ms root now ms z s =
     (if ms = 0 then map_option (\<lambda>s. (True, z, s)) (yield_now root s)
      else
        let cur = current_thread s in
        if t_state s cur \<noteq> Running \<or> nested_irq_count s \<noteq> 0 then None
        else if \<exists>k\<in>set [0..<MAX_SLEEP_ENTRIES]. map_option se_thread (sleep_table z k) = Some cur then Some (False, z, s)
        else case find (\<lambda>k. sleep_table z k = None) [0..<MAX_SLEEP_ENTRIES] of
               None \<Rightarrow> Some (False, z, s)
             | Some k \<Rightarrow> do {
                 let z = z\<lparr>sleep_table := (sleep_table z)(k := Some \<lparr>se_thread = cur, deadline_tick = sleep_deadline now ms\<rparr>)\<rparr>;
                 (q, s) \<leftarrow> prepare_block_locked (sleep_queue z) s;
                 s \<leftarrow> commit_block_and_switch root cur s;
                 Some (True, z\<lparr>sleep_queue := q\<rparr>, s)
               })"

definition expire_one :: "nat \<Rightarrow> nat \<Rightarrow> nat \<times> sleep_state \<times> sched \<Rightarrow> (nat \<times> sleep_state \<times> sched) option" where
  "expire_one now k = (\<lambda>(n, z, s).
     case sleep_table z k of
       None \<Rightarrow> Some (n, z, s)
     | Some e \<Rightarrow>
         if now \<ge> deadline_tick e
         then if t_state s (se_thread e) \<noteq> Blocked then None
              else do {
                (detached, q, s) \<leftarrow> remove_waiter (se_thread e) (sleep_queue z) s;
                if detached \<and> next_waiter s (se_thread e) = None
                then do {
                  s \<leftarrow> wake_thread_locked (se_thread e) s;
                  Some (n + 1, z\<lparr>sleep_queue := q, sleep_table := (sleep_table z)(k := None)\<rparr>, s)
                }
                else None
              }
         else Some (n, z, s))"

definition expire_sleepers_locked :: "nat \<Rightarrow> sleep_state \<Rightarrow> sched \<Rightarrow> (nat \<times> sleep_state \<times> sched) option" where
  "expire_sleepers_locked now z s = foldM (expire_one now) [0..<MAX_SLEEP_ENTRIES] (0, z, s)"

definition cancel_sleep_locked :: "tid \<Rightarrow> sleep_state \<Rightarrow> sched \<Rightarrow> (bool \<times> sleep_state \<times> sched) option" where
  "cancel_sleep_locked t z s =
     (case find (\<lambda>k. map_option se_thread (sleep_table z k) = Some t) [0..<MAX_SLEEP_ENTRIES] of
        None \<Rightarrow> Some (False, z, s)
      | Some k \<Rightarrow> do {
          let z = z\<lparr>sleep_table := (sleep_table z)(k := None)\<rparr>;
          (_, q, s) \<leftarrow> remove_waiter t (sleep_queue z) s;
          Some (True, z\<lparr>sleep_queue := q\<rparr>, s)
        })"

section \<open>Popping a waiter\<close>

lemma pop_waiter_none: "waiting s q [] \<Longrightarrow> pop_highest_locked q s = Some (None, q, s)"
  using pop_front_rep [of q "next_waiter s" "[]"] by (simp add: waiting_def pop_highest_locked_def)

lemma sched_inv_waiter [simp]: "sched_inv root (s\<lparr>next_waiter := nx\<rparr>) R = sched_inv root s R"
proof -
  have "queues_ok (s\<lparr>next_waiter := nx\<rparr>) R = queues_ok s R"
    using queues_ok_cong [of s R "s\<lparr>next_waiter := nx\<rparr>"] queues_ok_cong [of "s\<lparr>next_waiter := nx\<rparr>" R s] by auto
  then show ?thesis by (simp add: sched_inv_def ready_ok_def idle_ok_def cr3_ok_def)
qed

lemma pop_waiter_some:
  assumes "sched_inv root s R" "waiting s q (w # ws)"
  shows "\<exists>q' s1 s2. pop_highest_locked q s = Some (Some w, q', s1) \<and> next_waiter s1 w = None \<and> t_id s1 = t_id s
    \<and> wake_thread_locked w s1 = Some s2 \<and> sched_inv root s2 (R(t_priority s w := R (t_priority s w) @ [w]))
    \<and> waiting s2 q' ws \<and> t_state s2 = (t_state s)(w := Ready) \<and> next_waiter s2 = (next_waiter s)(w := None)
    \<and> t_id s2 = t_id s \<and> t_priority s2 = t_priority s \<and> current_thread s2 = current_thread s \<and> idle_thread s2 = idle_thread s"
proof -
  let ?nx = "(next_waiter s)(w := None)"
  obtain q' where q: "pop_front (q, next_waiter s) = Some (Some w, q', ?nx)" "queue_rep q' ?nx ws"
    using pop_front_rep [of q "next_waiter s" "w # ws"] assms(2) by (auto simp: waiting_def)
  let ?s1 = "s\<lparr>next_waiter := ?nx\<rparr>"
  have "sched_inv root ?s1 R" using assms(1) by simp
  moreover have "t_state ?s1 w = Blocked" "next_waiter ?s1 w = None" "t_priority ?s1 w \<noteq> Idle" "w < MAX_THREADS"
    using assms(2) by (simp_all add: waiting_def)
  ultimately obtain s2 where w: "wake_thread_locked w ?s1 = Some s2"
    "sched_inv root s2 (R(t_priority s w := R (t_priority s w) @ [w]))" "t_state s2 = (t_state s)(w := Ready)"
    "next_waiter s2 = ?nx" "t_priority s2 = t_priority s" "current_thread s2 = current_thread s"
    "idle_thread s2 = idle_thread s" "t_id s2 = t_id s"
    using wake_spec [of root ?s1 R w] by auto
  have "w \<notin> set ws" using assms(2) queue_rep_distinct [of q "next_waiter s" "w # ws"] by (simp add: waiting_def)
  then have "waiting s2 q' ws" using assms(2) q(2) w(3-5) by (auto simp: waiting_def)
  moreover have "pop_highest_locked q s = Some (Some w, q', ?s1)" using q(1) by (simp add: pop_highest_locked_def)
  ultimately show ?thesis using w by (intro exI [of _ q'] exI [of _ ?s1] exI [of _ s2]) simp
qed


section \<open>Mutual exclusion\<close>















section \<open>Properties\<close>



text \<open>C34: the bootstrap thread cannot hold a mutex. Its thread id is zero, which is also the value of
  the owner field of an unlocked mutex, so after it has locked a mutex the mutex still counts as
  unlocked: unlocking it panics, and another thread that locks it gets it at once.\<close>

theorem mutex_id_zero:
  assumes "t_id s (current_thread s) = 0" "m_owner m = 0"
  shows "\<exists>m' A'. mutex_lock root i m A s = Some (Passed, m', A', s) \<and> \<not> mutex_is_locked m'
    \<and> mutex_unlock i m' A' s = None
    \<and> (\<forall>s'. \<exists>m'' A''. mutex_lock root i m' A' s' = Some (Passed, m'', A'', s'))"
  using assms by (simp add: mutex_lock_def validate_lock_def mutex_is_locked_def mutex_unlock_def validate_unlock_def Let_def)

text \<open>C29: signalling an event never loses a wake-up. An auto-reset event wakes exactly the first
  waiter and stays unsignalled when somebody waits, and otherwise latches the signal, which the next
  wait or try-wait consumes; a manual-reset event wakes all waiters and stays signalled. No case panics
  and the scheduler invariant is kept.\<close>

theorem event_signal_exact:
  assumes "sched_inv root s R" "waiting s (e_waiters e) xs"
  shows "\<exists>e' s' R'. event_signal_locked e s = Some (e', s') \<and> sched_inv root s' R' \<and> event_type e' = event_type e
    \<and> (case event_type e of
         AutoReset \<Rightarrow> (case xs of
             [] \<Rightarrow> s' = s \<and> signaled e' \<and> event_try_wait e' s' = Some (True, e'\<lparr>signaled := False\<rparr>)
           | w # ws \<Rightarrow> t_state s' = (t_state s)(w := Ready) \<and> \<not> signaled e' \<and> waiting s' (e_waiters e') ws)
       | ManualReset \<Rightarrow> signaled e' \<and> (\<forall>t. t_state s' t = (if t \<in> set xs then Ready else t_state s t))
           \<and> queue_is_empty (e_waiters e') \<and> event_try_wait e' s' = Some (True, e'))"
proof (cases "event_type e")
  case AutoReset
  show ?thesis
  proof (cases xs)
    case Nil
    then have "pop_highest_locked (e_waiters e) s = Some (None, e_waiters e, s)" using pop_waiter_none assms(2) by simp
    moreover have "nested_irq_count s = 0" using assms(1) by (simp add: sched_inv_def idle_ok_def)
    ultimately show ?thesis using AutoReset Nil assms(1)
      by (auto simp: event_signal_locked_def event_try_wait_def consume_signal_def)
  next
    case (Cons w ws)
    obtain q' s1 s2 where p: "pop_highest_locked (e_waiters e) s = Some (Some w, q', s1)" "next_waiter s1 w = None"
      "wake_thread_locked w s1 = Some s2" "sched_inv root s2 (R(t_priority s w := R (t_priority s w) @ [w]))"
      "waiting s2 q' ws" "t_state s2 = (t_state s)(w := Ready)"
      using pop_waiter_some [OF assms(1), of "e_waiters e" w ws] assms(2) Cons by blast
    have "event_signal_locked e s = Some (e\<lparr>e_waiters := q', signaled := False\<rparr>, s2)"
      using p(1-3) AutoReset by (simp add: event_signal_locked_def)
    then show ?thesis using AutoReset Cons p(4-6) by auto
  qed
next
  case ManualReset
  obtain q' s' where w: "wake_all (e_waiters e) s = Some (length xs, q', s')" "sched_inv root s' (woken s xs R)"
    "queue_rep q' (next_waiter s') []" "\<forall>t. t_state s' t = (if t \<in> set xs then Ready else t_state s t)"
    using wake_all_spec [OF assms] by blast
  have "queue_is_empty q'" using queue_rep_empty [OF w(3)] by simp
  moreover have "nested_irq_count s' = 0" using w(2) by (simp add: sched_inv_def idle_ok_def)
  ultimately show ?thesis using ManualReset w
    by (auto simp: event_signal_locked_def event_try_wait_def consume_signal_def)
qed

section \<open>Sleeping\<close>

definition sleep_inv :: "sleep_state \<Rightarrow> sched \<Rightarrow> tid list \<Rightarrow> bool" where
  "sleep_inv z s xs \<longleftrightarrow> waiting s (sleep_queue z) xs
     \<and> (\<forall>k e. sleep_table z k = Some e \<longrightarrow> se_thread e \<in> set xs)
     \<and> (\<forall>k k' e e'. sleep_table z k = Some e \<longrightarrow> sleep_table z k' = Some e' \<longrightarrow> se_thread e = se_thread e' \<longrightarrow> k = k')"

definition expired :: "nat \<Rightarrow> sleep_state \<Rightarrow> nat \<Rightarrow> bool" where
  "expired now z k \<longleftrightarrow> (case sleep_table z k of None \<Rightarrow> False | Some e \<Rightarrow> deadline_tick e \<le> now)"

definition wakes :: "nat \<Rightarrow> sleep_state \<Rightarrow> nat set \<Rightarrow> tid \<Rightarrow> bool" where
  "wakes now z K t \<longleftrightarrow> (\<exists>k\<in>K. expired now z k \<and> map_option se_thread (sleep_table z k) = Some t)"

lemma wakes_insert: "wakes now z (insert k K) t \<longleftrightarrow> (expired now z k \<and> map_option se_thread (sleep_table z k) = Some t) \<or> wakes now z K t"
  by (auto simp: wakes_def)

lemma remove_waiter_ok:
  assumes "waiting s q xs" "t \<in> set xs"
  shows "\<exists>q' nx. remove_waiter t q s = Some (True, q', s\<lparr>next_waiter := nx\<rparr>) \<and> nx t = None
    \<and> queue_rep q' nx (remove1 t xs) \<and> (\<forall>x. x \<notin> set xs \<longrightarrow> nx x = next_waiter s x)"
proof -
  have r: "queue_rep q (next_waiter s) xs" "length xs < U64_MAX" using assms(1) by (simp_all add: waiting_def)
  obtain q' nx where n: "remove_queue t (q, next_waiter s) = Some (True, q', nx)" "queue_rep q' nx (remove1 t xs)"
    "\<forall>x. x \<notin> set xs \<longrightarrow> nx x = next_waiter s x" "nx t = None"
    using remove_queue_rep [OF r, of t] assms(2) by auto
  then show ?thesis by (auto simp: remove_waiter_def)
qed

lemma expire_one_ok:
  assumes inv: "sched_inv root s R" and sl: "sleep_inv z s xs" and ex: "sleep_table z k = Some e" "deadline_tick e \<le> now"
  shows "\<exists>q' s' R'. expire_one now k (n, z, s)
      = Some (n + 1, z\<lparr>sleep_queue := q', sleep_table := (sleep_table z)(k := None)\<rparr>, s')
    \<and> sched_inv root s' R' \<and> sleep_inv (z\<lparr>sleep_queue := q', sleep_table := (sleep_table z)(k := None)\<rparr>) s' (remove1 (se_thread e) xs)
    \<and> t_state s' = (t_state s)(se_thread e := Ready)"
proof -
  let ?t = "se_thread e"
  have w: "waiting s (sleep_queue z) xs" and tx: "?t \<in> set xs" using sl ex(1) by (auto simp: sleep_inv_def)
  obtain q' nx where r: "remove_waiter ?t (sleep_queue z) s = Some (True, q', s\<lparr>next_waiter := nx\<rparr>)" "nx ?t = None"
    "queue_rep q' nx (remove1 ?t xs)" using remove_waiter_ok [OF w tx] by blast
  let ?s1 = "s\<lparr>next_waiter := nx\<rparr>"
  have bt: "t_state s ?t = Blocked" "t_priority s ?t \<noteq> Idle" "?t < MAX_THREADS" using w tx by (auto simp: waiting_def)
  obtain s' where s': "wake_thread_locked ?t ?s1 = Some s'" "sched_inv root s' (R(t_priority s ?t := R (t_priority s ?t) @ [?t]))"
    "t_state s' = (t_state s)(?t := Ready)" "next_waiter s' = nx" "t_priority s' = t_priority s"
    using wake_spec [of root ?s1 R ?t] inv bt r(2) by auto
  have d: "distinct xs" using w by (auto simp: waiting_def intro: queue_rep_distinct)
  have "length (remove1 ?t xs) \<le> length xs" by (simp add: length_remove1)
  moreover have "set (remove1 ?t xs) \<subseteq> set xs" "?t \<notin> set (remove1 ?t xs)" using d by (auto simp: set_remove1_subset)
  ultimately have "waiting s' q' (remove1 ?t xs)" using w r(3) s'(3-5) by (auto simp: waiting_def)
  then have "sleep_inv (z\<lparr>sleep_queue := q', sleep_table := (sleep_table z)(k := None)\<rparr>) s' (remove1 ?t xs)"
    using sl ex(1) unfolding sleep_inv_def by (simp add: d) blast
  moreover have "expire_one now k (n, z, s) = Some (n + 1, z\<lparr>sleep_queue := q', sleep_table := (sleep_table z)(k := None)\<rparr>, s')"
    using ex bt(1) r(1,2) s'(1) by (simp add: expire_one_def)
  ultimately show ?thesis using s'(2,3) by blast
qed

lemma expire_fold:
  assumes "sched_inv root s R" "sleep_inv z s xs" "distinct ks"
  shows "\<exists>z' s' R' xs'. foldM (expire_one now) ks (n, z, s) = Some (n + length (filter (expired now z) ks), z', s')
    \<and> sched_inv root s' R' \<and> sleep_inv z' s' xs'
    \<and> (\<forall>k. sleep_table z' k = (if k \<in> set ks \<and> expired now z k then None else sleep_table z k))
    \<and> (\<forall>t. t_state s' t = (if wakes now z (set ks) t then Ready else t_state s t))"
  using assms
proof (induction ks arbitrary: n z s R xs)
  case Nil
  have "\<forall>t. \<not> wakes now z (set []) t" by (simp add: wakes_def)
  then show ?case using Nil by auto
next
  case (Cons k ks)
  show ?case
  proof (cases "expired now z k")
    case False
    then have "expire_one now k (n, z, s) = Some (n, z, s)"
      by (auto simp: expire_one_def expired_def split: option.splits)
    then have "foldM (expire_one now) (k # ks) (n, z, s) = foldM (expire_one now) ks (n, z, s)" by simp
    moreover have "filter (expired now z) (k # ks) = filter (expired now z) ks" using False by simp
    moreover have "wakes now z (set (k # ks)) = wakes now z (set ks)" using False by (simp add: wakes_insert fun_eq_iff)
    moreover have "j \<in> set (k # ks) \<and> expired now z j \<longleftrightarrow> j \<in> set ks \<and> expired now z j" for j using False by auto
    moreover have "distinct ks" using Cons.prems(3) by simp
    ultimately show ?thesis using Cons.IH [OF Cons.prems(1,2), of n] by simp
  next
    case True
    then obtain e where e: "sleep_table z k = Some e" "deadline_tick e \<le> now" by (auto simp: expired_def split: option.splits)
    obtain q' s1 R1 where s1: "expire_one now k (n, z, s)
        = Some (n + 1, z\<lparr>sleep_queue := q', sleep_table := (sleep_table z)(k := None)\<rparr>, s1)"
      "sched_inv root s1 R1" "sleep_inv (z\<lparr>sleep_queue := q', sleep_table := (sleep_table z)(k := None)\<rparr>) s1 (remove1 (se_thread e) xs)"
      "t_state s1 = (t_state s)(se_thread e := Ready)"
      using expire_one_ok [OF Cons.prems(1,2) e, of n] by blast
    let ?z = "z\<lparr>sleep_queue := q', sleep_table := (sleep_table z)(k := None)\<rparr>"
    have nk: "k \<notin> set ks" using Cons.prems(3) by simp
    have ex: "expired now ?z j = expired now z j" "sleep_table ?z j = sleep_table z j" if "j \<in> set ks" for j
      using that nk by (auto simp: expired_def)
    then have f: "filter (expired now ?z) ks = filter (expired now z) ks" by (auto intro!: filter_cong)
    obtain z' s' R' xs' where r: "foldM (expire_one now) ks (n + 1, ?z, s1) = Some (n + 1 + length (filter (expired now ?z) ks), z', s')"
      "sched_inv root s' R'" "sleep_inv z' s' xs'"
      "\<forall>j. sleep_table z' j = (if j \<in> set ks \<and> expired now ?z j then None else sleep_table ?z j)"
      "\<forall>t. t_state s' t = (if wakes now ?z (set ks) t then Ready else t_state s1 t)"
      using Cons.IH [OF s1(2,3), of "n + 1"] Cons.prems(3) by (metis distinct.simps(2))
    have t1: "wakes now ?z (set ks) t \<longleftrightarrow> wakes now z (set ks) t" for t
      unfolding wakes_def by (rule bex_cong [OF refl]) (simp only: ex)
    have "\<forall>j. sleep_table z' j = (if j \<in> set (k # ks) \<and> expired now z j then None else sleep_table z j)"
      using r(4) ex True by auto
    moreover have "\<forall>t. t_state s' t = (if wakes now z (set (k # ks)) t then Ready else t_state s t)"
      using r(5) s1(4) True e(1) by (simp add: t1 wakes_insert)
    moreover have "foldM (expire_one now) (k # ks) (n, z, s) = Some (n + length (filter (expired now z) (k # ks)), z', s')"
      using s1(1) r(1) f True by simp
    ultimately show ?thesis using r(2,3) by blast
  qed
qed

text \<open>C28: the timer wakes exactly the sleepers whose deadline has come. At tick \<open>now\<close> the sweep returns
  without a panic, its count is the number of table entries with a deadline at or before \<open>now\<close>, exactly
  these entries are cleared and exactly their threads become ready, no other thread changes state, and a
  sleep of \<open>ms\<close> milliseconds that began at tick \<open>t0\<close> is never among them before
  \<open>t0\<close> plus \<open>ms / 10\<close> rounded up (when that tick number exists at all).\<close>

theorem sleepers_wake_on_time:
  assumes "sched_inv root s R" "sleep_inv z s xs"
  shows "\<exists>z' s' R' xs'. expire_sleepers_locked now z s
        = Some (length (filter (expired now z) [0..<MAX_SLEEP_ENTRIES]), z', s')
    \<and> sched_inv root s' R' \<and> sleep_inv z' s' xs'
    \<and> (\<forall>k<MAX_SLEEP_ENTRIES. sleep_table z' k = (if expired now z k then None else sleep_table z k))
    \<and> (\<forall>t. t_state s' t = (if \<exists>k<MAX_SLEEP_ENTRIES. expired now z k \<and> map_option se_thread (sleep_table z k) = Some t
                            then Ready else t_state s t))
    \<and> (\<forall>k e t0 ms. sleep_table z k = Some e \<and> deadline_tick e = sleep_deadline t0 ms \<and> t0 + duration_ticks ms \<le> U64_MAX
          \<and> expired now z k \<longrightarrow> 10 * (now - t0) \<ge> ms)"
proof -
  obtain z' s' R' xs' where f: "foldM (expire_one now) [0..<16] (0, z, s) = Some (0 + length (filter (expired now z) [0..<16]), z', s')"
    "sched_inv root s' R'" "sleep_inv z' s' xs'"
    "\<forall>k. sleep_table z' k = (if k \<in> set [0..<16] \<and> expired now z k then None else sleep_table z k)"
    "\<forall>t. t_state s' t = (if wakes now z (set [0..<16]) t then Ready else t_state s t)"
    using expire_fold [OF assms, of "[0..<16]" now 0] by (metis distinct_upt)
  have 1: "expire_sleepers_locked now z s = Some (length (filter (expired now z) [0..<MAX_SLEEP_ENTRIES]), z', s')"
    using f(1) by (simp add: expire_sleepers_locked_def)
  have 2: "\<forall>k<MAX_SLEEP_ENTRIES. sleep_table z' k = (if expired now z k then None else sleep_table z k)" using f(4) by simp
  have "wakes now z (set [0..<16]) t \<longleftrightarrow> (\<exists>k<MAX_SLEEP_ENTRIES. expired now z k \<and> map_option se_thread (sleep_table z k) = Some t)" for t
    unfolding wakes_def MAX_SLEEP_ENTRIES_def by (simp only: set_upt atLeastLessThan_iff Bex_def) simp
  with f(5) have 3: "\<forall>t. t_state s' t = (if \<exists>k<MAX_SLEEP_ENTRIES. expired now z k \<and> map_option se_thread (sleep_table z k) = Some t
                            then Ready else t_state s t)" by presburger
  have 4: "10 * (now - t0) \<ge> ms"
    if "sleep_table z k = Some e \<and> deadline_tick e = sleep_deadline t0 ms \<and> t0 + duration_ticks ms \<le> U64_MAX \<and> expired now z k"
    for k e t0 ms
  proof -
    have "t0 + duration_ticks ms \<le> now" using that by (auto simp: expired_def sleep_deadline_def)
    moreover have "ms \<le> 10 * duration_ticks ms" by (simp add: duration_ticks_def) presburger
    ultimately show ?thesis by linarith
  qed
  show ?thesis by (intro exI conjI allI impI) (rule 1 f(2) f(3) 2 [rule_format] 3 [rule_format] 4 | assumption)+
qed

section \<open>Concrete instances\<close>




theorem mutex_id_zero_witness:
  "\<exists>m' A'. mutex_lock demo_root_of 0 new_mutex (\<lambda>_. None) demo_sched = Some (Passed, m', A', demo_sched) \<and> \<not> mutex_is_locked m'"
proof -
  have "t_id demo_sched (current_thread demo_sched) = 0" "m_owner new_mutex = 0" by (simp_all add: demo_sched_def new_mutex_def)
  from mutex_id_zero [OF this, of demo_root_of 0] show ?thesis by blast
qed

theorem event_signal_exact_witness:
  "\<exists>e' s'. event_signal_locked \<lparr>signaled = False, event_type = AutoReset, e_waiters = \<lparr>q_head = Some 3, q_tail = Some 3, q_count = 1\<rparr>\<rparr> demo_sched
     = Some (e', s') \<and> t_state s' 3 = Ready \<and> \<not> signaled e'"
proof -
  let ?e = "\<lparr>signaled = False, event_type = AutoReset, e_waiters = \<lparr>q_head = Some 3, q_tail = Some 3, q_count = 1\<rparr>\<rparr>"
  have "waiting demo_sched (e_waiters ?e) [3]" by (simp add: waiting_def queue_rep_def demo_sched_def)
  from event_signal_exact [OF demo_sched_inv this] show ?thesis by auto
qed

definition demo_sleep :: sleep_state where
  "demo_sleep = \<lparr>sleep_table = (\<lambda>_. None)(2 := Some \<lparr>se_thread = 3, deadline_tick = 6\<rparr>),
        sleep_queue = \<lparr>q_head = Some 3, q_tail = Some 3, q_count = 1\<rparr>\<rparr>"

theorem sleepers_wake_on_time_witness:
  "\<exists>z' s'. expire_sleepers_locked 7 demo_sleep demo_sched = Some (1, z', s') \<and> t_state s' 3 = Ready"
proof -
  have i: "sleep_inv demo_sleep demo_sched [3]"
    by (auto simp: sleep_inv_def waiting_def queue_rep_def demo_sched_def demo_sleep_def split: if_splits)
  have ex: "expired 7 demo_sleep = (\<lambda>k. k = 2)" by (auto simp: expired_def demo_sleep_def fun_eq_iff)
  have l: "length (filter (expired 7 demo_sleep) [0..<MAX_SLEEP_ENTRIES]) = 1" unfolding ex by (simp add: upt_rec)
  have x: "\<exists>k<MAX_SLEEP_ENTRIES. expired 7 demo_sleep k \<and> map_option se_thread (sleep_table demo_sleep k) = Some 3"
    by (rule exI [of _ 2]) (simp add: ex, simp add: demo_sleep_def)
  obtain z' s' where "expire_sleepers_locked 7 demo_sleep demo_sched
      = Some (length (filter (expired 7 demo_sleep) [0..<MAX_SLEEP_ENTRIES]), z', s')"
    "\<forall>t. t_state s' t = (if \<exists>k<MAX_SLEEP_ENTRIES. expired 7 demo_sleep k \<and> map_option se_thread (sleep_table demo_sleep k) = Some t
        then Ready else t_state demo_sched t)"
    using sleepers_wake_on_time [OF demo_sched_inv i, of 7] by blast
  then show ?thesis using l x by metis
qed

end
