(* ===== verification/Channel.thy ===== *)
theory Channel
  imports CapProps Sync
begin

text \<open>
  \<open>kernel/src/ipc/channel.rs\<close> and the message type of \<open>kernel/src/ipc/types.rs\<close>: bidirectional channels
  with a four-message ring per direction. The state extends the capability state with the channel pool,
  the per-thread operation records and the scheduler, whose current thread is the caller. An operation that
  blocks returns \<open>Waits\<close> after the context switch; \<open>_resumed\<close> is what the code does when the
  thread runs again. \<open>None\<close> is a panic.
\<close>

section \<open>Messages\<close>

record IpcMessage =
  tag :: u64
  payload_len :: nat
  handles_count :: nat
  payload :: "u8 list"
  msg_handles :: "u32 list"

definition empty_message :: IpcMessage where
  "empty_message = \<lparr>tag = 0, payload_len = 0, handles_count = 0, payload = replicate 48 0, msg_handles = replicate 4 0\<rparr>"

definition message_new :: "u64 \<Rightarrow> u8 list \<Rightarrow> IpcError + IpcMessage" where
  "message_new t data =
     (if length data > 48 then Err BadMessageSize
      else Ok (empty_message\<lparr>tag := t, payload_len := length data, payload := data @ replicate (48 - length data) 0\<rparr>))"

definition message_with_handles :: "u64 \<Rightarrow> u8 list \<Rightarrow> u32 list \<Rightarrow> IpcError + IpcMessage" where
  "message_with_handles t data hs =
     (if length data > 48 \<or> length hs > 4 then Err BadMessageSize
      else case message_new t data of
             Inl e \<Rightarrow> Err e
           | Inr msg \<Rightarrow> Ok (msg\<lparr>handles_count := length hs, msg_handles := hs @ replicate (4 - length hs) 0\<rparr>))"

definition to_le_bytes :: "u64 \<Rightarrow> u8 list" where
  "to_le_bytes w = map (\<lambda>b. ucast (drop_bit (8 * b) w)) [0..<8]"

text \<open>\<open>words\<close> is an array of six, so the 48 bytes written cover the whole payload.\<close>

definition from_words :: "u64 \<Rightarrow> u64 list \<Rightarrow> IpcMessage" where
  "from_words t words = empty_message\<lparr>tag := t, payload_len := 48, payload := concat (map to_le_bytes words)\<rparr>"

section \<open>The ring\<close>

definition CHANNEL_RING_CAPACITY :: nat where [simp]: "CHANNEL_RING_CAPACITY = 4"
definition MAX_CHANNELS :: nat where [simp]: "MAX_CHANNELS = 32"

record ChannelRing =
  buffer :: "IpcMessage list"
  r_head :: nat
  r_tail :: nat
  r_count :: nat

definition empty_ring :: ChannelRing where
  "empty_ring = \<lparr>buffer = replicate 4 empty_message, r_head = 0, r_tail = 0, r_count = 0\<rparr>"

definition ring_is_empty :: "ChannelRing \<Rightarrow> bool" where
  "ring_is_empty r \<longleftrightarrow> r_count r = 0"

definition ring_is_full :: "ChannelRing \<Rightarrow> bool" where
  "ring_is_full r \<longleftrightarrow> r_count r = CHANNEL_RING_CAPACITY"

definition ring_push :: "IpcMessage \<Rightarrow> ChannelRing \<Rightarrow> (bool \<times> ChannelRing) option" where
  "ring_push msg r =
     (if ring_is_full r then Some (False, r)
      else if r_tail r < length (buffer r)
      then Some (True, r\<lparr>buffer := (buffer r)[r_tail r := msg], r_tail := (r_tail r + 1) mod CHANNEL_RING_CAPACITY,
                         r_count := r_count r + 1\<rparr>)
      else None)"

definition ring_pop :: "ChannelRing \<Rightarrow> (IpcMessage option \<times> ChannelRing) option" where
  "ring_pop r =
     (if ring_is_empty r then Some (None, r)
      else if r_head r < length (buffer r)
      then Some (Some (buffer r ! r_head r), r\<lparr>r_head := (r_head r + 1) mod CHANNEL_RING_CAPACITY, r_count := r_count r - 1\<rparr>)
      else None)"

section \<open>Channels and the kernel state\<close>

record ChannelEndpointData =
  is_closed :: bool
  peer_closed :: bool
  ep_handle_refs :: nat
  waiters_rx :: queue
  waiters_tx :: queue

definition empty_endpoint :: ChannelEndpointData where
  "empty_endpoint = \<lparr>is_closed = False, peer_closed = False, ep_handle_refs = 0, waiters_rx = new_queue, waiters_tx = new_queue\<rparr>"

record Channel =
  ring_0_to_1 :: ChannelRing
  ring_1_to_0 :: ChannelRing
  endpoint_0 :: ChannelEndpointData
  endpoint_1 :: ChannelEndpointData

definition empty_channel :: Channel where
  "empty_channel = \<lparr>ring_0_to_1 = empty_ring, ring_1_to_0 = empty_ring, endpoint_0 = empty_endpoint, endpoint_1 = empty_endpoint\<rparr>"

record ThreadIpcState =
  ipc_occupied :: bool
  ipc_object :: nat

record chan_state = caps_state +
  channels :: "nat \<Rightarrow> Channel"
  thread_ipc :: "nat \<Rightarrow> ThreadIpcState"
  sch :: sched

text \<open>The caller: \<open>current_thread_from_gs\<close> and its process.\<close>

definition cur_pid :: "'a chan_state_scheme \<Rightarrow> nat" where
  "cur_pid s = t_process (sch s) (current_thread (sch s))"

text \<open>The endpoint selection the code repeats: \<open>(my_ep, peer_ep)\<close> and the rings by direction.\<close>

definition my_ep :: "nat \<Rightarrow> Channel \<Rightarrow> ChannelEndpointData" where
  "my_ep e ch = (if e = 0 then endpoint_0 ch else endpoint_1 ch)"

definition peer_ep :: "nat \<Rightarrow> Channel \<Rightarrow> ChannelEndpointData" where
  "peer_ep e ch = (if e = 0 then endpoint_1 ch else endpoint_0 ch)"

definition set_my_ep :: "nat \<Rightarrow> ChannelEndpointData \<Rightarrow> Channel \<Rightarrow> Channel" where
  "set_my_ep e d ch = (if e = 0 then ch\<lparr>endpoint_0 := d\<rparr> else ch\<lparr>endpoint_1 := d\<rparr>)"

definition set_peer_ep :: "nat \<Rightarrow> ChannelEndpointData \<Rightarrow> Channel \<Rightarrow> Channel" where
  "set_peer_ep e d ch = (if e = 0 then ch\<lparr>endpoint_1 := d\<rparr> else ch\<lparr>endpoint_0 := d\<rparr>)"

definition tx_ring :: "nat \<Rightarrow> Channel \<Rightarrow> ChannelRing" where
  "tx_ring e ch = (if e = 0 then ring_0_to_1 ch else ring_1_to_0 ch)"

definition set_tx_ring :: "nat \<Rightarrow> ChannelRing \<Rightarrow> Channel \<Rightarrow> Channel" where
  "set_tx_ring e r ch = (if e = 0 then ch\<lparr>ring_0_to_1 := r\<rparr> else ch\<lparr>ring_1_to_0 := r\<rparr>)"

definition rx_ring :: "nat \<Rightarrow> Channel \<Rightarrow> ChannelRing" where
  "rx_ring e ch = (if e = 0 then ring_1_to_0 ch else ring_0_to_1 ch)"

definition set_rx_ring :: "nat \<Rightarrow> ChannelRing \<Rightarrow> Channel \<Rightarrow> Channel" where
  "set_rx_ring e r ch = (if e = 0 then ch\<lparr>ring_1_to_0 := r\<rparr> else ch\<lparr>ring_0_to_1 := r\<rparr>)"

definition set_channel :: "nat \<Rightarrow> Channel \<Rightarrow> 'a chan_state_scheme \<Rightarrow> 'a chan_state_scheme" where
  "set_channel i ch s = s\<lparr>channels := (channels s)(i := ch)\<rparr>"

section \<open>Reclamation\<close>

definition check_and_reclaim_channel_locked :: "nat \<Rightarrow> 'a chan_state_scheme \<Rightarrow> 'a chan_state_scheme option" where
  "check_and_reclaim_channel_locked obj s =
     (if \<not> obj < MAX_KERNEL_OBJECTS then None
      else if \<not> o_occupied (objects s obj) \<or> obj_type (objects s obj) \<noteq> ChannelObject then Some s
      else
        let ci = pool_index (objects s obj); ch = channels s ci in
        if \<not> ci < MAX_CHANNELS then None
        else if ref_count (header (objects s obj)) = 0
          \<and> queue_is_empty (waiters_rx (endpoint_0 ch)) \<and> queue_is_empty (waiters_tx (endpoint_0 ch))
          \<and> queue_is_empty (waiters_rx (endpoint_1 ch)) \<and> queue_is_empty (waiters_tx (endpoint_1 ch))
        then free_object_slot_locked obj
               (set_channel ci empty_channel (update_header obj (\<lambda>h. h\<lparr>lifecycle := Reclaiming\<rparr>) s))
        else Some s)"

definition release_in_flight_pin_locked :: "nat \<Rightarrow> nat \<Rightarrow> 'a chan_state_scheme \<Rightarrow> 'a chan_state_scheme option" where
  "release_in_flight_pin_locked th obj s =
     (if \<not> th < MAX_THREADS then None
      else if ipc_occupied (thread_ipc s th)
      then if \<not> obj < MAX_KERNEL_OBJECTS then None
           else check_and_reclaim_channel_locked obj
                  (update_header obj (\<lambda>h. h\<lparr>in_flight_op_refs := in_flight_op_refs h - 1\<rparr>)
                    (s\<lparr>thread_ipc := (thread_ipc s)(th := (thread_ipc s th)\<lparr>ipc_occupied := False\<rparr>)\<rparr>))
      else Some s)"

section \<open>Creation\<close>

definition channel_rights :: u16 where
  "channel_rights = READ OR WRITE OR TRANSFER OR DUPLICATE OR SIGNAL OR WAIT OR CHANNEL_SEND OR CHANNEL_RECEIVE
     OR CAP_DUPLICATE OR CAP_TRANSFER OR CAP_REVOKE OR CAP_CLOSE OR CAP_INSPECT OR CAP_AUDIT"

definition channel_in_use :: "nat \<Rightarrow> 'a chan_state_scheme \<Rightarrow> bool" where
  "channel_in_use i s \<longleftrightarrow> list_ex (\<lambda>k. o_occupied (objects s k) \<and> obj_type (objects s k) = ChannelObject
       \<and> pool_index (objects s k) = i) [0..<MAX_KERNEL_OBJECTS]"

definition channel_is_free :: "'a chan_state_scheme \<Rightarrow> nat \<Rightarrow> bool" where
  "channel_is_free s i \<longleftrightarrow>
     (let ch = channels s i in
      ep_handle_refs (endpoint_0 ch) = 0 \<and> ep_handle_refs (endpoint_1 ch) = 0 \<and> \<not> is_closed (endpoint_0 ch)
      \<and> \<not> is_closed (endpoint_1 ch) \<and> \<not> channel_in_use i s)"

definition channel_create :: "'a chan_state_scheme \<Rightarrow> ((IpcError + Handle \<times> Handle) \<times> 'a chan_state_scheme) option" where
  "channel_create s =
     (case resolve_current_process_slot (cur_pid s) s of
        Inl e \<Rightarrow> Some (Err e, s)
      | Inr ps \<Rightarrow>
          case find (channel_is_free s) [0..<MAX_CHANNELS] of
            None \<Rightarrow> Some (Err ChannelTableFull, s)
          | Some ci \<Rightarrow>
              case allocate_object_slot_locked ChannelObject ci (cur_pid s) s of
                (Inl e, s) \<Rightarrow> Some (Err e, s)
              | (Inr obj, s) \<Rightarrow>
                  let s = set_channel ci (empty_channel\<lparr>endpoint_0 := empty_endpoint\<lparr>ep_handle_refs := 1\<rparr>,
                            endpoint_1 := empty_endpoint\<lparr>ep_handle_refs := 1\<rparr>\<rparr>) s
                  in case allocate_handle_entry_locked ps obj channel_rights 0 s of
                       None \<Rightarrow> None
                     | Some (Inl e, s) \<Rightarrow> map_option (\<lambda>s. (Err e, s)) (free_object_slot_locked obj s)
                     | Some (Inr h0, s) \<Rightarrow>
                         (case allocate_handle_entry_locked ps obj channel_rights 1 s of
                            None \<Rightarrow> None
                          | Some (Inl e, s) \<Rightarrow>
                              (case close_handle_locked ps h0 s of
                                 None \<Rightarrow> None
                               | Some (_, s) \<Rightarrow> map_option (\<lambda>s. (Err e, s)) (free_object_slot_locked obj s))
                          | Some (Inr h1, s) \<Rightarrow> Some (Ok (h0, h1), s)))"

section \<open>Sending and receiving\<close>

text \<open>\<open>Waits\<close> carries what the loop keeps across the switch: the thread, object, channel and endpoint.\<close>

datatype 'a outcome = Done "IpcError + 'a" | Waits tid nat nat nat

definition finish :: "tid \<Rightarrow> nat \<Rightarrow> (IpcError + 'b) \<Rightarrow> 'a chan_state_scheme \<Rightarrow> ('b outcome \<times> 'a chan_state_scheme) option" where
  "finish th obj r s = map_option (\<lambda>s. (Done r, s)) (release_in_flight_pin_locked th obj s)"

text \<open>Handle validation and the in-flight pin, the same in both operations but for the rights.\<close>

definition pin_operation :: "u16 \<Rightarrow> Handle \<Rightarrow> 'a chan_state_scheme
    \<Rightarrow> ((IpcError + nat \<times> nat \<times> nat) \<times> 'a chan_state_scheme) option" where
  "pin_operation allowed h s =
     (case resolve_current_process_slot (cur_pid s) s of
        Inl e \<Rightarrow> Some (Err e, s)
      | Inr ps \<Rightarrow>
          if \<not> current_thread (sch s) < MAX_THREADS then None
          else case validate_handle_locked ps h 0 s of
            None \<Rightarrow> None
          | Some (Inl e) \<Rightarrow> Some (Err e, s)
          | Some (Inr (obj, e, r)) \<Rightarrow>
              let th = current_thread (sch s); ci = pool_index (objects s obj) in
              if r AND allowed = 0 then Some (Err PermissionDenied, s)
              else if obj_type (objects s obj) \<noteq> ChannelObject \<or> \<not> ci < MAX_CHANNELS then None
              else if ipc_occupied (thread_ipc s th) then Some (Err ConcurrentOperation, s)
              else if in_flight_op_refs (header (objects s obj)) + 1 \<le> U16_MAX
              then Some (Ok (obj, ci, e),
                     update_header obj (\<lambda>h. h\<lparr>in_flight_op_refs := in_flight_op_refs h + 1\<rparr>)
                       (s\<lparr>thread_ipc := (thread_ipc s)(th := \<lparr>ipc_occupied = True, ipc_object = obj\<rparr>)\<rparr>))
              else None)"

definition wake_from :: "queue \<Rightarrow> 'a chan_state_scheme \<Rightarrow> (queue \<times> 'a chan_state_scheme) option" where
  "wake_from q s = map_option (\<lambda>(_, q, sc). (q, s\<lparr>sch := sc\<rparr>)) (wake_one q (sch s))"

definition block_on :: "address_spaces \<Rightarrow> queue \<Rightarrow> 'a chan_state_scheme \<Rightarrow> (queue \<times> 'a chan_state_scheme) option" where
  "block_on root q s = map_option (\<lambda>(q, sc). (q, s\<lparr>sch := sc\<rparr>)) (block_current root q (sch s))"

text \<open>One iteration of each loop.\<close>

definition send_step :: "address_spaces \<Rightarrow> IpcMessage \<Rightarrow> bool \<Rightarrow> tid \<Rightarrow> nat \<Rightarrow> nat \<Rightarrow> nat \<Rightarrow> 'a chan_state_scheme
    \<Rightarrow> (unit outcome \<times> 'a chan_state_scheme) option" where
  "send_step root msg blocking th obj ci e s =
     (let ch = channels s ci; me = my_ep e ch; peer = peer_ep e ch in
      if is_closed me then finish th obj (Err EndpointClosed) s
      else if peer_closed me \<or> is_closed peer then finish th obj (Err PeerClosedErr) s
      else do {
        (pushed, r) \<leftarrow> ring_push msg (tx_ring e ch);
        if pushed then do {
          (q, s) \<leftarrow> wake_from (waiters_rx peer) s;
          finish th obj (Ok ()) (set_channel ci (set_peer_ep e (peer\<lparr>waiters_rx := q\<rparr>) (set_tx_ring e r ch)) s)
        }
        else if \<not> blocking then finish th obj (Err WouldBlock) s
        else do {
          (q, s) \<leftarrow> block_on root (waiters_tx me) s;
          Some (Waits th obj ci e, set_channel ci (set_my_ep e (me\<lparr>waiters_tx := q\<rparr>) ch) s)
        }
      })"

definition channel_send :: "address_spaces \<Rightarrow> Handle \<Rightarrow> IpcMessage \<Rightarrow> bool \<Rightarrow> 'a chan_state_scheme
    \<Rightarrow> (unit outcome \<times> 'a chan_state_scheme) option" where
  "channel_send root h msg blocking s = do {
     (r, s') \<leftarrow> pin_operation (WRITE OR CHANNEL_SEND) h s;
     case r of
       Inl e \<Rightarrow> Some (Done (Err e), s')
     | Inr (obj, ci, e) \<Rightarrow> send_step root msg blocking (current_thread (sch s)) obj ci e s'
   }"

definition channel_send_resumed :: "address_spaces \<Rightarrow> IpcMessage \<Rightarrow> tid \<Rightarrow> nat \<Rightarrow> nat \<Rightarrow> nat \<Rightarrow> 'a chan_state_scheme
    \<Rightarrow> (unit outcome \<times> 'a chan_state_scheme) option" where
  "channel_send_resumed root msg th obj ci e s =
     (let me = my_ep e (channels s ci); peer = peer_ep e (channels s ci) in
      if is_closed me then finish th obj (Err EndpointClosed) s
      else if peer_closed me \<or> is_closed peer then finish th obj (Err PeerClosedErr) s
      else send_step root msg True th obj ci e s)"

definition receive_step :: "address_spaces \<Rightarrow> bool \<Rightarrow> tid \<Rightarrow> nat \<Rightarrow> nat \<Rightarrow> nat \<Rightarrow> 'a chan_state_scheme
    \<Rightarrow> (IpcMessage outcome \<times> 'a chan_state_scheme) option" where
  "receive_step root blocking th obj ci e s =
     (let ch = channels s ci; me = my_ep e ch; peer = peer_ep e ch in do {
        (m, r) \<leftarrow> ring_pop (rx_ring e ch);
        case m of
          Some msg \<Rightarrow> do {
            (q, s) \<leftarrow> wake_from (waiters_tx peer) s;
            finish th obj (Ok msg) (set_channel ci (set_peer_ep e (peer\<lparr>waiters_tx := q\<rparr>) (set_rx_ring e r ch)) s)
          }
        | None \<Rightarrow>
            if is_closed me then finish th obj (Err EndpointClosed) s
            else if peer_closed me \<or> is_closed peer then finish th obj (Err PeerClosedErr) s
            else if \<not> blocking then finish th obj (Err WouldBlock) s
            else do {
              (q, s) \<leftarrow> block_on root (waiters_rx me) s;
              Some (Waits th obj ci e, set_channel ci (set_my_ep e (me\<lparr>waiters_rx := q\<rparr>) ch) s)
            }
      })"

definition channel_receive :: "address_spaces \<Rightarrow> Handle \<Rightarrow> bool \<Rightarrow> 'a chan_state_scheme
    \<Rightarrow> (IpcMessage outcome \<times> 'a chan_state_scheme) option" where
  "channel_receive root h blocking s = do {
     (r, s') \<leftarrow> pin_operation (READ OR CHANNEL_RECEIVE) h s;
     case r of
       Inl e \<Rightarrow> Some (Done (Err e), s')
     | Inr (obj, ci, e) \<Rightarrow> receive_step root blocking (current_thread (sch s)) obj ci e s'
   }"

definition channel_receive_resumed :: "address_spaces \<Rightarrow> tid \<Rightarrow> nat \<Rightarrow> nat \<Rightarrow> nat \<Rightarrow> 'a chan_state_scheme
    \<Rightarrow> (IpcMessage outcome \<times> 'a chan_state_scheme) option" where
  "channel_receive_resumed root th obj ci e s =
     (let ch = channels s ci; me = my_ep e ch; peer = peer_ep e ch in
      if is_closed me then finish th obj (Err EndpointClosed) s
      else if (peer_closed me \<or> is_closed peer) \<and> ring_is_empty (rx_ring e ch) then finish th obj (Err PeerClosedErr) s
      else receive_step root True th obj ci e s)"

section \<open>Closing\<close>

definition drain_waiters :: "queue \<Rightarrow> 'a chan_state_scheme \<Rightarrow> (queue \<times> 'a chan_state_scheme) option" where
  "drain_waiters q s = map_option (\<lambda>(_, q, sc). (q, s\<lparr>sch := sc\<rparr>)) (wake_all q (sch s))"

text \<open>The last-handle path: both endpoints are marked and the four queues are drained in the code's order.\<close>

definition close_endpoint :: "nat \<Rightarrow> nat \<Rightarrow> nat \<Rightarrow> 'a chan_state_scheme \<Rightarrow> 'a chan_state_scheme option" where
  "close_endpoint obj ci e s = (let ch = channels s ci; me = my_ep e ch; peer = peer_ep e ch in do {
     let s = update_header obj (\<lambda>h. h\<lparr>signals := signals h OR PEER_CLOSED\<rparr>) s;
     (q1, s) \<leftarrow> drain_waiters (waiters_rx me) s;
     (q2, s) \<leftarrow> drain_waiters (waiters_tx me) s;
     (q3, s) \<leftarrow> drain_waiters (waiters_rx peer) s;
     (q4, s) \<leftarrow> drain_waiters (waiters_tx peer) s;
     Some (set_channel ci
       (set_my_ep e (me\<lparr>is_closed := True, waiters_rx := q1, waiters_tx := q2\<rparr>)
         (set_peer_ep e (peer\<lparr>peer_closed := True, waiters_rx := q3, waiters_tx := q4\<rparr>) ch)) s)
   })"

definition channel_close :: "Handle \<Rightarrow> 'a chan_state_scheme \<Rightarrow> ((IpcError + unit) \<times> 'a chan_state_scheme) option" where
  "channel_close h s =
     (case resolve_current_process_slot (cur_pid s) s of
        Inl e \<Rightarrow> Some (Err e, s)
      | Inr ps \<Rightarrow> do {
          (r, s) \<leftarrow> close_handle_locked ps h s;
          case r of
            Inl e \<Rightarrow> Some (Err e, s)
          | Inr (obj, e) \<Rightarrow>
              let ci = pool_index (objects s obj); ch = channels s ci; me = my_ep e ch;
                  me' = me\<lparr>ep_handle_refs := ep_handle_refs me - 1\<rparr> in
              if \<not> (obj < MAX_KERNEL_OBJECTS \<and> obj_type (objects s obj) = ChannelObject \<and> ci < MAX_CHANNELS) then None
              else do {
                let s = set_channel ci (set_my_ep e me' ch) s;
                s \<leftarrow> (if ep_handle_refs me' = 0 then close_endpoint obj ci e s else Some s);
                s \<leftarrow> check_and_reclaim_channel_locked obj s;
                Some (Ok (), s)
              }
        })"

section \<open>Cancelling the waiters of a process\<close>

partial_function (option) cancel_from :: "nat \<Rightarrow> tid option \<Rightarrow> queue \<Rightarrow> sched \<Rightarrow> (queue \<times> sched) option" where
  "cancel_from pid c q s =
     (case c of
        None \<Rightarrow> Some (q, s)
      | Some t \<Rightarrow> do {
          let nxt = next_waiter s t;
          (q, s) \<leftarrow> (if t_process s t = pid then map_option (\<lambda>(_, q, s). (q, s)) (remove_waiter t q s) else Some (q, s));
          cancel_from pid nxt q s
        })"

definition cancel_waiters_in_queue_locked :: "nat \<Rightarrow> queue \<Rightarrow> sched \<Rightarrow> (queue \<times> sched) option" where
  "cancel_waiters_in_queue_locked pid q s = cancel_from pid (q_head q) q s"

definition cancel_channel :: "nat \<Rightarrow> Channel \<Rightarrow> sched \<Rightarrow> (Channel \<times> sched) option" where
  "cancel_channel pid ch s = do {
     (q1, s) \<leftarrow> cancel_waiters_in_queue_locked pid (waiters_rx (endpoint_0 ch)) s;
     (q2, s) \<leftarrow> cancel_waiters_in_queue_locked pid (waiters_tx (endpoint_0 ch)) s;
     (q3, s) \<leftarrow> cancel_waiters_in_queue_locked pid (waiters_rx (endpoint_1 ch)) s;
     (q4, s) \<leftarrow> cancel_waiters_in_queue_locked pid (waiters_tx (endpoint_1 ch)) s;
     Some (ch\<lparr>endpoint_0 := (endpoint_0 ch)\<lparr>waiters_rx := q1, waiters_tx := q2\<rparr>,
              endpoint_1 := (endpoint_1 ch)\<lparr>waiters_rx := q3, waiters_tx := q4\<rparr>\<rparr>, s)
   }"

primrec cancel_channels :: "nat \<Rightarrow> nat list \<Rightarrow> 'a chan_state_scheme \<Rightarrow> 'a chan_state_scheme option" where
  "cancel_channels pid [] s = Some s"
| "cancel_channels pid (i # is) s = do {
     (ch, sc) \<leftarrow> cancel_channel pid (channels s i) (sch s);
     cancel_channels pid is (set_channel i ch (s\<lparr>sch := sc\<rparr>))
   }"

definition cancel_channel_waiters_for_process_locked :: "nat \<Rightarrow> 'a chan_state_scheme \<Rightarrow> 'a chan_state_scheme option" where
  "cancel_channel_waiters_for_process_locked pid s = cancel_channels pid [0..<MAX_CHANNELS] s"

section \<open>The ring is a bounded queue\<close>

text \<open>The interface a channel relies on: a queue of bounded capacity, read through the list it holds.\<close>

locale bounded_fifo =
  fixes rep :: "'q \<Rightarrow> 'm list \<Rightarrow> bool" and fresh :: 'q and cap :: nat
    and put :: "'m \<Rightarrow> 'q \<Rightarrow> (bool \<times> 'q) option" and take1 :: "'q \<Rightarrow> ('m option \<times> 'q) option"
  assumes fresh_rep: "rep fresh []"
    and rep_cap: "rep q xs \<Longrightarrow> length xs \<le> cap"
    and put_room: "rep q xs \<Longrightarrow> length xs < cap \<Longrightarrow> \<exists>q'. put m q = Some (True, q') \<and> rep q' (xs @ [m])"
    and put_full: "rep q xs \<Longrightarrow> length xs = cap \<Longrightarrow> put m q = Some (False, q)"
    and take_nil: "rep q [] \<Longrightarrow> take1 q = Some (None, q)"
    and take_cons: "rep q (x # xs) \<Longrightarrow> \<exists>q'. take1 q = Some (Some x, q') \<and> rep q' xs"
begin

primrec run :: "'m option list \<Rightarrow> 'q \<Rightarrow> ('m list \<times> 'm list \<times> 'q) option" where
  "run [] q = Some ([], [], q)"
| "run (c # cs) q =
     (case c of
        Some m \<Rightarrow> do { (b, q) \<leftarrow> put m q; (ins, outs, q) \<leftarrow> run cs q; Some (if b then m # ins else ins, outs, q) }
      | None \<Rightarrow> do { (x, q) \<leftarrow> take1 q; (ins, outs, q) \<leftarrow> run cs q; Some (ins, case x of None \<Rightarrow> outs | Some m \<Rightarrow> m # outs, q) })"

lemma run_conserves:
  "rep q xs \<Longrightarrow> \<exists>ins outs q' ys. run cs q = Some (ins, outs, q') \<and> rep q' ys \<and> xs @ ins = outs @ ys"
proof (induction cs arbitrary: q xs)
  case Nil then show ?case by auto
next
  case (Cons c cs)
  show ?case
  proof (cases c)
    case (Some m)
    show ?thesis
    proof (cases "length xs < cap")
      case True
      obtain q1 where q1: "put m q = Some (True, q1)" "rep q1 (xs @ [m])" using put_room [OF Cons.prems True] by blast
      from Cons.IH [OF q1(2)] show ?thesis using q1(1) Some by fastforce
    next
      case False
      then have "put m q = Some (False, q)" using put_full rep_cap Cons.prems by (meson le_neq_implies_less)
      then show ?thesis using Cons.IH [OF Cons.prems] Some by fastforce
    qed
  next
    case None
    show ?thesis
    proof (cases xs)
      case Nil
      then show ?thesis using take_nil Cons.prems Cons.IH [OF Cons.prems] None by fastforce
    next
      case (Cons x xs')
      obtain q1 where q1: "take1 q = Some (Some x, q1)" "rep q1 xs'" using take_cons Cons.prems Cons by blast
      from Cons.IH [OF q1(2)] show ?thesis using q1(1) None Cons by fastforce
    qed
  qed
qed

end

definition ring_rep :: "ChannelRing \<Rightarrow> IpcMessage list \<Rightarrow> bool" where
  "ring_rep r xs \<longleftrightarrow> length (buffer r) = 4 \<and> r_head r < 4 \<and> r_count r = length xs \<and> length xs \<le> 4
     \<and> r_tail r = (r_head r + length xs) mod 4 \<and> (\<forall>i<length xs. buffer r ! ((r_head r + i) mod 4) = xs ! i)"

lemma ring_slot_inj:
  assumes "(h + i) mod 4 = (h + j) mod (4 :: nat)" "i < 4" "j < 4"
  shows "i = j"
proof -
  have "i mod 4 = j mod 4" using assms(1) unfolding nat_mod_eq_iff by (metis add.assoc add_left_cancel)
  then show ?thesis using assms(2,3) by simp
qed

lemma ring_push_rep:
  assumes "ring_rep r xs" "length xs < 4"
  shows "\<exists>r'. ring_push m r = Some (True, r') \<and> ring_rep r' (xs @ [m])"
proof -
  let ?t = "r_tail r"
  have t: "?t = (r_head r + length xs) mod 4" "?t < length (buffer r)" using assms by (simp_all add: ring_rep_def)
  have "(buffer r)[?t := m] ! ((r_head r + i) mod 4) = (xs @ [m]) ! i" if "i < length xs + 1" for i
  proof (cases "i = length xs")
    case True then show ?thesis using t assms by (simp add: ring_rep_def)
  next
    case False
    then have i: "i < length xs" using that by simp
    then have "(r_head r + i) mod 4 \<noteq> ?t" using ring_slot_inj [of "r_head r" i "length xs"] t(1) assms(2) by auto
    then show ?thesis using i assms(1) by (simp add: ring_rep_def nth_append)
  qed
  moreover have "(?t + 1) mod 4 = (r_head r + length (xs @ [m])) mod 4" unfolding t(1) by (simp add: mod_simps)
  ultimately show ?thesis using assms t(2) by (simp add: ring_push_def ring_is_full_def ring_rep_def)
qed

lemma ring_pop_rep:
  assumes "ring_rep r (x # xs)"
  shows "\<exists>r'. ring_pop r = Some (Some x, r') \<and> ring_rep r' xs"
proof -
  have n: "\<forall>i<length (x # xs). buffer r ! ((r_head r + i) mod 4) = (x # xs) ! i" using assms by (simp add: ring_rep_def)
  have "buffer r ! r_head r = x" using n [rule_format, of 0] assms by (simp add: ring_rep_def)
  moreover have "\<forall>i<length xs. buffer r ! (((r_head r + 1) mod 4 + i) mod 4) = xs ! i"
    using n by (auto simp: mod_simps dest: spec [of _ "Suc _"])
  moreover have "r_tail r = ((r_head r + 1) mod 4 + length xs) mod 4" using assms by (simp add: ring_rep_def mod_simps)
  ultimately show ?thesis using assms by (simp add: ring_pop_def ring_is_empty_def ring_rep_def)
qed

lemma ring_push_full: "ring_rep r xs \<Longrightarrow> length xs = 4 \<Longrightarrow> ring_push m r = Some (False, r)"
  by (simp add: ring_rep_def ring_push_def ring_is_full_def)

lemma ring_pop_empty: "ring_rep r [] \<Longrightarrow> ring_pop r = Some (None, r)"
  by (simp add: ring_rep_def ring_pop_def ring_is_empty_def)

lemma ring_rep_empty [simp]: "ring_rep empty_ring []"
  by (simp add: ring_rep_def empty_ring_def)

lemma ring_rep_is_empty: "ring_rep r xs \<Longrightarrow> ring_is_empty r \<longleftrightarrow> xs = []"
  by (simp add: ring_rep_def ring_is_empty_def)

lemma ring_rep_cap: "ring_rep r xs \<Longrightarrow> length xs \<le> 4"
  by (simp add: ring_rep_def)

interpretation ring: bounded_fifo ring_rep empty_ring 4 ring_push ring_pop
  by unfold_locales (fact ring_rep_empty ring_rep_cap ring_push_rep ring_push_full ring_pop_empty ring_pop_rep)+

text \<open>C26: a channel ring neither loses, duplicates, reorders nor invents messages, and never indexes
  out of its buffer. Under any sequence of pushes (\<open>Some m\<close>) and pops (\<open>None\<close>) from the empty ring no
  operation panics, the messages that were accepted are the messages popped followed by those still
  held, in order, and at most four are held.\<close>

theorem ring_fifo:
  "\<exists>ins outs r xs. ring.run cs empty_ring = Some (ins, outs, r) \<and> ring_rep r xs \<and> ins = outs @ xs \<and> r_count r \<le> CHANNEL_RING_CAPACITY"
proof -
  obtain ins outs r xs where r: "ring.run cs empty_ring = Some (ins, outs, r)" "ring_rep r xs" "[] @ ins = outs @ xs"
    using ring.run_conserves [OF ring_rep_empty] by blast
  moreover have "r_count r \<le> CHANNEL_RING_CAPACITY" using r(2) by (simp add: ring_rep_def)
  ultimately show ?thesis by auto
qed

section \<open>Endpoints, waiters and pins\<close>

lemma ep_sel [simp]:
  "e < 2 \<Longrightarrow> peer_ep e ch = my_ep (1 - e) ch" "e < 2 \<Longrightarrow> rx_ring e ch = tx_ring (1 - e) ch"
  "e < 2 \<Longrightarrow> set_peer_ep e d ch = set_my_ep (1 - e) d ch" "e < 2 \<Longrightarrow> set_rx_ring e r ch = set_tx_ring (1 - e) r ch"
  by (auto simp: peer_ep_def my_ep_def rx_ring_def tx_ring_def set_peer_ep_def set_my_ep_def set_rx_ring_def set_tx_ring_def)

lemma ep_upd [simp]:
  "e < 2 \<Longrightarrow> f < 2 \<Longrightarrow> my_ep f (set_my_ep e d ch) = (if f = e then d else my_ep f ch)"
  "e < 2 \<Longrightarrow> f < 2 \<Longrightarrow> tx_ring f (set_tx_ring e r ch) = (if f = e then r else tx_ring f ch)"
  "my_ep f (set_tx_ring e r ch) = my_ep f ch" "tx_ring f (set_my_ep e d ch) = tx_ring f ch"
  by (auto simp: my_ep_def tx_ring_def set_my_ep_def set_tx_ring_def)

text \<open>The four wait queues of a channel: of endpoint \<open>e\<close>, for senders when \<open>b\<close> and receivers otherwise.\<close>

definition wq :: "nat \<Rightarrow> bool \<Rightarrow> Channel \<Rightarrow> queue" where
  "wq e b ch = (if b then waiters_tx (my_ep e ch) else waiters_rx (my_ep e ch))"

definition chan_inv :: "address_spaces \<Rightarrow> 'a chan_state_scheme \<Rightarrow> nat \<Rightarrow> (nat \<Rightarrow> IpcMessage list) \<Rightarrow> (nat \<Rightarrow> bool \<Rightarrow> tid list) \<Rightarrow> bool" where
  "chan_inv root s ci X W \<longleftrightarrow> (\<exists>R. sched_inv root (sch s) R)
     \<and> (\<forall>e<2. ring_rep (tx_ring e (channels s ci)) (X e))
     \<and> (\<forall>e<2. \<forall>b. waiting (sch s) (wq e b (channels s ci)) (W e b))
     \<and> (\<forall>e<2. \<forall>f<2. \<forall>b c. \<not> (e = f \<and> b = c) \<longrightarrow> set (W e b) \<inter> set (W f c) = {})"

lemma enqueue_process: "enqueue t s = Some s' \<Longrightarrow> t_process s' = t_process s"
  by (cases "t_priority s t") (auto simp: enqueue_def)

lemma wake_process:
  assumes "wake_thread_locked t s = Some s'" shows "t_process s' = t_process s"
proof -
  let ?s = "s\<lparr>t_state := (t_state s)(t := Ready)\<rparr>"
  obtain s1 where "enqueue t ?s = Some s1" "s' = s1 \<or> s' = s1\<lparr>need_resched := True\<rparr>"
    using assms unfolding wake_thread_locked_def by (cases "enqueue t ?s") (simp_all split: if_splits)
  then show ?thesis using enqueue_process [of t ?s s1] by auto
qed

lemma pop_process: "pop_highest_locked q s = Some (t, q', s') \<Longrightarrow> t_process s' = t_process s"
  by (auto simp: pop_highest_locked_def)

definition woken_one :: "tid list \<Rightarrow> (tid \<Rightarrow> ThreadState) \<Rightarrow> tid \<Rightarrow> ThreadState" where
  "woken_one xs st = (case xs of [] \<Rightarrow> st | w # _ \<Rightarrow> st(w := Ready))"

lemma wake_one_ok:
  assumes "sched_inv root s R" "waiting s q xs"
  shows "\<exists>q' s' R'. wake_one q s = Some (case xs of [] \<Rightarrow> None | w # _ \<Rightarrow> Some w, q', s') \<and> sched_inv root s' R' \<and> waiting s' q' (tl xs)
    \<and> t_state s' = woken_one xs (t_state s) \<and> t_priority s' = t_priority s \<and> current_thread s' = current_thread s
    \<and> t_process s' = t_process s \<and> (\<forall>t. t \<notin> set xs \<longrightarrow> next_waiter s' t = next_waiter s t)"
proof (cases xs)
  case Nil
  then have "wake_one q s = Some (None, q, s)" using assms(2) by (simp add: wake_one_def pop_waiter_none)
  then show ?thesis using Nil assms by (auto simp: woken_one_def)
next
  case (Cons w ws)
  obtain q' s1 s2 where p: "pop_highest_locked q s = Some (Some w, q', s1)" "wake_thread_locked w s1 = Some s2"
    "sched_inv root s2 (R(t_priority s w := R (t_priority s w) @ [w]))" "waiting s2 q' ws" "t_state s2 = (t_state s)(w := Ready)"
    "next_waiter s2 = (next_waiter s)(w := None)" "t_priority s2 = t_priority s" "current_thread s2 = current_thread s"
    using pop_waiter_some [OF assms(1)] assms(2) unfolding Cons by blast
  have "t_process s2 = t_process s" using wake_process [OF p(2)] pop_process [OF p(1)] by simp
  moreover have "wake_one q s = Some (Some w, q', s2)" using p(1,2) by (simp add: wake_one_def)
  moreover have "\<forall>t. t \<notin> set xs \<longrightarrow> next_waiter s2 t = next_waiter s t" using p(6) Cons by simp
  ultimately show ?thesis using p(3,4,5,7,8) Cons by (auto simp: woken_one_def)
qed

lemma waiting_other:
  assumes "waiting s q xs" "set xs \<inter> set ys = {}" "t_state s' = woken_one ys (t_state s)" "t_priority s' = t_priority s"
    "\<forall>t. t \<notin> set ys \<longrightarrow> next_waiter s' t = next_waiter s t"
  shows "waiting s' q xs"
proof -
  have n: "t \<notin> set ys" if "t \<in> set xs" for t using assms(2) that by auto
  have "queue_rep q (next_waiter s') xs"
    by (rule queue_rep_cong [of q "next_waiter s"]) (use assms(1,5) n in \<open>auto simp: waiting_def\<close>)
  moreover have "t_state s' t = t_state s t" if "t \<in> set xs" for t
    using n [OF that] assms(3) by (cases ys) (auto simp: woken_one_def)
  ultimately show ?thesis using assms(1,4) by (simp add: waiting_def)
qed

text \<open>A pinned operation on a channel object: what the pin adds and the release takes away.\<close>

definition pinned :: "nat \<Rightarrow> 'a chan_state_scheme \<Rightarrow> 'a chan_state_scheme" where
  "pinned obj s = update_header obj (\<lambda>h. h\<lparr>in_flight_op_refs := in_flight_op_refs h + 1\<rparr>)
     (s\<lparr>thread_ipc := (thread_ipc s)(current_thread (sch s) := \<lparr>ipc_occupied = True, ipc_object = obj\<rparr>)\<rparr>)"

definition chan_handle :: "'a chan_state_scheme \<Rightarrow> Handle \<Rightarrow> u16 \<Rightarrow> nat \<Rightarrow> nat \<Rightarrow> nat \<Rightarrow> bool" where
  "chan_handle s h allowed obj ci e \<longleftrightarrow> current_thread (sch s) < MAX_THREADS \<and> e < 2 \<and> ci < MAX_CHANNELS
     \<and> (\<exists>ps r. resolve_current_process_slot (cur_pid s) s = Ok ps \<and> validate_handle_locked ps h 0 s = Some (Ok (obj, e, r)) \<and> r AND allowed \<noteq> 0)
     \<and> obj < MAX_KERNEL_OBJECTS \<and> o_occupied (objects s obj) \<and> obj_type (objects s obj) = ChannelObject \<and> pool_index (objects s obj) = ci
     \<and> handle_refs (header (objects s obj)) > 0 \<and> in_flight_op_refs (header (objects s obj)) < U16_MAX
     \<and> \<not> ipc_occupied (thread_ipc s (current_thread (sch s)))"

lemma pin_ok: "chan_handle s h allowed obj ci e \<Longrightarrow> pin_operation allowed h s = Some (Ok (obj, ci, e), pinned obj s)"
  by (auto simp: chan_handle_def pin_operation_def pinned_def Let_def)

definition unpinned :: "tid \<Rightarrow> nat \<Rightarrow> 'a chan_state_scheme \<Rightarrow> 'a chan_state_scheme" where
  "unpinned th obj s = s\<lparr>thread_ipc := (thread_ipc s)(th := \<lparr>ipc_occupied = False, ipc_object = obj\<rparr>)\<rparr>"

lemma finish_pinned:
  assumes "chan_handle s h allowed obj ci e" "th = current_thread (sch s)"
  shows "finish th obj r ((pinned obj s)\<lparr>sch := sc, channels := ch\<rparr>) = Some (Done r, (unpinned th obj s)\<lparr>sch := sc, channels := ch\<rparr>)"
proof -
  have "ref_count (header (objects s obj)) \<noteq> 0" using assms(1) by (simp add: chan_handle_def ref_count_def)
  then show ?thesis using assms
    by (simp add: chan_handle_def finish_def release_in_flight_pin_locked_def pinned_def unpinned_def update_header_def
        check_and_reclaim_channel_locked_def ref_count_def Let_def fun_upd_idem)
qed

lemma pinned_sel [simp]: "sch (pinned obj s) = sch s" "channels (pinned obj s) = channels s"
  by (simp_all add: pinned_def update_header_def)

lemma unpinned_sel [simp]: "sch (unpinned th obj s) = sch s" "channels (unpinned th obj s) = channels s"
  "objects (unpinned th obj s) = objects s"
  by (simp_all add: unpinned_def)

lemma finish_pinned0:
  assumes "chan_handle s h allowed obj ci e"
  shows "finish (current_thread (sch s)) obj r (pinned obj s) = Some (Done r, unpinned (current_thread (sch s)) obj s)"
proof -
  have c: "(pinned obj s)\<lparr>sch := sch s, channels := channels s\<rparr> = pinned obj s"
    "(unpinned th obj s)\<lparr>sch := sch s, channels := channels s\<rparr> = unpinned th obj s" for th
    by (simp_all add: pinned_def unpinned_def update_header_def)
  show ?thesis using finish_pinned [OF assms refl, where r = r and sc = "sch s" and ch = "channels s"] by (simp only: c)
qed

text \<open>The state after an operation that moved a message: new scheduler and channel, pin released.\<close>

definition moved_msg :: "nat \<Rightarrow> nat \<Rightarrow> Channel \<Rightarrow> sched \<Rightarrow> 'a chan_state_scheme \<Rightarrow> 'a chan_state_scheme" where
  "moved_msg obj ci ch sc s = (unpinned (current_thread (sch s)) obj s)\<lparr>sch := sc, channels := (channels s)(ci := ch)\<rparr>"

text \<open>Both operations end the same way: one ring changes, and the first waiter of one queue is woken.\<close>

definition set_wq :: "nat \<Rightarrow> bool \<Rightarrow> queue \<Rightarrow> Channel \<Rightarrow> Channel" where
  "set_wq f b q ch = set_my_ep f (if b then (my_ep f ch)\<lparr>waiters_tx := q\<rparr> else (my_ep f ch)\<lparr>waiters_rx := q\<rparr>) ch"

lemma wq_set_wq:
  assumes "f < 2" "g < 2"
  shows "wq g c (set_wq f b q (set_tx_ring e r ch)) = (if g = f \<and> c = b then q else wq g c ch)"
  using assms by (cases b; cases c) (simp_all add: wq_def set_wq_def)

lemma tx_set_wq:
  assumes "e < 2" "g < 2"
  shows "tx_ring g (set_wq f b q (set_tx_ring e r ch)) = (if g = e then r else tx_ring g ch)"
  using assms by (simp add: set_wq_def)

lemma chan_invD:
  assumes "chan_inv root s ci X W"
  shows "\<exists>R. sched_inv root (sch s) R" "e < 2 \<Longrightarrow> ring_rep (tx_ring e (channels s ci)) (X e)"
    "e < 2 \<Longrightarrow> waiting (sch s) (wq e b (channels s ci)) (W e b)"
    "e < 2 \<Longrightarrow> f < 2 \<Longrightarrow> \<not> (e = f \<and> b = c) \<Longrightarrow> set (W e b) \<inter> set (W f c) = {}"
proof -
  show "\<exists>R. sched_inv root (sch s) R" using assms by (simp add: chan_inv_def)
  show "e < 2 \<Longrightarrow> ring_rep (tx_ring e (channels s ci)) (X e)" using assms by (simp add: chan_inv_def)
  show "e < 2 \<Longrightarrow> waiting (sch s) (wq e b (channels s ci)) (W e b)" using assms by (simp add: chan_inv_def)
  have "\<forall>e<2. \<forall>f<2. \<forall>b c. \<not> (e = f \<and> b = c) \<longrightarrow> set (W e b) \<inter> set (W f c) = {}"
    using assms unfolding chan_inv_def by (elim conjE)
  then show "e < 2 \<Longrightarrow> f < 2 \<Longrightarrow> \<not> (e = f \<and> b = c) \<Longrightarrow> set (W e b) \<inter> set (W f c) = {}" by (elim allE impE)
qed

lemma chan_invI:
  assumes "sched_inv root (sch s) R" "\<And>e. e < 2 \<Longrightarrow> ring_rep (tx_ring e (channels s ci)) (X e)"
    "\<And>e b. e < 2 \<Longrightarrow> waiting (sch s) (wq e b (channels s ci)) (W e b)"
    "\<And>e f b c. e < 2 \<Longrightarrow> f < 2 \<Longrightarrow> \<not> (e = f \<and> b = c) \<Longrightarrow> set (W e b) \<inter> set (W f c) = {}"
  shows "chan_inv root s ci X W"
  unfolding chan_inv_def by (intro conjI allI impI exI [of _ R]) (fact assms)+

definition dequeued :: "nat \<Rightarrow> bool \<Rightarrow> (nat \<Rightarrow> bool \<Rightarrow> tid list) \<Rightarrow> nat \<Rightarrow> bool \<Rightarrow> tid list" where
  "dequeued f b W g c = (if g = f \<and> c = b then tl (W g c) else W g c)"

lemma dequeued_subset: "set (dequeued f b W g c) \<subseteq> set (W g c)"
  by (simp add: dequeued_def set_tl_subset)

lemma chan_inv_moved:
  assumes inv: "chan_inv root s ci X W" and e: "e < 2" and f: "f < 2" and r: "ring_rep r xs"
  shows "\<exists>t q sc. wake_one (wq f b (channels s ci)) (sch s) = Some (t, q, sc)
    \<and> chan_inv root (moved_msg obj ci (set_wq f b q (set_tx_ring e r (channels s ci))) sc s) ci (X(e := xs)) (dequeued f b W)
    \<and> t_state sc = woken_one (W f b) (t_state (sch s)) \<and> current_thread sc = current_thread (sch s)
    \<and> t_process sc = t_process (sch s)"
proof -
  obtain R where R: "sched_inv root (sch s) R" using chan_invD(1) [OF inv] by blast
  obtain t q sc R' where k: "wake_one (wq f b (channels s ci)) (sch s) = Some (t, q, sc)" "sched_inv root sc R'"
    "waiting sc q (tl (W f b))" "t_state sc = woken_one (W f b) (t_state (sch s))"
    "t_priority sc = t_priority (sch s)" "current_thread sc = current_thread (sch s)" "t_process sc = t_process (sch s)"
    "\<forall>t. t \<notin> set (W f b) \<longrightarrow> next_waiter sc t = next_waiter (sch s) t"
    using wake_one_ok [OF R chan_invD(3) [OF inv f, of b]] by blast
  let ?ch = "set_wq f b q (set_tx_ring e r (channels s ci))"
  let ?s = "moved_msg obj ci ?ch sc s"
  have sel: "channels ?s ci = ?ch" "sch ?s = sc" by (simp_all add: moved_msg_def)
  have "chan_inv root ?s ci (X(e := xs)) (dequeued f b W)"
  proof (rule chan_invI)
    show "sched_inv root (sch ?s) R'" using k(2) sel by simp
    show "ring_rep (tx_ring g (channels ?s ci)) ((X(e := xs)) g)" if g: "g < 2" for g
      using tx_set_wq [OF e g] chan_invD(2) [OF inv g] r sel by simp
    show "waiting (sch ?s) (wq g c (channels ?s ci)) (dequeued f b W g c)" if g: "g < 2" for g c
    proof (cases "g = f \<and> c = b")
      case True then show ?thesis using k(3) wq_set_wq [OF f g] sel by (simp add: dequeued_def)
    next
      case False
      from waiting_other [OF chan_invD(3) [OF inv g] chan_invD(4) [OF inv g f False] k(4,5,8)]
      show ?thesis unfolding sel wq_set_wq [OF f g] dequeued_def if_not_P [OF False] .
    qed
    show "set (dequeued f b W g c) \<inter> set (dequeued f b W g' c') = {}" if "g < 2" "g' < 2" "\<not> (g = g' \<and> c = c')" for g g' c c'
      using chan_invD(4) [OF inv that] dequeued_subset by blast
  qed
  then show ?thesis using k(1,4,6,7) by blast
qed

section \<open>What sending and receiving do\<close>

definition ep_error :: "nat \<Rightarrow> Channel \<Rightarrow> IpcError option" where
  "ep_error e ch = (if is_closed (my_ep e ch) then Some EndpointClosed
     else if peer_closed (my_ep e ch) \<or> is_closed (my_ep (1 - e) ch) then Some PeerClosedErr else None)"

lemma send_spec:
  assumes inv: "chan_inv root s ci X W" and h: "chan_handle s h (WRITE OR CHANNEL_SEND) obj ci e"
  shows "case ep_error e (channels s ci) of
      Some err \<Rightarrow> channel_send root h m b s = Some (Done (Err err), unpinned (current_thread (sch s)) obj s)
    | None \<Rightarrow>
        if length (X e) < 4
        then \<exists>ch sc. channel_send root h m b s = Some (Done (Ok ()), moved_msg obj ci ch sc s)
          \<and> chan_inv root (moved_msg obj ci ch sc s) ci (X(e := X e @ [m])) (dequeued (1 - e) False W)
          \<and> t_state sc = woken_one (W (1 - e) False) (t_state (sch s)) \<and> current_thread sc = current_thread (sch s)
          \<and> t_process sc = t_process (sch s)
        else \<not> b \<longrightarrow> channel_send root h m b s = Some (Done (Err WouldBlock), unpinned (current_thread (sch s)) obj s)"
proof -
  let ?ch = "channels s ci" and ?th = "current_thread (sch s)"
  have e: "e < 2" "1 - e < 2" using h by (simp_all add: chan_handle_def)
  have st: "channel_send root h m b s = send_step root m b ?th obj ci e (pinned obj s)"
    using pin_ok [OF h] by (simp add: channel_send_def)
  note fin = finish_pinned0 [OF h]
  have x: "ring_rep (tx_ring e ?ch) (X e)" using inv e by (simp add: chan_inv_def)
  show ?thesis
  proof (cases "ep_error e ?ch")
    case (Some err)
    then show ?thesis using e by (auto simp: st send_step_def Let_def ep_error_def fin split: if_splits)
  next
    case None
    then have o: "\<not> is_closed (my_ep e ?ch)" "\<not> peer_closed (my_ep e ?ch)" "\<not> is_closed (my_ep (1 - e) ?ch)"
      by (auto simp: ep_error_def split: if_splits)
    show ?thesis
    proof (cases "length (X e) < 4")
      case True
      obtain r where r: "ring_push m (tx_ring e ?ch) = Some (True, r)" "ring_rep r (X e @ [m])" using ring_push_rep [OF x True] by blast
      obtain t q sc where w: "wake_one (wq (1 - e) False ?ch) (sch s) = Some (t, q, sc)"
        "chan_inv root (moved_msg obj ci (set_wq (1 - e) False q (set_tx_ring e r ?ch)) sc s) ci (X(e := X e @ [m])) (dequeued (1 - e) False W)"
        "t_state sc = woken_one (W (1 - e) False) (t_state (sch s))" "current_thread sc = current_thread (sch s)" "t_process sc = t_process (sch s)"
        using chan_inv_moved [OF inv e r(2), of False obj] by blast
      define ch where "ch = set_wq (1 - e) False q (set_tx_ring e r ?ch)"
      have "channel_send root h m b s = finish ?th obj (Ok ()) ((pinned obj s)\<lparr>sch := sc, channels := (channels s)(ci := ch)\<rparr>)"
        using o e r(1) w(1) by (simp add: st send_step_def Let_def wake_from_def wq_def set_channel_def ch_def set_wq_def)
      then have "channel_send root h m b s = Some (Done (Ok ()), moved_msg obj ci ch sc s)"
        using finish_pinned [OF h refl] by (simp add: moved_msg_def)
      then have "\<exists>ch sc. channel_send root h m b s = Some (Done (Ok ()), moved_msg obj ci ch sc s)
          \<and> chan_inv root (moved_msg obj ci ch sc s) ci (X(e := X e @ [m])) (dequeued (1 - e) False W)
          \<and> t_state sc = woken_one (W (1 - e) False) (t_state (sch s)) \<and> current_thread sc = current_thread (sch s)
          \<and> t_process sc = t_process (sch s)" using w(2-5) unfolding ch_def by blast
      then show ?thesis using None True by simp
    next
      case False
      then have "ring_push m (tx_ring e ?ch) = Some (False, tx_ring e ?ch)"
        using x ring_push_full ring_rep_cap [OF x] by simp
      then show ?thesis unfolding st using None False o e by (simp add: send_step_def Let_def fin)
    qed
  qed
qed

lemma receive_spec:
  assumes inv: "chan_inv root s ci X W" and h: "chan_handle s h (READ OR CHANNEL_RECEIVE) obj ci e"
  shows "case X (1 - e) of
      m # ms \<Rightarrow> \<exists>ch sc. channel_receive root h b s = Some (Done (Ok m), moved_msg obj ci ch sc s)
          \<and> chan_inv root (moved_msg obj ci ch sc s) ci (X(1 - e := ms)) (dequeued (1 - e) True W)
          \<and> t_state sc = woken_one (W (1 - e) True) (t_state (sch s)) \<and> current_thread sc = current_thread (sch s)
          \<and> t_process sc = t_process (sch s)
    | [] \<Rightarrow> (case ep_error e (channels s ci) of
          Some err \<Rightarrow> channel_receive root h b s = Some (Done (Err err), unpinned (current_thread (sch s)) obj s)
        | None \<Rightarrow> \<not> b \<longrightarrow> channel_receive root h b s = Some (Done (Err WouldBlock), unpinned (current_thread (sch s)) obj s))"
proof -
  let ?ch = "channels s ci" and ?th = "current_thread (sch s)"
  have e: "e < 2" "1 - e < 2" using h by (simp_all add: chan_handle_def)
  have st: "channel_receive root h b s = receive_step root b ?th obj ci e (pinned obj s)"
    using pin_ok [OF h] by (simp add: channel_receive_def)
  note fin = finish_pinned0 [OF h]
  have x: "ring_rep (tx_ring (1 - e) ?ch) (X (1 - e))" using inv e unfolding chan_inv_def by blast
  show ?thesis
  proof (cases "X (1 - e)")
    case Nil
    then have "ring_pop (tx_ring (1 - e) ?ch) = Some (None, tx_ring (1 - e) ?ch)" using x ring_pop_empty by simp
    then show ?thesis unfolding st using Nil e by (simp add: receive_step_def Let_def ep_error_def fin)
  next
    case (Cons m ms)
    obtain r where r: "ring_pop (tx_ring (1 - e) ?ch) = Some (Some m, r)" "ring_rep r ms" using ring_pop_rep x Cons by metis
    obtain t q sc where w: "wake_one (wq (1 - e) True ?ch) (sch s) = Some (t, q, sc)"
      "chan_inv root (moved_msg obj ci (set_wq (1 - e) True q (set_tx_ring (1 - e) r ?ch)) sc s) ci (X(1 - e := ms)) (dequeued (1 - e) True W)"
      "t_state sc = woken_one (W (1 - e) True) (t_state (sch s))" "current_thread sc = current_thread (sch s)" "t_process sc = t_process (sch s)"
      using chan_inv_moved [OF inv e(2,2) r(2), of True obj] by blast
    define ch where "ch = set_wq (1 - e) True q (set_tx_ring (1 - e) r ?ch)"
    have "channel_receive root h b s = finish ?th obj (Ok m) ((pinned obj s)\<lparr>sch := sc, channels := (channels s)(ci := ch)\<rparr>)"
      using e r(1) w(1) by (simp add: st receive_step_def Let_def wake_from_def wq_def set_channel_def ch_def set_wq_def)
    then have "channel_receive root h b s = Some (Done (Ok m), moved_msg obj ci ch sc s)"
      using finish_pinned [OF h refl] by (simp add: moved_msg_def)
    then have "\<exists>ch sc. channel_receive root h b s = Some (Done (Ok m), moved_msg obj ci ch sc s)
          \<and> chan_inv root (moved_msg obj ci ch sc s) ci (X(1 - e := ms)) (dequeued (1 - e) True W)
          \<and> t_state sc = woken_one (W (1 - e) True) (t_state (sch s)) \<and> current_thread sc = current_thread (sch s)
          \<and> t_process sc = t_process (sch s)" using w(2-5) unfolding ch_def by blast
    then show ?thesis using Cons by simp
  qed
qed

section \<open>Authority is never lost to a channel operation\<close>

lemma caps_inv_header:
  assumes "caps_inv s" "\<And>h. handle_refs (f h) = handle_refs h"
  shows "caps_inv (update_header i f s)"
proof (rule caps_inv_cong [OF assms(1)])
  have "refs_ok (objects s) (entries s)" using assms(1) by (simp add: caps_inv_def)
  then show "refs_ok (objects (update_header i f s)) (entries s)"
    using assms(2) by (auto simp: refs_ok_def update_header_def)
qed (simp_all add: update_header_def)

lemma caps_inv_chan [simp]:
  "caps_inv (s\<lparr>sch := sc\<rparr>) = caps_inv s" "caps_inv (s\<lparr>thread_ipc := T\<rparr>) = caps_inv s"
  "caps_inv (s\<lparr>channels := C\<rparr>) = caps_inv s" "caps_inv (set_channel ci ch s) = caps_inv s"
  by (simp_all add: caps_inv_def set_channel_def)

lemma reclaim_inv:
  assumes "caps_inv s" "check_and_reclaim_channel_locked obj s = Some s'"
  shows "caps_inv s'"
proof -
  let ?s1 = "set_channel (pool_index (objects s obj)) empty_channel (update_header obj (\<lambda>h. h\<lparr>lifecycle := Reclaiming\<rparr>) s)"
  have i: "caps_inv ?s1" using caps_inv_header [OF assms(1)] by simp
  consider "s' = s" | "obj < 256" "o_occupied (objects s obj)" "ref_count (header (objects s obj)) = 0" "free_object_slot_locked obj ?s1 = Some s'"
    using assms(2) by (auto simp: check_and_reclaim_channel_locked_def Let_def split: if_splits)
  then show ?thesis
  proof cases
    case 2
    then have "obj < 256" "o_occupied (objects ?s1 obj)" "handle_refs (header (objects ?s1 obj)) = 0"
      by (simp_all add: set_channel_def update_header_def ref_count_def)
    from free_object_slot_inv [OF i this] show ?thesis using 2(4) by auto
  qed (use assms(1) in simp)
qed

lemma release_pin_inv:
  assumes "caps_inv s" "release_in_flight_pin_locked th obj s = Some s'"
  shows "caps_inv s'"
proof -
  let ?s = "update_header obj (\<lambda>h. h\<lparr>in_flight_op_refs := in_flight_op_refs h - 1\<rparr>)
    (s\<lparr>thread_ipc := (thread_ipc s)(th := (thread_ipc s th)\<lparr>ipc_occupied := False\<rparr>)\<rparr>)"
  have "caps_inv ?s" using assms(1) by (intro caps_inv_header) simp_all
  moreover have "s' = s \<or> check_and_reclaim_channel_locked obj ?s = Some s'"
    using assms(2) unfolding release_in_flight_pin_locked_def by (simp split: if_splits)
  ultimately show ?thesis using reclaim_inv assms(1) by blast
qed

lemma finish_inv: "caps_inv s \<Longrightarrow> finish th obj r s = Some (out, s') \<Longrightarrow> caps_inv s'"
  unfolding finish_def using release_pin_inv by blast

lemma wake_from_inv: "wake_from q s = Some (q', s') \<Longrightarrow> caps_inv s' = caps_inv s"
  by (auto simp: wake_from_def)

lemma block_on_inv: "block_on root q s = Some (q', s') \<Longrightarrow> caps_inv s' = caps_inv s"
  by (auto simp: block_on_def)

lemma send_step_inv:
  assumes "caps_inv s" "send_step root m b th obj ci e s = Some (out, s')"
  shows "caps_inv s'"
proof -
  have "caps_inv s'" if "finish th obj r s1 = Some (out, s')" "caps_inv s1" for r s1 using finish_inv that by blast
  then show ?thesis using assms
    by (auto simp: send_step_def Let_def bind_eq_Some_conv dest!: wake_from_inv block_on_inv split: if_splits)
qed

lemma receive_step_inv:
  assumes "caps_inv s" "receive_step root b th obj ci e s = Some (out, s')"
  shows "caps_inv s'"
proof -
  have "caps_inv s'" if "finish th obj r s1 = Some (out, s')" "caps_inv s1" for r s1 using finish_inv that by blast
  then show ?thesis using assms
    by (auto simp: receive_step_def Let_def bind_eq_Some_conv dest!: wake_from_inv block_on_inv split: if_splits option.splits)
qed

lemma pin_operation_inv:
  assumes "caps_inv s" "pin_operation allowed h s = Some (r, s')"
  shows "caps_inv s'"
proof -
  have p: "caps_inv (update_header obj (\<lambda>h. h\<lparr>in_flight_op_refs := in_flight_op_refs h + 1\<rparr>) (s\<lparr>thread_ipc := T\<rparr>))" for obj T
    using assms(1) by (intro caps_inv_header) simp_all
  show ?thesis using assms p by (auto simp: pin_operation_def Let_def split: sum.splits option.splits if_splits)
qed

lemma drain_waiters_inv: "drain_waiters q s = Some (q', s') \<Longrightarrow> caps_inv s' = caps_inv s"
  by (auto simp: drain_waiters_def)

lemma close_endpoint_inv:
  assumes "caps_inv s" "close_endpoint obj ci e s = Some s'"
  shows "caps_inv s'"
proof -
  have "caps_inv (update_header obj (\<lambda>h. h\<lparr>signals := signals h OR PEER_CLOSED\<rparr>) s)"
    using assms(1) by (intro caps_inv_header) simp_all
  then show ?thesis using assms(2)
    by (auto simp: close_endpoint_def Let_def bind_eq_Some_conv dest!: drain_waiters_inv)
qed

lemma channel_close_inv:
  assumes "caps_inv s" "channel_close h s = Some (r, s')"
  shows "caps_inv s'"
proof (cases "resolve_current_process_slot (cur_pid s) s")
  case (Inl e)
  then show ?thesis using assms by (simp add: channel_close_def)
next
  case (Inr ps)
  have sf: "cap_safe (close_handle_locked ps h s)" by (rule close_handle_safe [OF assms(1) resolve_slot [OF Inr]])
  then obtain x s1 where c: "close_handle_locked ps h s = Some (x, s1)" "caps_inv s1"
    by (cases "close_handle_locked ps h s") (auto simp: cap_safe_def)
  show ?thesis
  proof (cases x)
    case (Inl e)
    then show ?thesis using assms(2) Inr c by (simp add: channel_close_def)
  next
    case x: (Inr y)
    obtain obj e where y: "y = (obj, e)" by (cases y)
    have k: "caps_inv s'" if "check_and_reclaim_channel_locked obj s3 = Some s'" "caps_inv s3" for s3 using reclaim_inv that by blast
    have m: "caps_inv s3" if "close_endpoint obj ci e (set_channel ci ch s1) = Some s3" for ci ch s3
      by (rule close_endpoint_inv [OF _ that]) (simp add: c(2))
    show ?thesis using assms(2) Inr c x y k m
      by (auto simp: channel_close_def Let_def bind_eq_Some_conv split: if_splits)
  qed
qed

lemma handle_entry_cases:
  assumes "caps_inv s" "ps < 16" "obj < 256" "o_occupied (objects s obj)"
  obtains err where "allocate_handle_entry_locked ps obj r ep s = Some (Err err, s)"
  | i s' where "allocate_handle_entry_locked ps obj r ep s = Some (Ok (handle_new i (handle_generation (entries s (Slot ps i)))), s')"
      "caps_inv s'" "i < 32" "\<not> occupied (entries s (Slot ps i))"
      "entries s' = (entries s)(Slot ps i := (entries s (Slot ps i))\<lparr>occupied := True, object_index := obj,
         object_generation := o_generation (objects s obj), rights := r, endpoint := ep\<rparr>)"
proof (rule allocate_handle_slot_cases [OF assms(2), of s])
  assume "allocate_handle_slot_locked ps s = Some (Err HandleTableFull)"
  then show thesis using that(1) by (simp add: allocate_handle_entry_locked_def)
next
  fix i assume i: "allocate_handle_slot_locked ps s = Some (Ok i)" "valid_slot (Slot ps i)" "\<not> occupied (entries s (Slot ps i))"
  have eq: "allocate_handle_entry_locked ps obj r ep s = install_root_capability_locked (Slot ps i) obj r ep s"
    using i(1) by (simp add: allocate_handle_entry_locked_def)
  have i32: "i < 32" using i(2) by (simp add: valid_slot_def)
  show thesis
  proof (cases "next_capability_id s = U64_MAX")
    case True
    then show thesis using that(1) eq install_root_spec [OF assms(1) i(2,3) assms(3,4), of r ep] by simp
  next
    case False
    with install_root_spec [OF assms(1) i(2,3) assms(3,4), of r ep] eq that(2) i(3) i32 show thesis by auto
  qed
qed

lemma refs_count:
  "caps_inv s \<Longrightarrow> i < 256 \<Longrightarrow> o_occupied (objects s i) \<Longrightarrow> handle_refs (header (objects s i)) = card {x. live (entries s) x \<and> object_index (entries s x) = i}"
  by (simp add: caps_inv_def refs_ok_def)

lemma refs_live:
  "caps_inv s \<Longrightarrow> live (entries s) x \<Longrightarrow> object_index (entries s x) < 256 \<and> o_occupied (objects s (object_index (entries s x)))"
  by (simp add: caps_inv_def refs_ok_def)

text \<open>The roll-back of a creation whose second handle cannot be allocated.\<close>

lemma create_rollback:
  assumes inv: "caps_inv s" "ps < 16" "obj < 256" and h: "i < 32" "occupied (entries s (Slot ps i))"
    "object_index (entries s (Slot ps i)) = obj" "handle_refs (header (objects s obj)) = 1"
  shows "\<exists>r s1 s2. close_handle_locked ps (handle_new i (handle_generation (entries s (Slot ps i)))) s = Some (r, s1)
    \<and> free_object_slot_locked obj s1 = Some s2 \<and> caps_inv s2"
proof -
  let ?x = "Slot ps i"
  have l: "live (entries s) ?x" using inv(2) h(1,2) by (simp add: live_def valid_slot_def)
  obtain s1 where c: "capability_close_locked ?x s = Some (Ok (obj, endpoint (entries s ?x)), s1)" "caps_inv s1"
    "objects s1 = (objects s)(obj := (objects s obj)\<lparr>header := (header (objects s obj))\<lparr>handle_refs := handle_refs (header (objects s obj)) - 1\<rparr>\<rparr>)"
    using close_spec [OF inv(1) l] unfolding h(3) by blast
  have "close_handle_locked ps (handle_new i (handle_generation (entries s ?x))) s = Some (Ok (obj, endpoint (entries s ?x)), s1)"
    using c(1) inv(2) h(1,2) by (simp add: close_handle_locked_def Let_def handle_slot_roundtrip handle_gen_roundtrip)
  moreover have "o_occupied (objects s1 obj)" "handle_refs (header (objects s1 obj)) = 0"
    using refs_live [OF inv(1) l] h(3,4) c(3) by simp_all
  ultimately show ?thesis using free_object_slot_inv [OF c(2) inv(3)] by blast
qed

lemma allocated_object:
  assumes "allocate_object_slot_locked ty k0 pid s = (Inr obj, s')"
  shows "obj < 256 \<and> o_occupied (objects s' obj) \<and> handle_refs (header (objects s' obj)) = 0 \<and> entries s' = entries s
    \<and> obj_type (objects s' obj) = ty \<and> pool_index (objects s' obj) = k0 \<and> \<not> o_occupied (objects s obj)
    \<and> (\<forall>k. k \<noteq> obj \<longrightarrow> objects s' k = objects s k)"
  using assms by (auto simp: allocate_object_slot_locked_def allocate_object_id_def Let_def find_upt_Some_iff split: if_splits option.splits)

lemma one_handle:
  assumes "caps_inv s" "caps_inv s'" "obj < 256" "o_occupied (objects s obj)" "handle_refs (header (objects s obj)) = 0"
    "entries s' = (entries s)(x := e)" "valid_slot x" "occupied e" "object_index e = obj"
  shows "handle_refs (header (objects s' obj)) = 1" "o_occupied (objects s' obj)"
proof -
  have "card {y. live (entries s) y \<and> object_index (entries s y) = obj} = 0" using refs_count [OF assms(1,3,4)] assms(5) by simp
  then have "{y. live (entries s) y \<and> object_index (entries s y) = obj} = {}" by simp
  then have no: "live (entries s) y \<Longrightarrow> object_index (entries s y) \<noteq> obj" for y by blast
  have lx: "live (entries s') x" using assms(6-8) by (simp add: live_def)
  then show o: "o_occupied (objects s' obj)" using refs_live [OF assms(2) lx] assms(6,9) by simp
  have ol: "live (entries s') y = live (entries s) y" if "y \<noteq> x" for y using that assms(6) by (simp add: live_def)
  have "{y. live (entries s') y \<and> object_index (entries s' y) = obj} = {x}"
  proof (rule set_eqI)
    fix y show "y \<in> {y. live (entries s') y \<and> object_index (entries s' y) = obj} \<longleftrightarrow> y \<in> {x}"
      using lx ol [of y] no [of y] assms(6,9) by (cases "y = x") simp_all
  qed
  then show "handle_refs (header (objects s' obj)) = 1" using refs_count [OF assms(2,3) o] by simp
qed

lemma channel_create_safe:
  assumes inv: "caps_inv s" shows "cap_safe (channel_create s)"
proof (cases "resolve_current_process_slot (cur_pid s) s")
  case (Inl e) then show ?thesis using inv by (simp add: channel_create_def)
next
  case (Inr ps)
  note ps = resolve_slot [OF Inr]
  show ?thesis
  proof (cases "find (channel_is_free s) [0..<MAX_CHANNELS]")
    case None then show ?thesis using inv Inr by (simp add: channel_create_def)
  next
    case (Some ci)
    obtain a s1 where a: "allocate_object_slot_locked ChannelObject ci (cur_pid s) s = (a, s1)" by force
    have i1: "caps_inv s1" using allocate_object_slot_inv [OF inv, of ChannelObject ci "cur_pid s"] a by simp
    show ?thesis
    proof (cases a)
      case (Inl e) then show ?thesis using Inr Some a i1 by (simp add: channel_create_def)
    next
      case obj: (Inr obj)
      note f = allocated_object [OF a [unfolded obj]]
      define s2 where "s2 = set_channel ci (empty_channel\<lparr>endpoint_0 := empty_endpoint\<lparr>ep_handle_refs := 1\<rparr>, endpoint_1 := empty_endpoint\<lparr>ep_handle_refs := 1\<rparr>\<rparr>) s1"
      have s2: "caps_inv s2" "objects s2 = objects s1" "entries s2 = entries s1"
        using i1 unfolding s2_def by (simp, simp_all add: set_channel_def)
      have o2: "obj < 256" "o_occupied (objects s2 obj)" "handle_refs (header (objects s2 obj)) = 0" using f s2(2) by simp_all
      note cr = channel_create_def Inr Some a obj sum.case option.case prod.case Let_def
      show ?thesis
      proof (rule handle_entry_cases [OF s2(1) ps o2(1,2), of channel_rights 0])
        fix err assume "allocate_handle_entry_locked ps obj channel_rights 0 s2 = Some (Err err, s2)"
        then show ?thesis using free_object_slot_inv [OF s2(1) o2] unfolding cr s2_def [symmetric] by auto
      next
        fix i s3 assume h0: "allocate_handle_entry_locked ps obj channel_rights 0 s2
            = Some (Ok (handle_new i (handle_generation (entries s2 (Slot ps i)))), s3)" "caps_inv s3" "i < 32"
          "\<not> occupied (entries s2 (Slot ps i))"
          "entries s3 = (entries s2)(Slot ps i := (entries s2 (Slot ps i))\<lparr>occupied := True, object_index := obj,
             object_generation := o_generation (objects s2 obj), rights := channel_rights, endpoint := 0\<rparr>)"
        have v: "valid_slot (Slot ps i)" using ps h0(3) by (simp add: valid_slot_def)
        have r: "handle_refs (header (objects s3 obj)) = 1" "o_occupied (objects s3 obj)"
          by (rule one_handle [OF s2(1) h0(2) o2 h0(5) v]; simp)+
        show ?thesis
        proof (rule handle_entry_cases [OF h0(2) ps o2(1) r(2), of channel_rights 1])
          fix err assume e1: "allocate_handle_entry_locked ps obj channel_rights 1 s3 = Some (Err err, s3)"
          have "occupied (entries s3 (Slot ps i))" "object_index (entries s3 (Slot ps i)) = obj"
            "handle_generation (entries s3 (Slot ps i)) = handle_generation (entries s2 (Slot ps i))" by (simp_all add: h0(5))
          then obtain x s4 s5 where "close_handle_locked ps (handle_new i (handle_generation (entries s2 (Slot ps i)))) s3 = Some (x, s4)"
            "free_object_slot_locked obj s4 = Some s5" "caps_inv s5"
            using create_rollback [OF h0(2) ps o2(1) h0(3) _ _ r(1)] by auto
          then show ?thesis using h0(1) e1 unfolding cr s2_def [symmetric] by simp
        next
          fix j s4 assume "allocate_handle_entry_locked ps obj channel_rights 1 s3
              = Some (Ok (handle_new j (handle_generation (entries s3 (Slot ps j)))), s4)" "caps_inv s4"
          then show ?thesis using h0(1) unfolding cr s2_def [symmetric] by simp
        qed
      qed
    qed
  qed
qed

lemma cancel_inv: "cancel_channels pid is s = Some s' \<Longrightarrow> caps_inv s \<Longrightarrow> caps_inv s'"
  by (induction "is" arbitrary: s) (auto simp: bind_eq_Some_conv)

text \<open>The channel interface as a transition system: any thread calls any operation, a blocked one
  resumes, and process teardown cancels waiters.\<close>

inductive chan_step :: "address_spaces \<Rightarrow> 'a chan_state_scheme \<Rightarrow> 'a chan_state_scheme \<Rightarrow> bool" for root where
  create: "channel_create s = Some (r, s') \<Longrightarrow> chan_step root s s'"
| send: "channel_send root h m b s = Some (out, s') \<Longrightarrow> chan_step root s s'"
| send_resumed: "channel_send_resumed root m th obj ci e s = Some (out, s') \<Longrightarrow> chan_step root s s'"
| receive: "channel_receive root h b s = Some (out', s') \<Longrightarrow> chan_step root s s'"
| receive_resumed: "channel_receive_resumed root th obj ci e s = Some (out', s') \<Longrightarrow> chan_step root s s'"
| close: "channel_close h s = Some (r', s') \<Longrightarrow> chan_step root s s'"
| cancel: "cancel_channel_waiters_for_process_locked pid s = Some s' \<Longrightarrow> chan_step root s s'"

lemma chan_step_inv: "chan_step root s s' \<Longrightarrow> caps_inv s \<Longrightarrow> caps_inv s'"
proof (induction rule: chan_step.induct)
  case (create s r s')
  then show ?case using channel_create_safe [of s] by (simp add: cap_safe_def)
next
  case (send h m b s out s')
  then obtain r s1 where "pin_operation (WRITE OR CHANNEL_SEND) h s = Some (r, s1)" by (auto simp: channel_send_def bind_eq_Some_conv)
  with send pin_operation_inv [OF send(2) this] show ?case
    by (auto simp: channel_send_def split: sum.splits dest: send_step_inv)
next
  case (send_resumed m th obj ci e s out s')
  then show ?case by (auto simp: channel_send_resumed_def Let_def dest: send_step_inv finish_inv split: if_splits)
next
  case (receive h b s out s')
  then obtain r s1 where "pin_operation (READ OR CHANNEL_RECEIVE) h s = Some (r, s1)" by (auto simp: channel_receive_def bind_eq_Some_conv)
  with receive pin_operation_inv [OF receive(2) this] show ?case
    by (auto simp: channel_receive_def split: sum.splits dest: receive_step_inv)
next
  case (receive_resumed th obj ci e s out s')
  then show ?case by (auto simp: channel_receive_resumed_def Let_def dest: receive_step_inv finish_inv split: if_splits)
next
  case (close h s r s')
  then show ?case by (rule_tac channel_close_inv)
next
  case (cancel pid s s')
  then show ?case unfolding cancel_channel_waiters_for_process_locked_def by (rule cancel_inv)
qed

lemma chan_reach_inv: "(chan_step root)\<^sup>*\<^sup>* s s' \<Longrightarrow> caps_inv s \<Longrightarrow> caps_inv s'"
  by (induction rule: rtranclp_induct) (auto intro: chan_step_inv)

lemma chan_handle_moved:
  "chan_handle s h allowed obj ci e \<Longrightarrow> current_thread sc = current_thread (sch s) \<Longrightarrow> t_process sc = t_process (sch s) \<Longrightarrow>
     chan_handle (moved_msg obj' ci' ch sc s) h allowed obj ci e"
  by (simp add: chan_handle_def moved_msg_def unpinned_def cur_pid_def resolve_current_process_slot_def
      validate_handle_locked_def cong: if_cong)

primrec receives :: "address_spaces \<Rightarrow> Handle \<Rightarrow> nat \<Rightarrow> 'a chan_state_scheme \<Rightarrow> (IpcMessage list \<times> 'a chan_state_scheme) option" where
  "receives root h 0 s = Some ([], s)"
| "receives root h (Suc n) s =
     (case channel_receive root h False s of
        Some (Done (Inr m), s) \<Rightarrow> map_option (\<lambda>(ms, s). (m # ms, s)) (receives root h n s)
      | _ \<Rightarrow> None)"

lemma receives_all:
  "chan_inv root s ci X W \<Longrightarrow> chan_handle s h (READ OR CHANNEL_RECEIVE) obj ci e \<Longrightarrow> X (1 - e) = ms \<Longrightarrow>
     \<exists>s' W'. receives root h (length ms) s = Some (ms, s') \<and> chan_inv root s' ci (X(1 - e := [])) W'"
proof (induction ms arbitrary: s X W)
  case Nil
  then have "X(1 - e := []) = X" by (simp add: fun_upd_idem)
  then show ?case using Nil(1) by auto
next
  case (Cons m ms)
  obtain ch sc where r: "channel_receive root h False s = Some (Done (Ok m), moved_msg obj ci ch sc s)"
    "chan_inv root (moved_msg obj ci ch sc s) ci (X(1 - e := ms)) (dequeued (1 - e) True W)"
    "current_thread sc = current_thread (sch s)" "t_process sc = t_process (sch s)"
    using receive_spec [OF Cons.prems(1,2), of False] unfolding Cons.prems(3) list.case by blast
  have "(X(1 - e := ms)) (1 - e) = ms" by simp
  from Cons.IH [OF r(2) chan_handle_moved [OF Cons.prems(2) r(3,4)] this]
  obtain s' W' where "receives root h (length ms) (moved_msg obj ci ch sc s) = Some (ms, s')"
    "chan_inv root s' ci ((X(1 - e := ms))(1 - e := [])) W'" by blast
  moreover from this have "receives root h (length (m # ms)) s = Some (m # ms, s')" using r(1) by simp
  ultimately show ?case unfolding fun_upd_upd by blast
qed

section \<open>Properties\<close>

text \<open>C5: a channel delivers messages reliably and in order. Let a thread hold a handle that may send
  on one endpoint and one that may receive on the other, with \<open>X e\<close> the messages in transit and fewer
  than four of them. Then the send returns success, whether or not it may block, and wakes exactly the
  first thread that waits to receive; and receiving as often as there are messages returns every earlier
  message and then the new one, each once and in order, leaving that direction empty and the other
  direction as it was. No step panics and the scheduler and channel invariants are kept.\<close>

theorem send_receive_in_order:
  assumes "chan_inv root s ci X W" "chan_handle s h (WRITE OR CHANNEL_SEND) obj ci e"
    "chan_handle s h' (READ OR CHANNEL_RECEIVE) obj ci (1 - e)" "ep_error e (channels s ci) = None" "length (X e) < CHANNEL_RING_CAPACITY"
  shows "\<exists>s1 s2 W'. channel_send root h m b s = Some (Done (Ok ()), s1)
    \<and> t_state (sch s1) = woken_one (W (1 - e) False) (t_state (sch s))
    \<and> receives root h' (length (X e) + 1) s1 = Some (X e @ [m], s2) \<and> chan_inv root s2 ci (X(e := [])) W'"
proof -
  have e: "1 - (1 - e) = e" using assms(2) by (simp add: chan_handle_def)
  obtain ch sc where s: "channel_send root h m b s = Some (Done (Ok ()), moved_msg obj ci ch sc s)"
    "chan_inv root (moved_msg obj ci ch sc s) ci (X(e := X e @ [m])) (dequeued (1 - e) False W)"
    "t_state sc = woken_one (W (1 - e) False) (t_state (sch s))" "current_thread sc = current_thread (sch s)" "t_process sc = t_process (sch s)"
    using send_spec [OF assms(1,2), of m b] assms(4,5) by auto
  have "(X(e := X e @ [m])) (1 - (1 - e)) = X e @ [m]" unfolding e by simp
  from receives_all [OF s(2) chan_handle_moved [OF assms(3) s(4,5)] this] obtain s' W' where
    "receives root h' (length (X e @ [m])) (moved_msg obj ci ch sc s) = Some (X e @ [m], s')"
    "chan_inv root s' ci (X(e := [])) W'" unfolding e fun_upd_upd by blast
  moreover have "length (X e @ [m]) = length (X e) + 1" "sch (moved_msg obj ci ch sc s) = sc" by (simp_all add: moved_msg_def)
  ultimately show ?thesis using s(1,3) by metis
qed

text \<open>C22: no channel operation revokes authority it should not. Whatever sequence of creations, sends,
  receives, resumptions, closes and cancellations runs from a state of the capability invariant, every
  handle that is still live afterwards refers to an occupied object of the generation it was issued
  for, the reference count of every object is exactly the number of live handles to it, and creating
  a channel there does not panic.\<close>

theorem channel_keeps_authority:
  assumes "caps_inv s" "(chan_step root)\<^sup>*\<^sup>* s s'"
  shows "(\<forall>x. live (entries s') x \<longrightarrow> o_occupied (objects s' (object_index (entries s' x)))
        \<and> o_generation (objects s' (object_index (entries s' x))) = object_generation (entries s' x))
    \<and> (\<forall>i<MAX_KERNEL_OBJECTS. o_occupied (objects s' i) \<longrightarrow>
        handle_refs (header (objects s' i)) = card {x. live (entries s') x \<and> object_index (entries s' x) = i})
    \<and> channel_create s' \<noteq> None"
proof -
  have i: "caps_inv s'" by (rule chan_reach_inv [OF assms(2,1)])
  moreover have "channel_create s' \<noteq> None" using channel_create_safe [OF i] by (cases "channel_create s'") (simp_all add: cap_safe_def)
  ultimately show ?thesis by (simp add: caps_inv_def refs_ok_def)
qed

text \<open>A handle that validates, carries one of the rights an operation looks for and names an object of another kind
  reaches the type assertion.\<close>

lemma wrong_type_panics:
  assumes "resolve_current_process_slot (cur_pid s) s = Ok ps" "validate_handle_locked ps h 0 s = Some (Ok (obj, e, r))"
    "obj_type (objects s obj) \<noteq> ChannelObject"
  shows "(r AND (WRITE OR CHANNEL_SEND) \<noteq> 0 \<longrightarrow> channel_send root h m b s = None)
    \<and> (r AND (READ OR CHANNEL_RECEIVE) \<noteq> 0 \<longrightarrow> channel_receive root h b s = None)"
  using assms by (simp add: channel_send_def channel_receive_def pin_operation_def Let_def)

text \<open>C36: a creation that fails for want of a handle leaks its channel. When the caller's handle table
  is full, the creation reports the error and frees the object, but the endpoints keep a reference
  count of one: no object uses the channel afterwards, and yet the search for a free channel skips it
  in every later state that leaves the channel alone.\<close>

theorem create_leaks_channel:
  assumes "resolve_current_process_slot (cur_pid s) s = Ok ps" "allocate_handle_slot_locked ps s = Some (Err HandleTableFull)"
    "find (channel_is_free s) [0..<MAX_CHANNELS] = Some ci"
    "allocate_object_slot_locked ChannelObject ci (cur_pid s) s = (Ok obj, s1)"
  shows "\<exists>s'. channel_create s = Some (Err HandleTableFull, s') \<and> \<not> channel_in_use ci s'
    \<and> (\<forall>t. channels t ci = channels s' ci \<longrightarrow> \<not> channel_is_free t ci)"
proof -
  note f = allocated_object [OF assms(4)]
  let ?ch = "empty_channel\<lparr>endpoint_0 := empty_endpoint\<lparr>ep_handle_refs := 1\<rparr>, endpoint_1 := empty_endpoint\<lparr>ep_handle_refs := 1\<rparr>\<rparr>"
  define s2 where "s2 = set_channel ci ?ch s1"
  have e1: "entries s1 = entries s" using f by simp
  have "allocate_handle_slot_locked ps s2 = allocate_handle_slot_locked ps s"
    using e1 by (simp add: allocate_handle_slot_locked_def s2_def set_channel_def)
  then have a: "allocate_handle_entry_locked ps obj channel_rights 0 s2 = Some (Err HandleTableFull, s2)"
    using assms(2) by (simp add: allocate_handle_entry_locked_def)
  define s' where "s' = the (free_object_slot_locked obj s2)"
  have fr: "free_object_slot_locked obj s2 = Some s'"
    using f by (simp add: s'_def s2_def set_channel_def free_object_slot_locked_def)
  have c: "channels s' ci = ?ch" using f unfolding s'_def s2_def by (simp add: free_object_slot_locked_def set_channel_def)
  have "channel_create s = Some (Err HandleTableFull, s')"
    unfolding channel_create_def assms(1,3,4) sum.case option.case prod.case Let_def s2_def [symmetric] a fr by simp
  moreover have "\<not> channel_in_use ci s'"
  proof -
    have "channel_is_free s ci" using assms(3) by (auto simp: find_Some_iff)
    then have "\<not> channel_in_use ci s" by (simp add: channel_is_free_def Let_def)
    then show ?thesis using f unfolding s'_def s2_def
      by (auto simp: channel_in_use_def list_ex_iff free_object_slot_locked_def set_channel_def)
  qed
  moreover have "\<not> channel_is_free t ci" if "channels t ci = channels s' ci" for t
    using that c by (simp add: channel_is_free_def Let_def empty_channel_def)
  ultimately show ?thesis by blast
qed

section \<open>Concrete channels\<close>

text \<open>Process 0 holds both endpoints of channel 0; \<open>ty\<close> is the type of the object its handles name.\<close>

definition demo_entry :: "nat \<Rightarrow> HandleEntry" where
  "demo_entry e = \<lparr>object_index = 0, handle_generation = 1, object_generation = 1, rights = channel_rights, endpoint = e, occupied = True\<rparr>"

definition demo_chan :: "KernelObjectType \<Rightarrow> chan_state" where
  "demo_chan ty = \<lparr>objects = (\<lambda>_. empty_object_slot)(0 := \<lparr>o_occupied = True, obj_type = ty, o_generation = 1, pool_index = 0,
       header = \<lparr>object_id = 1, creator_pid = 0, handle_refs = 2, mapping_refs = 0, in_flight_op_refs = 0, lifecycle = Active, signals = 0\<rparr>\<rparr>),
     next_object_id = 2, entries = (\<lambda>_. empty_handle_entry)(Slot 0 0 := demo_entry 0, Slot 0 1 := demo_entry 1),
     hcount = (\<lambda>_. 0)(0 := 2), processes = \<lambda>i. \<lparr>p_occupied = i < 3, p_id = i\<rparr>,
     nodes = (\<lambda>_. empty_node)(Slot 0 0 := root_node 1, Slot 0 1 := root_node 2), next_capability_id = 3,
     channels = \<lambda>_. empty_channel, thread_ipc = \<lambda>_. \<lparr>ipc_occupied = False, ipc_object = 0\<rparr>, sch = demo_sched\<rparr>"

lemma channel_rights_bits: "channel_rights AND (WRITE OR CHANNEL_SEND) \<noteq> 0" "channel_rights AND (READ OR CHANNEL_RECEIVE) \<noteq> 0"
  by (simp_all add: channel_rights_def rights_defs)

lemma demo_chan_resolve: "resolve_current_process_slot (cur_pid (demo_chan ty)) (demo_chan ty) = Ok 0"
  by (simp add: resolve_current_process_slot_def cur_pid_def demo_chan_def demo_sched_def find_upt_0)

lemma demo_chan_validate:
  "e < 2 \<Longrightarrow> validate_handle_locked 0 (handle_new e 1) 0 (demo_chan ty) = Some (Ok (0, e, channel_rights))"
  by (cases "e = 0") (auto simp: less_2_cases_iff validate_handle_locked_def handle_slot_roundtrip handle_gen_roundtrip Let_def
      demo_chan_def demo_entry_def root_node_def)

lemma demo_chan_handle:
  "e < 2 \<Longrightarrow> channel_rights AND allowed \<noteq> 0 \<Longrightarrow> chan_handle (demo_chan ChannelObject) (handle_new e 1) allowed 0 0 e"
  using demo_chan_resolve [of ChannelObject] demo_chan_validate [of e ChannelObject]
  by (simp add: chan_handle_def) (simp add: demo_chan_def demo_sched_def)

lemma demo_chan_inv: "chan_inv demo_root_of (demo_chan ChannelObject) 0 (\<lambda>_. []) (\<lambda>_ _. [])"
proof (rule chan_invI)
  show "sched_inv demo_root_of (sch (demo_chan ChannelObject)) demo_runq" using demo_sched_inv by (simp add: demo_chan_def)
qed (simp_all add: demo_chan_def tx_ring_def empty_channel_def wq_def my_ep_def empty_endpoint_def waiting_def)

theorem send_receive_in_order_witness:
  "\<exists>s1 s2. channel_send demo_root_of (handle_new 0 1) (empty_message\<lparr>tag := 9\<rparr>) True (demo_chan ChannelObject) = Some (Done (Ok ()), s1)
    \<and> receives demo_root_of (handle_new 1 1) 1 s1 = Some ([empty_message\<lparr>tag := 9\<rparr>], s2)"
proof -
  have "chan_handle (demo_chan ChannelObject) (handle_new 1 1) (READ OR CHANNEL_RECEIVE) 0 0 (1 - 0)"
    using demo_chan_handle [of 1] channel_rights_bits(2) by simp
  moreover have "ep_error 0 (channels (demo_chan ChannelObject) 0) = None"
    by (simp add: ep_error_def demo_chan_def empty_channel_def my_ep_def empty_endpoint_def)
  ultimately show ?thesis
    using send_receive_in_order [OF demo_chan_inv demo_chan_handle [OF _ channel_rights_bits(1)], of 0 "handle_new 1 1" "empty_message\<lparr>tag := 9\<rparr>" True]
    by (auto simp del: receives.simps)
qed

text \<open>The static tables at boot; and the same with every handle of process 0 in use.\<close>

definition chan_initial :: chan_state where
  "chan_initial = \<lparr>objects = \<lambda>_. empty_object_slot, next_object_id = 1, entries = \<lambda>_. empty_handle_entry, hcount = \<lambda>_. 0,
     processes = \<lambda>i. \<lparr>p_occupied = i < 3, p_id = i\<rparr>, nodes = \<lambda>_. empty_node, next_capability_id = 1,
     channels = \<lambda>_. empty_channel, thread_ipc = \<lambda>_. \<lparr>ipc_occupied = False, ipc_object = 0\<rparr>, sch = demo_sched\<rparr>"

definition demo_full :: chan_state where
  "demo_full = chan_initial\<lparr>entries := \<lambda>_. demo_entry 0\<rparr>"

lemma chan_initial_inv: "caps_inv chan_initial"
  using caps_initial_inv [of demo_procs] by (simp add: caps_inv_def caps_initial_def chan_initial_def)

lemma demo_full_facts:
  "resolve_current_process_slot (cur_pid demo_full) demo_full = Ok 0"
  "allocate_handle_slot_locked 0 demo_full = Some (Err HandleTableFull)"
  "find (channel_is_free demo_full) [0..<MAX_CHANNELS] = Some 0"
proof -
  show "resolve_current_process_slot (cur_pid demo_full) demo_full = Ok 0"
    by (simp add: resolve_current_process_slot_def cur_pid_def demo_full_def chan_initial_def demo_sched_def find_upt_0)
  have "find (\<lambda>i. \<not> occupied (entries demo_full (Slot 0 i))) [0..<32] = None"
    by (simp add: find_None_iff demo_full_def demo_entry_def)
  then show "allocate_handle_slot_locked 0 demo_full = Some (Err HandleTableFull)" by (simp add: allocate_handle_slot_locked_def)
  have "channel_is_free demo_full 0"
    by (simp add: channel_is_free_def channel_in_use_def list_ex_iff demo_full_def chan_initial_def empty_channel_def
        empty_endpoint_def empty_object_slot_def Let_def)
  then show "find (channel_is_free demo_full) [0..<MAX_CHANNELS] = Some 0" by (simp add: find_upt_0)
qed

theorem channel_keeps_authority_witness:
  "\<exists>r s'. channel_create chan_initial = Some (r, s') \<and> channel_create s' \<noteq> None"
proof -
  obtain r s' where c: "channel_create chan_initial = Some (r, s')"
    using channel_create_safe [OF chan_initial_inv] by (cases "channel_create chan_initial") (auto simp: cap_safe_def)
  then have "(chan_step demo_root_of)\<^sup>*\<^sup>* chan_initial s'" by (blast intro: chan_step.create)
  from channel_keeps_authority [OF chan_initial_inv this] show ?thesis using c by blast
qed

theorem create_leaks_channel_witness:
  "\<exists>s'. channel_create demo_full = Some (Err HandleTableFull, s') \<and> \<not> channel_in_use 0 s' \<and> \<not> channel_is_free s' 0"
proof -
  obtain s1 where "allocate_object_slot_locked ChannelObject 0 (cur_pid demo_full) demo_full = (Ok 0, s1)"
    by (simp add: allocate_object_slot_locked_def allocate_object_id_def Let_def demo_full_def chan_initial_def
        empty_object_slot_def find_upt_0)
  from create_leaks_channel [OF demo_full_facts this] show ?thesis by blast
qed

section \<open>Cancellation\<close>

lemma plist_tail: "plist nx p (us @ t # vs) \<Longrightarrow> plist nx (nx t) vs"
  by (simp add: plist_mid)

lemma cancel_from_ok:
  assumes "queue_rep q (next_waiter s) (us @ vs)" "\<forall>t\<in>set us. t_process s t \<noteq> pid" "length (us @ vs) < U64_MAX"
    "c = (case vs of [] \<Rightarrow> None | t # _ \<Rightarrow> Some t)"
  shows "\<exists>q' nx. cancel_from pid c q s = Some (q', s\<lparr>next_waiter := nx\<rparr>)
    \<and> queue_rep q' nx (filter (\<lambda>t. t_process s t \<noteq> pid) (us @ vs))"
  using assms
proof (induction vs arbitrary: us q s c)
  case Nil
  then have "filter (\<lambda>t. t_process s t \<noteq> pid) us = us" by (simp add: filter_id_conv)
  then show ?case using Nil by (intro exI [of _ q] exI [of _ "next_waiter s"]) (simp add: cancel_from.simps [of pid None])
next
  case (Cons t vs)
  have c: "c = Some t" using Cons.prems(4) by simp
  have pl: "plist (next_waiter s) (next_waiter s t) vs" using Cons.prems(1) plist_tail by (auto simp: queue_rep_def)
  have nx: "next_waiter s t = (case vs of [] \<Rightarrow> None | t # _ \<Rightarrow> Some t)" by (rule plist_head [OF pl])
  show ?case
  proof (cases "t_process s t = pid")
    case True
    have d: "distinct (us @ t # vs)" using Cons.prems(1) by (rule queue_rep_distinct)
    then have r1: "remove1 t (us @ t # vs) = us @ vs" by (intro remove1_mid) simp
    obtain q1 nx1 where r: "remove_queue t (q, next_waiter s) = Some (True, q1, nx1)" "queue_rep q1 nx1 (us @ vs)"
      using remove_queue_rep [OF Cons.prems(1), of t] Cons.prems(3) r1 by auto
    let ?s = "s\<lparr>next_waiter := nx1\<rparr>"
    have st: "cancel_from pid c q s = cancel_from pid (next_waiter s t) q1 ?s"
      using r(1) True by (simp add: c cancel_from.simps [of pid "Some t"] remove_waiter_def Let_def)
    obtain q' nx' where "cancel_from pid (next_waiter s t) q1 ?s = Some (q', ?s\<lparr>next_waiter := nx'\<rparr>)"
      "queue_rep q' nx' (filter (\<lambda>t. t_process ?s t \<noteq> pid) (us @ vs))"
      using Cons.IH [of q1 ?s us "next_waiter s t"] r(2) Cons.prems(2,3) nx by auto
    then show ?thesis using st True by auto
  next
    case False
    have "cancel_from pid c q s = cancel_from pid (next_waiter s t) q s"
      using False by (simp add: c cancel_from.simps [of pid "Some t"] Let_def)
    then show ?thesis using Cons.IH [of q s "us @ [t]" "next_waiter s t"] Cons.prems(1-3) nx False by auto
  qed
qed

text \<open>C31: cancelling the waiters of a terminating process terminates and removes exactly them. From a
  queue that holds \<open>xs\<close> the sweep returns without a panic, the queue then holds the waiters of the
  other processes in their order, and nothing but the links of threads changes.\<close>

theorem cancel_removes_exactly:
  assumes "queue_rep q (next_waiter s) xs" "length xs < U64_MAX"
  shows "\<exists>q' nx. cancel_waiters_in_queue_locked pid q s = Some (q', s\<lparr>next_waiter := nx\<rparr>)
    \<and> queue_rep q' nx (filter (\<lambda>t. t_process s t \<noteq> pid) xs)"
proof -
  have "q_head q = (case xs of [] \<Rightarrow> None | t # _ \<Rightarrow> Some t)" using assms(1) by (auto simp: queue_rep_def dest: plist_head)
  then show ?thesis unfolding cancel_waiters_in_queue_locked_def
    using cancel_from_ok [where us = "[]" and vs = xs] assms by simp
qed

theorem cancel_removes_exactly_witness:
  "\<exists>q' nx. cancel_waiters_in_queue_locked 3 \<lparr>q_head = Some 3, q_tail = Some 3, q_count = 1\<rparr> demo_sched
     = Some (q', demo_sched\<lparr>next_waiter := nx\<rparr>) \<and> queue_rep q' nx []"
proof -
  have "queue_rep \<lparr>q_head = Some 3, q_tail = Some 3, q_count = 1\<rparr> (next_waiter demo_sched) [3]"
    by (simp add: queue_rep_def demo_sched_def)
  from cancel_removes_exactly [OF this, of 3] show ?thesis by (simp add: demo_sched_def)
qed

end
