(* ===== verification/VmmTree.thy ===== *)
theory VmmTree
  imports Vmm
begin

text \<open>
  Page tables as trees: what entries encode, the tables and leaves reached by paths of indices, and how the
  three changes the code makes (linking a fresh table, removing an empty one, writing a leaf) act on them.
\<close>

unbundle bit_operations_syntax

section \<open>Words\<close>

lemma and_exp_eq_exp: "n < 64 \<Longrightarrow> (e :: u64) AND 2 ^ n = 2 ^ n \<longleftrightarrow> bit e n"
  by (auto simp: bit_eq_iff [of _ "2 ^ n :: u64"] bit_simps)

lemma is_present_bit: "is_present e \<longleftrightarrow> bit e 0"
  by (simp add: is_present_def PRESENT_def and_one_eq bit_0 odd_iff_mod_2_eq_one)

lemma contains_bit:
  "contains e HUGE_PAGE \<longleftrightarrow> bit e 7" "contains e USER_ACCESSIBLE \<longleftrightarrow> bit e 2" "contains e PAGE_WRITABLE \<longleftrightarrow> bit e 1"
  "contains e NO_EXECUTE \<longleftrightarrow> bit e 63" "contains e PRESENT \<longleftrightarrow> bit e 0"
  using and_exp_eq_exp [of 7 e] and_exp_eq_exp [of 2 e] and_exp_eq_exp [of 1 e] and_exp_eq_exp [of 63 e] and_exp_eq_exp [of 0 e]
  by (simp_all add: contains_def HUGE_PAGE_def USER_ACCESSIBLE_def PAGE_WRITABLE_def NO_EXECUTE_def PRESENT_def)

lemma flag_bits:
  "bit PRESENT n \<longleftrightarrow> n = 0" "bit PAGE_WRITABLE n \<longleftrightarrow> n = 1" "bit USER_ACCESSIBLE n \<longleftrightarrow> n = 2"
proof -
  have "bit (2 ^ k :: u64) n \<longleftrightarrow> n = k" if "k < 64" for k using that by (auto simp: bit_simps)
  from this [of 0] this [of 1] this [of 2]
  show "bit PRESENT n \<longleftrightarrow> n = 0" "bit PAGE_WRITABLE n \<longleftrightarrow> n = 1" "bit USER_ACCESSIBLE n \<longleftrightarrow> n = 2"
    by (simp_all add: PRESENT_def PAGE_WRITABLE_def USER_ACCESSIBLE_def)
qed

text \<open>What the model relies on of a geometry; every discovered one has it.\<close>

definition geom_ok :: "AddressSpaceGeometry \<Rightarrow> bool" where
  "geom_ok g \<longleftrightarrow> (\<forall>n. bit (physical_mask g) n \<longrightarrow> 12 \<le> n \<and> n < 52) \<and> (\<forall>n. 12 \<le> n \<and> n < 32 \<longrightarrow> bit (physical_mask g) n)"

lemma discover_geom_ok: "geom_ok (discover eax edx efer)" "48 \<le> virtual_bits (discover eax edx efer)"
proof -
  have b: "bit ((push_bit k 1 - 1) AND NOT 0xFFF :: u64) n \<longleftrightarrow> 12 \<le> n \<and> n < k" if "k \<le> 52" for k n
  proof -
    have e: "(push_bit k 1 - 1 :: u64) = mask k" "(0xFFF :: u64) = mask 12" by (simp_all add: mask_eq_exp_minus_1 push_bit_eq_mult)
    show ?thesis unfolding e using that by (auto simp: bit_simps)
  qed
  define k where "k = (if unat (eax AND 0xFF) \<ge> 32 \<and> unat (eax AND 0xFF) \<le> 52 then unat (eax AND 0xFF) else 36)"
  have k: "32 \<le> k" "k \<le> 52" "physical_mask (discover eax edx efer) = (push_bit k 1 - 1) AND NOT 0xFFF"
    unfolding k_def discover_def Let_def by (simp_all only: AddressSpaceGeometry.select_convs) simp_all
  show "geom_ok (discover eax edx efer)" unfolding geom_ok_def k(3) b [OF k(2)] using k(1,2) by simp
  show "48 \<le> virtual_bits (discover eax edx efer)" by (simp add: discover_def Let_def)
qed

lemma bit_word_nat: "bit (word_of_nat f :: u64) n \<longleftrightarrow> n < 64 \<and> bit f n"
  by (simp add: bit_simps)

lemma valid_frame_bits: "is_valid_phys_frame g f \<Longrightarrow> bit (word_of_nat f :: u64) n \<Longrightarrow> bit (physical_mask g) n"
proof -
  assume v: "is_valid_phys_frame g f" "bit (word_of_nat f :: u64) n"
  have "n < 64" using v(2) by (simp add: bit_word_nat)
  moreover have "\<not> bit ((word_of_nat f :: u64) AND NOT (physical_mask g)) n" using v(1) by (simp add: is_valid_phys_frame_def)
  ultimately show ?thesis using v(2) by (simp add: bit_simps)
qed

lemma small_frame_valid:
  assumes "geom_ok g" "4096 dvd f" "f < 2 ^ 32" shows "is_valid_phys_frame g f"
proof -
  have "bit (physical_mask g) n" if b: "bit (word_of_nat f :: u64) n" for n
  proof -
    have bf: "bit f n" using b by (simp add: bit_word_nat)
    have "12 \<le> n"
    proof (rule ccontr)
      assume "\<not> 12 \<le> n"
      then have "(2 :: nat) ^ Suc n dvd 2 ^ 12" by (intro le_imp_power_dvd) simp
      with assms(2) have "2 ^ n * 2 dvd f" by (simp add: mult.commute dvd_trans [of _ 4096])
      then show False using bf by (auto simp: bit_iff_odd elim!: dvdE)
    qed
    moreover have "n < 32"
    proof (rule ccontr)
      assume "\<not> n < 32"
      then have "(2::nat) ^ 32 \<le> 2 ^ n" using power_increasing [of 32 n "2::nat"] by simp
      with assms(3) have "f div 2 ^ n = 0" by simp
      then show False using bf by (simp add: bit_iff_odd)
    qed
    ultimately show ?thesis using assms(1) by (simp add: geom_ok_def)
  qed
  then have "word_of_nat f AND NOT (physical_mask g) = 0" by (intro bit_word_eqI) (auto simp: bit_simps)
  with assms(2) show ?thesis by (simp add: is_valid_phys_frame_def dvd_eq_mod_eq_0)
qed

section \<open>Entries\<close>

definition table_addr :: "AddressSpaceGeometry \<Rightarrow> PageTableEntry \<Rightarrow> PhysFrame" where
  "table_addr g e = unat (e AND physical_mask g)"

definition plain_flags :: "AddressSpaceGeometry \<Rightarrow> PageTableFlags \<Rightarrow> bool" where
  "plain_flags g fl \<longleftrightarrow> fl AND physical_mask g = 0"

definition link_flags :: "MappingDomain \<Rightarrow> PageTableFlags" where
  "link_flags d = PRESENT OR PAGE_WRITABLE OR intermediate_flags d"

lemma points_to_frame_eq: "points_to_frame g e = (if is_present e then Some (table_addr g e) else None)"
  by (simp add: points_to_frame_def table_addr_def)

lemma entry_addr:
  assumes "is_valid_phys_frame g f" "f \<le> U64_MAX" "plain_flags g fl"
  shows "table_addr g ((word_of_nat f AND physical_mask g) OR fl) = f"
proof -
  have "((word_of_nat f AND physical_mask g) OR fl) AND physical_mask g = word_of_nat f"
  proof (rule bit_word_eqI)
    fix n assume n: "n < LENGTH(64)"
    have "\<not> bit (fl AND physical_mask g) n" using assms(3) by (simp add: plain_flags_def)
    then have "\<not> (bit fl n \<and> bit (physical_mask g) n)" by (simp add: bit_simps)
    then show "bit (((word_of_nat f AND physical_mask g) OR fl) AND physical_mask g) n = bit (word_of_nat f :: u64) n"
      using valid_frame_bits [OF assms(1), of n] by (auto simp: bit_and_iff bit_or_iff)
  qed
  then show ?thesis using assms(2) by (simp add: table_addr_def unat_of_nat)
qed

lemma low_flags_plain: "geom_ok g \<Longrightarrow> (\<And>n. bit fl n \<Longrightarrow> n < 12) \<Longrightarrow> plain_flags g fl"
  unfolding plain_flags_def geom_ok_def by (intro bit_word_eqI) (force simp: bit_simps)

lemma link_flags_bits: "bit (link_flags d) n \<longleftrightarrow> n = 0 \<or> n = 1 \<or> (d = User \<and> n = 2)"
  by (cases d) (auto simp: link_flags_def intermediate_flags_def bit_or_iff flag_bits)

lemma link_entry:
  assumes "geom_ok g" "is_valid_phys_frame g f" "f \<le> U64_MAX" "e = (word_of_nat f AND physical_mask g) OR link_flags d"
  shows "is_present e" "\<not> contains e HUGE_PAGE" "table_addr g e = f"
proof -
  have pl: "plain_flags g (link_flags d)" by (rule low_flags_plain [OF assms(1)]) (auto simp: link_flags_bits)
  show "table_addr g e = f" using entry_addr [OF assms(2,3) pl] assms(4) by simp
  have "\<not> bit (physical_mask g) 7" using assms(1) by (auto simp: geom_ok_def)
  then show "is_present e" "\<not> contains e HUGE_PAGE"
    unfolding is_present_bit contains_bit assms(4) by (simp_all add: bit_or_iff bit_and_iff link_flags_bits)
qed

lemma leaf_flags_bits: "bit (leaf_flags fl d) n \<longleftrightarrow> (n = 0 \<or> bit fl n) \<and> \<not> (d = Kernel \<and> n = 2)"
  by (auto simp: leaf_flags_def Let_def bit_or_iff bit_and_iff bit_not_iff flag_bits dest: bit_imp_le_length)

lemma leaf_flags_plain: "geom_ok g \<Longrightarrow> plain_flags g fl \<Longrightarrow> plain_flags g (leaf_flags fl d)"
proof -
  assume a: "geom_ok g" "plain_flags g fl"
  have "\<not> (bit (leaf_flags fl d) n \<and> bit (physical_mask g) n)" for n
  proof -
    have "\<not> bit (fl AND physical_mask g) n" "\<not> bit (physical_mask g) 0" using a by (auto simp: plain_flags_def geom_ok_def)
    then show ?thesis by (auto simp: leaf_flags_bits bit_and_iff)
  qed
  then show ?thesis unfolding plain_flags_def by (intro bit_word_eqI) (simp add: bit_and_iff)
qed

lemma leaf_entry:
  assumes "geom_ok g" "is_valid_phys_frame g f" "f \<le> U64_MAX" "plain_flags g fl" "e = (word_of_nat f AND physical_mask g) OR leaf_flags fl d"
  shows "is_present e" "table_addr g e = f"
  using entry_addr [OF assms(2,3) leaf_flags_plain [OF assms(1,4)]] assms(5)
  by (simp_all add: is_present_bit bit_or_iff leaf_flags_bits)

lemma not_present_0 [simp]: "\<not> is_present 0"
  by (simp add: is_present_bit)

lemma empty_table_apply [simp]: "empty_table i = 0"
  by (simp add: empty_table_def)

lemma present_count_0: "present_count t = 0 \<longleftrightarrow> (\<forall>i<512. \<not> is_present (t i))"
  by (auto simp: present_count_def filter_empty_conv)

section \<open>Paths, tables and leaves\<close>

text \<open>The table at the end of a path of indices, and the leaf entry of a path with the number of levels below it.\<close>

fun table_at :: "AddressSpaceGeometry \<Rightarrow> (nat \<Rightarrow> PageTable) \<Rightarrow> nat \<Rightarrow> nat list \<Rightarrow> nat option" where
  "table_at g T f [] = Some f"
| "table_at g T f (i # is) =
     (if is_present (T f i) \<and> \<not> contains (T f i) HUGE_PAGE then table_at g T (table_addr g (T f i)) is else None)"

fun leaf_at :: "AddressSpaceGeometry \<Rightarrow> (nat \<Rightarrow> PageTable) \<Rightarrow> nat \<Rightarrow> nat list \<Rightarrow> (nat \<times> PageTableEntry) option" where
  "leaf_at g T f [] = None"
| "leaf_at g T f (i # is) =
     (if \<not> is_present (T f i) then None
      else if is = [] \<or> contains (T f i) HUGE_PAGE then Some (length is, T f i)
      else leaf_at g T (table_addr g (T f i)) is)"

definition tpath :: "nat list \<Rightarrow> bool" where
  "tpath q \<longleftrightarrow> length q \<le> 3 \<and> (\<forall>i\<in>set q. i < 512)"

definition tab :: "AddressSpaceGeometry \<Rightarrow> (nat \<Rightarrow> PageTable) \<Rightarrow> nat \<Rightarrow> nat list \<Rightarrow> nat option" where
  "tab g T r q = (if tpath q then table_at g T r q else None)"

lemma table_at_append:
  "table_at g T r (p @ q) = (case table_at g T r p of None \<Rightarrow> None | Some t \<Rightarrow> table_at g T t q)"
  by (induction p arbitrary: r) (auto split: option.splits)

lemma leaf_at_append:
  "table_at g T r p = Some t \<Longrightarrow> q \<noteq> [] \<Longrightarrow> leaf_at g T r (p @ q) = leaf_at g T t q"
  by (induction p arbitrary: r) (auto split: if_splits)

text \<open>A walk only reads the entries on its path, and of an entry that is not present only that it is not.\<close>

definition same_entry :: "PageTableEntry \<Rightarrow> PageTableEntry \<Rightarrow> bool" where
  "same_entry a b \<longleftrightarrow> a = b \<or> \<not> is_present a \<and> \<not> is_present b"

lemma same_entry_refl [simp]: "same_entry a a"
  by (simp add: same_entry_def)

lemma table_at_cong:
  "(\<And>j t. j < length q \<Longrightarrow> table_at g T r (take j q) = Some t \<Longrightarrow> same_entry (T' t (q ! j)) (T t (q ! j))) \<Longrightarrow>
   table_at g T' r q = table_at g T r q"
proof (induction q arbitrary: r)
  case (Cons i js)
  have r: "same_entry (T' r i) (T r i)" using Cons.prems [of 0 r] by simp
  show ?case
  proof (cases "is_present (T r i) \<and> \<not> contains (T r i) HUGE_PAGE")
    case True
    then have "table_at g T' (table_addr g (T r i)) js = table_at g T (table_addr g (T r i)) js"
      by (intro Cons.IH) (use Cons.prems [of "Suc j" for j] in auto)
    then show ?thesis using r True by (auto simp: same_entry_def)
  qed (use r in \<open>auto simp: same_entry_def\<close>)
qed simp

lemma leaf_at_cong:
  "(\<And>j t. j < length q \<Longrightarrow> table_at g T r (take j q) = Some t \<Longrightarrow> same_entry (T' t (q ! j)) (T t (q ! j))) \<Longrightarrow>
   leaf_at g T' r q = leaf_at g T r q"
proof (induction q arbitrary: r)
  case (Cons i js)
  have r: "same_entry (T' r i) (T r i)" using Cons.prems [of 0 r] by simp
  show ?case
  proof (cases "is_present (T r i) \<and> \<not> contains (T r i) HUGE_PAGE")
    case True
    then have "leaf_at g T' (table_addr g (T r i)) js = leaf_at g T (table_addr g (T r i)) js"
      by (intro Cons.IH) (use Cons.prems [of "Suc j" for j] in auto)
    then show ?thesis using r True by (auto simp: same_entry_def)
  qed (use r in \<open>auto simp: same_entry_def\<close>)
qed simp

lemma tpath_take [simp]: "tpath q \<Longrightarrow> tpath (take j q)"
  by (auto simp: tpath_def dest: in_set_takeD)

lemma tpath_Nil [simp]: "tpath []"
  by (simp add: tpath_def)

lemma tpath_snoc: "tpath (p @ [i]) \<longleftrightarrow> length p < 3 \<and> (\<forall>j\<in>set p. j < 512) \<and> i < 512"
  by (auto simp: tpath_def)

lemma tab_Nil [simp]: "tab g T r [] = Some r"
  by (simp add: tab_def)

lemma tab_snoc:
  "tpath (p @ [i]) \<Longrightarrow> tab g T r (p @ [i]) = (case tab g T r p of None \<Rightarrow> None | Some t \<Rightarrow>
     if is_present (T t i) \<and> \<not> contains (T t i) HUGE_PAGE then Some (table_addr g (T t i)) else None)"
  by (auto simp: tab_def table_at_append tpath_def split: option.splits)

lemma tab_prefix: "tab g T r (p @ q) = Some t \<Longrightarrow> \<exists>t'. tab g T r p = Some t'"
  by (auto simp: tab_def table_at_append tpath_def split: if_splits option.splits)

lemma tab_SomeD: "tab g T r q = Some t \<Longrightarrow> tpath q \<and> table_at g T r q = Some t"
  by (simp add: tab_def split: if_splits)

text \<open>A path of a page: three table indices and the index of the leaf.\<close>

definition lpath :: "nat list \<Rightarrow> bool" where
  "lpath q \<longleftrightarrow> length q = 4 \<and> (\<forall>i\<in>set q. i < 512)"

lemma lpath_take: "lpath q \<Longrightarrow> j < 4 \<Longrightarrow> tpath (take j q)"
  by (auto simp: lpath_def tpath_def dest: in_set_takeD)

section \<open>Trees\<close>

definition free_of :: "vm_state \<Rightarrow> nat set" where
  "free_of s = addrs (frames_in (frames s) Free)"

text \<open>The boot code links one directory of large pages at three places of the kernel half: the direct map and the kernel
  image. Such a sealed table, full of large pages, may be reached by several paths; every other table has one path.\<close>

definition sealed :: "PageTable \<Rightarrow> bool" where
  "sealed T \<longleftrightarrow> (\<forall>k<512. is_present (T k) \<and> contains (T k) HUGE_PAGE)"

definition window_path :: "nat list \<Rightarrow> bool" where
  "window_path p \<longleftrightarrow> p \<noteq> [] \<and> 256 \<le> hd p \<and> length p < 3"

definition tree :: "AddressSpaceGeometry \<Rightarrow> vm_state \<Rightarrow> nat \<Rightarrow> bool" where
  "tree g s r \<longleftrightarrow>
     (\<forall>p q t. tab g (tables s) r p = Some t \<longrightarrow> tab g (tables s) r q = Some t \<longrightarrow>
        p = q \<or> window_path p \<and> window_path q \<and> sealed (tables s t))
     \<and> (\<forall>q t. tab g (tables s) r q = Some t \<longrightarrow> 4096 dvd t \<and> t < 0x40000000 \<and> t \<notin> free_of s)
     \<and> (\<forall>i<512. \<not> contains (tables s r i) HUGE_PAGE)"

text \<open>Writing the entry \<open>i\<close> of the table at path \<open>p\<close> changes only the walks through that entry.\<close>

lemma tree_dup: "tree g s r \<Longrightarrow> tab g (tables s) r p = Some t \<Longrightarrow> tab g (tables s) r q = Some t \<Longrightarrow>
    p = q \<or> window_path p \<and> window_path q \<and> sealed (tables s t)"
  by (simp add: tree_def)

lemma tree_inj: "tree g s r \<Longrightarrow> tab g (tables s) r p = Some t \<Longrightarrow> tab g (tables s) r q = Some t \<Longrightarrow>
    \<not> window_path p \<or> \<not> window_path q \<or> \<not> sealed (tables s t) \<Longrightarrow> p = q"
  using tree_dup by blast

lemma unsealed: "k < 512 \<Longrightarrow> \<not> is_present (T k) \<or> \<not> contains (T k) HUGE_PAGE \<Longrightarrow> \<not> sealed T"
  by (auto simp: sealed_def)

lemma unsealed_link: "tab g (tables s) r p = Some t \<Longrightarrow> tab g (tables s) r (p @ [i]) = Some f \<Longrightarrow> \<not> sealed (tables s t)"
  using tab_SomeD [of g "tables s" r "p @ [i]" f] tab_SomeD [of g "tables s" r p t]
  by (intro unsealed [of i]) (auto simp: table_at_append tpath_def split: if_splits)

lemma window_path_simps [simp]: "\<not> window_path []" "length p = 3 \<Longrightarrow> \<not> window_path p"
  by (simp_all add: window_path_def)

lemma tree_range: "tree g s r \<Longrightarrow> tab g (tables s) r q = Some t \<Longrightarrow> 4096 dvd t \<and> t < 0x40000000 \<and> t \<notin> free_of s"
  by (simp add: tree_def)

lemma tables_write_entry [simp]: "tables (write_entry t i e s) = (tables s)(t := (tables s t)(i := e))"
  "frames (write_entry t i e s) = frames s" "cr3 (write_entry t i e s) = cr3 s" "master_pml4 (write_entry t i e s) = master_pml4 s"
  by (simp_all add: write_entry_def)

lemma other_walk:
  assumes t: "tree g s r" "tab g (tables s) r p = Some t" "\<not> window_path p \<or> \<not> sealed (tables s t)" and T': "\<And>x k. x \<noteq> f \<Longrightarrow> \<not> (x = t \<and> k = i) \<Longrightarrow> T' x k = tables s x k"
    and f: "\<And>q. tab g (tables s) r q \<noteq> Some f"
    and q: "\<And>j. j < length q \<Longrightarrow> tpath (take j q)" "\<not> (\<exists>z. q = p @ i # z)"
  shows "table_at g T' r q = table_at g (tables s) r q" "leaf_at g T' r q = leaf_at g (tables s) r q"
proof -
  have "T' x (q ! j) = tables s x (q ! j)" if j: "j < length q" and x: "table_at g (tables s) r (take j q) = Some x" for j x
  proof (rule T')
    have tx: "tab g (tables s) r (take j q) = Some x" using x q(1) [OF j] by (simp add: tab_def)
    show "x \<noteq> f" using f tx by blast
    show "\<not> (x = t \<and> q ! j = i)"
    proof
      assume e: "x = t \<and> q ! j = i"
      then have "take j q = p" using tree_inj [OF t(1) _ t(2)] tx t(3) by blast
      then have "q = p @ i # drop (Suc j) q" using e j by (metis append_take_drop_id Cons_nth_drop_Suc)
      then show False using q(2) by blast
    qed
  qed
  then show "table_at g T' r q = table_at g (tables s) r q" "leaf_at g T' r q = leaf_at g (tables s) r q"
    by (auto intro!: table_at_cong leaf_at_cong)
qed

text \<open>The value of a walk through a written entry.\<close>

lemma through_walk:
  assumes t: "tree g s r" "tab g (tables s) r p = Some t" "\<not> window_path p \<or> \<not> sealed (tables s t)" and T': "\<And>x k. x \<noteq> f \<Longrightarrow> \<not> (x = t \<and> k = i) \<Longrightarrow> T' x k = tables s x k"
    and f: "\<And>q. tab g (tables s) r q \<noteq> Some f"
  shows "table_at g T' r (p @ i # z) = table_at g T' t (i # z)" "leaf_at g T' r (p @ i # z) = leaf_at g T' t (i # z)"
proof -
  have p: "tpath p" "table_at g (tables s) r p = Some t" using tab_SomeD [OF t(2)] by simp_all
  have "table_at g T' r p = Some t"
    using other_walk(1) [OF t T' f, where q = p] p by simp
  then show "table_at g T' r (p @ i # z) = table_at g T' t (i # z)" "leaf_at g T' r (p @ i # z) = leaf_at g T' t (i # z)"
    by (simp_all add: table_at_append leaf_at_append)
qed

lemma zero_table_sel [simp]: "tables (zero_table f s) = (tables s)(f := empty_table)" "frames (zero_table f s) = frames s"
  "cr3 (zero_table f s) = cr3 s" "master_pml4 (zero_table f s) = master_pml4 s"
  by (simp_all add: zero_table_def)

subsection \<open>Linking a fresh table\<close>

lemma link_walks:
  assumes t: "tree g s r" "tab g (tables s) r p = Some t" "tpath (p @ [i])" "\<not> is_present (tables s t i)"
    and f: "f \<in> free_of s" and e: "is_present e" "\<not> contains e HUGE_PAGE" "table_addr g e = f"
    and T': "T' = (tables s)(f := empty_table, t := (tables s t)(i := e))"
  shows "tab g T' r = (tab g (tables s) r)(p @ [i] := Some f)" "lpath q \<Longrightarrow> leaf_at g T' r q = leaf_at g (tables s) r q"
proof -
  have nf: "tab g (tables s) r q \<noteq> Some f" for q using tree_range [OF t(1)] f by blast
  have tf: "t \<noteq> f" using t(2) nf by blast
  have un: "T' x k = tables s x k" if "x \<noteq> f" "\<not> (x = t \<and> k = i)" for x k using that by (auto simp: T')
  have us: "\<not> window_path p \<or> \<not> sealed (tables s t)" using unsealed [of i "tables s t"] t(3,4) by (simp add: tpath_snoc)
  note thr = through_walk [OF t(1,2) us un nf, simplified] and oth = other_walk [OF t(1,2) us un nf, simplified]
  have ti: "T' t i = e" "T' f k = 0" for k using tf by (simp_all add: T')
  have old: "table_at g (tables s) r (p @ i # z) = None" "leaf_at g (tables s) r (p @ i # z) = None" for z
    using t(4) tab_SomeD [OF t(2)] by (simp_all add: table_at_append leaf_at_append)
  show "tab g T' r = (tab g (tables s) r)(p @ [i] := Some f)"
  proof
    fix q show "tab g T' r q = ((tab g (tables s) r)(p @ [i] := Some f)) q"
    proof (cases "tpath q \<and> (\<exists>z. q = p @ i # z)")
      case True
      then obtain z where z: "q = p @ i # z" "tpath q" by blast
      have "table_at g T' r q = (if z = [] then Some f else None)"
        using thr(1) [where z = z] z(1) ti e by (cases z) simp_all
      then show ?thesis using z old(1) [of z] by (auto simp: tab_def)
    next
      case False
      then have "tpath q \<Longrightarrow> table_at g T' r q = table_at g (tables s) r q" using oth(1) [where q = q] by simp
      then show ?thesis using False t(3) by (auto simp: tab_def)
    qed
  qed
  show "leaf_at g T' r q = leaf_at g (tables s) r q" if l: "lpath q"
  proof (cases "\<exists>z. q = p @ i # z")
    case True
    then obtain z where z: "q = p @ i # z" by blast
    have "z \<noteq> []" using z l t(3) by (auto simp: lpath_def tpath_snoc)
    then show ?thesis using z old(2) [of z] thr(2) [where z = z] ti e by (cases z) simp_all
  next
    case False
    then show ?thesis using oth(2) [where q = q] lpath_take [OF l] l by (simp add: lpath_def)
  qed
qed

lemma tree_link:
  assumes t: "tree g s r" "tab g (tables s) r p = Some t" "tpath (p @ [i])" "\<not> is_present (tables s t i)"
    and f: "f \<in> free_of s" "4096 dvd f" "f < 0x40000000" and e: "is_present e" "\<not> contains e HUGE_PAGE" "table_addr g e = f"
    and s': "tables s' = (tables s)(f := empty_table, t := (tables s t)(i := e))" "free_of s' = free_of s - {f}"
  shows "tree g s' r"
proof -
  have tb: "tab g (tables s') r = (tab g (tables s) r)(p @ [i] := Some f)" by (rule link_walks(1) [OF t f(1) e s'(1)])
  have nf: "tab g (tables s) r q \<noteq> Some f" for q using tree_range [OF t(1)] f(1) by blast
  show ?thesis unfolding tree_def
  proof (intro conjI allI impI)
    fix a b x assume ab: "tab g (tables s') r a = Some x" "tab g (tables s') r b = Some x"
    have us: "\<not> sealed (tables s t)" using unsealed [of i "tables s t"] t(3,4) by (simp add: tpath_snoc)
    show "a = b \<or> window_path a \<and> window_path b \<and> sealed (tables s' x)"
    proof (cases "x = f")
      case True
      then show ?thesis using ab nf unfolding tb by (auto split: if_splits)
    next
      case False
      then have "tab g (tables s) r a = Some x" "tab g (tables s) r b = Some x" using ab unfolding tb by (auto split: if_splits)
      from tree_dup [OF t(1) this] show ?thesis using False us unfolding s'(1) by (cases "x = t") auto
    qed
  next
    fix q x assume "tab g (tables s') r q = Some x"
    then show "4096 dvd x" "x < 0x40000000" "x \<notin> free_of s'"
      using f tree_range [OF t(1)] unfolding tb s'(2) by (auto split: if_splits)
  next
    fix k :: nat assume "k < 512"
    moreover have "r \<noteq> f" using nf [of "[]"] by simp
    ultimately show "\<not> contains (tables s' r k) HUGE_PAGE" using t(1) e(2) unfolding tree_def s'(1) by auto
  qed
qed

subsection \<open>Removing an empty table\<close>

lemma unaligned_unreached: "tree g s r \<Longrightarrow> tab g (tables s) r q \<noteq> Some 1"
  using tree_range [of g s r q 1] by auto

lemma cut_walks:
  assumes t: "tree g s r" "tab g (tables s) r p = Some t" "tab g (tables s) r (p @ [i]) = Some f" "\<forall>k<512. \<not> is_present (tables s f k)"
    and T': "T' = (tables s)(t := (tables s t)(i := 0))"
  shows "tab g T' r = (tab g (tables s) r)(p @ [i] := None)" "lpath q \<Longrightarrow> leaf_at g T' r q = leaf_at g (tables s) r q"
proof -
  have un: "T' x k = tables s x k" if "x \<noteq> 1" "\<not> (x = t \<and> k = i)" for x k using that by (auto simp: T')
  have us: "\<not> window_path p \<or> \<not> sealed (tables s t)" using unsealed_link [OF t(2,3)] ..
  note thr = through_walk [OF t(1,2) us un unaligned_unreached [OF t(1)], simplified]
    and oth = other_walk [OF t(1,2) us un unaligned_unreached [OF t(1)], simplified]
  have ti: "T' t i = 0" by (simp add: T')
  have pi: "tpath (p @ [i])" "table_at g (tables s) r (p @ [i]) = Some f" using tab_SomeD [OF t(3)] by simp_all
  have empty: "k < 512 \<Longrightarrow> table_at g (tables s) r (p @ i # k # z) = None" "k < 512 \<Longrightarrow> leaf_at g (tables s) r (p @ i # k # z) = None" for k z
    using pi(2) t(4) table_at_append [of g "tables s" r "p @ [i]" "k # z"] leaf_at_append [OF pi(2), of "k # z"] by simp_all
  show "tab g T' r = (tab g (tables s) r)(p @ [i] := None)"
  proof
    fix q show "tab g T' r q = ((tab g (tables s) r)(p @ [i] := None)) q"
    proof (cases "tpath q \<and> (\<exists>z. q = p @ i # z)")
      case True
      then obtain z where z: "q = p @ i # z" "tpath q" by blast
      have "tab g T' r q = None" using thr(1) [where z = z] z ti by (simp add: tab_def)
      moreover have "z \<noteq> [] \<Longrightarrow> tab g (tables s) r q = None" using empty(1) [of "hd z" "tl z"] z by (cases z) (auto simp: tab_def tpath_def)
      ultimately show ?thesis using z by auto
    next
      case False
      then have "tpath q \<Longrightarrow> table_at g T' r q = table_at g (tables s) r q" using oth(1) [where q = q] by simp
      then show ?thesis using False pi(1) by (auto simp: tab_def)
    qed
  qed
  show "leaf_at g T' r q = leaf_at g (tables s) r q" if l: "lpath q"
  proof (cases "\<exists>z. q = p @ i # z")
    case True
    then obtain z where z: "q = p @ i # z" by blast
    have "z \<noteq> []" "hd z < 512" using z l pi(1) by (cases z; auto simp: lpath_def tpath_snoc)+
    then show ?thesis using z empty(2) [of "hd z" "tl z"] thr(2) [where z = z] ti by (cases z) simp_all
  next
    case False
    then show ?thesis using oth(2) [where q = q] lpath_take [OF l] l by (simp add: lpath_def)
  qed
qed

lemma tree_cut:
  assumes t: "tree g s r" "tab g (tables s) r p = Some t" "tab g (tables s) r (p @ [i]) = Some f" "\<forall>k<512. \<not> is_present (tables s f k)"
    and s': "tables s' = (tables s)(t := (tables s t)(i := 0))" "free_of s' \<subseteq> insert f (free_of s)"
  shows "tree g s' r"
proof -
  have tb: "tab g (tables s') r = (tab g (tables s) r)(p @ [i] := None)" by (rule cut_walks(1) [OF t s'(1)])
  show ?thesis unfolding tree_def
  proof (intro conjI allI impI)
    fix a b x assume ab: "tab g (tables s') r a = Some x" "tab g (tables s') r b = Some x"
    then have "tab g (tables s) r a = Some x" "tab g (tables s) r b = Some x" unfolding tb by (auto split: if_splits)
    from tree_dup [OF t(1) this] show "a = b \<or> window_path a \<and> window_path b \<and> sealed (tables s' x)"
      using unsealed_link [OF t(2,3)] unfolding s'(1) by (cases "x = t") auto
  next
    fix q x assume x: "tab g (tables s') r q = Some x"
    then have q: "q \<noteq> p @ [i]" "tab g (tables s) r q = Some x" unfolding tb by (auto split: if_splits)
    have "\<not> sealed (tables s f)" using t(4) by (intro unsealed [of 0]) simp_all
    then have "x \<noteq> f" using q tree_inj [OF t(1) q(2)] t(3) by blast
    then show "4096 dvd x" "x < 0x40000000" "x \<notin> free_of s'" using tree_range [OF t(1) q(2)] s'(2) by auto
  next
    fix k :: nat assume "k < 512"
    moreover have "\<not> contains 0 HUGE_PAGE" by (simp add: contains_bit)
    ultimately show "\<not> contains (tables s' r k) HUGE_PAGE" using t(1) unfolding tree_def s'(1) by auto
  qed
qed

subsection \<open>Writing a leaf\<close>

lemma leaf_walks:
  assumes t: "tree g s r" "tab g (tables s) r p = Some t" "length p = 3" and T': "T' = (tables s)(t := (tables s t)(i := e))"
  shows "tab g T' r = tab g (tables s) r"
    "lpath q \<Longrightarrow> leaf_at g T' r q = (if q = p @ [i] then if is_present e then Some (0, e) else None else leaf_at g (tables s) r q)"
proof -
  have un: "T' x k = tables s x k" if "x \<noteq> 1" "\<not> (x = t \<and> k = i)" for x k using that by (auto simp: T')
  have us: "\<not> window_path p \<or> \<not> sealed (tables s t)" using t(3) by simp
  note thr = through_walk [OF t(1,2) us un unaligned_unreached [OF t(1)], simplified]
    and oth = other_walk [OF t(1,2) us un unaligned_unreached [OF t(1)], simplified]
  have ti: "T' t i = e" by (simp add: T')
  show "tab g T' r = tab g (tables s) r"
  proof
    fix q show "tab g T' r q = tab g (tables s) r q"
    proof (cases "tpath q")
      case True
      then have "\<not> (\<exists>z. q = p @ i # z)" using t(3) by (auto simp: tpath_def)
      then show ?thesis using oth(1) [where q = q and i = i] True by (simp add: tab_def)
    qed (simp add: tab_def)
  qed
  show "leaf_at g T' r q = (if q = p @ [i] then if is_present e then Some (0, e) else None else leaf_at g (tables s) r q)" if l: "lpath q"
  proof (cases "\<exists>z. q = p @ i # z")
    case True
    then obtain z where z: "q = p @ i # z" by blast
    have "z = []" using z l t(3) by (simp add: lpath_def)
    then show ?thesis using z thr(2) [where z = z] ti by simp
  next
    case False
    then show ?thesis using oth(2) [where q = q] lpath_take [OF l] l by (auto simp: lpath_def)
  qed
qed

lemma tree_leaf:
  assumes t: "tree g s r" "tab g (tables s) r p = Some t" "length p = 3"
    and s': "tables s' = (tables s)(t := (tables s t)(i := e))" "free_of s' = free_of s"
  shows "tree g s' r"
proof -
  have tr: "t \<noteq> r" using tree_inj [OF t(1,2), of "[]"] t(3) by auto
  have "a = b \<or> window_path a \<and> window_path b \<and> sealed (tables s' x)"
    if "tab g (tables s) r a = Some x" "tab g (tables s) r b = Some x" for a b x
  proof (cases "x = t")
    case True
    then have "p = a" using tree_inj [OF t(1,2), of a] that t(3) by simp
    moreover have "p = b" using True tree_inj [OF t(1,2), of b] that t(3) by simp
    ultimately show ?thesis by simp
  qed (use tree_dup [OF t(1) that] s'(1) in simp)
  then show ?thesis using t(1) tr leaf_walks(1) [OF t s'(1)] unfolding tree_def s'(2) by (simp add: s'(1))
qed

subsection \<open>Trees that do not contain a changed table\<close>

lemma foreign_walks:
  assumes "\<And>x k. x \<notin> F \<Longrightarrow> same_entry (T' x k) (T x k)" "\<And>q x. tab g T r q = Some x \<Longrightarrow> x \<notin> F"
  shows "tab g T' r = tab g T r" "lpath q \<Longrightarrow> leaf_at g T' r q = leaf_at g T r q"
proof -
  have e: "same_entry (T' x (q ! j)) (T x (q ! j))" if "tpath (take j q)" "table_at g T r (take j q) = Some x" for q j x
    using that assms(2) [of "take j q" x] by (intro assms(1)) (simp add: tab_def)
  show "tab g T' r = tab g T r"
  proof
    fix q show "tab g T' r q = tab g T r q" using table_at_cong [of q g T r T'] e by (auto simp: tab_def)
  qed
  show "leaf_at g T' r q = leaf_at g T r q" if "lpath q"
    using that e by (intro leaf_at_cong) (auto simp: lpath_def intro!: e lpath_take [OF that])
qed

lemma tree_foreign:
  assumes t: "tree g s r" and F: "\<And>x k. x \<notin> F \<Longrightarrow> tables s' x k = tables s x k" "\<And>q x. tab g (tables s) r q = Some x \<Longrightarrow> x \<notin> F"
    and fr: "\<And>q x. tab g (tables s) r q = Some x \<Longrightarrow> x \<notin> free_of s'"
  shows "tree g s' r"
proof -
  have "r \<notin> F" using F(2) [of "[]" r] by simp
  moreover have "tab g (tables s') r = tab g (tables s) r" by (rule foreign_walks(1) [where F = F]) (use F in auto)
  moreover have "sealed (tables s' x)" if "tab g (tables s) r q = Some x" "sealed (tables s x)" for q x
    using that F(1) [OF F(2) [OF that(1)]] by (simp add: sealed_def)
  ultimately show ?thesis using t fr F(1) unfolding tree_def by (metis (no_types))
qed

end
