(* ===== verification/VmmSpace.thy ===== *)
theory VmmSpace
  imports VmmTree
begin

text \<open>
  Several page tables at once: the invariant that what a process maps is private to it, and what mapping and
  unmapping do to every tree, to the tables and to the free frames, on every outcome.
\<close>

unbundle bit_operations_syntax

section \<open>Several address spaces\<close>

definition owned_of :: "vm_state \<Rightarrow> nat set" where
  "owned_of s = addrs (frames_in (frames s) Allocated)"

text \<open>The tables that the lower half of a tree reaches, the root among them, belong to no other tree.\<close>

definition user_path :: "nat list \<Rightarrow> bool" where
  "user_path q \<longleftrightarrow> q = [] \<or> hd q < 256"

definition exclusive :: "AddressSpaceGeometry \<Rightarrow> vm_state \<Rightarrow> nat set \<Rightarrow> nat \<Rightarrow> nat \<Rightarrow> bool" where
  "exclusive g s R r t \<longleftrightarrow> (\<forall>r'\<in>R. r' \<noteq> r \<longrightarrow> (\<forall>q. tab g (tables s) r' q \<noteq> Some t))"

definition spaces :: "AddressSpaceGeometry \<Rightarrow> vm_state \<Rightarrow> nat set \<Rightarrow> bool" where
  "spaces g s R \<longleftrightarrow> pmm_inv (frames s) \<and> (\<forall>r\<in>R. tree g s r)
     \<and> (\<forall>r\<in>R. \<forall>q t. tab g (tables s) r q = Some t \<longrightarrow> user_path q \<longrightarrow> exclusive g s R r t)"

definition same_leaves :: "AddressSpaceGeometry \<Rightarrow> nat set \<Rightarrow> vm_state \<Rightarrow> vm_state \<Rightarrow> bool" where
  "same_leaves g R s s' \<longleftrightarrow> (\<forall>r\<in>R. \<forall>q. lpath q \<longrightarrow> leaf_at g (tables s') r q = leaf_at g (tables s) r q)"

lemma spaces_tree: "spaces g s R \<Longrightarrow> r \<in> R \<Longrightarrow> tree g s r"
  by (simp add: spaces_def)

lemma exclusive_user: "spaces g s R \<Longrightarrow> r \<in> R \<Longrightarrow> tab g (tables s) r q = Some t \<Longrightarrow> user_path q \<Longrightarrow> exclusive g s R r t"
  by (simp add: spaces_def)

lemma exclusive_alone: "exclusive g s {r} r t"
  by (simp add: exclusive_def)

lemma exclusive_free: "spaces g s R \<Longrightarrow> f \<in> free_of s \<Longrightarrow> exclusive g s R r f"
  unfolding exclusive_def using tree_range spaces_tree by blast

lemma exclusive_cong: "(\<And>r'. r' \<in> R \<Longrightarrow> r' \<noteq> r \<Longrightarrow> tab g (tables s') r' = tab g (tables s) r') \<Longrightarrow> exclusive g s' R r t = exclusive g s R r t"
  by (simp add: exclusive_def)

text \<open>A change of exclusive tables of one tree: the others keep their tables and leaves.\<close>

lemma spaces_change:
  assumes sp: "spaces g s R" "r \<in> R" and F: "\<forall>x k. x \<notin> F \<longrightarrow> tables s' x k = tables s x k" "\<forall>x\<in>F. exclusive g s R r x"
    and fr: "free_of s' \<subseteq> free_of s \<union> F" and r: "pmm_inv (frames s')" "tree g s' r"
    and new: "\<forall>q t. tab g (tables s') r q = Some t \<longrightarrow> tab g (tables s) r q = Some t \<or> exclusive g s R r t"
  shows "spaces g s' R" "r' \<in> R \<Longrightarrow> r' \<noteq> r \<Longrightarrow> tab g (tables s') r' = tab g (tables s) r'"
    "r' \<in> R \<Longrightarrow> r' \<noteq> r \<Longrightarrow> lpath q \<Longrightarrow> leaf_at g (tables s') r' q = leaf_at g (tables s) r' q"
proof -
  have nF: "x \<notin> F" if "r' \<in> R" "r' \<noteq> r" "tab g (tables s) r' q = Some x" for r' q x using F(2) that by (auto simp: exclusive_def)
  have w: "tab g (tables s') r' = tab g (tables s) r'" "lpath q \<Longrightarrow> leaf_at g (tables s') r' q = leaf_at g (tables s) r' q"
    if "r' \<in> R" "r' \<noteq> r" for r' q
    by (rule foreign_walks [where F = F], use F(1) nF that in auto)+
  then show "r' \<in> R \<Longrightarrow> r' \<noteq> r \<Longrightarrow> tab g (tables s') r' = tab g (tables s) r'"
    "r' \<in> R \<Longrightarrow> r' \<noteq> r \<Longrightarrow> lpath q \<Longrightarrow> leaf_at g (tables s') r' q = leaf_at g (tables s) r' q" by blast+
  have tr: "tree g s' r'" if "r' \<in> R" for r'
  proof (cases "r' = r")
    case False
    show ?thesis
    proof (rule tree_foreign [OF spaces_tree [OF sp(1) that], where F = F])
      show "x \<notin> free_of s'" if "tab g (tables s) r' q = Some x" for q x
        using tree_range [OF spaces_tree [OF sp(1) \<open>r' \<in> R\<close>] that] nF [OF \<open>r' \<in> R\<close> False that] fr by blast
    qed (use F(1) nF [OF that False] in auto)
  qed (use r in simp)
  show "spaces g s' R"
    unfolding spaces_def
  proof (intro conjI ballI allI impI)
    fix a q t assume a: "a \<in> R" "tab g (tables s') a q = Some t" "user_path q"
    show "exclusive g s' R a t"
      unfolding exclusive_def
    proof (intro ballI impI allI)
      fix b q' assume b: "b \<in> R" "b \<noteq> a"
      show "tab g (tables s') b q' \<noteq> Some t"
      proof
        assume t: "tab g (tables s') b q' = Some t"
        consider "a = r" | "a \<noteq> r" "b = r" | "a \<noteq> r" "b \<noteq> r" by blast
        then show False
        proof cases
          case 1
          then have "exclusive g s R r t" using new a exclusive_user [OF sp, of q t] by auto
          then show False using 1 b t w(1) [of b] by (auto simp: exclusive_def)
        next
          case 2
          have ta: "tab g (tables s) a q = Some t" using a(2) w(1) [OF a(1)] 2 by simp
          have "\<not> exclusive g s R r t" using ta a(1) 2(1) by (auto simp: exclusive_def)
          then have "tab g (tables s) r q' = Some t" using new t 2(2) by blast
          then show False using exclusive_user [OF sp(1) a(1) ta a(3)] sp(2) 2(1) by (auto simp: exclusive_def)
        next
          case 3
          then have "tab g (tables s) a q = Some t" "tab g (tables s) b q' = Some t" using a t b w(1) by simp_all
          then show False using exclusive_user [OF sp(1) a(1) _ a(3)] b by (auto simp: exclusive_def)
        qed
      qed
    qed
  qed (use r tr in auto)
qed

section \<open>Frames\<close>

lemma frame_facts:
  assumes "pmm_inv p" "f \<in> addrs (frames_in p st)" shows "4096 dvd f" "f < 0x10000000"
  using assms frame_bound [OF assms(1)] by auto

lemma free_frame_effect:
  assumes "pmm_inv p"
  shows "pmm_inv (snd (free_frame a p))"
    "addrs (frames_in (snd (free_frame a p)) Free) = addrs (frames_in p Free) \<union> ({a} \<inter> addrs (frames_in p Allocated))"
    "addrs (frames_in (snd (free_frame a p)) Allocated) = addrs (frames_in p Allocated) - {a}"
proof -
  have "pmm_inv (snd (free_frame a p))
    \<and> addrs (frames_in (snd (free_frame a p)) Free) = addrs (frames_in p Free) \<union> ({a} \<inter> addrs (frames_in p Allocated))
    \<and> addrs (frames_in (snd (free_frame a p)) Allocated) = addrs (frames_in p Allocated) - {a}"
  proof (cases "a \<in> addrs (frames_in p Allocated)")
    case True
    then show ?thesis using pmm_fa.release_ok [OF assms True] by auto
  next
    case False
    then have "snd (free_frame a p) = p"
      by (auto simp: free_frame_def Let_def frames_in_def image_iff split: FrameState.splits)
    then show ?thesis using assms False by auto
  qed
  then show "pmm_inv (snd (free_frame a p))"
    "addrs (frames_in (snd (free_frame a p)) Free) = addrs (frames_in p Free) \<union> ({a} \<inter> addrs (frames_in p Allocated))"
    "addrs (frames_in (snd (free_frame a p)) Allocated) = addrs (frames_in p Allocated) - {a}" by simp_all
qed

lemma free_owned_disjoint: "spaces g s R \<Longrightarrow> free_of s \<inter> owned_of s = {}"
  using pmm_fa.free_not_owned [of "frames s"] by (simp add: spaces_def free_of_def owned_of_def)

lemma drop_table_sel:
  assumes "pmm_inv (frames s)"
  shows "tables (drop_table t i f s) = (tables s)(t := (tables s t)(i := 0))" "pmm_inv (frames (drop_table t i f s))"
    "free_of (drop_table t i f s) = free_of s \<union> ({f} \<inter> owned_of s)" "owned_of (drop_table t i f s) = owned_of s - {f}"
    "cr3 (drop_table t i f s) = cr3 s" "master_pml4 (drop_table t i f s) = master_pml4 s"
  using free_frame_effect [OF assms, of f] by (simp_all add: drop_table_def Let_def free_of_def owned_of_def)

section \<open>The steps of mapping and unmapping\<close>

text \<open>Nothing that a walk or the frame allocator could tell apart.\<close>

definition restored :: "AddressSpaceGeometry \<Rightarrow> nat set \<Rightarrow> vm_state \<Rightarrow> vm_state \<Rightarrow> bool" where
  "restored g R s s' \<longleftrightarrow> spaces g s' R \<and> free_of s' = free_of s \<and> owned_of s' = owned_of s
     \<and> (\<forall>r\<in>R. tab g (tables s') r = tab g (tables s) r)
     \<and> (\<forall>r\<in>R. \<forall>q t k. tab g (tables s) r q = Some t \<longrightarrow> same_entry (tables s' t k) (tables s t k))"

lemma restored_refl: "spaces g s R \<Longrightarrow> restored g R s s"
  by (simp add: restored_def)

lemma restored_leaves: "restored g R s s' \<Longrightarrow> same_leaves g R s s'"
  unfolding same_leaves_def
proof (intro ballI allI impI)
  fix r q assume a: "restored g R s s'" "r \<in> R" "lpath q"
  show "leaf_at g (tables s') r q = leaf_at g (tables s) r q"
    by (rule foreign_walks(2) [where F = "{x. \<forall>q. tab g (tables s) r q \<noteq> Some x}"]) (use a in \<open>auto simp: restored_def\<close>)
qed

text \<open>What a step that linked a fresh table did.\<close>

definition linked :: "AddressSpaceGeometry \<Rightarrow> nat set \<Rightarrow> nat \<Rightarrow> nat list \<Rightarrow> nat \<Rightarrow> nat \<Rightarrow> nat \<Rightarrow> vm_state \<Rightarrow> vm_state \<Rightarrow> bool" where
  "linked g R r p t i f s s' \<longleftrightarrow> \<not> is_present (tables s t i) \<and> f \<in> free_of s
     \<and> (\<exists>e. tables s' = (tables s)(f := empty_table, t := (tables s t)(i := e)))
     \<and> free_of s' = free_of s - {f} \<and> owned_of s' = insert f (owned_of s) \<and> spaces g s' R \<and> same_leaves g R s s'
     \<and> tab g (tables s') r = (tab g (tables s) r)(p @ [i] := Some f)
     \<and> (\<forall>r'\<in>R. r' \<noteq> r \<longrightarrow> tab g (tables s') r' = tab g (tables s) r') \<and> exclusive g s' R r f"

lemma spaces_link:
  assumes sp: "spaces g s R" "r \<in> R" and t: "tab g (tables s) r p = Some t" "tpath (p @ [i])" "exclusive g s R r t" "\<not> is_present (tables s t i)"
    and f: "f \<in> free_of s" and e: "is_present e" "\<not> contains e HUGE_PAGE" "table_addr g e = f"
    and s': "tables s' = (tables s)(f := empty_table, t := (tables s t)(i := e))" "free_of s' = free_of s - {f}"
    "owned_of s' = insert f (owned_of s)" "pmm_inv (frames s')"
  shows "linked g R r p t i f s s'"
proof -
  have fa: "4096 dvd f" "f < 0x40000000" using frame_facts [of "frames s" f Free] sp(1) f by (simp_all add: spaces_def free_of_def)
  note tr = spaces_tree [OF sp]
  note w = link_walks [OF tr t(1,2,4) f e s'(1)]
  have ef: "exclusive g s R r f" by (rule exclusive_free [OF sp(1) f])
  have tr': "tree g s' r" by (rule tree_link [OF tr t(1,2,4) f fa e s'(1,2)])
  have F: "\<forall>x k. x \<notin> {f, t} \<longrightarrow> tables s' x k = tables s x k" "\<forall>x\<in>{f, t}. exclusive g s R r x"
    "free_of s' \<subseteq> free_of s \<union> {f, t}" using s' ef t(3) by auto
  have new: "\<forall>q x. tab g (tables s') r q = Some x \<longrightarrow> tab g (tables s) r q = Some x \<or> exclusive g s R r x"
    using ef unfolding w(1) by (auto split: if_splits)
  note ch = spaces_change [OF sp F s'(4) tr' new]
  have "same_leaves g R s s'" unfolding same_leaves_def using ch(3) w(2) by metis
  moreover have "exclusive g s' R r f" using ef ch(2) by (simp add: exclusive_def)
  ultimately show ?thesis unfolding linked_def using t(4) f s' ch w(1) by blast
qed

lemma spaces_cut:
  assumes sp: "spaces g s R" "r \<in> R" and t: "tab g (tables s) r p = Some t" "tab g (tables s) r (p @ [i]) = Some f"
    "exclusive g s R r t" "exclusive g s R r f" "\<forall>k<512. \<not> is_present (tables s f k)"
  shows "spaces g (drop_table t i f s) R" "same_leaves g R s (drop_table t i f s)"
    "tab g (tables (drop_table t i f s)) r = (tab g (tables s) r)(p @ [i] := None)"
    "r' \<in> R \<Longrightarrow> r' \<noteq> r \<Longrightarrow> tab g (tables (drop_table t i f s)) r' = tab g (tables s) r'"
proof -
  let ?s = "drop_table t i f s"
  have pi: "pmm_inv (frames s)" using sp(1) by (simp add: spaces_def)
  note d = drop_table_sel [OF pi, of t i f] and tr = spaces_tree [OF sp]
  note w = cut_walks [OF tr t(1,2,5) d(1)]
  have tr': "tree g ?s r" by (rule tree_cut [OF tr t(1,2,5) d(1)]) (use d(3) in auto)
  have F: "\<forall>x k. x \<notin> {f, t} \<longrightarrow> tables ?s x k = tables s x k" "\<forall>x\<in>{f, t}. exclusive g s R r x"
    "free_of ?s \<subseteq> free_of s \<union> {f, t}" using d t(3,4) by auto
  have new: "\<forall>q x. tab g (tables ?s) r q = Some x \<longrightarrow> tab g (tables s) r q = Some x \<or> exclusive g s R r x"
    unfolding w(1) by (auto split: if_splits)
  note ch = spaces_change [OF sp F d(2) tr' new]
  show "spaces g ?s R" by (fact ch(1))
  show "tab g (tables ?s) r = (tab g (tables s) r)(p @ [i] := None)" by (fact w(1))
  show "r' \<in> R \<Longrightarrow> r' \<noteq> r \<Longrightarrow> tab g (tables ?s) r' = tab g (tables s) r'" by (fact ch(2))
  show "same_leaves g R s ?s" unfolding same_leaves_def using ch(3) w(2) by metis
qed

lemma spaces_leaf:
  assumes sp: "spaces g s R" "r \<in> R" and t: "tab g (tables s) r p = Some t" "length p = 3" "exclusive g s R r t"
  shows "spaces g (write_entry t i e s) R" "r' \<in> R \<Longrightarrow> tab g (tables (write_entry t i e s)) r' = tab g (tables s) r'"
    "r' \<in> R \<Longrightarrow> lpath q \<Longrightarrow> leaf_at g (tables (write_entry t i e s)) r' q =
       (if r' = r \<and> q = p @ [i] then if is_present e then Some (0, e) else None else leaf_at g (tables s) r' q)"
proof -
  let ?s = "write_entry t i e s"
  note tr = spaces_tree [OF sp] and w = leaf_walks [OF spaces_tree [OF sp] t(1,2) tables_write_entry(1) [of t i e s]]
  have fr: "free_of ?s = free_of s" "pmm_inv (frames ?s)" using sp(1) by (simp_all add: free_of_def spaces_def)
  have tr': "tree g ?s r" by (rule tree_leaf [OF tr t(1,2) tables_write_entry(1) fr(1)])
  have F: "\<forall>x k. x \<notin> {t} \<longrightarrow> tables ?s x k = tables s x k" "\<forall>x\<in>{t}. exclusive g s R r x"
    "free_of ?s \<subseteq> free_of s \<union> {t}" using fr t(3) by auto
  have new: "\<forall>q x. tab g (tables ?s) r q = Some x \<longrightarrow> tab g (tables s) r q = Some x \<or> exclusive g s R r x"
    using w(1) by simp
  note ch = spaces_change [OF sp F fr(2) tr' new]
  show "spaces g ?s R" by (fact ch(1))
  show "r' \<in> R \<Longrightarrow> tab g (tables ?s) r' = tab g (tables s) r'" using ch(2) w(1) by (cases "r' = r") simp_all
  show "r' \<in> R \<Longrightarrow> lpath q \<Longrightarrow> leaf_at g (tables ?s) r' q =
       (if r' = r \<and> q = p @ [i] then if is_present e then Some (0, e) else None else leaf_at g (tables s) r' q)"
    using ch(3) w(2) by (cases "r' = r") simp_all
qed

lemma window: "spaces g s R \<Longrightarrow> r \<in> R \<Longrightarrow> tab g (tables s) r q = Some t \<Longrightarrow> phys_to_virt_table t s = Some (tables s t)"
  using tree_range [OF spaces_tree] by (auto simp: phys_to_virt_table_def HHDM_SIZE_def)

lemma descend_cases:
  assumes g: "geom_ok g" and sp: "spaces g s R" "r \<in> R" and t: "tab g (tables s) r p = Some t" "tpath (p @ [i])" "exclusive g s R r t"
  obtains (oom) "descend g (p \<noteq> []) (link_flags d) t i s = Some (Err OutOfMemory, s)" "\<not> is_present (tables s t i)" "free_of s = {}"
  | (huge) "descend g (p \<noteq> []) (link_flags d) t i s = Some (Err HugePageUnsupported, s)" "is_present (tables s t i)" "contains (tables s t i) HUGE_PAGE"
  | (old) f where "descend g (p \<noteq> []) (link_flags d) t i s = Some (Ok (f, False), s)" "tab g (tables s) r (p @ [i]) = Some f"
  | (new) f s' where "descend g (p \<noteq> []) (link_flags d) t i s = Some (Ok (f, True), s')" "linked g R r p t i f s s'"
proof (cases "is_present (tables s t i)")
  case True
  show thesis
  proof (cases "p \<noteq> [] \<and> contains (tables s t i) HUGE_PAGE")
    case h: True
    then show thesis using that(2) True window [OF sp t(1)] by (simp add: descend_def)
  next
    case False
    have nh: "\<not> contains (tables s t i) HUGE_PAGE"
    proof (cases "p = []")
      case True
      then show ?thesis using t spaces_tree [OF sp] by (auto simp: tree_def tpath_def)
    qed (use False in simp)
    then have "tab g (tables s) r (p @ [i]) = Some (table_addr g (tables s t i))" using True t(1) tab_snoc [OF t(2)] by simp
    then show thesis using that(3) nh True window [OF sp t(1)] by (simp add: descend_def points_to_frame_eq)
  qed
next
  case False
  have pi: "pmm_inv (frames s)" using sp(1) by (simp add: spaces_def)
  show thesis
  proof (cases "free_of s = {}")
    case True
    then have "alloc_frame (frames s) = Some (None, frames s)" using pmm_fa.alloc_empty [OF pi] by (simp add: free_of_def)
    then show thesis using that(1) True False window [OF sp t(1)] by (simp add: descend_def)
  next
    case ne: False
    then obtain f p' where f: "alloc_frame (frames s) = Some (Some f, p')" "f \<in> free_of s" "pmm_inv p'"
      "addrs (frames_in p' Free) = free_of s - {f}" "addrs (frames_in p' Allocated) = insert f (owned_of s)"
      using pmm_fa.alloc_some [OF pi] by (auto simp: free_of_def owned_of_def)
    have fa: "4096 dvd f" "f < 0x10000000" using frame_facts [OF pi, of f Free] f(2) by (simp_all add: free_of_def)
    have v: "is_valid_phys_frame g f" using small_frame_valid [OF g fa(1)] fa(2) by simp
    define e where "e = (word_of_nat f AND physical_mask g) OR link_flags d"
    have fm: "f \<le> U64_MAX" using fa(2) by simp
    note le = link_entry [OF g v fm e_def]
    define s' where "s' = write_entry t i e (zero_table f (s\<lparr>frames := p'\<rparr>))"
    have tf: "t \<noteq> f" using tree_range [OF spaces_tree [OF sp] t(1)] f(2) by blast
    have "descend g (p \<noteq> []) (link_flags d) t i s = Some (Ok (f, True), s')"
      using False window [OF sp t(1)] f(1) v fa(2) by (simp add: descend_def entry_set_def s'_def e_def phys_to_virt_table_def HHDM_SIZE_def)
    moreover have "linked g R r p t i f s s'"
      by (rule spaces_link [OF sp t False f(2) le]) (use f tf in \<open>simp_all add: s'_def free_of_def owned_of_def\<close>)
    ultimately show thesis by (rule that(4))
  qed
qed

text \<open>Removing a freshly linked table, when everything since was restored, restores everything.\<close>

lemma undo_new:
  assumes sp: "spaces g s R" "r \<in> R" and t: "tab g (tables s) r p = Some t" "tpath (p @ [i])" "exclusive g s R r t"
    and l: "linked g R r p t i f s s1" and re: "restored g R s1 s2"
  shows "restored g R s (drop_table t i f s2)"
proof -
  obtain e where l: "\<not> is_present (tables s t i)" "f \<in> free_of s" "tables s1 = (tables s)(f := empty_table, t := (tables s t)(i := e))"
    "free_of s1 = free_of s - {f}" "owned_of s1 = insert f (owned_of s)" "spaces g s1 R"
    "tab g (tables s1) r = (tab g (tables s) r)(p @ [i] := Some f)"
    "\<And>r'. r' \<in> R \<Longrightarrow> r' \<noteq> r \<Longrightarrow> tab g (tables s1) r' = tab g (tables s) r'" "exclusive g s1 R r f"
    using l by (auto simp: linked_def)
  have r2: "spaces g s2 R" "free_of s2 = free_of s1" "owned_of s2 = owned_of s1" "\<And>r'. r' \<in> R \<Longrightarrow> tab g (tables s2) r' = tab g (tables s1) r'"
    "\<And>r' q x k. r' \<in> R \<Longrightarrow> tab g (tables s1) r' q = Some x \<Longrightarrow> same_entry (tables s2 x k) (tables s1 x k)"
    using re by (auto simp: restored_def)
  have tf: "t \<noteq> f" using tree_range [OF spaces_tree [OF sp] t(1)] l(2) by blast
  have ex: "exclusive g s2 R r t" "exclusive g s2 R r f" using t(3) l(8,9) r2(4) by (simp_all add: exclusive_def)
  have t2: "tab g (tables s2) r p = Some t" "tab g (tables s2) r (p @ [i]) = Some f" using t(1) l(7) r2(4) [OF sp(2)] by simp_all
  have "same_entry (tables s2 f k) 0" for k using r2(5) [OF sp(2), of "p @ [i]" f k] l(3,7) tf by simp
  then have em: "\<forall>k<512. \<not> is_present (tables s2 f k)" by (metis same_entry_def not_present_0)
  note c = spaces_cut [OF r2(1) sp(2) t2 ex em]
  have old: "tab g (tables s) r (p @ [i]) = None" using tab_snoc [OF t(2)] t(1) l(1) by simp
  have no: "f \<notin> owned_of s" using l(2) free_owned_disjoint [OF sp(1)] by blast
  note d = drop_table_sel [of s2 t i f]
  have pi: "pmm_inv (frames s2)" using r2(1) by (simp add: spaces_def)
  show ?thesis unfolding restored_def
  proof (intro conjI ballI allI impI)
    show "spaces g (drop_table t i f s2) R" by (fact c(1))
    show "free_of (drop_table t i f s2) = free_of s" "owned_of (drop_table t i f s2) = owned_of s"
      using d(3,4) [OF pi] l(2,4,5) r2(2,3) no by auto
    show "tab g (tables (drop_table t i f s2)) r' = tab g (tables s) r'" if "r' \<in> R" for r'
      using c(3,4) l(7,8) r2(4) that old by (cases "r' = r") (auto simp: fun_upd_idem_iff)
    show "same_entry (tables (drop_table t i f s2) x k) (tables s x k)" if x: "r' \<in> R" "tab g (tables s) r' q = Some x" for r' q x k
    proof -
      have xf: "x \<noteq> f" using tree_range [OF spaces_tree [OF sp(1) x(1)] x(2)] l(2) by blast
      have "tab g (tables s1) r' q = Some x" using l(7,8) x old by (cases "r' = r") auto
      then have "same_entry (tables s2 x k) (tables s1 x k)" using r2(5) x(1) by blast
      then show ?thesis using d(1) [OF pi] l(1,3) xf by (auto simp: same_entry_def)
    qed
  qed
qed

lemma undo_restores:
  assumes "spaces g s R" "r \<in> R" "tab g (tables s) r p = Some t" "tpath (p @ [i])" "exclusive g s R r t"
    "if a then linked g R r p t i f s s1 else s1 = s" "restored g R s1 s2"
  shows "restored g R s (undo a t i f s2)"
  using assms undo_new [OF assms(1-5)] by (simp add: undo_def split: if_splits)

section \<open>Mapping a page\<close>

abbreviation tabs :: "AddressSpaceGeometry \<Rightarrow> vm_state \<Rightarrow> nat \<Rightarrow> nat set" where
  "tabs g s r \<equiv> ran (tab g (tables s) r)"

text \<open>A tree that got further tables, each from a frame that was free.\<close>

definition grew :: "AddressSpaceGeometry \<Rightarrow> nat set \<Rightarrow> nat \<Rightarrow> vm_state \<Rightarrow> vm_state \<Rightarrow> bool" where
  "grew g R r s s' \<longleftrightarrow> spaces g s' R \<and> (tab g (tables s) r \<subseteq>\<^sub>m tab g (tables s') r)
     \<and> (\<forall>r'\<in>R. r' \<noteq> r \<longrightarrow> tab g (tables s') r' = tab g (tables s) r')
     \<and> tabs g s' r - tabs g s r \<subseteq> free_of s \<and> free_of s' = free_of s - (tabs g s' r - tabs g s r)
     \<and> owned_of s' = owned_of s \<union> (tabs g s' r - tabs g s r)"

lemma grew_refl: "spaces g s R \<Longrightarrow> grew g R r s s"
  by (simp add: grew_def)

lemma map_le_ran: "m \<subseteq>\<^sub>m m' \<Longrightarrow> ran m \<subseteq> ran m'"
  by (auto simp: map_le_def ran_def) (metis domI)

lemma grew_trans:
  assumes "grew g R r s s1" "grew g R r s1 s2" shows "grew g R r s s2"
proof -
  have r: "tabs g s r \<subseteq> tabs g s1 r" "tabs g s1 r \<subseteq> tabs g s2 r" using assms by (auto simp: grew_def dest: map_le_ran)
  have e: "tabs g s2 r - tabs g s r = (tabs g s2 r - tabs g s1 r) \<union> (tabs g s1 r - tabs g s r)" using r by blast
  have "tab g (tables s) r \<subseteq>\<^sub>m tab g (tables s2) r" using assms map_le_trans by (auto simp: grew_def)
  then show ?thesis using assms unfolding grew_def e by auto
qed

lemma linked_grew:
  assumes "spaces g s R" "r \<in> R" "tab g (tables s) r p = Some t" "tpath (p @ [i])" "linked g R r p t i f s s'"
  shows "grew g R r s s'"
proof -
  have l: "f \<in> free_of s" "free_of s' = free_of s - {f}" "owned_of s' = insert f (owned_of s)"
    "tab g (tables s') r = (tab g (tables s) r)(p @ [i] := Some f)" "\<not> is_present (tables s t i)" using assms(5) by (auto simp: linked_def)
  have n: "tab g (tables s) r (p @ [i]) = None" using tab_snoc [OF assms(4)] assms(3) l(5) by simp
  have "f \<notin> tabs g s r" using l(1) tree_range [OF spaces_tree [OF assms(1,2)]] by (auto simp: ran_def)
  then have "tabs g s' r - tabs g s r = {f}" unfolding l(4) using n by (auto simp: ran_map_upd)
  then show ?thesis using assms(5) l n unfolding grew_def by (auto simp: linked_def map_le_def domIff)
qed

definition vpath :: "u64 \<Rightarrow> nat list" where
  "vpath v = [p4_index v, p3_index v, p2_index v, p1_index v]"

lemma index_bounds [simp]: "p4_index v < 512" "p3_index v < 512" "p2_index v < 512" "p1_index v < 512"
proof -
  have "unat (w AND 0x1FF :: u64) < 512" for w
  proof -
    have "(w AND 0x1FF :: u64) \<le> 0x1FF" by (rule word_and_le1)
    then show ?thesis by (simp add: word_le_nat_alt)
  qed
  then show "p4_index v < 512" "p3_index v < 512" "p2_index v < 512" "p1_index v < 512"
    by (simp_all add: p4_index_def p3_index_def p2_index_def p1_index_def)
qed

lemma lpath_vpath [simp]: "lpath (vpath v)"
  by (simp add: lpath_def vpath_def)

lemma tpath_v [simp]: "tpath [p4_index v]" "tpath [p4_index v, p3_index v]" "tpath [p4_index v, p3_index v, p2_index v]"
  by (simp_all add: tpath_def)

text \<open>The pages whose tables one address space may change: all of them when it is the only one, otherwise the lower half.\<close>

definition owns :: "nat set \<Rightarrow> nat \<Rightarrow> u64 \<Rightarrow> bool" where
  "owns R r v \<longleftrightarrow> r \<in> R \<and> (R = {r} \<or> p4_index v < 256)"

lemma owns_exclusive:
  assumes "spaces g s R" "owns R r v" "tab g (tables s) r q = Some t" "q = [] \<or> hd q = p4_index v"
  shows "exclusive g s R r t"
  using assms exclusive_user [OF assms(1) _ assms(3)] exclusive_alone by (auto simp: owns_def user_path_def)

text \<open>One step of the descent, and what it allows to conclude.\<close>

definition stepped :: "AddressSpaceGeometry \<Rightarrow> nat set \<Rightarrow> nat \<Rightarrow> nat list \<Rightarrow> nat \<Rightarrow> nat \<Rightarrow> nat \<Rightarrow> bool \<Rightarrow> vm_state \<Rightarrow> vm_state \<Rightarrow> bool" where
  "stepped g R r p t i f a s s' \<longleftrightarrow>
     (if a then linked g R r p t i f s s' else s' = s \<and> tab g (tables s) r (p @ [i]) = Some f)"

lemma stepped_facts:
  assumes "spaces g s R" "r \<in> R" "tab g (tables s) r p = Some t" "tpath (p @ [i])" "stepped g R r p t i f a s s'"
  shows "spaces g s' R" "same_leaves g R s s'" "tab g (tables s') r (p @ [i]) = Some f" "grew g R r s s'"
    "a \<Longrightarrow> \<not> is_present (tables s' f k)" "\<not> a \<Longrightarrow> s' = s"
proof -
  have "f \<in> free_of s \<Longrightarrow> t \<noteq> f" using tree_range [OF spaces_tree [OF assms(1,2)] assms(3)] by blast
  then show "spaces g s' R" "same_leaves g R s s'" "tab g (tables s') r (p @ [i]) = Some f" "grew g R r s s'"
    "a \<Longrightarrow> \<not> is_present (tables s' f k)" "\<not> a \<Longrightarrow> s' = s"
    using assms(5) linked_grew [OF assms(1-4)] grew_refl [OF assms(1)] assms(1)
    by (auto simp: stepped_def linked_def same_leaves_def split: if_splits)
qed

lemma same_leaves_trans: "same_leaves g R s t \<Longrightarrow> same_leaves g R t u \<Longrightarrow> same_leaves g R s u"
  by (simp add: same_leaves_def)

lemma descend_step:
  assumes g: "geom_ok g" and sp: "spaces g s R" "owns R r v" and t: "tab g (tables s) r p = Some t" "tpath (p @ [i])" "p = [] \<or> hd p = p4_index v"
  obtains (oom) "descend g (p \<noteq> []) (link_flags d) t i s = Some (Err OutOfMemory, s)" "free_of s = {}"
  | (huge) "descend g (p \<noteq> []) (link_flags d) t i s = Some (Err HugePageUnsupported, s)" "is_present (tables s t i)" "contains (tables s t i) HUGE_PAGE"
  | (ok) f a s' where "descend g (p \<noteq> []) (link_flags d) t i s = Some (Ok (f, a), s')" "stepped g R r p t i f a s s'"
proof -
  have r: "r \<in> R" using sp(2) by (simp add: owns_def)
  from g sp(1) r t(1,2) owns_exclusive [OF sp t(1,3)] show thesis
  proof (cases rule: descend_cases [where d = d])
    case (old f) then show thesis using ok [of f False s] by (simp add: stepped_def)
  next
    case (new f s') then show thesis using ok [of f True s'] by (simp add: stepped_def)
  qed (use oom huge in auto)
qed

lemma stepped_undo:
  assumes "spaces g s R" "owns R r v" "tab g (tables s) r p = Some t" "tpath (p @ [i])" "p = [] \<or> hd p = p4_index v"
    "stepped g R r p t i f a s s1" "restored g R s1 s2"
  shows "restored g R s (undo a t i f s2)"
  by (rule undo_restores [OF assms(1) _ assms(3,4) owns_exclusive [OF assms(1-3,5)]]) (use assms in \<open>auto simp: owns_def stepped_def\<close>)

lemma leaf_via_tab:
  "tab g T r p = Some t \<Longrightarrow> leaf_at g T r (p @ i # q) =
     (if \<not> is_present (T t i) then None else if q = [] \<or> contains (T t i) HUGE_PAGE then Some (length q, T t i)
      else leaf_at g T (table_addr g (T t i)) q)"
  using leaf_at_append [of g T r p t "i # q"] tab_SomeD [of g T r p t] by simp

lemma stepped_chain:
  assumes "spaces g s R" "r \<in> R" "tab g (tables s) r p = Some t" "tpath (p @ [i])" "stepped g R r p t i f True s s1"
    "tpath (p @ [i] @ [k])" "stepped g R r (p @ [i]) f k f' a s1 s2"
  shows a
proof (rule ccontr)
  assume "\<not> a"
  then have "tab g (tables s1) r ((p @ [i]) @ [k]) = Some f'" using assms(7) by (simp add: stepped_def)
  then have "is_present (tables s1 f k)"
    using tab_snoc [of "p @ [i]" k g "tables s1" r] assms(6) stepped_facts(3) [OF assms(1-5)] by (auto split: if_splits)
  then show False using stepped_facts(5) [OF assms(1-5)] by simp
qed

lemma stepped_free: "stepped g R r p t i f a s s' \<Longrightarrow> free_of s \<subseteq> insert f (free_of s')"
  by (auto simp: stepped_def linked_def split: if_splits)

lemma map_page_unfold:
  assumes "is_canonical g v" "is_valid_phys_frame g f" "validate_leaf fl g = Ok ()"
  shows "map_page g r v f fl d s =
    (case descend g False (link_flags d) r (p4_index v) s of None \<Rightarrow> None | Some (Inl e, s) \<Rightarrow> Some (Err e, s)
     | Some (Inr (pdpt, a3), s) \<Rightarrow>
     (case descend g True (link_flags d) pdpt (p3_index v) s of None \<Rightarrow> None
      | Some (Inl e, s) \<Rightarrow> Some (Err e, if e = OutOfMemory then undo a3 r (p4_index v) pdpt s else s)
      | Some (Inr (pd, a2), s) \<Rightarrow>
      (case descend g True (link_flags d) pd (p2_index v) s of None \<Rightarrow> None
       | Some (Inl e, s) \<Rightarrow> Some (Err e, if e = OutOfMemory then undo a3 r (p4_index v) pdpt (undo a2 pdpt (p3_index v) pd s) else s)
       | Some (Inr (pt, a1), s) \<Rightarrow> do {
           tbl \<leftarrow> phys_to_virt_table pt s;
           if is_present (tbl (p1_index v))
           then Some (Err AlreadyMapped, undo a3 r (p4_index v) pdpt (undo a2 pdpt (p3_index v) pd (undo a1 pd (p2_index v) pt s)))
           else do {
             e \<leftarrow> entry_set g f (leaf_flags fl d);
             Some (Ok (), write_entry pt (p1_index v) e s)
           }
         })))"
  using assms unfolding map_page_def Let_def link_flags_def by simp

text \<open>Tables changed only along a path.\<close>

definition on_path :: "AddressSpaceGeometry \<Rightarrow> nat \<Rightarrow> nat list \<Rightarrow> vm_state \<Rightarrow> vm_state \<Rightarrow> bool" where
  "on_path g r p s s' \<longleftrightarrow> (\<forall>q. tab g (tables s') r q \<noteq> tab g (tables s) r q \<longrightarrow> (\<exists>z. p = q @ z))"

lemma on_path_extend: "on_path g r p s s' \<Longrightarrow> on_path g r (p @ p') s s'"
  by (fastforce simp: on_path_def)

lemma stepped_on_path: "on_path g r p s s1 \<Longrightarrow> stepped g R r p t i f a s1 s2 \<Longrightarrow> on_path g r (p @ [i]) s s2"
  unfolding on_path_def stepped_def linked_def by (fastforce split: if_splits)

text \<open>The outcome of a mapping whose arguments are valid.\<close>

definition map_outcome ::
  "AddressSpaceGeometry \<Rightarrow> nat set \<Rightarrow> nat \<Rightarrow> u64 \<Rightarrow> PageTableEntry \<Rightarrow> vm_state \<Rightarrow> ((VmmError + unit) \<times> vm_state) option \<Rightarrow> bool" where
  "map_outcome g R r v e s out \<longleftrightarrow> (\<exists>res s'. out = Some (res, s') \<and>
     (case leaf_at g (tables s) r (vpath v) of
        Some (0, _) \<Rightarrow> res = Err AlreadyMapped \<and> s' = s
      | Some (Suc _, _) \<Rightarrow> res = Err HugePageUnsupported \<and> s' = s
      | None \<Rightarrow>
          (case res of
             Inl er \<Rightarrow> er = OutOfMemory \<and> card (free_of s) < 3 \<and> restored g R s s'
           | Inr _ \<Rightarrow> grew g R r s s' \<and> on_path g r (vpath v) s s' \<and> (\<forall>r'\<in>R. \<forall>q. lpath q \<longrightarrow>
               leaf_at g (tables s') r' q = (if r' = r \<and> q = vpath v then Some (0, e) else leaf_at g (tables s) r' q)))))"

lemma outcome_oom: "leaf_at g (tables s) r (vpath v) = None \<Longrightarrow> restored g R s s' \<Longrightarrow> card (free_of s) < 3 \<Longrightarrow>
    map_outcome g R r v e s (Some (Err OutOfMemory, s'))"
  by (simp add: map_outcome_def)

lemma not_present_leaf: "tab g T r p = Some t \<Longrightarrow> \<not> is_present (T t i) \<Longrightarrow> vpath v = p @ i # q \<Longrightarrow> leaf_at g T r (vpath v) = None"
  by (simp add: leaf_via_tab)

text \<open>The last step.\<close>

lemma map_last:
  assumes g: "geom_ok g" and sp: "spaces g s R" "owns R r v" and f: "is_valid_phys_frame g f" "f \<le> U64_MAX" "plain_flags g fl"
    and pt: "tab g (tables s) r [p4_index v, p3_index v, p2_index v] = Some pt" "\<not> is_present (tables s pt (p1_index v))"
    and s0: "grew g R r s0 s" "same_leaves g R s0 s" "on_path g r [p4_index v, p3_index v, p2_index v] s0 s" and e: "e = (word_of_nat f AND physical_mask g) OR leaf_flags fl d"
  shows "map_outcome g R r v e s0 (Some (Ok (), write_entry pt (p1_index v) e s))"
proof -
  let ?p = "[p4_index v, p3_index v, p2_index v]" let ?s = "write_entry pt (p1_index v) e s"
  have r: "r \<in> R" using sp(2) by (simp add: owns_def)
  have ex: "exclusive g s R r pt" by (rule owns_exclusive [OF sp pt(1)]) simp
  have l3: "length ?p = 3" by simp
  note l = spaces_leaf [OF sp(1) r pt(1) l3 ex, where i = "p1_index v" and e = e]
  have le: "is_present e" using leaf_entry(1) [OF g f e] .
  have vp: "vpath v = ?p @ [p1_index v]" by (simp add: vpath_def)
  have fr: "free_of ?s = free_of s" "owned_of ?s = owned_of s" by (simp_all add: free_of_def owned_of_def)
  have "grew g R r s ?s" using l(1,2) r fr unfolding grew_def by simp
  then have gr: "grew g R r s0 ?s" using s0(1) grew_trans by blast
  have "leaf_at g (tables s) r (vpath v) = None" by (rule not_present_leaf [OF pt]) (simp add: vpath_def)
  then have n: "leaf_at g (tables s0) r (vpath v) = None" using s0(2) r by (simp add: same_leaves_def)
  have lv: "leaf_at g (tables ?s) r' q = (if r' = r \<and> q = vpath v then Some (0, e) else leaf_at g (tables s0) r' q)"
    if "r' \<in> R" "lpath q" for r' q
    using l(3) [OF that] le s0(2) that vp by (simp add: same_leaves_def)
  have "on_path g r (vpath v) s0 ?s" using on_path_extend [OF s0(3), of "[p1_index v]"] l(2) [OF r] by (simp add: on_path_def vpath_def)
  then show ?thesis unfolding map_outcome_def using gr n lv by simp
qed

text \<open>In the middle of the descent: \<open>A\<close> says whether a table was allocated so far, \<open>rb\<close> is the roll-back up to here.\<close>

definition midway ::
  "AddressSpaceGeometry \<Rightarrow> nat set \<Rightarrow> nat \<Rightarrow> nat list \<Rightarrow> nat \<Rightarrow> bool \<Rightarrow> (vm_state \<Rightarrow> vm_state) \<Rightarrow> vm_state \<Rightarrow> vm_state \<Rightarrow> bool" where
  "midway g R r p t A rb s s1 \<longleftrightarrow> spaces g s1 R \<and> tab g (tables s1) r p = Some t \<and> grew g R r s s1 \<and> same_leaves g R s s1 \<and> on_path g r p s s1
     \<and> (if A then \<forall>k. \<not> is_present (tables s1 t k) else s1 = s \<and> rb = id)
     \<and> (\<forall>s'. restored g R s1 s' \<longrightarrow> restored g R s (rb s')) \<and> card (free_of s) \<le> card (free_of s1) + length p"

lemma midway_start: "spaces g s R \<Longrightarrow> midway g R r [] r False id s s"
  by (simp add: midway_def grew_refl same_leaves_def on_path_def)

lemma midway_step:
  assumes m: "midway g R r p t A rb s s1" and o: "owns R r v" "tpath (p @ [i])" "p = [] \<or> hd p = p4_index v"
    and st: "stepped g R r p t i f a s1 s2"
  shows "midway g R r (p @ [i]) f (A \<or> a) (\<lambda>s'. rb (undo a t i f s')) s s2"
proof -
  have m': "spaces g s1 R" "tab g (tables s1) r p = Some t" "grew g R r s s1" "same_leaves g R s s1"
    "if A then \<forall>k. \<not> is_present (tables s1 t k) else s1 = s \<and> rb = id"
    "\<And>s'. restored g R s1 s' \<Longrightarrow> restored g R s (rb s')" "card (free_of s) \<le> card (free_of s1) + length p"
    using m by (auto simp: midway_def)
  have op: "on_path g r (p @ [i]) s s2" using stepped_on_path [OF _ st] m by (simp add: midway_def)
  have r: "r \<in> R" using o(1) by (simp add: owns_def)
  note sf = stepped_facts [OF m'(1) r m'(2) o(2) st]
  have aA: "A \<Longrightarrow> a"
  proof (rule ccontr)
    assume "A" "\<not> a"
    then have "is_present (tables s1 t i)" using st tab_snoc [OF o(2), of g "tables s1" r] m'(2) by (auto simp: stepped_def split: if_splits)
    then show False using m'(5) \<open>A\<close> by simp
  qed
  have "card (free_of s1) \<le> card (insert f (free_of s2))"
    using stepped_free [OF st] pmm_fa.free_finite [of "frames s2"] sf(1) by (intro card_mono) (auto simp: spaces_def free_of_def)
  also have "\<dots> \<le> Suc (card (free_of s2))" by (rule card_insert_le_m1) simp_all
  finally have c: "card (free_of s) \<le> card (free_of s2) + length (p @ [i])" using m'(7) by simp
  have "if A \<or> a then \<forall>k. \<not> is_present (tables s2 f k) else s2 = s \<and> (\<lambda>s'. rb (undo a t i f s')) = id"
    using aA sf(5,6) m'(5) by (auto simp: undo_def)
  moreover have "restored g R s (rb (undo a t i f s'))" if "restored g R s2 s'" for s'
    by (rule m'(6)) (rule stepped_undo [OF m'(1) o(1) m'(2) o(2,3) st that])
  ultimately show ?thesis unfolding midway_def
    using sf(1,2,3,4) c op grew_trans [OF m'(3)] same_leaves_trans [OF m'(4)] by blast
qed

lemma map_step:
  assumes g: "geom_ok g" and m: "midway g R r p t A rb s s1" and o: "owns R r v" "tpath (p @ [i])" "p = [] \<or> hd p = p4_index v"
    "vpath v = p @ i # q" "q \<noteq> []"
    and K: "\<And>f a s2. stepped g R r p t i f a s1 s2 \<Longrightarrow> map_outcome g R r v e s (K f a s2)"
  shows "map_outcome g R r v e s (case descend g (p \<noteq> []) (link_flags d) t i s1 of None \<Rightarrow> None
     | Some (Inl er, s') \<Rightarrow> Some (Err er, if er = OutOfMemory then rb s' else s') | Some (Inr (f, a), s') \<Rightarrow> K f a s')"
proof -
  have m': "spaces g s1 R" "tab g (tables s1) r p = Some t" "same_leaves g R s s1"
    "if A then \<forall>k. \<not> is_present (tables s1 t k) else s1 = s \<and> rb = id"
    "\<And>s'. restored g R s1 s' \<Longrightarrow> restored g R s (rb s')" "card (free_of s) \<le> card (free_of s1) + length p"
    using m by (auto simp: midway_def)
  have r: "r \<in> R" using o(1) by (simp add: owns_def)
  from g m'(1) o(1) m'(2) o(2,3) show ?thesis
  proof (cases rule: descend_step [where d = d])
    case oom
    have "\<not> is_present (tables s1 t i)" using oom window [OF m'(1) r m'(2)]
      by (auto simp: descend_def split: if_splits option.splits prod.splits)
    then have "leaf_at g (tables s1) r (vpath v) = None" by (rule not_present_leaf [OF m'(2)]) (fact o(4))
    then have "leaf_at g (tables s) r (vpath v) = None" using m'(3) r by (simp add: same_leaves_def)
    moreover have "card (free_of s) < 3" using m'(6) oom(2) o(2) by (simp add: tpath_snoc)
    ultimately show ?thesis using outcome_oom m'(5) [OF restored_refl [OF m'(1)]] oom(1) by simp
  next
    case huge
    then have "s1 = s" using m'(4) by (auto split: if_splits)
    moreover have "leaf_at g (tables s1) r (vpath v) = Some (length q, tables s1 t i)"
      unfolding o(4) using leaf_via_tab [OF m'(2)] huge(2,3) by simp
    moreover obtain n where "length q = Suc n" using o(5) by (cases q) auto
    ultimately show ?thesis using huge(1) by (simp add: map_outcome_def)
  next
    case (ok f a s2)
    then show ?thesis using K by simp
  qed
qed

lemma map_page_outcome:
  assumes g: "geom_ok g" and sp: "spaces g s R" "owns R r v"
    and ok: "is_canonical g v" "is_valid_phys_frame g f" "f \<le> U64_MAX" "validate_leaf fl g = Ok ()" "plain_flags g fl"
  shows "map_outcome g R r v ((word_of_nat f AND physical_mask g) OR leaf_flags fl d) s (map_page g r v f fl d s)"
proof -
  let ?i4 = "p4_index v" let ?i3 = "p3_index v" let ?i2 = "p2_index v" let ?i1 = "p1_index v"
  let ?e = "(word_of_nat f AND physical_mask g) OR leaf_flags fl d"
  have r: "r \<in> R" using sp(2) by (simp add: owns_def)
  define K1 where "K1 pdpt a3 pd a2 pt a1 s = (do {
       tbl \<leftarrow> phys_to_virt_table pt s;
       if is_present (tbl ?i1) then Some (Err AlreadyMapped, undo a3 r ?i4 pdpt (undo a2 pdpt ?i3 pd (undo a1 pd ?i2 pt s)))
       else do { e \<leftarrow> entry_set g f (leaf_flags fl d); Some (Ok (), write_entry pt ?i1 e s) } })" for pdpt a3 pd a2 pt a1 s
  have k1: "map_outcome g R r v ?e s (K1 pdpt a3 pd a2 pt a1 s3)"
    if m: "midway g R r [?i4, ?i3, ?i2] pt ((a3 \<or> a2) \<or> a1) (\<lambda>s'. undo a3 r ?i4 pdpt (undo a2 pdpt ?i3 pd (undo a1 pd ?i2 pt s'))) s s3"
    for pdpt a3 pd a2 pt a1 s3
  proof -
    have m': "spaces g s3 R" "tab g (tables s3) r [?i4, ?i3, ?i2] = Some pt" "grew g R r s s3" "same_leaves g R s s3" "on_path g r [?i4, ?i3, ?i2] s s3" using m by (auto simp: midway_def)
    note w = window [OF m'(1) r m'(2)]
    show ?thesis
    proof (cases "is_present (tables s3 pt ?i1)")
      case True
      then have "\<not> ((a3 \<or> a2) \<or> a1)" "s3 = s" using m by (auto simp: midway_def split: if_splits)
      moreover have "leaf_at g (tables s3) r (vpath v) = Some (0, tables s3 pt ?i1)"
        using leaf_via_tab [OF m'(2), of ?i1 "[]"] True by (simp add: vpath_def)
      ultimately show ?thesis using True w by (simp add: map_outcome_def K1_def undo_def)
    next
      case False
      then have "K1 pdpt a3 pd a2 pt a1 s3 = Some (Ok (), write_entry pt ?i1 ?e s3)" using w ok(2) by (simp add: K1_def entry_set_def)
      then show ?thesis using map_last [OF g m'(1) sp(2) ok(2,3,5) m'(2) False m'(3,4,5) refl] by simp
    qed
  qed
  define K2 where "K2 pdpt a3 pd a2 s = (case descend g True (link_flags d) pd ?i2 s of None \<Rightarrow> None
       | Some (Inl e, s) \<Rightarrow> Some (Err e, if e = OutOfMemory then undo a3 r ?i4 pdpt (undo a2 pdpt ?i3 pd s) else s)
       | Some (Inr (pt, a1), s) \<Rightarrow> K1 pdpt a3 pd a2 pt a1 s)" for pdpt a3 pd a2 s
  have k2: "map_outcome g R r v ?e s (K2 pdpt a3 pd a2 s2)"
    if m: "midway g R r [?i4, ?i3] pd (a3 \<or> a2) (\<lambda>s'. undo a3 r ?i4 pdpt (undo a2 pdpt ?i3 pd s')) s s2" for pdpt a3 pd a2 s2
    using map_step [OF g m sp(2), of ?i2 "[?i1]" ?e "K1 pdpt a3 pd a2" d]
      k1 midway_step [OF m sp(2), of ?i2] by (simp add: K2_def vpath_def)
  define K3 where "K3 pdpt a3 s = (case descend g True (link_flags d) pdpt ?i3 s of None \<Rightarrow> None
       | Some (Inl e, s) \<Rightarrow> Some (Err e, if e = OutOfMemory then undo a3 r ?i4 pdpt s else s)
       | Some (Inr (pd, a2), s) \<Rightarrow> K2 pdpt a3 pd a2 s)" for pdpt a3 s
  have k3: "map_outcome g R r v ?e s (K3 pdpt a3 s1)" if m: "midway g R r [?i4] pdpt a3 (undo a3 r ?i4 pdpt) s s1" for pdpt a3 s1
    using map_step [OF g m sp(2), of ?i3 "[?i2, ?i1]" ?e "K2 pdpt a3" d]
      k2 midway_step [OF m sp(2), of ?i3] by (simp add: K3_def vpath_def)
  have "map_page g r v f fl d s = (case descend g False (link_flags d) r ?i4 s of None \<Rightarrow> None
     | Some (Inl er, s') \<Rightarrow> Some (Err er, if er = OutOfMemory then id s' else s') | Some (Inr (pdpt, a), s') \<Rightarrow> K3 pdpt a s')"
    unfolding map_page_unfold [OF ok(1,2,4)] K3_def K2_def K1_def id_apply if_cancel by (rule refl)
  then show ?thesis
    using map_step [OF g midway_start [OF sp(1)] sp(2), of ?i4 "[?i3, ?i2, ?i1]" ?e K3 d]
      k3 midway_step [OF midway_start [OF sp(1)] sp(2), of ?i4] by (simp add: vpath_def)
qed

section \<open>Unmapping a page\<close>

definition shrank :: "AddressSpaceGeometry \<Rightarrow> nat set \<Rightarrow> nat \<Rightarrow> vm_state \<Rightarrow> vm_state \<Rightarrow> bool" where
  "shrank g R r s s' \<longleftrightarrow> spaces g s' R \<and> (tab g (tables s') r \<subseteq>\<^sub>m tab g (tables s) r)
     \<and> (\<forall>r'\<in>R. r' \<noteq> r \<longrightarrow> tab g (tables s') r' = tab g (tables s) r')
     \<and> free_of s' = free_of s \<union> ((tabs g s r - tabs g s' r) \<inter> owned_of s)
     \<and> owned_of s' = owned_of s - (tabs g s r - tabs g s' r)"

lemma shrank_trans:
  assumes "shrank g R r s s1" "shrank g R r s1 s2" shows "shrank g R r s s2"
proof -
  have r: "tabs g s1 r \<subseteq> tabs g s r" "tabs g s2 r \<subseteq> tabs g s1 r" using assms by (auto simp: shrank_def dest: map_le_ran)
  have "tab g (tables s2) r \<subseteq>\<^sub>m tab g (tables s) r" using assms map_le_trans by (auto simp: shrank_def)
  moreover have "free_of s2 = free_of s \<union> ((tabs g s r - tabs g s2 r) \<inter> owned_of s)"
    "owned_of s2 = owned_of s - (tabs g s r - tabs g s2 r)" using assms r by (auto simp: shrank_def)
  ultimately show ?thesis using assms unfolding shrank_def by auto
qed

text \<open>No table but the root and those at \<open>P\<close> is empty.\<close>

definition tight :: "AddressSpaceGeometry \<Rightarrow> vm_state \<Rightarrow> nat \<Rightarrow> nat list \<Rightarrow> bool" where
  "tight g s r P \<longleftrightarrow> (\<forall>q t. q \<noteq> [] \<longrightarrow> q \<noteq> P \<longrightarrow> tab g (tables s) r q = Some t \<longrightarrow> (\<exists>k<512. is_present (tables s t k)))"

lemma tightD: "tight g s r P \<Longrightarrow> q \<noteq> [] \<Longrightarrow> q \<noteq> P \<Longrightarrow> tab g (tables s) r q = Some t \<Longrightarrow> \<exists>k<512. is_present (tables s t k)"
  by (simp add: tight_def)

lemma cut_step:
  assumes sp: "spaces g s R" "owns R r v" and t: "tab g (tables s) r p = Some t" "tab g (tables s) r (p @ [i]) = Some f"
    "p = [] \<or> hd p = p4_index v" "hd (p @ [i]) = p4_index v" "present_count (tables s f) = 0"
  shows "shrank g R r s (drop_table t i f s)" "same_leaves g R s (drop_table t i f s)"
    "tab g (tables (drop_table t i f s)) r p = Some t" "tight g s r (p @ [i]) \<Longrightarrow> tight g (drop_table t i f s) r p"
    "p = P @ [k] \<Longrightarrow> tab g (tables s) r P = Some u \<Longrightarrow> tab g (tables (drop_table t i f s)) r P = Some u"
proof -
  let ?s = "drop_table t i f s"
  have r: "r \<in> R" using sp(2) by (simp add: owns_def)
  have em: "\<forall>k<512. \<not> is_present (tables s f k)" using t(5) by (simp add: present_count_0)
  have ex: "exclusive g s R r t" "exclusive g s R r f"
    using owns_exclusive [OF sp t(1,3)] owns_exclusive [OF sp t(2)] t(4) by auto
  note c = spaces_cut [OF sp(1) r t(1,2) ex em] and d = drop_table_sel [of s t i f] and tr = spaces_tree [OF sp(1) r]
  have pi: "pmm_inv (frames s)" using sp(1) by (simp add: spaces_def)
  have uf: "\<not> sealed (tables s f)" using em by (intro unsealed [of 0]) simp_all
  have q: "q = p @ [i]" if "tab g (tables s) r q = Some f" for q using tree_inj [OF tr that t(2)] uf by blast
  have "tabs g ?s r = tabs g s r - {f}" unfolding c(3)
  proof (intro set_eqI iffI)
    fix x assume "x \<in> ran ((tab g (tables s) r)(p @ [i] := None))"
    then obtain q' where "q' \<noteq> p @ [i]" "tab g (tables s) r q' = Some x" by (auto simp: ran_def split: if_splits)
    then show "x \<in> tabs g s r - {f}" using q by (auto simp: ran_def)
  next
    fix x assume "x \<in> tabs g s r - {f}"
    then obtain q' where "tab g (tables s) r q' = Some x" "x \<noteq> f" by (auto simp: ran_def)
    then have "((tab g (tables s) r)(p @ [i] := None)) q' = Some x" using t(2) by auto
    then show "x \<in> ran ((tab g (tables s) r)(p @ [i] := None))" by (rule ranI)
  qed
  then have tb: "tabs g s r - tabs g ?s r = {f}" using t(2) by (auto simp: ran_def)
  have le: "tab g (tables ?s) r \<subseteq>\<^sub>m tab g (tables s) r" unfolding c(3) by (auto simp: map_le_def)
  show "shrank g R r s ?s" unfolding shrank_def tb using c(1,4) le d(3,4) [OF pi] by (auto simp: Int_commute)
  show "same_leaves g R s ?s" by (fact c(2))
  show tp: "tab g (tables ?s) r p = Some t" unfolding c(3) using t(1) by simp
  show "tab g (tables ?s) r P = Some u" if "p = P @ [k]" "tab g (tables s) r P = Some u" unfolding c(3) using that by simp
  show "tight g ?s r p" if ti: "tight g s r (p @ [i])"
    unfolding tight_def
  proof (intro allI impI)
    fix q x assume q: "q \<noteq> []" "q \<noteq> p" "tab g (tables ?s) r q = Some x"
    then have q': "q \<noteq> p @ [i]" "tab g (tables s) r q = Some x" unfolding c(3) by (auto split: if_splits)
    have "x \<noteq> t" using tree_inj [OF tr q'(2)] t(1) q(2) unsealed_link [OF t(1,2)] by blast
    then show "\<exists>k<512. is_present (tables ?s x k)" using tightD [OF ti q(1) q'] d(1) [OF pi] by simp
  qed
qed

text \<open>The outcome of unmapping at a canonical address.\<close>

definition unmap_outcome ::
  "AddressSpaceGeometry \<Rightarrow> nat set \<Rightarrow> nat \<Rightarrow> u64 \<Rightarrow> vm_state \<Rightarrow> ((VmmError + PhysFrame) \<times> vm_state) option \<Rightarrow> bool" where
  "unmap_outcome g R r v s out \<longleftrightarrow> (\<exists>res s'. out = Some (res, s') \<and>
     (case leaf_at g (tables s) r (vpath v) of
        None \<Rightarrow> res = Err NotMapped \<and> s' = s
      | Some (Suc _, _) \<Rightarrow> res = Err HugePageUnsupported \<and> s' = s
      | Some (0, e) \<Rightarrow> res = Ok (table_addr g e) \<and> shrank g R r s s' \<and> (tight g s r [] \<longrightarrow> tight g s' r [])
          \<and> (\<forall>r'\<in>R. \<forall>q. lpath q \<longrightarrow>
               leaf_at g (tables s') r' q = (if r' = r \<and> q = vpath v then None else leaf_at g (tables s) r' q))))"

text \<open>The reclamation of empty tables, from the leaf table upwards.\<close>

lemma reclaim_chain:
  assumes sp: "spaces g s R" "owns R r v" and i: "i4 = p4_index v"
    and t: "tab g (tables s) r [i4] = Some pdpt" "tab g (tables s) r [i4, i3] = Some pd" "tab g (tables s) r [i4, i3, i2] = Some pt"
    and s': "s' = (if present_count (tables s pt) = 0 then
                let s = drop_table pd i2 pt s in
                if present_count (tables s pd) = 0 then
                  let s = drop_table pdpt i3 pd s in
                  if present_count (tables s pdpt) = 0 then drop_table r i4 pdpt s else s
                else s
              else s)"
  shows "shrank g R r s s'" "same_leaves g R s s'" "tight g s r [i4, i3, i2] \<Longrightarrow> tight g s' r []"
proof -
  have stop: "tight g u r P \<Longrightarrow> tab g (tables u) r P = Some x \<Longrightarrow> present_count (tables u x) \<noteq> 0 \<Longrightarrow> tight g u r []" for u P x
    unfolding tight_def present_count_0 by auto
  have refl: "shrank g R r u u" if "spaces g u R" for u using that by (simp add: shrank_def)
  have "shrank g R r s s' \<and> same_leaves g R s s' \<and> (tight g s r [i4, i3, i2] \<longrightarrow> tight g s' r [])"
  proof (cases "present_count (tables s pt) = 0")
    case False
    then show ?thesis using s' refl [OF sp(1)] stop [OF _ t(3)] by (auto simp: same_leaves_def)
  next
    case e1: True
    define u where "u = drop_table pd i2 pt s"
    note c1 = cut_step [OF sp t(2), of i2 pt, folded u_def]
    have u: "shrank g R r s u" "same_leaves g R s u" "tab g (tables u) r [i4, i3] = Some pd" "tab g (tables u) r [i4] = Some pdpt"
      "tight g s r [i4, i3, i2] \<Longrightarrow> tight g u r [i4, i3]" using c1 t e1 i by auto
    have spu: "spaces g u R" using u(1) by (simp add: shrank_def)
    show ?thesis
    proof (cases "present_count (tables u pd) = 0")
      case False
      then show ?thesis using s' e1 u stop [OF _ u(3)] by (simp add: u_def [symmetric] Let_def)
    next
      case e2: True
      define w where "w = drop_table pdpt i3 pd u"
      note c2 = cut_step [OF spu sp(2) u(4), of i3 pd, folded w_def]
      have w: "shrank g R r u w" "same_leaves g R u w" "tab g (tables w) r [i4] = Some pdpt"
        "tight g u r [i4, i3] \<Longrightarrow> tight g w r [i4]" using c2 u e2 i by auto
      have spw: "spaces g w R" using w(1) by (simp add: shrank_def)
      note sw = shrank_trans [OF u(1) w(1)] same_leaves_trans [OF u(2) w(2)]
      show ?thesis
      proof (cases "present_count (tables w pdpt) = 0")
        case False
        then show ?thesis using s' e1 e2 sw u(5) w(4) stop [OF _ w(3)] by (simp add: u_def [symmetric] w_def [symmetric] Let_def)
      next
        case e3: True
        have "s' = drop_table r i4 pdpt w" using s' e1 e2 e3 by (simp add: u_def [symmetric] w_def [symmetric] Let_def)
        then show ?thesis using cut_step [OF spw sp(2) tab_Nil, of i4 pdpt] w e3 i sw u(5)
          shrank_trans [OF sw(1)] same_leaves_trans [OF sw(2)] by auto
      qed
    qed
  qed
  then show "shrank g R r s s'" "same_leaves g R s s'" "tight g s r [i4, i3, i2] \<Longrightarrow> tight g s' r []" by simp_all
qed

text \<open>One step of a walk down an existing path.\<close>

lemma walk_step:
  assumes sp: "spaces g s R" "r \<in> R" and t: "tab g (tables s) r p = Some t" "tpath (p @ [i])"
  obtains (absent) "points_to_frame g (tables s t i) = None" "\<And>q. leaf_at g (tables s) r (p @ i # q) = None"
  | (huge) f where "p \<noteq> []" "points_to_frame g (tables s t i) = Some f" "contains (tables s t i) HUGE_PAGE"
      "\<And>q. leaf_at g (tables s) r (p @ i # q) = Some (length q, tables s t i)"
  | (table) f where "points_to_frame g (tables s t i) = Some f" "\<not> contains (tables s t i) HUGE_PAGE" "tab g (tables s) r (p @ [i]) = Some f"
proof (cases "is_present (tables s t i)")
  case False
  then show thesis using absent leaf_via_tab [OF t(1)] by (simp add: points_to_frame_eq)
next
  case True
  show thesis
  proof (cases "contains (tables s t i) HUGE_PAGE")
    case h: True
    have "p \<noteq> []"
    proof
      assume "p = []"
      then show False using h t spaces_tree [OF sp] by (auto simp: tree_def tpath_def)
    qed
    then show thesis using huge h True leaf_via_tab [OF t(1)] by (simp add: points_to_frame_eq)
  next
    case False
    then show thesis using table True tab_snoc [OF t(2), of g "tables s" r] t(1) by (simp add: points_to_frame_eq)
  qed
qed

lemma unmap_last:
  assumes sp: "spaces g s R" "owns R r v"
    and t: "tab g (tables s) r [p4_index v] = Some pdpt" "tab g (tables s) r [p4_index v, p3_index v] = Some pd"
      "tab g (tables s) r [p4_index v, p3_index v, p2_index v] = Some pt" "is_present (tables s pt (p1_index v))"
    and s': "s' = (let s = write_entry pt (p1_index v) 0 s in
              if present_count (tables s pt) = 0 then
                let s = drop_table pd (p2_index v) pt s in
                if present_count (tables s pd) = 0 then
                  let s = drop_table pdpt (p3_index v) pd s in
                  if present_count (tables s pdpt) = 0 then drop_table r (p4_index v) pdpt s else s
                else s
              else s)"
  shows "unmap_outcome g R r v s (Some (Ok (table_addr g (tables s pt (p1_index v))), s'))"
proof -
  let ?p = "[p4_index v, p3_index v, p2_index v]"
  define u where "u = write_entry pt (p1_index v) 0 s"
  have r: "r \<in> R" using sp(2) by (simp add: owns_def)
  have ex: "exclusive g s R r pt" by (rule owns_exclusive [OF sp t(3)]) simp
  have l3: "length ?p = 3" by simp
  note l = spaces_leaf [OF sp(1) r t(3) l3 ex, where i = "p1_index v" and e = 0, folded u_def]
  have vp: "vpath v = ?p @ [p1_index v]" by (simp add: vpath_def)
  have tu: "tab g (tables u) r' = tab g (tables s) r'" if "r' \<in> R" for r' using l(2) that by simp
  have su: "shrank g R r s u" using l(1) tu r by (simp add: shrank_def u_def free_of_def owned_of_def)
  have s'': "s' = (if present_count (tables u pt) = 0 then
                let s = drop_table pd (p2_index v) pt u in
                if present_count (tables s pd) = 0 then
                  let s = drop_table pdpt (p3_index v) pd s in
                  if present_count (tables s pdpt) = 0 then drop_table r (p4_index v) pdpt s else s
                else s
              else u)" unfolding s' u_def Let_def ..
  note rc = reclaim_chain [OF l(1) sp(2) refl _ _ _ s'', unfolded tu [OF r], OF t(1-3)]
  have lf: "leaf_at g (tables s') r' q = (if r' = r \<and> q = vpath v then None else leaf_at g (tables s) r' q)" if "r' \<in> R" "lpath q" for r' q
    using rc(2) l(3) [OF that] that vp by (simp add: same_leaves_def)
  have ti: "tight g s' r []" if "tight g s r []"
  proof (rule rc(3), unfold tight_def, intro allI impI)
    fix q x assume q: "q \<noteq> []" "q \<noteq> ?p" "tab g (tables u) r q = Some x"
    then have q': "tab g (tables s) r q = Some x" using tu [OF r] by simp
    have "x \<noteq> pt" using tree_inj [OF spaces_tree [OF sp(1) r] q', of ?p] t(3) q(2) l3 by auto
    then show "\<exists>k<512. is_present (tables u x k)" using tightD [OF that q(1,1) q'] by (simp add: u_def)
  qed
  have "leaf_at g (tables s) r (vpath v) = Some (0, tables s pt (p1_index v))"
    unfolding vp using leaf_via_tab [OF t(3), of "p1_index v" "[]"] t(4) by simp
  then show ?thesis unfolding unmap_outcome_def using shrank_trans [OF su rc(1)] lf ti by simp
qed

lemma unmap_page_outcome:
  assumes sp: "spaces g s R" "owns R r v" and c: "is_canonical g v"
  shows "unmap_outcome g R r v s (unmap_page g r v s)"
proof -
  have r: "r \<in> R" using sp(2) by (simp add: owns_def)
  have none: "unmap_outcome g R r v s (Some (Err NotMapped, s))" if "leaf_at g (tables s) r (vpath v) = None"
    using that by (simp add: unmap_outcome_def)
  have hug: "unmap_outcome g R r v s (Some (Err HugePageUnsupported, s))" if "leaf_at g (tables s) r (vpath v) = Some (Suc n, e)" for n e
    using that by (simp add: unmap_outcome_def)
  have p1: "tpath ([] @ [p4_index v])" "tpath ([p4_index v] @ [p3_index v])" "tpath ([p4_index v, p3_index v] @ [p2_index v])" by simp_all
  note W = window [OF sp(1) r]
  note un = unmap_page_def [of g r v s] and vp = vpath_def [of v]
  from sp(1) r tab_Nil p1(1) show ?thesis
  proof (cases rule: walk_step)
    case absent
    then show ?thesis using none un c W [OF tab_Nil] vp by simp
  next
    case (table pdpt)
    note s4 = W [OF tab_Nil] table(1)
    have t4: "tab g (tables s) r [p4_index v] = Some pdpt" using table(3) by simp
    from sp(1) r t4 p1(2) show ?thesis
    proof (cases rule: walk_step)
      case absent
      then show ?thesis using none un c s4 W [OF t4] vp by simp
    next
      case (huge f)
      then show ?thesis using hug un c s4 W [OF t4] vp by simp
    next
      case (table pd)
      note s3 = W [OF t4] table(1,2)
      have t3: "tab g (tables s) r [p4_index v, p3_index v] = Some pd" using table(3) by simp
      from sp(1) r t3 p1(3) show ?thesis
      proof (cases rule: walk_step)
        case absent
        then show ?thesis using none un c s4 s3 W [OF t3] vp by simp
      next
        case (huge f)
        then show ?thesis using hug un c s4 s3 W [OF t3] vp by simp
      next
        case (table pt)
        have t2: "tab g (tables s) r [p4_index v, p3_index v, p2_index v] = Some pt" using table(3) by simp
        note s2 = W [OF t3] table(1,2) W [OF t2]
        show ?thesis
        proof (cases "is_present (tables s pt (p1_index v))")
          case False
          then show ?thesis using none leaf_via_tab [OF t2, of "p1_index v" "[]"] un c s4 s3 s2 vp by (simp add: points_to_frame_eq)
        next
          case True
          then show ?thesis using unmap_last [OF sp t4 t3 t2 True refl] un c s4 s3 s2 by (simp add: points_to_frame_eq Let_def)
        qed
      qed
    qed
  qed simp
qed

end
