(* ===== verification/VmmProps.thy ===== *)
theory VmmProps
  imports VmmSpace
begin

text \<open>
  The guarantees of \<open>kernel/src/mm/vmm.rs\<close>. Translation is a function of the leaf entry of a page, and pages and paths of
  indices correspond one to one for 48-bit addresses. From the outcome of each operation on the tables follow the properties
  over what the code's own walks return: mapping, unmapping, and the creation and destruction of address spaces.
\<close>

unbundle bit_operations_syntax

section \<open>Addresses\<close>

lemma index_bit:
  "n < 9 \<Longrightarrow> bit v (39 + n) \<longleftrightarrow> bit (p4_index v) n" "n < 9 \<Longrightarrow> bit v (30 + n) \<longleftrightarrow> bit (p3_index v) n"
  "n < 9 \<Longrightarrow> bit v (21 + n) \<longleftrightarrow> bit (p2_index v) n" "n < 9 \<Longrightarrow> bit v (12 + n) \<longleftrightarrow> bit (p1_index v) n"
proof -
  have m: "(0x1FF :: u64) = mask 9" by (simp add: mask_eq_exp_minus_1)
  have "bit (unat (drop_bit k v AND 0x1FF :: u64)) n \<longleftrightarrow> bit v (k + n)" if "n < 9" for k
    using that unfolding m by (simp add: bit_unsigned_iff bit_simps)
  then show "n < 9 \<Longrightarrow> bit v (39 + n) \<longleftrightarrow> bit (p4_index v) n" "n < 9 \<Longrightarrow> bit v (30 + n) \<longleftrightarrow> bit (p3_index v) n"
    "n < 9 \<Longrightarrow> bit v (21 + n) \<longleftrightarrow> bit (p2_index v) n" "n < 9 \<Longrightarrow> bit v (12 + n) \<longleftrightarrow> bit (p1_index v) n"
    by (simp_all add: p4_index_def p3_index_def p2_index_def p1_index_def)
qed

lemma canonical_bits:
  assumes "is_canonical g v" "virtual_bits g = 48" "47 \<le> n" "n < 64" shows "bit v n = bit v 47"
proof -
  have s: "signed_drop_bit 47 v = 0 \<or> signed_drop_bit 47 v = NOT 0" using assms(1,2) by (simp add: is_canonical_def Let_def)
  have b: "bit (signed_drop_bit 47 v) k \<longleftrightarrow> bit v (47 + k)" if "k < 17" for k
    using that by (simp add: bit_signed_drop_bit_iff)
  have "bit (signed_drop_bit 47 v) (n - 47) \<longleftrightarrow> bit (signed_drop_bit 47 v) 0"
    using s assms(3,4) by (elim disjE) (simp_all del: bit_signed_drop_bit_iff)
  then show ?thesis using b [of "n - 47"] b [of 0] assms(3,4) by simp
qed

text \<open>With 48 address bits, a page is determined by its four indices.\<close>

lemma vpath_inj:
  assumes "is_canonical g v" "is_canonical g w" "virtual_bits g = 48" "v mod 4096 = 0" "w mod 4096 = 0" "vpath v = vpath w"
  shows "v = w"
proof (rule bit_word_eqI)
  fix n assume n: "n < LENGTH(64)"
  have i: "p4_index v = p4_index w" "p3_index v = p3_index w" "p2_index v = p2_index w" "p1_index v = p1_index w"
    using assms(6) by (simp_all add: vpath_def)
  have low: "\<not> bit x n" if "x mod 4096 = 0" "n < 12" for x :: u64
  proof -
    have "take_bit 12 x = 0" using that(1) by (simp add: take_bit_eq_mod)
    then have "\<not> bit (take_bit 12 x) n" by simp
    then show ?thesis using that(2) by (simp add: bit_take_bit_iff)
  qed
  have mid: "bit v k = bit w k" if "12 \<le> k" "k < 48" for k
  proof -
    consider "k < 21" | "21 \<le> k" "k < 30" | "30 \<le> k" "k < 39" | "39 \<le> k" by linarith
    then show ?thesis
      using that i index_bit [of "k - 12" v] index_bit [of "k - 12" w] index_bit [of "k - 21" v] index_bit [of "k - 21" w]
        index_bit [of "k - 30" v] index_bit [of "k - 30" w] index_bit [of "k - 39" v] index_bit [of "k - 39" w]
      by cases auto
  qed
  consider "n < 12" | "12 \<le> n" "n < 48" | "48 \<le> n" by linarith
  then show "bit v n = bit w n"
  proof cases
    case 1 then show ?thesis using low assms(4,5) by simp
  next
    case 2 then show ?thesis using mid by simp
  next
    case 3
    then show ?thesis using canonical_bits [OF assms(1,3), of n] canonical_bits [OF assms(2,3), of n] mid [of 47] n by simp
  qed
qed

section \<open>Translation\<close>

definition leaf_frame :: "AddressSpaceGeometry \<Rightarrow> nat \<Rightarrow> PageTableEntry \<Rightarrow> u64 \<Rightarrow> PhysFrame" where
  "leaf_frame g n e v =
     (if n = 2 then unat (e AND physical_mask g AND NOT 0x3FFFFFFF) + unat ((v AND 0x3FFFFFFF) AND NOT 0xFFF)
      else if n = 1 then unat (e AND physical_mask g AND NOT 0x1FFFFF) + unat ((v AND 0x1FFFFF) AND NOT 0xFFF)
      else table_addr g e)"

lemma walks_by_leaf:
  assumes sp: "spaces g s R" "r \<in> R" and c: "is_canonical g v"
  shows "translate g r v s = Some (case leaf_at g (tables s) r (vpath v) of None \<Rightarrow> Err NotMapped | Some (n, e) \<Rightarrow> Ok (leaf_frame g n e v))"
    "get_page_flags g r v s = Some (case leaf_at g (tables s) r (vpath v) of None \<Rightarrow> Err NotMapped | Some (n, e) \<Rightarrow> Ok e)"
proof -
  let ?C = "translate g r v s = Some (case leaf_at g (tables s) r (vpath v) of None \<Rightarrow> Err NotMapped | Some (n, e) \<Rightarrow> Ok (leaf_frame g n e v))
    \<and> get_page_flags g r v s = Some (case leaf_at g (tables s) r (vpath v) of None \<Rightarrow> Err NotMapped | Some (n, e) \<Rightarrow> Ok e)"
  have p1: "tpath ([] @ [p4_index v])" "tpath ([p4_index v] @ [p3_index v])" "tpath ([p4_index v, p3_index v] @ [p2_index v])" by simp_all
  note W = window [OF sp]
  note un = translate_def [of g r v s] get_page_flags_def [of g r v s] vpath_def [of v] leaf_frame_def
  from sp tab_Nil p1(1) have ?C
  proof (cases rule: walk_step)
    case absent
    then show ?thesis using c W [OF tab_Nil] by (simp add: un)
  next
    case (table pdpt)
    note s4 = W [OF tab_Nil] table(1)
    have t4: "tab g (tables s) r [p4_index v] = Some pdpt" using table(3) by simp
    from sp t4 p1(2) show ?thesis
    proof (cases rule: walk_step)
      case absent
      then show ?thesis using c s4 W [OF t4] by (simp add: un)
    next
      case (huge f)
      then show ?thesis using c s4 W [OF t4] by (simp add: un)
    next
      case (table pd)
      note s3 = W [OF t4] table(1,2)
      have t3: "tab g (tables s) r [p4_index v, p3_index v] = Some pd" using table(3) by simp
      from sp t3 p1(3) show ?thesis
      proof (cases rule: walk_step)
        case absent
        then show ?thesis using c s4 s3 W [OF t3] by (simp add: un)
      next
        case (huge f)
        then show ?thesis using c s4 s3 W [OF t3] by (simp add: un)
      next
        case (table pt)
        have t2: "tab g (tables s) r [p4_index v, p3_index v, p2_index v] = Some pt" using table(3) by simp
        note s2 = W [OF t3] table(1,2) W [OF t2]
        show ?thesis using leaf_via_tab [OF t2, of "p1_index v" "[]"] c s4 s3 s2
          by (cases "is_present (tables s pt (p1_index v))") (simp_all add: un points_to_frame_eq)
      qed
    qed
  qed simp
  then show "translate g r v s = Some (case leaf_at g (tables s) r (vpath v) of None \<Rightarrow> Err NotMapped | Some (n, e) \<Rightarrow> Ok (leaf_frame g n e v))"
    "get_page_flags g r v s = Some (case leaf_at g (tables s) r (vpath v) of None \<Rightarrow> Err NotMapped | Some (n, e) \<Rightarrow> Ok e)" by simp_all
qed

lemma walks_noncanonical:
  "\<not> is_canonical g v \<Longrightarrow> translate g r v s = Some (Err NonCanonicalAddress)"
  "\<not> is_canonical g v \<Longrightarrow> get_page_flags g r v s = Some (Err NonCanonicalAddress)"
  by (simp_all add: translate_def get_page_flags_def)

text \<open>Equal leaves mean equal walks.\<close>

lemma same_leaf_walks:
  assumes "spaces g s R" "spaces g s' R" "r \<in> R" "leaf_at g (tables s') r (vpath v) = leaf_at g (tables s) r (vpath v)"
  shows "translate g r v s' = translate g r v s" "get_page_flags g r v s' = get_page_flags g r v s"
  using walks_by_leaf [OF assms(1,3), of v] walks_by_leaf [OF assms(2,3), of v] walks_noncanonical [of g v r] assms(4)
  by (cases "is_canonical g v"; simp)+

section \<open>Tables and leaves determine each other\<close>

lemma deep_leaf_table:
  "leaf_at g T r (q @ z) = Some (n, e) \<Longrightarrow> n < length z \<Longrightarrow> \<exists>t. table_at g T r q = Some t"
proof (induction q arbitrary: r)
  case (Cons i js)
  then show ?case by (auto split: if_splits)
qed simp

lemma tight_leaf_below:
  assumes "tight g s r []" "tab g (tables s) r q = Some t" "q \<noteq> []"
  shows "\<exists>z n e. lpath (q @ z) \<and> leaf_at g (tables s) r (q @ z) = Some (n, e) \<and> n < length z"
  using assms(2,3)
proof (induction "3 - length q" arbitrary: q t rule: less_induct)
  case less
  have tq: "tpath q" using tab_SomeD [OF less.prems(1)] by simp
  obtain k where k: "k < 512" "is_present (tables s t k)" using tightD [OF assms(1) less.prems(2,2,1)] by blast
  define z where "z = k # replicate (3 - length q) (0::nat)"
  have lz: "lpath (q @ z)" using tq k(1) by (auto simp: lpath_def tpath_def z_def)
  show ?case
  proof (cases "length q = 3 \<or> contains (tables s t k) HUGE_PAGE")
    case True
    then have "leaf_at g (tables s) r (q @ z) = Some (3 - length q, tables s t k)"
      unfolding z_def using leaf_via_tab [OF less.prems(1)] k(2) by auto
    then show ?thesis using lz by (intro exI [of _ z]) (auto simp: z_def)
  next
    case False
    then have tp: "tpath (q @ [k])" using tq k(1) by (auto simp: tpath_def)
    then have "tab g (tables s) r (q @ [k]) = Some (table_addr g (tables s t k))"
      using tab_snoc [OF tp] less.prems(1) k(2) False by simp
    moreover have "3 - length (q @ [k]) < 3 - length q" using tp by (auto simp: tpath_snoc)
    ultimately obtain z n e where "lpath ((q @ [k]) @ z)" "leaf_at g (tables s) r ((q @ [k]) @ z) = Some (n, e)" "n < length z"
      using less.hyps [of "q @ [k]"] by blast
    then show ?thesis by (intro exI [of _ "k # z"]) auto
  qed
qed

text \<open>Two trees without empty tables that have the same leaves have tables at the same paths.\<close>

lemma tight_same_dom:
  assumes "tight g s r []" "tight g s' r []" "\<And>q. lpath q \<Longrightarrow> leaf_at g (tables s') r q = leaf_at g (tables s) r q"
  shows "dom (tab g (tables s) r) = dom (tab g (tables s') r)"
proof -
  have sub: "dom (tab g (tables a) r) \<subseteq> dom (tab g (tables b) r)"
    if ti: "tight g a r []" and le: "\<And>q. lpath q \<Longrightarrow> leaf_at g (tables a) r q = leaf_at g (tables b) r q" for a b
  proof
    fix q assume "q \<in> dom (tab g (tables a) r)"
    then obtain t where t: "tab g (tables a) r q = Some t" by blast
    show "q \<in> dom (tab g (tables b) r)"
    proof (cases "q = []")
      case False
      then obtain z n e where "leaf_at g (tables b) r (q @ z) = Some (n, e)" "n < length z"
        using tight_leaf_below [OF ti t] le by metis
      then show ?thesis using deep_leaf_table tab_SomeD [OF t] by (fastforce simp: tab_def)
    qed (simp add: domIff)
  qed
  show ?thesis
  proof (rule equalityI)
    show "dom (tab g (tables s) r) \<subseteq> dom (tab g (tables s') r)" by (rule sub [OF assms(1)]) (simp add: assms(3))
    show "dom (tab g (tables s') r) \<subseteq> dom (tab g (tables s) r)" by (rule sub [OF assms(2)]) (simp add: assms(3))
  qed
qed

lemma map_le_dom_eq: "m \<subseteq>\<^sub>m k \<Longrightarrow> m' \<subseteq>\<^sub>m k \<Longrightarrow> dom m = dom m' \<Longrightarrow> m = m'"
proof
  fix x assume a: "m \<subseteq>\<^sub>m k" "m' \<subseteq>\<^sub>m k" "dom m = dom m'"
  show "m x = m' x"
  proof (cases "x \<in> dom m")
    case True then show ?thesis using a by (simp add: map_le_def)
  next
    case False then show ?thesis using a(3) by (metis domIff)
  qed
qed

text \<open>Mapping keeps trees without empty tables that way.\<close>

lemma grew_frames: "grew g R r s s1 \<Longrightarrow> shrank g R r s1 s2 \<Longrightarrow> spaces g s R \<Longrightarrow> tab g (tables s2) r = tab g (tables s) r \<Longrightarrow>
    free_of s2 = free_of s \<and> owned_of s2 = owned_of s"
  using free_owned_disjoint [of g s R] by (auto simp: grew_def shrank_def)

lemma map_keeps_tight:
  assumes "spaces g s R" "r \<in> R" "grew g R r s s'" "tight g s r []" "leaf_at g (tables s') r (vpath v) = Some (0, e)"
    "\<And>q. lpath q \<Longrightarrow> q \<noteq> vpath v \<Longrightarrow> leaf_at g (tables s') r q = leaf_at g (tables s) r q"
    "\<And>q t. tab g (tables s') r q = Some t \<Longrightarrow> tab g (tables s) r q = None \<Longrightarrow> \<exists>z. vpath v = q @ z"
  shows "tight g s' r []"
  unfolding tight_def
proof (intro allI impI)
  have leaf_present: "\<exists>k<512. is_present (tables s' t k)"
    if "tab g (tables s') r q = Some t" "lpath (q @ z)" "leaf_at g (tables s') r (q @ z) = Some (n, e)" for q t z n e
    using that leaf_via_tab [OF that(1), of "hd z" "tl z"] tab_SomeD [OF that(1)]
    by (cases z) (auto simp: lpath_def tpath_def split: if_splits)
  fix q t assume q: "q \<noteq> []" "q \<noteq> []" "tab g (tables s') r q = Some t"
  show "\<exists>k<512. is_present (tables s' t k)"
  proof (cases "tab g (tables s) r q")
    case None
    then obtain z where "vpath v = q @ z" using assms(7) [OF q(3)] by blast
    then show ?thesis using leaf_present [OF q(3), of z] assms(5) lpath_vpath [of v] by metis
  next
    case (Some t')
    obtain z n e' where z: "lpath (q @ z)" "leaf_at g (tables s) r (q @ z) = Some (n, e')"
      using tight_leaf_below [OF assms(4) Some q(1)] by blast
    show ?thesis
    proof (cases "q @ z = vpath v")
      case True
      then show ?thesis using leaf_present [OF q(3) z(1)] assms(5) by metis
    next
      case False
      then show ?thesis using leaf_present [OF q(3) z(1)] assms(6) [OF z(1)] z(2) by metis
    qed
  qed
qed

lemma spaces_clone:
  assumes sp: "spaces g s R" "m \<in> R" and root: "root \<in> free_of s" "4096 dvd root" "root < 0x10000000"
    and s': "free_of s' = free_of s - {root}" "owned_of s' = insert root (owned_of s)" "tables s' = T'" "pmm_inv (frames s')"
    and w: "\<And>q. tab g T' root q = (if q = [] then Some root else if hd q < 256 then None else tab g (tables s) m q)"
      "\<And>r. r \<in> R \<Longrightarrow> tab g T' r = tab g (tables s) r"
    and h: "\<And>i. i < 512 \<Longrightarrow> T' root i = tables s m i \<or> T' root i = 0" "\<And>x. x \<noteq> root \<Longrightarrow> T' x = tables s x"
  shows "spaces g s' (insert root R)"
proof -
  note tm = spaces_tree [OF sp]
  have nr: "tab g (tables s) r q \<noteq> Some root" if "r \<in> R" for r q using tree_range [OF spaces_tree [OF sp(1) that]] root(1) by blast
  have nR: "r \<noteq> root" if "r \<in> R" for r using nr [OF that, of "[]"] by auto
  have root_tab: "x = root \<and> q = [] \<or> q \<noteq> [] \<and> 256 \<le> hd q \<and> tab g (tables s) m q = Some x" if "tab g T' root q = Some x" for q x
    using that w(1) [of q] by (auto split: if_splits)
  have troot: "tree g s' root"
    unfolding tree_def s'(3)
  proof (intro conjI allI impI)
    fix a b x assume ab: "tab g T' root a = Some x" "tab g T' root b = Some x"
    show "a = b \<or> window_path a \<and> window_path b \<and> sealed (T' x)"
    proof (cases "x = root")
      case True
      then have "a = []" "b = []" using root_tab [OF ab(1)] root_tab [OF ab(2)] nr [OF sp(2)] by blast+
      then show ?thesis by simp
    next
      case False
      then have "tab g (tables s) m a = Some x" "tab g (tables s) m b = Some x" using root_tab [OF ab(1)] root_tab [OF ab(2)] by blast+
      from tree_dup [OF tm this] show ?thesis using h(2) [OF False] by simp
    qed
  next
    fix q x assume q: "tab g T' root q = Some x"
    have "4096 dvd x \<and> x < 0x40000000 \<and> x \<notin> free_of s'"
    proof (cases "x = root")
      case True then show ?thesis using root(2,3) s'(1) by simp
    next
      case False
      then have "tab g (tables s) m q = Some x" using root_tab [OF q] by blast
      from tree_range [OF tm this] show ?thesis using s'(1) by simp
    qed
    then show "4096 dvd x" "x < 0x40000000" "x \<notin> free_of s'" by simp_all
  next
    fix i :: nat assume "i < 512"
    then show "\<not> contains (T' root i) HUGE_PAGE" using h(1) [of i] tm by (auto simp: tree_def contains_bit)
  qed
  have tr: "tree g s' r" if "r \<in> R" for r
    by (rule tree_foreign [OF spaces_tree [OF sp(1) that], where F = "{root}"])
      (use nr [OF that] h(2) s' tree_range [OF spaces_tree [OF sp(1) that]] in auto)
  show ?thesis unfolding spaces_def s'(3)
  proof (intro conjI ballI allI impI)
    fix a q x assume a: "a \<in> insert root R" "tab g T' a q = Some x" "user_path q"
    show "exclusive g s' (insert root R) a x"
      unfolding exclusive_def s'(3)
    proof (intro ballI impI allI notI)
      fix b q' assume b: "b \<in> insert root R" "b \<noteq> a" "tab g T' b q' = Some x"
      consider "a = root" "b \<in> R" | "a \<in> R" "a \<noteq> root" "b = root" | "a \<in> R" "b \<in> R" using a(1) b(1,2) by blast
      then show False
      proof cases
        case 1
        have "x = root" using root_tab [of q x] a(2,3) 1 by (auto simp: user_path_def)
        then show False using b(3) w(2) [OF 1(2)] nr [OF 1(2)] by simp
      next
        case 2
        have ta: "tab g (tables s) a q = Some x" using a(2) w(2) [OF 2(1)] by simp
        have q': "q' \<noteq> []" "256 \<le> hd q'" "tab g (tables s) m q' = Some x" using root_tab [of q' x] b(3) 2(3) nr [OF 2(1)] ta by auto
        show False
        proof (cases "a = m")
          case True
          have "\<not> window_path q" using a(3) by (auto simp: user_path_def window_path_def)
          then have "q = q'" using True tree_inj [OF tm _ q'(3), of q] ta by simp
          then show False using a(3) q' by (simp add: user_path_def)
        next
          case False
          then show False using exclusive_user [OF sp(1) 2(1) ta a(3)] sp(2) q'(3) by (auto simp: exclusive_def)
        qed
      next
        case 3
        then show False using exclusive_user [OF sp(1) 3(1) _ a(3), of x] a(2) b w(2) by (auto simp: exclusive_def)
      qed
    qed
  qed (use s'(4) troot tr in auto)
qed

section \<open>Creating an address space\<close>

lemma clone_loop:
  assumes "n \<le> 512" "m \<noteq> root" "\<forall>i<512. 256 \<le> i \<longrightarrow> is_present (tables s m i) \<longrightarrow> \<not> contains (tables s m i) USER_ACCESSIBLE"
    "tables s root = empty_table"
  shows "foldM (\<lambda>i s. clone_entry (tables s m) root i s) [256..<n] s =
    Some (s\<lparr>tables := (tables s)(root := \<lambda>i. if 256 \<le> i \<and> i < n \<and> is_present (tables s m i) then tables s m i else 0)\<rparr>)"
proof -
  have id: "s\<lparr>tables := (tables s)(root := empty_table)\<rparr> = s" using assms(4) by (cases s) (simp add: fun_upd_idem)
  have low: "(\<lambda>i. if 256 \<le> i \<and> i < k \<and> is_present (tables s m i) then tables s m i else 0) = empty_table" if "k \<le> 256" for k
    using that by (intro ext) auto
  show ?thesis
    using assms(1)
  proof (induction n)
    case 0 then show ?case unfolding low [OF le0] id by simp
  next
    case (Suc n)
    show ?case
    proof (cases "256 \<le> n")
      case False
      then have "Suc n \<le> 256" by simp
      show ?thesis unfolding low [OF \<open>Suc n \<le> 256\<close>] id using False by simp
    next
      case True
      let ?T = "\<lambda>n. (tables s)(root := \<lambda>i. if 256 \<le> i \<and> i < n \<and> is_present (tables s m i) then tables s m i else 0)"
      have IH: "foldM (\<lambda>i s. clone_entry (tables s m) root i s) [256..<n] s = Some (s\<lparr>tables := ?T n\<rparr>)" by (rule Suc.IH) (use Suc.prems in simp)
      have "clone_entry (tables (s\<lparr>tables := ?T n\<rparr>) m) root n (s\<lparr>tables := ?T n\<rparr>) = Some (s\<lparr>tables := ?T (Suc n)\<rparr>)"
      proof (cases "is_present (tables s m n)")
        case pr: True
        then have "\<not> contains (tables s m n) USER_ACCESSIBLE" using assms(3) True Suc.prems by auto
        moreover have "(?T n)(root := (?T n root)(n := tables s m n)) = ?T (Suc n)" using pr True by (auto simp: fun_eq_iff)
        ultimately show ?thesis using pr assms(2) by (simp add: clone_entry_def write_entry_def)
      next
        case np: False
        then have "?T n = ?T (Suc n)" by (auto simp: fun_eq_iff less_Suc_eq)
        then show ?thesis using np assms(2) by (simp add: clone_entry_def)
      qed
      moreover have "[256..<Suc n] = [256..<n] @ [n]" using True by simp
      ultimately show ?thesis using IH by (simp only: foldM_append foldM.simps Option.bind.simps Option.bind_rzero Option.bind_runit)
    qed
qed
qed

text \<open>The tables and leaves of a root that copies the upper half of another.\<close>

lemma clone_walks:
  assumes m: "tree g s m" and root: "\<And>q. tab g (tables s) m q \<noteq> Some root"
    and T': "T' = (tables s)(root := \<lambda>i. if 256 \<le> i \<and> i < 512 \<and> is_present (tables s m i) then tables s m i else 0)"
  shows "tab g T' root q = (if q = [] then Some root else if hd q < 256 then None else tab g (tables s) m q)"
    "lpath q \<Longrightarrow> leaf_at g T' root q = (if hd q < 256 then None else leaf_at g (tables s) m q)"
proof -
  have w: "tab g T' m = tab g (tables s) m" "lpath q \<Longrightarrow> leaf_at g T' m q = leaf_at g (tables s) m q" for q
    by (rule foreign_walks [where F = "{root}"], use root T' in auto)+
  have mr: "m \<noteq> root" using root [of "[]"] by simp
  have e: "T' root i = (if 256 \<le> i \<and> i < 512 \<and> is_present (T' m i) then T' m i else 0)" for i using mr by (simp add: T')
  show "tab g T' root q = (if q = [] then Some root else if hd q < 256 then None else tab g (tables s) m q)"
  proof (cases q)
    case (Cons i js)
    then show ?thesis using e [of i] w(1) [symmetric] by (auto simp: tab_def tpath_def)
  qed (simp add: tab_def)
  show "leaf_at g T' root q = (if hd q < 256 then None else leaf_at g (tables s) m q)" if "lpath q"
  proof (cases q)
    case (Cons i js)
    then show ?thesis using e [of i] w(2) [OF that, symmetric] that by (auto simp: lpath_def)
  qed (use that in \<open>simp add: lpath_def\<close>)
qed

lemma new_user_spec:
  assumes sp: "spaces g s R" "m \<in> R" "master_pml4 s = m" "m \<noteq> 0"
    and mu: "\<forall>i<512. 256 \<le> i \<longrightarrow> is_present (tables s m i) \<longrightarrow> \<not> contains (tables s m i) USER_ACCESSIBLE"
  shows "if free_of s = {} then new_user g s = Some (Err OutOfMemory, s)
    else \<exists>root s'. new_user g s = Some (Ok root, s') \<and> root \<in> free_of s \<and> spaces g s' (insert root R)
      \<and> free_of s' = free_of s - {root} \<and> owned_of s' = insert root (owned_of s)
      \<and> tab g (tables s') root = (\<lambda>q. if q = [] then Some root else if hd q < 256 then None else tab g (tables s) m q)
      \<and> (\<forall>q. lpath q \<longrightarrow> leaf_at g (tables s') root q = (if hd q < 256 then None else leaf_at g (tables s) m q))
      \<and> (\<forall>r\<in>R. \<forall>q. lpath q \<longrightarrow> leaf_at g (tables s') r q = leaf_at g (tables s) r q)
      \<and> (\<forall>r\<in>R. tab g (tables s') r = tab g (tables s) r) \<and> master_pml4 s' = m \<and> cr3 s' = cr3 s"
proof (cases "free_of s = {}")
  have pi: "pmm_inv (frames s)" using sp(1) by (simp add: spaces_def)
  {
    case True
    then have "alloc_frame (frames s) = Some (None, frames s)" using pmm_fa.alloc_empty [OF pi] by (simp add: free_of_def)
    then show ?thesis using True by (simp add: new_user_def)
  next
    case False
    then obtain root p where a: "alloc_frame (frames s) = Some (Some root, p)" "root \<in> free_of s" "pmm_inv p"
      "addrs (frames_in p Free) = free_of s - {root}" "addrs (frames_in p Allocated) = insert root (owned_of s)"
      using pmm_fa.alloc_some [OF pi] by (auto simp: free_of_def owned_of_def)
    have nr: "tab g (tables s) r q \<noteq> Some root" if "r \<in> R" for r q using tree_range [OF spaces_tree [OF sp(1) that]] a(2) by blast
    have rm: "root \<noteq> m" using nr [OF sp(2), of "[]"] by auto
    have fa: "4096 dvd root" "root < 0x10000000" using frame_facts [OF pi, of root Free] a(2) by (simp_all add: free_of_def)
    define T' where "T' = (tables s)(root := \<lambda>i. if 256 \<le> i \<and> i < 512 \<and> is_present (tables s m i) then tables s m i else 0)"
    define s' where "s' = s\<lparr>frames := p, tables := T'\<rparr>"
    let ?z = "zero_table root (s\<lparr>frames := p\<rparr>)"
    have "foldM (\<lambda>i s. clone_entry (tables s m) root i s) [256..<512] ?z = Some s'"
      using clone_loop [of 512 m root ?z] rm mu by (simp add: s'_def T'_def zero_table_def) (simp cong: if_cong)
    moreover have "m < 0x40000000" using tree_range [OF spaces_tree [OF sp(1,2)], of "[]" m] by simp
    ultimately have run: "new_user g s = Some (Ok root, s')"
      using a(1) sp(3,4) fa(2) by (simp add: new_user_def get_master_kernel_pml4_def phys_to_virt_table_def HHDM_SIZE_def list_all_iff s'_def T'_def del: upt_rec_numeral)
    have cw: "tab g T' root q = (if q = [] then Some root else if hd q < 256 then None else tab g (tables s) m q)"
      "lpath q \<Longrightarrow> leaf_at g T' root q = (if hd q < 256 then None else leaf_at g (tables s) m q)" for q
      using clone_walks [OF spaces_tree [OF sp(1,2)] nr [OF sp(2)] T'_def] by blast+
    have ow: "tab g T' r = tab g (tables s) r" "lpath q \<Longrightarrow> leaf_at g T' r q = leaf_at g (tables s) r q" if "r \<in> R" for r q
      by (rule foreign_walks [where F = "{root}"], use nr [OF that] in \<open>auto simp: T'_def\<close>)+
    have fr: "free_of s' = free_of s - {root}" "owned_of s' = insert root (owned_of s)" "tables s' = T'" "pmm_inv (frames s')"
      using a by (simp_all add: s'_def free_of_def owned_of_def)
    have sp': "spaces g s' (insert root R)" by (rule spaces_clone [OF sp(1,2) a(2) fa fr cw(1) ow(1)]) (simp_all add: T'_def)
    show ?thesis using False run a(2) sp' fr cw ow sp(3) by (auto simp: s'_def fun_eq_iff)
  }
qed

section \<open>Destroying an address space\<close>

text \<open>The frames in \<open>F\<close> were released and nothing else changed.\<close>

definition released :: "nat set \<Rightarrow> vm_state \<Rightarrow> vm_state \<Rightarrow> bool" where
  "released F s s' \<longleftrightarrow> s' = s\<lparr>frames := frames s'\<rparr> \<and> pmm_inv (frames s')
     \<and> free_of s' = free_of s \<union> (F \<inter> owned_of s) \<and> owned_of s' = owned_of s - F"

lemma released_refl: "pmm_inv (frames s) \<Longrightarrow> released {} s s"
  by (simp add: released_def)

lemma released_trans: "released F s t \<Longrightarrow> released G t u \<Longrightarrow> released (F \<union> G) s u"
  unfolding released_def by (cases s; cases t; cases u) auto

lemma released_tables: "released F s s' \<Longrightarrow> tables s' = tables s"
  unfolding released_def by (cases s; cases s') simp

lemma released_inv: "released F s s' \<Longrightarrow> pmm_inv (frames s')"
  by (simp add: released_def)

lemma release_table_released: "pmm_inv (frames s) \<Longrightarrow> released {f} s (release_table f s)"
  using free_frame_effect [of "frames s" f] by (auto simp: released_def release_table_def free_of_def owned_of_def)

text \<open>A loop whose body releases frames that depend on the tables only.\<close>

lemma released_loop:
  assumes "pmm_inv (frames s)"
    "\<And>i t. i \<in> set xs \<Longrightarrow> pmm_inv (frames t) \<Longrightarrow> tables t = tables s \<Longrightarrow> \<exists>t'. B i t = Some t' \<and> released (F i) t t'"
  shows "\<exists>s'. foldM B xs s = Some s' \<and> released (\<Union>i\<in>set xs. F i) s s'"
proof -
  have "\<exists>s'. foldM B xs t = Some s' \<and> released (\<Union>i\<in>set xs. F i) t s'" if "pmm_inv (frames t)" "tables t = tables s" for t
    using that assms(2)
  proof (induction xs arbitrary: t)
    case (Cons x xs)
    then obtain u where u: "B x t = Some u" "released (F x) t u" by (metis list.set_intros(1))
    have "pmm_inv (frames u)" "tables u = tables s" using released_inv [OF u(2)] released_tables [OF u(2)] Cons.prems(2) by simp_all
    then obtain w where "foldM B xs u = Some w" "released (\<Union>i\<in>set xs. F i) u w" using Cons by (metis list.set_intros(2))
    then show ?case using u released_trans [OF u(2)] by auto
  qed (simp add: released_refl)
  then show ?thesis using assms(1) by blast
qed

definition kids :: "AddressSpaceGeometry \<Rightarrow> (nat \<Rightarrow> PageTable) \<Rightarrow> nat \<Rightarrow> nat \<Rightarrow> nat set" where
  "kids g T t i = (if is_present (T t i) \<and> \<not> contains (T t i) HUGE_PAGE then {table_addr g (T t i)} else {})"

lemma destroy_pd_released:
  assumes "pmm_inv (frames s)" "pd < 0x40000000"
  shows "\<exists>s'. destroy_pd g pd s = Some s' \<and> released ((\<Union>i<512. kids g (tables s) pd i) \<union> {pd}) s s'"
proof -
  let ?B = "\<lambda>i s. case points_to_frame g (tables s pd i) of None \<Rightarrow> Some s
          | Some pt_frame \<Rightarrow> Some (if contains (tables s pd i) HUGE_PAGE then s else release_table pt_frame s)"
  have B: "\<exists>t'. ?B i t = Some t' \<and> released (kids g (tables s) pd i) t t'"
    if "i \<in> set [0..<512]" "pmm_inv (frames t)" "tables t = tables s" for i t
    using that released_refl [OF that(2)] release_table_released [OF that(2)]
    by (auto simp: points_to_frame_eq kids_def simp del: upt_rec_numeral)
  have "\<exists>u. foldM ?B [0..<512] s = Some u \<and> released (\<Union>i\<in>set [0..<512]. kids g (tables s) pd i) s u"
    by (rule released_loop [OF assms(1)]) (rule B)
  then obtain u where u: "foldM ?B [0..<512] s = Some u" "released (\<Union>i\<in>set [0..<512]. kids g (tables s) pd i) s u" by blast
  have "destroy_pd g pd s = Some (release_table pd u)"
    using u(1) assms(2) by (simp add: destroy_pd_def phys_to_virt_table_def HHDM_SIZE_def del: upt_rec_numeral)
  moreover have "{0..<512} = {..<512::nat}" by auto
  ultimately show ?thesis using released_trans [OF u(2) release_table_released [OF released_inv [OF u(2)], of pd]] by (simp del: upt_rec_numeral)
qed

lemma destroy_pdpt_released:
  assumes "pmm_inv (frames s)" "pdpt < 0x40000000" "\<And>i pd. i < 512 \<Longrightarrow> pd \<in> kids g (tables s) pdpt i \<Longrightarrow> pd < 0x40000000"
  shows "\<exists>s'. destroy_pdpt g pdpt s = Some s'
    \<and> released ((\<Union>i<512. \<Union>pd\<in>kids g (tables s) pdpt i. (\<Union>j<512. kids g (tables s) pd j) \<union> {pd}) \<union> {pdpt}) s s'"
proof -
  let ?B = "\<lambda>i s. case points_to_frame g (tables s pdpt i) of None \<Rightarrow> Some s
          | Some pd_frame \<Rightarrow> if contains (tables s pdpt i) HUGE_PAGE then Some s else destroy_pd g pd_frame s"
  let ?F = "\<lambda>i. \<Union>pd\<in>kids g (tables s) pdpt i. (\<Union>j<512. kids g (tables s) pd j) \<union> {pd}"
  have B: "\<exists>t'. ?B i t = Some t' \<and> released (?F i) t t'" if "i \<in> set [0..<512]" "pmm_inv (frames t)" "tables t = tables s" for i t
    using that assms(3) [of i] destroy_pd_released [OF that(2), of "table_addr g (tables s pdpt i)" g] released_refl [OF that(2)]
    by (auto simp: points_to_frame_eq kids_def simp del: upt_rec_numeral)
  have "\<exists>u. foldM ?B [0..<512] s = Some u \<and> released (\<Union>i\<in>set [0..<512]. ?F i) s u"
    by (rule released_loop [OF assms(1)]) (rule B)
  then obtain u where u: "foldM ?B [0..<512] s = Some u" "released (\<Union>i\<in>set [0..<512]. ?F i) s u" by blast
  have "destroy_pdpt g pdpt s = Some (release_table pdpt u)"
    using u(1) assms(2) by (simp add: destroy_pdpt_def phys_to_virt_table_def HHDM_SIZE_def del: upt_rec_numeral)
  moreover have "{0..<512} = {..<512::nat}" by auto
  ultimately show ?thesis using released_trans [OF u(2) release_table_released [OF released_inv [OF u(2)], of pdpt]] by (simp del: upt_rec_numeral)
qed

lemma kids_iff: "tpath (p @ [i]) \<Longrightarrow> tab g (tables s) r p = Some t \<Longrightarrow> x \<in> kids g (tables s) t i \<longleftrightarrow> tab g (tables s) r (p @ [i]) = Some x"
  by (auto simp: kids_def tab_snoc)

text \<open>The tables below one entry of the root.\<close>

definition below :: "AddressSpaceGeometry \<Rightarrow> (nat \<Rightarrow> PageTable) \<Rightarrow> nat \<Rightarrow> nat \<Rightarrow> nat set" where
  "below g T r i = (\<Union>pdpt\<in>kids g T r i. (\<Union>j<512. \<Union>pd\<in>kids g T pdpt j. (\<Union>k<512. kids g T pd k) \<union> {pd}) \<union> {pdpt})"

lemma below_tabs:
  assumes "i < 512" shows "x \<in> below g (tables s) r i \<longleftrightarrow> (\<exists>q. q \<noteq> [] \<and> hd q = i \<and> tab g (tables s) r q = Some x)"
proof
  have tp: "tpath ([] @ [i])" "j < 512 \<Longrightarrow> tpath ([i] @ [j])" "j < 512 \<Longrightarrow> k < 512 \<Longrightarrow> tpath ([i, j] @ [k])" for j k
    using assms by (simp_all add: tpath_def)
  have K1: "y \<in> kids g (tables s) r i \<Longrightarrow> tab g (tables s) r [i] = Some y" for y
    using kids_iff [OF tp(1), of g s r r y] by simp
  have K2: "j < 512 \<Longrightarrow> tab g (tables s) r [i] = Some u \<Longrightarrow> y \<in> kids g (tables s) u j \<Longrightarrow> tab g (tables s) r [i, j] = Some y" for j u y
    using kids_iff [OF tp(2), of j g s r u y] by simp
  have K3: "j < 512 \<Longrightarrow> k < 512 \<Longrightarrow> tab g (tables s) r [i, j] = Some u \<Longrightarrow> y \<in> kids g (tables s) u k \<Longrightarrow> tab g (tables s) r [i, j, k] = Some y" for j k u y
    using kids_iff [OF tp(3), of j k g s r u y] by simp
  assume "x \<in> below g (tables s) r i"
  then consider "x \<in> kids g (tables s) r i" | pdpt j where "pdpt \<in> kids g (tables s) r i" "j < 512" "x \<in> kids g (tables s) pdpt j"
    | pdpt j pd k where "pdpt \<in> kids g (tables s) r i" "j < 512" "pd \<in> kids g (tables s) pdpt j" "k < 512" "x \<in> kids g (tables s) pd k"
    by (auto simp: below_def)
  then show "\<exists>q. q \<noteq> [] \<and> hd q = i \<and> tab g (tables s) r q = Some x"
  proof cases
    case 1 then show ?thesis using K1 by (intro exI [of _ "[i]"]) simp
  next
    case (2 pdpt j)
    then show ?thesis using K2 [OF 2(2) K1 [OF 2(1)]] by (intro exI [of _ "[i, j]"]) simp
  next
    case (3 pdpt j pd k)
    then show ?thesis using K3 [OF 3(2,4) K2 [OF 3(2) K1 [OF 3(1)]]] by (intro exI [of _ "[i, j, k]"]) simp
  qed
next
  assume "\<exists>q. q \<noteq> [] \<and> hd q = i \<and> tab g (tables s) r q = Some x"
  then obtain q where q: "q \<noteq> []" "hd q = i" "tab g (tables s) r q = Some x" by blast
  have t: "tpath q" using tab_SomeD [OF q(3)] by simp
  then consider "q = [i]" | j where "q = [i] @ [j]" | j k where "q = [i, j] @ [k]"
    using q(1,2) by (cases q; cases "tl q"; cases "tl (tl q)"; auto simp: tpath_def)
  then show "x \<in> below g (tables s) r i"
  proof cases
    case 1
    then have "x \<in> kids g (tables s) r i" using kids_iff [of "[]" i g s r r x] q(3) t by simp
    then show ?thesis by (auto simp: below_def)
  next
    case (2 j)
    obtain pdpt where a: "tab g (tables s) r [i] = Some pdpt" using tab_prefix [of g "tables s" r "[i]" "[j]"] q(3) 2 by auto
    have "x \<in> kids g (tables s) pdpt j" "j < 512" using kids_iff [of "[i]" j g s r pdpt x] 2 t a q(3) by (auto simp: tpath_def)
    moreover have "pdpt \<in> kids g (tables s) r i" using kids_iff [of "[]" i g s r r pdpt] a tab_SomeD [OF a] by simp
    ultimately show ?thesis by (auto simp: below_def)
  next
    case (3 j k)
    obtain pd where b: "tab g (tables s) r [i, j] = Some pd" using tab_prefix [of g "tables s" r "[i, j]" "[k]"] q(3) 3 by auto
    obtain pdpt where a: "tab g (tables s) r [i] = Some pdpt" using tab_prefix [of g "tables s" r "[i]" "[j]"] b by auto
    have "x \<in> kids g (tables s) pd k" "k < 512" using kids_iff [of "[i, j]" k g s r pd x] 3 t b q(3) by (auto simp: tpath_def)
    moreover have "pd \<in> kids g (tables s) pdpt j" "j < 512"
      using kids_iff [of "[i]" j g s r pdpt pd] a b tab_SomeD [OF b] by (auto simp: tpath_def)
    moreover have "pdpt \<in> kids g (tables s) r i" using kids_iff [of "[]" i g s r r pdpt] a tab_SomeD [OF a] by simp
    ultimately show ?thesis by (auto simp: below_def)
  qed
qed

lemma destroy_loop:
  assumes tr: "tree g s r" and pi: "pmm_inv (frames s)" and n: "n \<le> 256"
  shows "\<exists>s'. foldM (\<lambda>i s. case points_to_frame g (tables s r i) of None \<Rightarrow> Some s
       | Some pdpt_frame \<Rightarrow> do { s \<leftarrow> destroy_pdpt g pdpt_frame s; Some (write_entry r i 0 s) }) [0..<n] s = Some s'
    \<and> (\<forall>x. x \<noteq> r \<longrightarrow> tables s' x = tables s x) \<and> (\<forall>i\<ge>n. tables s' r i = tables s r i) \<and> pmm_inv (frames s')
    \<and> free_of s' = free_of s \<union> ((\<Union>i<n. below g (tables s) r i) \<inter> owned_of s)
    \<and> owned_of s' = owned_of s - (\<Union>i<n. below g (tables s) r i) \<and> cr3 s' = cr3 s \<and> master_pml4 s' = master_pml4 s"
  using n
proof (induction n)
  case 0 then show ?case using pi by simp
next
  case (Suc n)
  let ?B = "\<lambda>i s. case points_to_frame g (tables s r i) of None \<Rightarrow> Some s
       | Some pdpt_frame \<Rightarrow> do { s \<leftarrow> destroy_pdpt g pdpt_frame s; Some (write_entry r i 0 s) }"
  obtain u where u: "foldM ?B [0..<n] s = Some u" "\<And>x. x \<noteq> r \<Longrightarrow> tables u x = tables s x" "\<And>i. n \<le> i \<Longrightarrow> tables u r i = tables s r i"
    "pmm_inv (frames u)" "free_of u = free_of s \<union> ((\<Union>i<n. below g (tables s) r i) \<inter> owned_of s)"
    "owned_of u = owned_of s - (\<Union>i<n. below g (tables s) r i)" "cr3 u = cr3 s" "master_pml4 u = master_pml4 s"
    using Suc by auto
  have fold: "foldM ?B [0..<Suc n] s = ?B n u" using u(1) foldM_snoc [of ?B "[0..<n]" n s] by simp
  have un: "(\<Union>i<Suc n. below g (tables s) r i) = below g (tables s) r n \<union> (\<Union>i<n. below g (tables s) r i)" by (auto simp: less_Suc_eq)
  show ?case
  proof (cases "is_present (tables s r n)")
    case False
    then have "below g (tables s) r n = {}" by (simp add: below_def kids_def)
    then show ?thesis unfolding fold un using False u by (auto simp: points_to_frame_eq)
  next
    case True
    define pdpt where "pdpt = table_addr g (tables s r n)"
    have nh: "\<not> contains (tables s r n) HUGE_PAGE" using tr Suc.prems by (auto simp: tree_def)
    have n512: "n < 512" using Suc.prems by simp
    note bt = below_tabs [OF n512, of _ g s r]
    have kr: "kids g (tables s) r n = {pdpt}" using True nh by (simp add: kids_def pdpt_def)
    have bel: "x \<in> below g (tables s) r n \<Longrightarrow> x \<noteq> r \<and> x < 0x40000000" for x
      using bt [of x] tree_inj [OF tr, of "[]" r] tree_range [OF tr] by fastforce
    have pb: "pdpt \<in> below g (tables s) r n" by (simp add: below_def kr)
    have k1: "kids g (tables u) pdpt j = kids g (tables s) pdpt j" for j using u(2) bel [OF pb] by (simp add: kids_def)
    have pdb: "pd \<in> below g (tables s) r n" if "pd \<in> kids g (tables s) pdpt j" "j < 512" for pd j using that by (auto simp: below_def kr)
    have k2: "kids g (tables u) pd k = kids g (tables s) pd k" if "pd \<in> kids g (tables s) pdpt j" "j < 512" for pd j k
      using u(2) bel [OF pdb [OF that]] by (simp add: kids_def)
    have "(\<Union>j<512. \<Union>pd\<in>kids g (tables u) pdpt j. (\<Union>k<512. kids g (tables u) pd k) \<union> {pd}) \<union> {pdpt} = below g (tables s) r n"
      unfolding below_def kr using k1 k2 by auto
    with destroy_pdpt_released [OF u(4), of pdpt g] bel [OF pb] bel [OF pdb] k1
    obtain w where w: "destroy_pdpt g pdpt u = Some w" "released (below g (tables s) r n) u w" by auto
    note wt = released_tables [OF w(2)]
    have wf: "free_of w = free_of u \<union> (below g (tables s) r n \<inter> owned_of u)" "owned_of w = owned_of u - below g (tables s) r n"
      "pmm_inv (frames w)" "cr3 w = cr3 u" "master_pml4 w = master_pml4 u"
      using w(2) unfolding released_def by (auto, (metis vm_state.select_convs vm_state.update_convs(2) vm_state.surjective)+)
    have "?B n u = Some (write_entry r n 0 w)" using w(1) True u(3) [of n] by (simp add: points_to_frame_eq pdpt_def)
    then show ?thesis unfolding fold un using wf wt u(2-8) by (intro exI [of _ "write_entry r n 0 w"]) (auto simp: free_of_def owned_of_def)
  qed
qed

definition user_tabs :: "AddressSpaceGeometry \<Rightarrow> vm_state \<Rightarrow> nat \<Rightarrow> nat set" where
  "user_tabs g s r = {t. \<exists>q. user_path q \<and> tab g (tables s) r q = Some t}"

lemma user_tabs_below: "user_tabs g s r = insert r (\<Union>i<256. below g (tables s) r i)"
proof (rule set_eqI)
  fix x
  have b: "x \<in> (\<Union>i<256. below g (tables s) r i) \<longleftrightarrow> (\<exists>q. q \<noteq> [] \<and> hd q < 256 \<and> tab g (tables s) r q = Some x)"
    using below_tabs [of _ x g s r] by auto
  show "x \<in> user_tabs g s r \<longleftrightarrow> x \<in> insert r (\<Union>i<256. below g (tables s) r i)"
    unfolding insert_iff b user_tabs_def user_path_def mem_Collect_eq by (metis option.inject tab_Nil)
qed

lemma destroy_spec:
  assumes g: "geom_ok g" and sp: "spaces g s R" "r \<in> R" "r \<noteq> 0" and m: "master_pml4 s = m" "m \<in> R" "m \<noteq> 0" "m \<noteq> r"
  shows "\<exists>s'. destroy g r s = Some (0, s') \<and> spaces g s' (R - {r})
    \<and> (\<forall>r'\<in>R - {r}. tab g (tables s') r' = tab g (tables s) r' \<and> (\<forall>q. lpath q \<longrightarrow> leaf_at g (tables s') r' q = leaf_at g (tables s) r' q))
    \<and> free_of s' = free_of s \<union> (user_tabs g s r \<inter> owned_of s) \<and> owned_of s' = owned_of s - user_tabs g s r
    \<and> fst (cr3_read g s') \<noteq> r \<and> master_pml4 s' = m"
proof -
  note tr = spaces_tree [OF sp(1,2)]
  have mr: "4096 dvd m" "m < 0x40000000" using tree_range [OF spaces_tree [OF sp(1) m(2)], of "[]" m] by simp_all
  have v: "is_valid_phys_frame g m" using small_frame_valid [OF g mr(1)] mr(2) by simp
  have mm: "unat (word_of_nat m AND physical_mask g) = m"
    using entry_addr [OF v, of 0] mr(2) by (simp add: table_addr_def plain_flags_def)
  define s0 where "s0 = (if fst (cr3_read g s) = r then s\<lparr>cr3 := word_of_nat m\<rparr> else s)"
  have s0: "tables s0 = tables s" "frames s0 = frames s" "master_pml4 s0 = m" "fst (cr3_read g s0) \<noteq> r"
    using m mm by (auto simp: s0_def cr3_read_def decode_cr3_def)
  have sw: "(if fst (cr3_read g s) = r then cr3_write g m 0 s else Some s) = Some s0" using v by (simp add: s0_def cr3_write_def encode_cr3_def)
  have t0: "tree g s0 r" "pmm_inv (frames s0)" using tr s0 sp(1) by (simp_all add: tree_def free_of_def spaces_def)
  obtain u where u: "foldM (\<lambda>i s. case points_to_frame g (tables s r i) of None \<Rightarrow> Some s
       | Some pdpt_frame \<Rightarrow> do { s \<leftarrow> destroy_pdpt g pdpt_frame s; Some (write_entry r i 0 s) }) [0..<256] s0 = Some u"
    "\<forall>x. x \<noteq> r \<longrightarrow> tables u x = tables s0 x" "pmm_inv (frames u)"
    "free_of u = free_of s0 \<union> ((\<Union>i<256. below g (tables s0) r i) \<inter> owned_of s0)"
    "owned_of u = owned_of s0 - (\<Union>i<256. below g (tables s0) r i)" "cr3 u = cr3 s0" "master_pml4 u = master_pml4 s0"
    using destroy_loop [OF t0 order_refl] by (elim exE conjE) (rule that)
  define s' where "s' = release_table r u"
  have rl: "released {r} u s'" unfolding s'_def by (rule release_table_released [OF u(3)])
  have fs: "free_of s0 = free_of s" "owned_of s0 = owned_of s" using s0(2) by (simp_all add: free_of_def owned_of_def)
  have s': "tables s' = tables u" "cr3 s' = cr3 s0" "master_pml4 s' = m" "pmm_inv (frames s')"
    using released_tables [OF rl] released_inv [OF rl] u(6,7) s0(3) by (simp_all add: s'_def release_table_def)
  have nb: "r \<notin> (\<Union>i<256. below g (tables s) r i)"
  proof
    assume "r \<in> (\<Union>i<256. below g (tables s) r i)"
    then obtain i where "i < 256" "r \<in> below g (tables s) r i" by blast
    then obtain q where "q \<noteq> []" "tab g (tables s) r q = Some r" using below_tabs [of i r g s r] by auto
    then show False using tree_inj [OF tr _ tab_Nil] window_path_simps(1) by blast
  qed
  have fr: "free_of s' = free_of s \<union> (user_tabs g s r \<inter> owned_of s)" "owned_of s' = owned_of s - user_tabs g s r"
    using rl unfolding released_def user_tabs_below u(4,5) fs s0(1) using nb by blast+
  have run: "destroy g r s = Some (0, s')"
    using sp(3) m tree_range [OF tr, of "[]" r] sw u(1) s0(1)
    by (simp add: destroy_def get_master_kernel_pml4_def phys_to_virt_table_def HHDM_SIZE_def s'_def del: upt_rec_numeral)
  have ex: "tab g (tables s) r' q \<noteq> Some x" if r': "r' \<in> R - {r}" and x: "x \<in> user_tabs g s r" for r' q x
  proof -
    obtain q' where "user_path q'" "tab g (tables s) r q' = Some x" using x by (auto simp: user_tabs_def)
    then have "exclusive g s R r x" using exclusive_user [OF sp(1,2)] by blast
    then show ?thesis using r' by (simp add: exclusive_def)
  qed
  have ru: "r \<in> user_tabs g s r" by (simp add: user_tabs_below)
  have w: "tab g (tables s') r' = tab g (tables s) r'" "lpath q \<Longrightarrow> leaf_at g (tables s') r' q = leaf_at g (tables s) r' q"
    if "r' \<in> R - {r}" for r' q
    by (rule foreign_walks [where F = "{r}"], use u(2) s'(1) s0(1) ex [OF that ru] in auto)+
  have tr': "tree g s' r'" if r': "r' \<in> R - {r}" for r'
  proof (rule tree_foreign [where F = "{r}" and s = s])
    show t: "tree g s r'" using spaces_tree [OF sp(1)] r' by simp
    show "tables s' x k = tables s x k" if "x \<notin> {r}" for x k using that u(2) s'(1) s0(1) by simp
    fix q x assume q: "tab g (tables s) r' q = Some x"
    then show "x \<notin> {r}" using ex [OF r' ru] by blast
    show "x \<notin> free_of s'" using tree_range [OF t q] ex [OF r'] q fr(1) by blast
  qed
  have sp': "spaces g s' (R - {r})"
    unfolding spaces_def
  proof (intro conjI ballI allI impI)
    fix a q x assume a: "a \<in> R - {r}" "tab g (tables s') a q = Some x" "user_path q"
    then have "exclusive g s R a x" using exclusive_user [OF sp(1), of a q x] w(1) by simp
    then show "exclusive g s' (R - {r}) a x" using w(1) by (simp add: exclusive_def)
  qed (use s'(4) tr' in auto)
  have c3: "fst (cr3_read g s') \<noteq> r" using s0(4) s'(2) by (simp add: cr3_read_def)
  show ?thesis
    by (intro exI [of _ s'] conjI ballI allI impI run sp' fr c3 s'(3) w) simp_all
qed

text \<open>A change of the leaf of one page, seen by the walks.\<close>

lemma updated_walks:
  assumes sp: "spaces g s R" "spaces g s' R" and v: "virtual_bits g = 48" "is_canonical g v" "v mod 4096 = 0"
    and lf: "\<forall>r'\<in>R. \<forall>q. lpath q \<longrightarrow> leaf_at g (tables s') r' q = (if r' = r \<and> q = vpath v then L else leaf_at g (tables s) r' q)"
    and w: "r' \<in> R" "w mod 4096 = 0"
  shows "translate g r' w s' = (if r' = r \<and> w = v then Some (case L of None \<Rightarrow> Err NotMapped | Some (n, e) \<Rightarrow> Ok (leaf_frame g n e v))
      else translate g r' w s)"
    "get_page_flags g r' w s' = (if r' = r \<and> w = v then Some (case L of None \<Rightarrow> Err NotMapped | Some (n, e) \<Rightarrow> Ok e)
      else get_page_flags g r' w s)"
proof -
  have "\<not> (r' = r \<and> vpath w = vpath v)" if "is_canonical g w" "\<not> (r' = r \<and> w = v)"
    using vpath_inj [OF that(1) v(2,1) w(2) v(3)] that(2) by blast
  then show "translate g r' w s' = (if r' = r \<and> w = v then Some (case L of None \<Rightarrow> Err NotMapped | Some (n, e) \<Rightarrow> Ok (leaf_frame g n e v))
      else translate g r' w s)"
    "get_page_flags g r' w s' = (if r' = r \<and> w = v then Some (case L of None \<Rightarrow> Err NotMapped | Some (n, e) \<Rightarrow> Ok e)
      else get_page_flags g r' w s)"
    using walks_by_leaf [OF sp(2) w(1), of w] same_leaf_walks [OF sp w(1), of w] lf w(1) v(2) walks_noncanonical [of g w r']
    by (cases "is_canonical g w"; auto)+
qed

section \<open>Properties\<close>

text \<open>The geometry that boot establishes satisfies what the properties assume of it.\<close>

lemma init_geometry_ok:
  assumes "init_paging_hardware eax ext_edx efer s = (g, efer', s')"
  shows "geom_ok g" "48 \<le> virtual_bits g" "nx_supported g \<Longrightarrow> nx_enabled g" "master_pml4 s' = fst (cr3_read g s)" "tables s' = tables s"
proof -
  have "bit ((efer OR push_bit 11 1) AND push_bit 11 1) 11" by (simp add: bit_simps)
  then have "(efer OR push_bit 11 1) AND push_bit 11 1 \<noteq> 0" by (metis bit_0_eq bot_apply bot_bool_def)
  then show "geom_ok g" "48 \<le> virtual_bits g" "nx_supported g \<Longrightarrow> nx_enabled g" "master_pml4 s' = fst (cr3_read g s)" "tables s' = tables s"
    using assms discover_geom_ok [of eax ext_edx efer]
    by (auto simp: init_paging_hardware_def Let_def geom_ok_def split: if_splits)
qed

text \<open>The error that \<open>map_page\<close> reports for its arguments and the mapping already there.\<close>

definition map_error :: "AddressSpaceGeometry \<Rightarrow> PhysFrame \<Rightarrow> u64 \<Rightarrow> PhysFrame \<Rightarrow> PageTableFlags \<Rightarrow> vm_state \<Rightarrow> VmmError option" where
  "map_error g r v f fl s =
     (if \<not> is_canonical g v then Some NonCanonicalAddress
      else if \<not> is_valid_phys_frame g f then Some InvalidPhysicalAddress
      else case validate_leaf fl g of
        Inl e \<Rightarrow> Some e
      | Inr _ \<Rightarrow>
          (case leaf_at g (tables s) r (vpath v) of
             None \<Rightarrow> None
           | Some (n, _) \<Rightarrow> Some (if n = 0 then AlreadyMapped else HugePageUnsupported)))"

text \<open>C4: mapping a page is exact and isolated. For any set of address spaces whose tables form disjoint user trees,
  any canonical, aligned page of the lower half (or any page when there is one space), any frame and flags without address
  bits: \<open>map_page\<close> does not panic and keeps the invariant. It reports an error for bad arguments and for existing mappings
  without changing anything, and can run out of memory only with fewer than three free frames, in which case every
  translation of every address space and the sets of free and used frames are as before. Otherwise exactly the one page of
  the one address space now translates to the frame with the requested flags, and every other page of every address space
  translates as before.\<close>

theorem map_page_exact:
  assumes "geom_ok g" "virtual_bits g = 48" "spaces g s R" "r \<in> R" "R = {r} \<or> p4_index v < 256" "v mod 4096 = 0"
    "f \<le> U64_MAX" "plain_flags g fl"
  shows "\<exists>res s'. map_page g r v f fl d s = Some (res, s') \<and> spaces g s' R
    \<and> (case map_error g r v f fl s of
         Some e \<Rightarrow> res = Err e \<and> s' = s
       | None \<Rightarrow>
           (case res of
              Inl e \<Rightarrow> e = OutOfMemory \<and> card (free_of s) < 3 \<and> free_of s' = free_of s \<and> owned_of s' = owned_of s
                \<and> (\<forall>r'\<in>R. \<forall>w. translate g r' w s' = translate g r' w s \<and> get_page_flags g r' w s' = get_page_flags g r' w s)
            | Inr _ \<Rightarrow> (\<forall>r'\<in>R. \<forall>w. w mod 4096 = 0 \<longrightarrow>
                  translate g r' w s' = (if r' = r \<and> w = v then Some (Ok f) else translate g r' w s)
                \<and> get_page_flags g r' w s' = (if r' = r \<and> w = v then Some (Ok ((word_of_nat f AND physical_mask g) OR leaf_flags fl d))
                    else get_page_flags g r' w s))))"
proof (cases "is_canonical g v \<and> is_valid_phys_frame g f \<and> validate_leaf fl g = Ok ()")
  case False
  then show ?thesis using assms(3) by (cases "validate_leaf fl g") (auto simp: map_error_def map_page_def)
next
  case True
  let ?e = "(word_of_nat f AND physical_mask g) OR leaf_flags fl d"
  have own: "owns R r v" using assms(4,5) by (simp add: owns_def)
  obtain res s' where m: "map_page g r v f fl d s = Some (res, s')" and o: "map_outcome g R r v ?e s (Some (res, s'))"
    using map_page_outcome [OF assms(1,3) own _ _ assms(7) _ assms(8), of d] True by (auto simp: map_outcome_def)
  show ?thesis
  proof (cases "leaf_at g (tables s) r (vpath v)")
    case (Some ne)
    then show ?thesis using o m True assms(3) by (cases ne; cases "fst ne") (auto simp: map_outcome_def map_error_def)
  next
    case None
    then have me: "map_error g r v f fl s = None" using True by (simp add: map_error_def)
    show ?thesis
    proof (cases res)
      case (Inl e)
      then have r: "e = OutOfMemory" "card (free_of s) < 3" "restored g R s s'" using o None by (auto simp: map_outcome_def)
      then have sp: "spaces g s' R" "free_of s' = free_of s" "owned_of s' = owned_of s" by (simp_all add: restored_def)
      have "translate g r' w s' = translate g r' w s \<and> get_page_flags g r' w s' = get_page_flags g r' w s" if "r' \<in> R" for r' w
        using same_leaf_walks [OF assms(3) sp(1) that, of w] restored_leaves [OF r(3)] that by (simp add: same_leaves_def)
      then show ?thesis using m me Inl r sp by auto
    next
      case (Inr u)
      then have gr: "spaces g s' R" and lf: "\<forall>r'\<in>R. \<forall>q. lpath q \<longrightarrow>
          leaf_at g (tables s') r' q = (if r' = r \<and> q = vpath v then Some (0, ?e) else leaf_at g (tables s) r' q)"
        using o None by (auto simp: map_outcome_def grew_def)
      have le: "leaf_frame g 0 ?e v = f" using leaf_entry(2) [OF assms(1) _ assms(7,8) refl] True by (simp add: leaf_frame_def)
      note uw = updated_walks [OF assms(3) gr assms(2) _ assms(6) lf]
      have "translate g r' w s' = (if r' = r \<and> w = v then Some (Ok f) else translate g r' w s)
          \<and> get_page_flags g r' w s' = (if r' = r \<and> w = v then Some (Ok ?e) else get_page_flags g r' w s)"
        if "r' \<in> R" "w mod 4096 = 0" for r' w
        using uw [OF _ that] True le by simp
      then show ?thesis using m me Inr gr by auto
    qed
  qed
qed

text \<open>C11: unmapping a page is the exact inverse on translations. Under the same invariant, \<open>unmap_page\<close> at a canonical page does
  not panic: it reports \<open>NotMapped\<close> where nothing is mapped and \<open>HugePageUnsupported\<close> inside a large page, changing nothing;
  otherwise it returns the frame the page translated to, that page of that address space has no translation any more, every
  other page of every address space translates as before, and the only frames that change hands are tables of this address
  space that became empty.\<close>

theorem unmap_page_exact:
  assumes "virtual_bits g = 48" "spaces g s R" "r \<in> R" "R = {r} \<or> p4_index v < 256" "is_canonical g v" "v mod 4096 = 0"
  shows "\<exists>res s'. unmap_page g r v s = Some (res, s') \<and> spaces g s' R
    \<and> (case leaf_at g (tables s) r (vpath v) of
         None \<Rightarrow> res = Err NotMapped \<and> s' = s \<and> translate g r v s = Some (Err NotMapped)
       | Some (Suc n, _) \<Rightarrow> res = Err HugePageUnsupported \<and> s' = s
       | Some (0, _) \<Rightarrow> \<exists>f. res = Ok f \<and> translate g r v s = Some (Ok f) \<and> (\<forall>r'\<in>R. \<forall>w. w mod 4096 = 0 \<longrightarrow>
             translate g r' w s' = (if r' = r \<and> w = v then Some (Err NotMapped) else translate g r' w s)
           \<and> get_page_flags g r' w s' = (if r' = r \<and> w = v then Some (Err NotMapped) else get_page_flags g r' w s))
           \<and> free_of s' = free_of s \<union> ((tabs g s r - tabs g s' r) \<inter> owned_of s) \<and> tabs g s' r \<subseteq> tabs g s r)"
proof -
  have own: "owns R r v" using assms(3,4) by (simp add: owns_def)
  note o = unmap_page_outcome [OF assms(2) own assms(5)] and w = walks_by_leaf [OF assms(2,3,5)]
  show ?thesis
  proof (cases "leaf_at g (tables s) r (vpath v)")
    case None
    then show ?thesis using o assms(2) w by (auto simp: unmap_outcome_def)
  next
    case (Some ne)
    obtain n e where ne: "ne = (n, e)" by force
    show ?thesis
    proof (cases n)
      case (Suc k)
      then show ?thesis using o Some ne assms(2) w by (auto simp: unmap_outcome_def)
    next
      case 0
      then obtain s' where u: "unmap_page g r v s = Some (Ok (table_addr g e), s')" and sh: "shrank g R r s s'"
        and lf: "\<forall>r'\<in>R. \<forall>q. lpath q \<longrightarrow> leaf_at g (tables s') r' q = (if r' = r \<and> q = vpath v then None else leaf_at g (tables s) r' q)"
        using o Some ne by (auto simp: unmap_outcome_def)
      have sp: "spaces g s' R" "tabs g s' r \<subseteq> tabs g s r" "free_of s' = free_of s \<union> ((tabs g s r - tabs g s' r) \<inter> owned_of s)"
        using sh by (auto simp: shrank_def dest: map_le_ran)
      note uw = updated_walks [OF assms(2) sp(1) assms(1,5,6) lf]
      have "translate g r v s = Some (Ok (table_addr g e))" using w(1) Some ne 0 by (simp add: leaf_frame_def)
      moreover have "\<forall>r'\<in>R. \<forall>w. w mod 4096 = 0 \<longrightarrow>
            translate g r' w s' = (if r' = r \<and> w = v then Some (Err NotMapped) else translate g r' w s)
          \<and> get_page_flags g r' w s' = (if r' = r \<and> w = v then Some (Err NotMapped) else get_page_flags g r' w s)"
        using uw by simp
      ultimately show ?thesis unfolding u(1) Some ne 0 using sp by (intro exI [of _ "Ok (table_addr g e)"] exI [of _ s']) simp
    qed
  qed
qed

text \<open>C25: mapping a page and unmapping it again is a round trip for memory. When no table of the address space but its root is
  empty, unmapping a page just mapped returns the mapped frame, and the free frames, the used frames and the page tables of every
  address space are those of before: no table frame is leaked or released twice.\<close>

theorem map_unmap_roundtrip:
  assumes "geom_ok g" "virtual_bits g = 48" "spaces g s R" "r \<in> R" "R = {r} \<or> p4_index v < 256" "tight g s r []"
    "f \<le> U64_MAX" "plain_flags g fl" "map_page g r v f fl d s = Some (Ok (), s1)"
  shows "\<exists>s2. unmap_page g r v s1 = Some (Ok f, s2) \<and> spaces g s2 R \<and> tight g s2 r []
    \<and> free_of s2 = free_of s \<and> owned_of s2 = owned_of s \<and> (\<forall>r'\<in>R. tab g (tables s2) r' = tab g (tables s) r')"
proof -
  let ?e = "(word_of_nat f AND physical_mask g) OR leaf_flags fl d"
  have own: "owns R r v" using assms(4,5) by (simp add: owns_def)
  have ok: "is_canonical g v" "is_valid_phys_frame g f" "validate_leaf fl g = Ok ()"
    using assms(9) by (auto simp: map_page_def split: if_splits sum.splits)
  note mo = map_page_outcome [OF assms(1,3) own ok(1,2) assms(7) ok(3) assms(8), of d, unfolded assms(9)]
  have n: "leaf_at g (tables s) r (vpath v) = None" using mo by (auto simp: map_outcome_def split: option.splits nat.splits prod.splits)
  have gr: "grew g R r s s1" and op: "on_path g r (vpath v) s s1"
    and lf: "\<And>r' q. r' \<in> R \<Longrightarrow> lpath q \<Longrightarrow> leaf_at g (tables s1) r' q = (if r' = r \<and> q = vpath v then Some (0, ?e) else leaf_at g (tables s) r' q)"
    using mo n by (auto simp: map_outcome_def)
  have sp1: "spaces g s1 R" using gr by (simp add: grew_def)
  have t1: "tight g s1 r []"
    by (rule map_keeps_tight [OF assms(3,4) gr assms(6)]) (use lf [OF assms(4)] op in \<open>auto simp: on_path_def\<close>)
  have le: "table_addr g ?e = f" using leaf_entry(2) [OF assms(1) ok(2) assms(7,8) refl] .
  obtain s2 where u: "unmap_page g r v s1 = Some (Ok f, s2)" "shrank g R r s1 s2" "tight g s2 r []"
    and lf2: "\<And>q. lpath q \<Longrightarrow> leaf_at g (tables s2) r q = (if q = vpath v then None else leaf_at g (tables s1) r q)"
    using unmap_page_outcome [OF sp1 own ok(1)] lf [OF assms(4), of "vpath v"] le t1 assms(4) by (auto simp: unmap_outcome_def)
  have "leaf_at g (tables s2) r q = leaf_at g (tables s) r q" if "lpath q" for q using lf2 [OF that] lf [OF assms(4) that] n by simp
  from tight_same_dom [OF assms(6) u(3) this] have "tab g (tables s) r = tab g (tables s2) r"
    using gr u(2) by (intro map_le_dom_eq) (auto simp: grew_def shrank_def)
  then have tb: "tab g (tables s2) r = tab g (tables s) r" ..
  moreover have "tab g (tables s2) r' = tab g (tables s) r'" if "r' \<in> R" "r' \<noteq> r" for r' using gr u(2) that by (simp add: grew_def shrank_def)
  ultimately have "\<forall>r'\<in>R. tab g (tables s2) r' = tab g (tables s) r'" by metis
  then show ?thesis using u grew_frames [OF gr u(2) assms(3) tb] by (auto simp: shrank_def)
qed

lemma hd_vpath: "hd (vpath v) = p4_index v"
  by (simp add: vpath_def)

lemma spaces_subset:
  assumes "spaces g s R" "R' \<subseteq> R" shows "spaces g s R'"
  unfolding spaces_def
proof (intro conjI ballI allI impI)
  fix r q t assume a: "r \<in> R'" "tab g (tables s) r q = Some t" "user_path q"
  have "exclusive g s R r t" by (rule exclusive_user [OF assms(1) _ a(2,3)]) (use a(1) assms(2) in blast)
  then show "exclusive g s R' r t" using assms(2) unfolding exclusive_def by blast
qed (use assms in \<open>auto simp: spaces_def\<close>)

text \<open>C17: a new address space is isolated and complete. When a frame is free, creating a user address space succeeds with a
  fresh root; no page of its lower half is mapped, every page of its upper half translates as in the master kernel table, and
  no translation of an existing address space changes. Destroying it right away releases its root and leaves the free and used
  frames and all translations as they were.\<close>

theorem new_user_isolated:
  assumes "geom_ok g" "spaces g s R" "master_pml4 s = m" "m \<in> R" "m \<noteq> 0" "free_of s \<noteq> {}" "0 \<notin> free_of s"
    "\<forall>i<512. 256 \<le> i \<longrightarrow> is_present (tables s m i) \<longrightarrow> \<not> contains (tables s m i) USER_ACCESSIBLE"
  shows "\<exists>root s1 s2. new_user g s = Some (Ok root, s1) \<and> root \<in> free_of s \<and> spaces g s1 (insert root R)
    \<and> (\<forall>v. is_canonical g v \<longrightarrow> translate g root v s1 = (if p4_index v < 256 then Some (Err NotMapped) else translate g m v s))
    \<and> (\<forall>r\<in>R. \<forall>v. translate g r v s1 = translate g r v s)
    \<and> destroy g root s1 = Some (0, s2) \<and> free_of s2 = free_of s \<and> owned_of s2 = owned_of s
    \<and> (\<forall>r\<in>R. \<forall>v. translate g r v s2 = translate g r v s)"
proof -
  obtain root s1 where n: "new_user g s = Some (Ok root, s1)" "root \<in> free_of s" and sp1: "spaces g s1 (insert root R)"
    and fr: "free_of s1 = free_of s - {root}" "owned_of s1 = insert root (owned_of s)"
    and tb: "tab g (tables s1) root = (\<lambda>q. if q = [] then Some root else if hd q < 256 then None else tab g (tables s) m q)"
    and lf: "\<And>q. lpath q \<Longrightarrow> leaf_at g (tables s1) root q = (if hd q < 256 then None else leaf_at g (tables s) m q)"
      "\<And>r q. r \<in> R \<Longrightarrow> lpath q \<Longrightarrow> leaf_at g (tables s1) r q = leaf_at g (tables s) r q" and m1: "master_pml4 s1 = m"
    using new_user_spec [OF assms(2,4,3,5,8)] unfolding if_not_P [OF assms(6)] by (elim exE conjE) (rule that, auto)
  have nR: "root \<notin> R"
  proof
    assume "root \<in> R"
    from tree_range [OF spaces_tree [OF assms(2) this] tab_Nil] n(2) show False by simp
  qed
  have spR: "spaces g s1 R" by (rule spaces_subset [OF sp1]) blast
  have t1: "translate g r v s1 = translate g r v s" if "r \<in> R" for r v
    using same_leaf_walks(1) [OF assms(2) spR that, of v] lf(2) [OF that] by simp
  have tr: "translate g root v s1 = (if p4_index v < 256 then Some (Err NotMapped) else translate g m v s)" if "is_canonical g v" for v
    using walks_by_leaf(1) [OF sp1 _ that, of root] walks_by_leaf(1) [OF assms(2,4) that] lf(1) [of "vpath v"] by (simp add: hd_vpath)
  have ne: "root \<noteq> 0" "m \<noteq> root" using n(2) assms(4,7) nR by (metis, metis)
  obtain s2 where d: "destroy g root s1 = Some (0, s2)" "spaces g s2 (insert root R - {root})"
    and ld: "\<forall>r'\<in>insert root R - {root}. tab g (tables s2) r' = tab g (tables s1) r'
        \<and> (\<forall>q. lpath q \<longrightarrow> leaf_at g (tables s2) r' q = leaf_at g (tables s1) r' q)"
    and fd: "free_of s2 = free_of s1 \<union> (user_tabs g s1 root \<inter> owned_of s1)" "owned_of s2 = owned_of s1 - user_tabs g s1 root"
    using destroy_spec [OF assms(1) sp1 insertI1 ne(1) m1 insertI2 [OF assms(4)] assms(5) ne(2)] by (elim exE conjE) (rule that)
  have ut: "user_tabs g s1 root = {root}" unfolding user_tabs_def tb by (auto simp: user_path_def split: if_splits)
  have "root \<notin> owned_of s" using n(2) free_owned_disjoint [OF assms(2)] by blast
  then have f2: "free_of s2 = free_of s" "owned_of s2 = owned_of s" using fd fr n(2) unfolding ut by auto
  have RR: "insert root R - {root} = R" using nR by simp
  have t2: "translate g r v s2 = translate g r v s" if "r \<in> R" for r v
    using same_leaf_walks(1) [OF spR d(2) [unfolded RR] that, of v] ld that t1 [OF that] unfolding RR by simp
  show ?thesis
    by (intro exI [of _ root] exI [of _ s1] exI [of _ s2] conjI n sp1 d(1) f2 allI impI ballI tr t1 t2)
qed

text \<open>C16: destroying an address space releases exactly its own tables. For any address space other than the master's, the
  destruction does not panic; the frames that become free are the root and the tables of the lower half, those of them that were
  allocated; the processor no longer uses the destroyed root; and no translation of any other address space changes.\<close>

theorem destroy_exact:
  assumes "geom_ok g" "spaces g s R" "r \<in> R" "r \<noteq> 0" "master_pml4 s = m" "m \<in> R" "m \<noteq> 0" "m \<noteq> r"
  shows "\<exists>s'. destroy g r s = Some (0, s') \<and> spaces g s' (R - {r})
    \<and> free_of s' = free_of s \<union> (user_tabs g s r \<inter> owned_of s) \<and> owned_of s' = owned_of s - user_tabs g s r
    \<and> fst (cr3_read g s') \<noteq> r \<and> (\<forall>r'\<in>R - {r}. \<forall>v. translate g r' v s' = translate g r' v s)"
proof -
  obtain s' where d: "destroy g r s = Some (0, s')" "spaces g s' (R - {r})"
    and ld: "\<forall>r'\<in>R - {r}. tab g (tables s') r' = tab g (tables s) r' \<and> (\<forall>q. lpath q \<longrightarrow> leaf_at g (tables s') r' q = leaf_at g (tables s) r' q)"
    and f: "free_of s' = free_of s \<union> (user_tabs g s r \<inter> owned_of s)" "owned_of s' = owned_of s - user_tabs g s r" "fst (cr3_read g s') \<noteq> r"
    using destroy_spec [OF assms] by (elim exE conjE) (rule that)
  have sp: "spaces g s (R - {r})" by (rule spaces_subset [OF assms(2)]) blast
  have "translate g r' v s' = translate g r' v s" if "r' \<in> R - {r}" for r' v
    using same_leaf_walks(1) [OF sp d(2) that, of v] ld that by simp
  then show ?thesis using d f by blast
qed

lemma low_canonical:
  assumes "unat v < 2 ^ (virtual_bits g - 1)" "virtual_bits g \<le> 64" shows "is_canonical g v"
proof -
  have b: "\<not> bit v n" if "virtual_bits g - 1 \<le> n" for n
  proof -
    have "unat v < 2 ^ n" 
      using less_le_trans [OF assms(1)] power_increasing [OF that, of "2::nat"] by simp
    then have "\<not> bit (unat v) n" by (simp add: bit_iff_odd)
    then show ?thesis by (simp add: bit_unsigned_iff)
  qed
  have "signed_drop_bit (virtual_bits g - 1) v = 0"
    by (intro bit_word_eqI) (use b assms(2) in \<open>auto simp: bit_signed_drop_bit_iff\<close>)
  then show ?thesis by (simp add: is_canonical_def)
qed

lemma assert_that_bind: "(assert_that b \<bind> (\<lambda>_. k)) = Some x \<longleftrightarrow> b \<and> k = Some x"
  by (simp add: assert_that_def)

text \<open>The hole above the lower half is recognised exactly with 48 address bits.\<close>

lemma canonical_hole:
  assumes "48 \<le> virtual_bits g" "virtual_bits g \<le> 57"
  shows "is_canonical g 0x00007FFFFFFF0000" "is_canonical g 0xFFFF800000000000" "is_canonical g 0x0000800000000000 \<longleftrightarrow> virtual_bits g \<noteq> 48"
proof -
  have "virtual_bits g \<in> {48, 49, 50, 51, 52, 53, 54, 55, 56, 57}" using assms unfolding insert_iff empty_iff by presburger
  then show "is_canonical g 0x00007FFFFFFF0000" "is_canonical g 0xFFFF800000000000" "is_canonical g 0x0000800000000000 \<longleftrightarrow> virtual_bits g \<noteq> 48"
    by (auto simp: is_canonical_def Let_def)
qed

lemma test_frame_ok:
  assumes "geom_ok g"
  shows "is_valid_phys_frame g 0x150000" "(0x150000 :: u64) AND physical_mask g = 0x150000"
proof -
  have b: "bit (0x150000 :: u64) n \<Longrightarrow> 12 \<le> n \<and> n < 32" for n by (auto simp: bit_numeral_rec bit_1_iff split: nat.splits)
  show m: "(0x150000 :: u64) AND physical_mask g = 0x150000"
    by (rule bit_word_eqI) (use b assms in \<open>auto simp: bit_simps geom_ok_def\<close>)
  have "(0x150000 :: u64) AND NOT (physical_mask g) = 0"
    by (rule bit_word_eqI) (use b assms in \<open>auto simp: bit_simps geom_ok_def\<close>)
  then show "is_valid_phys_frame g 0x150000" by (simp add: is_valid_phys_frame_def)
qed

lemma cr3_root_ok:
  assumes "geom_ok g"
  shows "fst (cr3_read g s) mod PAGE_SIZE = 0" "is_valid_phys_frame g (fst (cr3_read g s))"
proof -
  have "take_bit 12 (cr3 s AND physical_mask g) = 0"
    by (rule bit_word_eqI) (use assms in \<open>auto simp: bit_simps geom_ok_def\<close>)
  then have "take_bit 12 (unat (cr3 s AND physical_mask g)) = 0" unfolding unsigned_take_bit_eq [symmetric] by simp
  then show m: "fst (cr3_read g s) mod PAGE_SIZE = 0" by (simp add: cr3_read_def decode_cr3_def take_bit_eq_mod)
  have "(cr3 s AND physical_mask g) AND NOT (physical_mask g) = 0" by (rule bit_word_eqI) (auto simp: bit_simps)
  then show "is_valid_phys_frame g (fst (cr3_read g s))" using m by (simp add: is_valid_phys_frame_def cr3_read_def decode_cr3_def)
qed

text \<open>C40: after boot every address space has 48-bit addresses, and a processor that reports more stops the kernel. The discovery copies the
  width that CPUID reports, 49 to 57 bits included. The self-test that follows it returns exactly when the resulting width is 48,
  that is when the processor does not report a width in that range, and no control flag is set in the page table root register. When
  it returns, the geometry has the physical mask that the page tables rely on, the no-execute bit is on where it is supported, the master
  table is a valid frame, and two different pages never have the same path through the tables.\<close>

theorem boot_geometry:
  assumes "init_paging_hardware eax ext_edx efer s = (g, efer', s')"
  shows "(run_stage2ea_verification g s' = Some () \<longleftrightarrow>
      unat (drop_bit 8 eax AND 0xFF) \<notin> {49..57} \<and> snd (cr3_read g s) = 0)
    \<and> (run_stage2ea_verification g s' = Some () \<longrightarrow> geom_ok g \<and> virtual_bits g = 48 \<and> (nx_supported g \<longrightarrow> nx_enabled g)
         \<and> is_valid_phys_frame g (master_pml4 s')
         \<and> (\<forall>v w. is_canonical g v \<and> is_canonical g w \<and> v mod 4096 = 0 \<and> w mod 4096 = 0 \<and> vpath v = vpath w \<longrightarrow> v = w))"
proof -
  note i = init_geometry_ok [OF assms]
  let ?w = "unat (drop_bit 8 eax AND 0xFF)"
  have vb: "virtual_bits g = (if 48 \<le> ?w \<and> ?w \<le> 57 then ?w else 48)"
    using assms by (auto simp: init_paging_hardware_def discover_def Let_def split: if_splits)
  then have v: "virtual_bits g \<le> 57" "virtual_bits g = 48 \<longleftrightarrow> ?w \<notin> {49..57}" by auto
  have c: "cr3_read g s' = (fst (cr3_read g s), snd (cr3_read g s))"
    using assms by (auto simp: init_paging_hardware_def cr3_read_def Let_def split: if_splits)
  have e: "entry_set g 0x150000 (PRESENT OR PAGE_WRITABLE) = Some 0x150003"
    using test_frame_ok [OF i(1)] by (simp add: entry_set_def PRESENT_def PAGE_WRITABLE_def)
  have m: "(0x150003 :: u64) AND physical_mask g = 0x150000"
  proof -
    have "(0x150003 :: u64) AND physical_mask g = (0x150000 AND physical_mask g) OR (3 AND physical_mask g)"
      by (rule bit_word_eqI) (auto simp: bit_simps bit_numeral_rec split: nat.splits)
    moreover have "(3 :: u64) AND physical_mask g = 0"
      by (rule bit_word_eqI) (use i(1) in \<open>auto simp: bit_simps bit_3_u64 bit_3_int geom_ok_def dest: spec\<close>)
    ultimately show ?thesis using test_frame_ok(2) [OF i(1)] by simp
  qed
  have t: "run_stage2ea_verification g s' = Some () \<longleftrightarrow> virtual_bits g = 48 \<and> snd (cr3_read g s) = 0"
    unfolding run_stage2ea_verification_def c
    using canonical_hole [OF i(2) v(1)] cr3_root_ok [OF i(1), of s] test_frame_ok [OF i(1)] e m
    by (simp add: assert_that_bind Let_def is_present_def points_to_frame_def validate_leaf_def validate_intermediate_def contains_def intermediate_flags_def
        PRESENT_def PAGE_WRITABLE_def NO_EXECUTE_def HUGE_PAGE_def DIRTY_def USER_ACCESSIBLE_def) (simp add: assert_that_def case_prod_beta)
  show ?thesis unfolding t using v(2) i cr3_root_ok(2) [OF i(1), of s] vpath_inj [of g] by auto
qed

section \<open>A concrete machine\<close>

text \<open>Seven frames: the first reserved, four free, and two allocated ones that hold the master table and the table of a process.\<close>

definition demo_geom :: AddressSpaceGeometry where
  "demo_geom = discover 0x3030 0x100000 0x800"

definition demo_vm :: vm_state where
  "demo_vm = \<lparr>tables = (\<lambda>_. empty_table), frames = \<lparr>bitmap = (\<lambda>w. if w = 0 then 0x1402 else NOT 0), tracked_frames = 7,
     free_frames = 4, allocated_frames = 2, reserved_frames = 1, unusable_frames = 0, initialized = True\<rparr>, cr3 = 24576, master_pml4 = 20480\<rparr>"

lemma demo_geom_sel: "geom_ok demo_geom" "virtual_bits demo_geom = 48" "physical_mask demo_geom = 0xFFFFFFFFF000" "nx_enabled demo_geom"
  by (simp_all add: demo_geom_def discover_geom_ok(1)) (simp_all add: discover_def Let_def push_bit_eq_mult)

lemma demo_frames:
  "frames_in (frames demo_vm) Free = {1, 2, 3, 4}" "frames_in (frames demo_vm) Allocated = {5, 6}"
  "frames_in (frames demo_vm) Reserved = {0}" "frames_in (frames demo_vm) Unusable = {}"
proof -
  have st: "get_state (frames demo_vm) 0 = Reserved" "get_state (frames demo_vm) 1 = Free" "get_state (frames demo_vm) 2 = Free"
    "get_state (frames demo_vm) 3 = Free" "get_state (frames demo_vm) 4 = Free" "get_state (frames demo_vm) 5 = Allocated"
    "get_state (frames demo_vm) 6 = Allocated"
    by (simp_all add: demo_vm_def get_state_bits state_of_def)
  have "f < 7 \<longleftrightarrow> f \<in> {0, 1, 2, 3, 4, 5, 6}" for f :: nat by auto
  then have "frames_in (frames demo_vm) x = {f \<in> {0, 1, 2, 3, 4, 5, 6}. get_state (frames demo_vm) f = x}" for x
    by (simp add: frames_in_def demo_vm_def)
  then show "frames_in (frames demo_vm) Free = {1, 2, 3, 4}" "frames_in (frames demo_vm) Allocated = {5, 6}"
    "frames_in (frames demo_vm) Reserved = {0}" "frames_in (frames demo_vm) Unusable = {}"
    using st by (auto simp del: One_nat_def intro!: gr0I)
qed

lemma demo_vm_inv: "pmm_inv (frames demo_vm)"
  unfolding pmm_inv_def verify_invariants_iff demo_frames by (simp add: demo_vm_def)

lemma demo_free: "free_of demo_vm = {4096, 8192, 12288, 16384}" "owned_of demo_vm = {20480, 24576}"
  by (auto simp: free_of_def owned_of_def demo_frames)

lemma demo_tab: "tab demo_geom (tables demo_vm) r q = (if q = [] then Some r else None)"
  by (cases q) (simp_all add: tab_def tpath_def demo_vm_def empty_table_def is_present_def contains_def PRESENT_def)

lemma demo_leaf: "leaf_at demo_geom (tables demo_vm) r q = None"
  by (cases q) (simp_all add: demo_vm_def empty_table_def is_present_def contains_def PRESENT_def)

lemma demo_spaces: "spaces demo_geom demo_vm {20480, 24576}"
proof -
  have "\<not> contains (tables demo_vm r i) HUGE_PAGE" for r i by (simp add: demo_vm_def empty_table_def contains_def HUGE_PAGE_def)
  then show ?thesis using demo_vm_inv by (auto simp: spaces_def tree_def exclusive_def demo_tab demo_free split: if_splits)
qed

lemma demo_args: "is_canonical demo_geom 0x400000" "is_valid_phys_frame demo_geom 0x100000" "validate_leaf PAGE_WRITABLE demo_geom = Ok ()"
  "plain_flags demo_geom PAGE_WRITABLE" "(0x100000::nat) \<le> U64_MAX" "p4_index 0x400000 < 256" "(0x400000::u64) mod 4096 = 0"
  using low_canonical [of "0x400000" demo_geom]
  by (simp_all add: demo_geom_sel is_valid_phys_frame_def validate_leaf_def contains_def plain_flags_def PAGE_WRITABLE_def NO_EXECUTE_def HUGE_PAGE_def
      p4_index_def)

lemma demo_map_error: "map_error demo_geom r 0x400000 0x100000 PAGE_WRITABLE demo_vm = None"
  by (simp add: map_error_def demo_args demo_leaf)

lemma demo_owns: "owns {20480, 24576} 24576 0x400000"
  using demo_args by (simp add: owns_def)

lemma demo_mapped:
  "\<exists>s1. map_page demo_geom 24576 0x400000 0x100000 PAGE_WRITABLE User demo_vm = Some (Ok (), s1) \<and> spaces demo_geom s1 {20480, 24576}
    \<and> translate demo_geom 24576 0x400000 s1 = Some (Ok 0x100000)
    \<and> (\<exists>e. leaf_at demo_geom (tables s1) 24576 (vpath 0x400000) = Some (0, e))"
proof -
  let ?e = "(word_of_nat 0x100000 AND physical_mask demo_geom) OR leaf_flags PAGE_WRITABLE User"
  obtain s1 where m: "map_page demo_geom 24576 0x400000 0x100000 PAGE_WRITABLE User demo_vm = Some (Ok (), s1)"
    and sp: "spaces demo_geom s1 {20480, 24576}" and lf: "leaf_at demo_geom (tables s1) 24576 (vpath 0x400000) = Some (0, ?e)"
    using map_page_outcome [OF demo_geom_sel(1) demo_spaces demo_owns demo_args(1,2,5,3,4), of User]
    by (auto simp: map_outcome_def demo_leaf demo_free grew_def split: sum.splits unit.splits) (metis old.sum.exhaust old.unit.exhaust)
  have "table_addr demo_geom ?e = 0x100000" by (rule leaf_entry(2) [OF demo_geom_sel(1) demo_args(2,5,4) refl])
  then show ?thesis using m sp walks_by_leaf(1) [OF sp _ demo_args(1), of 24576] lf by (simp add: leaf_frame_def)
qed

lemma demo_master: "master_pml4 demo_vm = 20480"
  by (simp add: demo_vm_def)

theorem map_page_exact_witness:
  "\<exists>s'. map_page demo_geom 24576 0x400000 0x100000 PAGE_WRITABLE User demo_vm = Some (Ok (), s')
    \<and> translate demo_geom 24576 0x400000 s' = Some (Ok 0x100000) \<and> translate demo_geom 20480 0x400000 s' = translate demo_geom 20480 0x400000 demo_vm"
proof -
  have a: "24576 \<in> {20480, 24576 :: nat}" "{20480, 24576} = {24576 :: nat} \<or> p4_index 0x400000 < 256" using demo_args by simp_all
  note me = map_page_exact [OF demo_geom_sel(1,2) demo_spaces a demo_args(7,5,4), of User, unfolded demo_map_error option.case]
  from me obtain res s' where m: "map_page demo_geom 24576 0x400000 0x100000 PAGE_WRITABLE User demo_vm = Some (res, s')"
    and c: "res = Ok () \<Longrightarrow> \<forall>r'\<in>{20480, 24576}. \<forall>w. w mod 4096 = 0 \<longrightarrow>
        translate demo_geom r' w s' = (if r' = 24576 \<and> w = 0x400000 then Some (Ok 0x100000) else translate demo_geom r' w demo_vm)"
    and o: "\<And>e. res = Err e \<Longrightarrow> card (free_of demo_vm) < 3"
    by (elim exE conjE) (rule that, assumption, simp_all)
  have "res = Ok ()" using o by (cases res) (simp_all add: demo_free)
  then show ?thesis using m c by simp
qed

theorem unmap_page_exact_witness:
  "\<exists>s1 s2. map_page demo_geom 24576 0x400000 0x100000 PAGE_WRITABLE User demo_vm = Some (Ok (), s1)
    \<and> unmap_page demo_geom 24576 0x400000 s1 = Some (Ok 0x100000, s2) \<and> translate demo_geom 24576 0x400000 s2 = Some (Err NotMapped)"
proof -
  obtain s1 e where s1: "map_page demo_geom 24576 0x400000 0x100000 PAGE_WRITABLE User demo_vm = Some (Ok (), s1)"
    "spaces demo_geom s1 {20480, 24576}" "translate demo_geom 24576 0x400000 s1 = Some (Ok 0x100000)"
    and l: "leaf_at demo_geom (tables s1) 24576 (vpath 0x400000) = Some (0, e)" using demo_mapped by blast
  have "\<exists>s2. unmap_page demo_geom 24576 0x400000 s1 = Some (Ok 0x100000, s2) \<and> translate demo_geom 24576 0x400000 s2 = Some (Err NotMapped)"
    using unmap_page_exact [OF demo_geom_sel(2) s1(2), of 24576 "0x400000"] demo_args s1(3) by (auto simp: l)
  then show ?thesis using s1(1) by blast
qed

theorem map_unmap_roundtrip_witness:
  "\<exists>s1 s2. map_page demo_geom 24576 0x400000 0x100000 PAGE_WRITABLE User demo_vm = Some (Ok (), s1)
    \<and> unmap_page demo_geom 24576 0x400000 s1 = Some (Ok 0x100000, s2) \<and> free_of s2 = {4096, 8192, 12288, 16384}"
proof -
  obtain s1 where s1: "map_page demo_geom 24576 0x400000 0x100000 PAGE_WRITABLE User demo_vm = Some (Ok (), s1)" using demo_mapped by blast
  have "tight demo_geom demo_vm 24576 []" by (simp add: tight_def demo_tab)
  from map_unmap_roundtrip [OF demo_geom_sel(1,2) demo_spaces _ _ this demo_args(5,4) s1] show ?thesis
    using s1 demo_args(6) by (auto simp: demo_free)
qed

theorem new_user_isolated_witness:
  "\<exists>root s1 s2. new_user demo_geom demo_vm = Some (Ok root, s1) \<and> root \<in> {4096, 8192, 12288, 16384}
    \<and> translate demo_geom root 0x400000 s1 = Some (Err NotMapped) \<and> destroy demo_geom root s1 = Some (0, s2) \<and> free_of s2 = free_of demo_vm"
proof -
  have "\<forall>i<512. 256 \<le> i \<longrightarrow> is_present (tables demo_vm 20480 i) \<longrightarrow> \<not> contains (tables demo_vm 20480 i) USER_ACCESSIBLE"
    by (simp add: demo_vm_def empty_table_def is_present_def)
  from new_user_isolated [OF demo_geom_sel(1) demo_spaces demo_master _ _ _ _ this] show ?thesis
    unfolding demo_free using demo_args(1,6) by fastforce
qed

theorem destroy_exact_witness:
  "\<exists>s'. destroy demo_geom 24576 demo_vm = Some (0, s') \<and> 24576 \<in> free_of s'"
proof -
  have "24576 \<in> user_tabs demo_geom demo_vm 24576" by (auto simp: user_tabs_def demo_tab user_path_def)
  then show ?thesis using destroy_exact [OF demo_geom_sel(1) demo_spaces _ _ demo_master] demo_free by fastforce
qed

theorem boot_geometry_witness:
  "\<exists>g s'. init_paging_hardware 0x3030 0x100000 0x800 demo_vm = (g, 0x800, s') \<and> run_stage2ea_verification g s' = Some () \<and> virtual_bits g = 48
    \<and> (\<exists>g s'. init_paging_hardware 0x3930 0x100000 0x800 demo_vm = (g, 0x800, s') \<and> run_stage2ea_verification g s' = None)"
proof -
  obtain g s' where a: "init_paging_hardware 0x3030 0x100000 0x800 demo_vm = (g, 0x800, s')"
    by (simp add: init_paging_hardware_def Let_def discover_def)
  obtain h t' where b: "init_paging_hardware 0x3930 0x100000 0x800 demo_vm = (h, 0x800, t')"
    by (simp add: init_paging_hardware_def Let_def discover_def)
  have "snd (cr3_read g demo_vm) = 0" by (simp add: cr3_read_def decode_cr3_def cr3_flags_truncate_def demo_vm_def)
  then have "run_stage2ea_verification g s' = Some ()" "virtual_bits g = 48" using boot_geometry [OF a] by simp_all
  moreover have "run_stage2ea_verification h t' = None" using boot_geometry [OF b] by (cases "run_stage2ea_verification h t'") simp_all
  ultimately show ?thesis using a b by blast
qed

end
