(* ===== verification/UserPtr.thy ===== *)
theory UserPtr
  imports VmmProps
begin

text \<open>
  \<open>kernel/src/syscall/pointer.rs\<close>: validation of user pointers and of the user state before a return from a system
  call, over the page table walk \<open>get_page_flags\<close>. The result \<open>None\<close> is a fault of the walk.
\<close>

unbundle bit_operations_syntax

section \<open>Layout and types\<close>

definition USER_VA_MIN :: u64 where "USER_VA_MIN = 0x200000"
definition USER_DEV_MMIO_BASE :: u64 where "USER_DEV_MMIO_BASE = 0x600000000000"
definition USER_DEV_MMIO_END :: u64 where "USER_DEV_MMIO_END = 0x700000000000"
definition USER_VA_MAX_EXCLUSIVE :: u64 where "USER_VA_MAX_EXCLUSIVE = 0x7F8000000000"

text \<open>The error codes of system calls; the prefix keeps them apart from the errors of the other components.\<close>

datatype SyscallError = SysSuccess | SysInvalidSyscall | SysInvalidArgument | SysBadHandle | SysPermissionDenied | SysBadAddress
  | SysOutOfMemory | SysResourceBusy | SysNotFound | SysWouldBlock | SysPeerClosed | SysNoSpace | SysFileExists | SysIoError
  | SysNotADirectory | SysIsADirectory | SysTableFull | SysResourceConflict | SysDeviceFault | SysNetworkDown
  | SysNetworkUnreachable | SysConnectionRefused | SysConnectionReset | SysConnectionAborted | SysAlreadyConnected
  | SysNotConnected | SysAddressInUse | SysAddressNotAvailable | SysTimedOut | SysMessageTooLarge

datatype MemoryAccess = Read | Write | Execute

record SyscallFrame =
  f_r15 :: u64
  f_r14 :: u64
  f_r13 :: u64
  f_r12 :: u64
  f_rbx :: u64
  f_rbp :: u64
  f_r9 :: u64
  f_r8 :: u64
  f_r10 :: u64
  f_rdx :: u64
  f_rsi :: u64
  f_rdi :: u64
  f_rax :: u64
  user_rip :: u64
  user_cs :: u64
  user_rflags :: u64
  user_rsp :: u64
  user_ss :: u64

definition checked_add64 :: "u64 \<Rightarrow> u64 \<Rightarrow> u64 option" where
  "checked_add64 a b = (if unat a + unat b < 2 ^ 64 then Some (a + b) else None)"

section \<open>Validation\<close>

definition validate_mmio_range :: "u64 \<Rightarrow> u64 \<Rightarrow> SyscallError + unit" where
  "validate_mmio_range vaddr len =
     (if len = 0 \<or> len mod 4096 \<noteq> 0 \<or> vaddr mod 4096 \<noteq> 0 then Err SysInvalidArgument
      else case checked_add64 vaddr len of
        None \<Rightarrow> Err SysBadAddress
      | Some end \<Rightarrow> if vaddr < USER_DEV_MMIO_BASE \<or> end > USER_DEV_MMIO_END then Err SysBadAddress else Ok ())"

text \<open>The permission test of one page.\<close>

definition access_allowed :: "MemoryAccess \<Rightarrow> PageTableFlags \<Rightarrow> bool" where
  "access_allowed access fl =
     (case access of
        Read \<Rightarrow> True
      | Write \<Rightarrow> contains fl PAGE_WRITABLE
      | Execute \<Rightarrow> \<not> contains fl NO_EXECUTE)"

text \<open>The loop over the pages from \<open>cur\<close> to \<open>end_page\<close>.\<close>

function check_pages :: "AddressSpaceGeometry \<Rightarrow> PhysFrame \<Rightarrow> MemoryAccess \<Rightarrow> u64 \<Rightarrow> u64 \<Rightarrow> vm_state \<Rightarrow> (SyscallError + unit) option" where
  "check_pages g root access end_page cur s =
     (case get_page_flags g root (page_from_address cur) s of
        None \<Rightarrow> None
      | Some (Inl _) \<Rightarrow> Some (Err SysBadAddress)
      | Some (Inr fl) \<Rightarrow>
          if \<not> contains fl PRESENT \<or> \<not> contains fl USER_ACCESSIBLE then Some (Err SysBadAddress)
          else if \<not> access_allowed access fl then Some (Err SysBadAddress)
          else if cur = end_page then Some (Ok ())
          else case checked_add64 cur 4096 of
            None \<Rightarrow> Some (Err SysBadAddress)
          | Some c \<Rightarrow> check_pages g root access end_page c s)"
  by pat_completeness auto

termination
  by (relation "measure (\<lambda>(_, _, _, _, cur, _). 2 ^ 64 - unat cur)")
    (auto simp: checked_add64_def unat_word_ariths split: if_splits)

declare check_pages.simps [simp del]

definition validate_user_range :: "AddressSpaceGeometry \<Rightarrow> PhysFrame \<Rightarrow> u64 \<Rightarrow> u64 \<Rightarrow> MemoryAccess \<Rightarrow> vm_state \<Rightarrow> (SyscallError + unit) option" where
  "validate_user_range g root ptr len access s =
     (if len = 0 then Some (Ok ())
      else case checked_add64 ptr len of
        None \<Rightarrow> Some (Err SysBadAddress)
      | Some end \<Rightarrow>
          if ptr < USER_VA_MIN \<or> end > USER_VA_MAX_EXCLUSIVE then Some (Err SysBadAddress)
          else if ptr < USER_DEV_MMIO_END \<and> end > USER_DEV_MMIO_BASE then Some (Err SysBadAddress)
          else check_pages g root access ((end - 1) AND NOT 0xFFF) (ptr AND NOT 0xFFF) s)"

text \<open>The flags of the page at an address, or a bad address.\<close>

definition flags_at :: "AddressSpaceGeometry \<Rightarrow> PhysFrame \<Rightarrow> u64 \<Rightarrow> vm_state \<Rightarrow> (SyscallError + PageTableFlags) option" where
  "flags_at g root addr s =
     map_option (\<lambda>r. case r of Inl _ \<Rightarrow> Err SysBadAddress | Inr fl \<Rightarrow> Ok fl) (get_page_flags g root (page_from_address addr) s)"

definition FORBIDDEN_RFLAGS :: u64 where "FORBIDDEN_RFLAGS = 0x001A7100"

definition validate_user_return_state :: "AddressSpaceGeometry \<Rightarrow> PhysFrame \<Rightarrow> SyscallFrame \<Rightarrow> vm_state \<Rightarrow> (SyscallError + unit) option" where
  "validate_user_return_state g root frame s =
     (if user_rip frame < USER_VA_MIN \<or> user_rip frame \<ge> USER_VA_MAX_EXCLUSIVE then Some (Err SysBadAddress)
      else case flags_at g root (user_rip frame) s of None \<Rightarrow> None | Some (Inl e) \<Rightarrow> Some (Err e)
      | Some (Inr rip_flags) \<Rightarrow>
        if \<not> contains rip_flags PRESENT \<or> \<not> contains rip_flags USER_ACCESSIBLE \<or> contains rip_flags NO_EXECUTE
        then Some (Err SysBadAddress)
        else if user_rsp frame AND 7 \<noteq> 0 then Some (Err SysBadAddress)
        else if user_rsp frame < USER_VA_MIN \<or> user_rsp frame > USER_VA_MAX_EXCLUSIVE then Some (Err SysBadAddress)
        else let check_rsp = (if user_rsp frame \<ge> USER_VA_MIN + 8 then user_rsp frame - 8 else user_rsp frame) in
        (case flags_at g root check_rsp s of None \<Rightarrow> None | Some (Inl e) \<Rightarrow> Some (Err e)
         | Some (Inr rsp_flags) \<Rightarrow>
           if \<not> contains rsp_flags PRESENT \<or> \<not> contains rsp_flags USER_ACCESSIBLE \<or> \<not> contains rsp_flags PAGE_WRITABLE
           then Some (Err SysBadAddress)
           else if user_rflags frame AND 0x0200 = 0 then Some (Err SysInvalidArgument)
           else if user_rflags frame AND 0x0002 = 0 then Some (Err SysInvalidArgument)
           else if user_rflags frame AND FORBIDDEN_RFLAGS \<noteq> 0 then Some (Err SysInvalidArgument)
           else if user_cs frame \<noteq> 0x23 then Some (Err SysInvalidArgument)
           else if user_ss frame \<noteq> 0x1B then Some (Err SysInvalidArgument)
           else Some (Ok ())))"

section \<open>What a validation establishes\<close>

text \<open>The page of an address by its number.\<close>

definition page_addr :: "nat \<Rightarrow> u64" where
  "page_addr i = word_of_nat (4096 * i)"

lemma page_of: "v AND NOT 0xFFF = page_addr (unat v div 4096)" for v :: u64
proof -
  have m: "(0xFFF :: u64) = mask 12" by (simp add: mask_eq_exp_minus_1)
  have "v AND NOT (mask 12) = push_bit 12 (drop_bit 12 v)" by (rule bit_word_eqI) (auto simp: bit_simps)
  moreover have "drop_bit 12 v = word_of_nat (unat (drop_bit 12 v))" by simp
  moreover have "unat (drop_bit 12 v) = unat v div 4096" by (simp add: drop_bit_eq_div unat_div)
  ultimately show ?thesis unfolding m page_addr_def by (simp add: push_bit_eq_mult mult.commute)
qed

lemma unat_page: "i < 2 ^ 52 \<Longrightarrow> unat (page_addr i) = 4096 * i"
  unfolding page_addr_def unat_of_nat by simp

lemma page_of_page: "i < 2 ^ 52 \<Longrightarrow> page_from_address (page_addr i) = page_addr i"
  unfolding page_from_address_def page_of unat_page by simp

lemma next_page: "Suc i < 2 ^ 52 \<Longrightarrow> checked_add64 (page_addr i) 4096 = Some (page_addr (Suc i))"
  using unat_page [of i] by (simp add: checked_add64_def) (simp add: page_addr_def algebra_simps)

lemma page_addr_inj: "i < 2 ^ 52 \<Longrightarrow> j < 2 ^ 52 \<Longrightarrow> page_addr i = page_addr j \<longleftrightarrow> i = j"
  by (metis mult_cancel1 zero_neq_numeral unat_page)

text \<open>What the code consults for a page: the entry of its leaf. The flags of the tables above it, which the processor combines with
  those of the leaf, are not part of the check.\<close>

definition page_grants :: "AddressSpaceGeometry \<Rightarrow> PhysFrame \<Rightarrow> MemoryAccess \<Rightarrow> vm_state \<Rightarrow> u64 \<Rightarrow> bool" where
  "page_grants g r access s v =
     (case get_page_flags g r v s of
        Some (Inr fl) \<Rightarrow> contains fl PRESENT \<and> contains fl USER_ACCESSIBLE \<and> access_allowed access fl
      | _ \<Rightarrow> False)"

lemma flags_total:
  assumes "spaces g s R" "r \<in> R" shows "\<exists>x. get_page_flags g r v s = Some x"
  using walks_by_leaf(2) [OF assms, of v] walks_noncanonical(2) [of g v r s] by blast

lemma check_pages_exact:
  assumes tot: "\<And>v. \<exists>x. get_page_flags g r v s = Some x" and b: "b < 2 ^ 52" and ab: "a \<le> b"
  shows "check_pages g r access (page_addr b) (page_addr a) s =
    Some (if \<forall>i\<in>{a..b}. page_grants g r access s (page_addr i) then Ok () else Err SysBadAddress)"
  using ab
proof (induction "b - a" arbitrary: a)
  case (0 a)
  obtain x where "get_page_flags g r (page_addr b) s = Some x" using tot by blast
  then show ?case using 0 b
    by (subst check_pages.simps) (simp add: page_of_page page_grants_def split: sum.splits)
next
  case (Suc n a)
  obtain x where x: "get_page_flags g r (page_addr a) s = Some x" using tot by blast
  have a: "a < b" "a < 2 ^ 52" "Suc a \<le> b" "n = b - Suc a" using Suc.hyps(2) b by simp_all
  have ne: "page_addr a \<noteq> page_addr b" using page_addr_inj [OF a(2) b] a(1) by simp
  have nx: "checked_add64 (page_addr a) 4096 = Some (page_addr (Suc a))" using next_page a(3) b by simp
  have set: "{a..b} = insert a {Suc a..b}" using a by auto
  show ?case unfolding set
    by (subst check_pages.simps) (use x ne nx Suc.hyps(1) [OF a(4,3)] a(2) in
      \<open>auto simp: page_of_page page_grants_def split: sum.splits\<close>)
qed

text \<open>A byte is inside the pages of a range exactly when its page is between the first and the last page.\<close>

lemma pages_of_bytes: "0 < n \<Longrightarrow> (\<forall>i\<in>{a div 4096..(a + n - 1) div 4096}. P i) \<longleftrightarrow> (\<forall>b\<in>{a..<a + n}. P (b div 4096))" for a n :: nat
proof (intro iffI ballI)
  fix i assume n: "0 < n" and all: "\<forall>b\<in>{a..<a + n}. P (b div 4096)" and i: "i \<in> {a div 4096..(a + n - 1) div 4096}"
  let ?b = "max a (4096 * i)"
  have d: "4096 * (k div 4096) \<le> k" "k < 4096 * (k div 4096) + 4096" for k :: nat
    using div_mult_mod_eq [of k 4096] mod_less_divisor [of 4096 k] by linarith+
  have "4096 * i \<le> a + n - 1" using i d(1) [of "a + n - 1"] by (meson atLeastAtMost_iff le_trans mult_le_mono2)
  moreover have "a < 4096 * i + 4096" using i d(2) [of a] by (meson add_le_mono1 atLeastAtMost_iff less_le_trans mult_le_mono2)
  ultimately have "?b \<in> {a..<a + n}" "?b div 4096 = i" using n by (auto simp: max_def intro!: div_nat_eqI)
  then show "P i" using bspec [OF all, of ?b] by simp
next
  fix b assume "0 < n" "\<forall>i\<in>{a div 4096..(a + n - 1) div 4096}. P i" "b \<in> {a..<a + n}"
  then show "P (b div 4096)" by (auto simp: div_le_mono)
qed

definition byte_grants :: "AddressSpaceGeometry \<Rightarrow> PhysFrame \<Rightarrow> MemoryAccess \<Rightarrow> vm_state \<Rightarrow> nat \<Rightarrow> bool" where
  "byte_grants g r access s b = page_grants g r access s (word_of_nat b AND NOT 0xFFF)"

text \<open>C12: a user buffer is accepted exactly when every byte of it is a user byte. The check neither faults nor loops, and it accepts
  a buffer that is not empty if and only if the buffer does not wrap around, lies within the user addresses, does not touch the
  device window, and the leaf entry of the page of each of its bytes is present, accessible to user code and permits the access; otherwise the result
  is a bad address.\<close>

theorem validate_user_range_exact:
  assumes "spaces g s R" "r \<in> R"
  shows "validate_user_range g r ptr len access s =
    Some (if len = 0 \<or> (0x200000 \<le> unat ptr \<and> unat ptr + unat len \<le> 0x7F8000000000
              \<and> (unat ptr + unat len \<le> 0x600000000000 \<or> 0x700000000000 \<le> unat ptr)
              \<and> (\<forall>b\<in>{unat ptr..<unat ptr + unat len}. byte_grants g r access s b))
          then Ok () else Err SysBadAddress)"
proof (cases "len = 0 \<or> unat ptr + unat len \<ge> 2 ^ 64")
  case True
  then show ?thesis by (auto simp: validate_user_range_def checked_add64_def)
next
  case False
  let ?a = "unat ptr" and ?n = "unat len"
  have n: "0 < ?n" "?a + ?n < 2 ^ 64" "len \<noteq> 0" using False by (simp_all add: unat_gt_0)
  have e: "unat (ptr + len) = ?a + ?n" using n(2) by (simp add: unat_word_ariths)
  have e1: "unat (ptr + len - 1) = ?a + ?n - 1"
  proof -
    have "1 \<le> ptr + len" using e n(1) by (simp add: word_le_nat_alt)
    then show ?thesis using e by (simp add: unat_sub)
  qed
  have b: "(?a + ?n - 1) div 4096 < 2 ^ 52" using n(2) by (simp add: div_less_iff_less_mult)
  have ab: "?a div 4096 \<le> (?a + ?n - 1) div 4096" using n(1) by (intro div_le_mono) simp
  have bg: "byte_grants g r access s k = page_grants g r access s (page_addr (k div 4096))" if "k < ?a + ?n" for k
    unfolding byte_grants_def page_of unat_of_nat using that n(2) by simp
  have "check_pages g r access ((ptr + len - 1) AND NOT 0xFFF) (ptr AND NOT 0xFFF) s =
      Some (if \<forall>k\<in>{?a..<?a + ?n}. byte_grants g r access s k then Ok () else Err SysBadAddress)"
    unfolding page_of e1 check_pages_exact [OF flags_total [OF assms] b ab]
    using pages_of_bytes [OF n(1), of ?a "\<lambda>i. page_grants g r access s (page_addr i)"] bg by auto
  then show ?thesis using n e
    by (auto simp: validate_user_range_def checked_add64_def word_less_nat_alt word_le_nat_alt
        USER_VA_MIN_def USER_VA_MAX_EXCLUSIVE_def USER_DEV_MMIO_BASE_def USER_DEV_MMIO_END_def)
qed

text \<open>A page that user code may write.\<close>

lemma demo_user_page:
  "\<exists>s1. map_page demo_geom 24576 0x400000 0x100000 (PAGE_WRITABLE OR USER_ACCESSIBLE) User demo_vm = Some (Ok (), s1)
    \<and> spaces demo_geom s1 {20480, 24576} \<and> page_grants demo_geom 24576 Write s1 0x400000"
proof -
  let ?fl = "PAGE_WRITABLE OR USER_ACCESSIBLE"
  let ?e = "(word_of_nat 0x100000 AND physical_mask demo_geom) OR leaf_flags ?fl User"
  have fl: "validate_leaf ?fl demo_geom = Ok ()" "plain_flags demo_geom ?fl"
    by (simp_all add: demo_geom_sel validate_leaf_def contains_def plain_flags_def PAGE_WRITABLE_def USER_ACCESSIBLE_def NO_EXECUTE_def HUGE_PAGE_def)
  obtain s1 where m: "map_page demo_geom 24576 0x400000 0x100000 ?fl User demo_vm = Some (Ok (), s1)"
    and sp: "spaces demo_geom s1 {20480, 24576}" and lf: "leaf_at demo_geom (tables s1) 24576 (vpath 0x400000) = Some (0, ?e)"
    using map_page_outcome [OF demo_geom_sel(1) demo_spaces demo_owns demo_args(1,2,5) fl, of User]
    by (auto simp: map_outcome_def demo_leaf demo_free grew_def split: sum.splits unit.splits) (metis old.sum.exhaust old.unit.exhaust)
  have "get_page_flags demo_geom 24576 0x400000 s1 = Some (Ok ?e)" using walks_by_leaf(2) [OF sp _ demo_args(1), of 24576] lf by simp
  then show ?thesis using m sp
    by (auto simp: page_grants_def demo_geom_sel leaf_flags_def Let_def contains_def access_allowed_def PRESENT_def PAGE_WRITABLE_def USER_ACCESSIBLE_def)
qed

theorem validate_user_range_exact_witness:
  "\<exists>s1. map_page demo_geom 24576 0x400000 0x100000 (PAGE_WRITABLE OR USER_ACCESSIBLE) User demo_vm = Some (Ok (), s1)
    \<and> validate_user_range demo_geom 24576 0x400FF8 8 Write s1 = Some (Ok ())"
proof -
  obtain s1 where s1: "map_page demo_geom 24576 0x400000 0x100000 (PAGE_WRITABLE OR USER_ACCESSIBLE) User demo_vm = Some (Ok (), s1)"
    "spaces demo_geom s1 {20480, 24576}" "page_grants demo_geom 24576 Write s1 0x400000" using demo_user_page by blast
  have "byte_grants demo_geom 24576 Write s1 b" if "b \<in> {0x400FF8..<0x400FF8 + 8}" for b
  proof -
    have "unat (word_of_nat b :: u64) div 4096 = 0x400" using that unfolding unat_of_nat by (auto intro!: div_nat_eqI)
    then show ?thesis unfolding byte_grants_def page_of using s1(3) by (simp add: page_addr_def)
  qed
  then show ?thesis using s1(1) validate_user_range_exact [OF s1(2), of 24576 "0x400FF8" 8 Write] by auto
qed

text \<open>What the last check before a return to user mode guarantees: the instruction and the stack lie in user pages with the
  right permissions, interrupts are on, and no privileged flag or selector is loaded.\<close>

lemma flags_at_Ok: "flags_at g r a s = Some (Ok fl) \<longleftrightarrow> get_page_flags g r (page_from_address a) s = Some (Ok fl)"
  by (cases "get_page_flags g r (page_from_address a) s") (auto simp: flags_at_def split: sum.splits)

lemma return_state_safe:
  assumes "validate_user_return_state g r f s = Some (Ok ())"
  shows "page_grants g r Execute s (page_from_address (user_rip f))" "page_grants g r Write s (page_from_address (user_rsp f - (if user_rsp f \<ge> USER_VA_MIN + 8 then 8 else 0)))"
    "user_rip f < USER_VA_MAX_EXCLUSIVE" "user_rsp f \<le> USER_VA_MAX_EXCLUSIVE"
    "bit (user_rflags f) 9" "\<forall>n\<in>{8, 12, 13, 14, 17, 19, 20}. \<not> bit (user_rflags f) n" "user_cs f AND 3 = 3" "user_ss f AND 3 = 3"
proof -
  note v = assms [unfolded validate_user_return_state_def Let_def]
  show "page_grants g r Execute s (page_from_address (user_rip f))"
    using v by (auto simp: page_grants_def access_allowed_def flags_at_Ok split: if_splits option.splits sum.splits)
  show "page_grants g r Write s (page_from_address (user_rsp f - (if user_rsp f \<ge> USER_VA_MIN + 8 then 8 else 0)))"
    using v by (auto simp: page_grants_def access_allowed_def flags_at_Ok split: if_splits option.splits sum.splits)
  show "user_rip f < USER_VA_MAX_EXCLUSIVE" "user_rsp f \<le> USER_VA_MAX_EXCLUSIVE"
    using v by (auto split: if_splits option.splits sum.splits)
  have fl: "user_rflags f AND 0x200 \<noteq> 0" "user_rflags f AND FORBIDDEN_RFLAGS = 0" and sel: "user_cs f = 0x23" "user_ss f = 0x1B"
    using v by (auto split: if_splits option.splits sum.splits)
  have "(0x200 :: u64) = push_bit 9 1" by (simp add: push_bit_eq_mult)
  then show "bit (user_rflags f) 9" using fl(1) by (metis and_exp_eq_0_iff_not_bit push_bit_of_1)
  show "\<forall>n\<in>{8, 12, 13, 14, 17, 19, 20}. \<not> bit (user_rflags f) n"
  proof
    fix n :: nat assume n: "n \<in> {8, 12, 13, 14, 17, 19, 20}"
    have "\<not> bit (user_rflags f AND FORBIDDEN_RFLAGS) n" unfolding fl(2) by simp
    then show "\<not> bit (user_rflags f) n" using n by (auto simp: bit_and_iff FORBIDDEN_RFLAGS_def)
  qed
  show "user_cs f AND 3 = 3" "user_ss f AND 3 = 3" using sel by simp_all
qed

end
