(* ===== verification/PageSpace.thy ===== *)
theory PageSpace
  imports Prelude
begin

text \<open>
  Mapping and unmapping a run of pages over an address space, as the kernel stack arena and the shared memory
  component do it: map page by page, and on a failure unmap the pages mapped so far. The locale \<open>page_space\<close> is the contract of
  the address space that this relies on; \<open>VmmProps\<close> provides it.
\<close>

section \<open>The loops\<close>

text \<open>An error comes with the number of pages mapped before it.\<close>

fun map_seq :: "('v \<Rightarrow> 'f \<Rightarrow> 's \<Rightarrow> (('e + unit) \<times> 's) option) \<Rightarrow> ('v \<times> 'f) list \<Rightarrow> 's \<Rightarrow> ((nat \<times> 'e + unit) \<times> 's) option" where
  "map_seq mp [] s = Some (Ok (), s)"
| "map_seq mp ((v, f) # xs) s =
     (case mp v f s of
        None \<Rightarrow> None
      | Some (Inl e, s) \<Rightarrow> Some (Err (0, e), s)
      | Some (Inr _, s) \<Rightarrow>
          (case map_seq mp xs s of
             None \<Rightarrow> None
           | Some (Inl (k, e), s) \<Rightarrow> Some (Err (Suc k, e), s)
           | Some (Inr _, s) \<Rightarrow> Some (Ok (), s)))"

lemma map_seq_count: "map_seq mp xs s = Some (Inl (n, e), s') \<Longrightarrow> n < length xs"
  by (induction xs arbitrary: s n) (auto split: option.splits prod.splits sum.splits)

text \<open>The results of the single steps are ignored.\<close>

fun unmap_seq :: "('v \<Rightarrow> 's \<Rightarrow> ('r \<times> 's) option) \<Rightarrow> 'v list \<Rightarrow> 's \<Rightarrow> 's option" where
  "unmap_seq um [] s = Some s"
| "unmap_seq um (v # vs) s = (case um v s of None \<Rightarrow> None | Some (_, s) \<Rightarrow> unmap_seq um vs s)"

section \<open>The contract\<close>

text \<open>\<open>look\<close> is what the address space maps, \<open>acct\<close> what it occupies. \<open>up\<close> holds of a state and a later one with more mappings,
  \<open>down\<close> of a state and a later one with fewer, and what was added and removed again leaves no trace.\<close>

locale page_space =
  fixes inva :: "'s \<Rightarrow> bool" and look :: "'s \<Rightarrow> 'k \<Rightarrow> 'l option" and acct :: "'s \<Rightarrow> 'a"
    and up :: "'s \<Rightarrow> 's \<Rightarrow> bool" and down :: "'s \<Rightarrow> 's \<Rightarrow> bool"
    and key :: "'v \<Rightarrow> 'k" and pages :: "'v set" and good :: "'f set" and ent :: "'f \<Rightarrow> 'l"
    and mp :: "'v \<Rightarrow> 'f \<Rightarrow> 's \<Rightarrow> (('e + unit) \<times> 's) option" and um :: "'v \<Rightarrow> 's \<Rightarrow> (('d + 'f) \<times> 's) option"
  assumes mp_taken: "inva s \<Longrightarrow> v \<in> pages \<Longrightarrow> f \<in> good \<Longrightarrow> look s (key v) \<noteq> None \<Longrightarrow> \<exists>e. mp v f s = Some (Inl e, s)"
    and mp_free: "inva s \<Longrightarrow> v \<in> pages \<Longrightarrow> f \<in> good \<Longrightarrow> look s (key v) = None \<Longrightarrow>
      \<exists>res s'. mp v f s = Some (res, s') \<and> inva s' \<and>
        (case res of Inl _ \<Rightarrow> down s s' \<and> look s' = look s | Inr _ \<Rightarrow> up s s' \<and> look s' = (look s)(key v \<mapsto> ent f))"
    and um_mapped: "inva s \<Longrightarrow> v \<in> pages \<Longrightarrow> f \<in> good \<Longrightarrow> look s (key v) = Some (ent f) \<Longrightarrow>
      \<exists>s'. um v s = Some (Inr f, s') \<and> inva s' \<and> down s s' \<and> look s' = (look s)(key v := None)"
    and key_inj: "inva s \<Longrightarrow> v \<in> pages \<Longrightarrow> w \<in> pages \<Longrightarrow> key v = key w \<Longrightarrow> v = w"
    and up_refl: "inva s \<Longrightarrow> up s s" and down_refl: "inva s \<Longrightarrow> down s s"
    and up_trans: "up s t \<Longrightarrow> up t u \<Longrightarrow> up s u" and down_trans: "down s t \<Longrightarrow> down t u \<Longrightarrow> down s u"
    and settled: "inva s \<Longrightarrow> up s s1 \<Longrightarrow> down s1 s2 \<Longrightarrow> inva s2 \<Longrightarrow> look s2 = look s \<Longrightarrow> acct s2 = acct s"
begin

lemma map_seq_outcome:
  assumes "inva s" "distinct (map fst xs)" "\<forall>(v, f)\<in>set xs. v \<in> pages \<and> f \<in> good"
  shows "\<exists>res s1 s'. map_seq mp xs s = Some (res, s') \<and> inva s' \<and> up s s1 \<and> inva s1 \<and>
    (case res of
       Inr _ \<Rightarrow> s' = s1 \<and> (\<forall>(v, f)\<in>set xs. look s (key v) = None \<and> look s' (key v) = Some (ent f))
         \<and> (\<forall>k. k \<notin> key ` fst ` set xs \<longrightarrow> look s' k = look s k)
     | Inl (n, _) \<Rightarrow> n < length xs \<and> down s1 s' \<and> (\<forall>(v, f)\<in>set (take n xs). look s (key v) = None \<and> look s' (key v) = Some (ent f))
         \<and> (\<forall>k. k \<notin> key ` fst ` set (take n xs) \<longrightarrow> look s' k = look s k))"
  using assms
proof (induction xs arbitrary: s)
  case Nil
  then show ?case using up_refl by auto
next
  case (Cons x xs)
  obtain v f where x: "x = (v, f)" by force
  have v: "v \<in> pages" "f \<in> good" using Cons.prems(3) x by auto
  show ?case
  proof (cases "look s (key v)")
    case (Some l)
    then obtain e where "mp v f s = Some (Inl e, s)" using mp_taken [OF Cons.prems(1) v] by auto
    then show ?thesis using x Cons.prems(1) up_refl down_refl by auto
  next
    case None
    then obtain res t where t: "mp v f s = Some (res, t)" "inva t"
      "case res of Inl _ \<Rightarrow> down s t \<and> look t = look s | Inr _ \<Rightarrow> up s t \<and> look t = (look s)(key v \<mapsto> ent f)"
      using mp_free [OF Cons.prems(1) v] by blast
    show ?thesis
    proof (cases res)
      case (Inl e)
      then show ?thesis using t x Cons.prems(1) up_refl by auto
    next
      case (Inr u)
      then have ut: "up s t" "look t = (look s)(key v \<mapsto> ent f)" using t(3) by simp_all
      have fresh: "key v \<notin> key ` fst ` set xs"
      proof
        assume "key v \<in> key ` fst ` set xs"
        then obtain y where y: "y \<in> set xs" "key v = key (fst y)" by auto
        then have "fst y \<in> pages" using Cons.prems(3) by (cases y) auto
        then have "v = fst y" using key_inj [OF Cons.prems(1) v(1)] y(2) by simp
        then show False using Cons.prems(2) x y(1) by auto
      qed
      obtain res' s1 s' where r: "map_seq mp xs t = Some (res', s')" "inva s'" "up t s1" "inva s1" and
        c: "case res' of
          Inr _ \<Rightarrow> s' = s1 \<and> (\<forall>(v, f)\<in>set xs. look t (key v) = None \<and> look s' (key v) = Some (ent f))
            \<and> (\<forall>k. k \<notin> key ` fst ` set xs \<longrightarrow> look s' k = look t k)
        | Inl (n, _) \<Rightarrow> n < length xs \<and> down s1 s' \<and> (\<forall>(v, f)\<in>set (take n xs). look t (key v) = None \<and> look s' (key v) = Some (ent f))
            \<and> (\<forall>k. k \<notin> key ` fst ` set (take n xs) \<longrightarrow> look s' k = look t k)"
        using Cons.IH [OF t(2)] Cons.prems(2,3) by (auto simp: x)
      have us: "up s s1" by (rule up_trans [OF ut(1) r(3)])
      have lt: "look t (key w) = None \<Longrightarrow> look s (key w) = None" "k \<noteq> key v \<Longrightarrow> look t k = look s k" for w k
        unfolding ut(2) by (auto split: if_splits)
      show ?thesis
      proof (cases res')
        case (Inr u')
        have "look s' (key v) = look t (key v)" using c Inr fresh by auto
        then have "look s' (key v) = Some (ent f)" using ut(2) by simp
        then show ?thesis using r us c Inr t(1) \<open>res = Inr u\<close> x None lt by (auto simp: split_def)
      next
        case (Inl ne)
        obtain n e where ne: "ne = (n, e)" by force
        have "key v \<notin> key ` fst ` set (take n xs)" using fresh by (auto dest: in_set_takeD)
        then have "look s' (key v) = look t (key v)" using c Inl ne by auto
        then have "look s' (key v) = Some (ent f)" using ut(2) by simp
        then show ?thesis using r us c Inl ne t(1) \<open>res = Inr u\<close> x None lt by (auto simp: split_def)
      qed
    qed
  qed
qed

lemma unmap_seq_outcome:
  assumes "inva s" "distinct vs" "\<forall>v\<in>set vs. v \<in> pages \<and> (\<exists>f\<in>good. look s (key v) = Some (ent f))"
  shows "\<exists>s'. unmap_seq um vs s = Some s' \<and> inva s' \<and> down s s' \<and> look s' = (\<lambda>k. if k \<in> key ` set vs then None else look s k)"
  using assms
proof (induction vs arbitrary: s)
  case Nil
  then show ?case using down_refl by simp
next
  case (Cons v vs)
  then obtain f where f: "v \<in> pages" "f \<in> good" "look s (key v) = Some (ent f)" by auto
  obtain t where t: "um v s = Some (Inr f, t)" "inva t" "down s t" "look t = (look s)(key v := None)"
    using um_mapped [OF Cons.prems(1) f] by blast
  have ne: "key w \<noteq> key v" if "w \<in> set vs" for w
    using key_inj [OF Cons.prems(1) _ f(1), of w] that Cons.prems(2,3) by auto
  have "\<forall>w\<in>set vs. w \<in> pages \<and> (\<exists>f\<in>good. look t (key w) = Some (ent f))" using Cons.prems(3) ne t(4) by simp
  then obtain s' where s': "unmap_seq um vs t = Some s'" "inva s'" "down t s'" "look s' = (\<lambda>k. if k \<in> key ` set vs then None else look t k)"
    using Cons.IH [OF t(2)] Cons.prems(2) by auto
  have "look s' = (\<lambda>k. if k \<in> key ` set (v # vs) then None else look s k)" unfolding s'(4) t(4) by (intro ext) simp
  then show ?case using s' t down_trans by auto
qed

text \<open>A failed run followed by the removal of what it mapped restores the address space.\<close>

lemma roll_back:
  assumes "inva s" "distinct (map fst xs)" "\<forall>(v, f)\<in>set xs. v \<in> pages \<and> f \<in> good" "map_seq mp xs s = Some (Inl (n, e), s')"
  shows "\<exists>s''. unmap_seq um (map fst (take n xs)) s' = Some s'' \<and> inva s'' \<and> look s'' = look s \<and> acct s'' = acct s"
proof -
  obtain s1 where s1: "inva s'" "up s s1" "down s1 s'" "\<forall>(v, f)\<in>set (take n xs). look s (key v) = None \<and> look s' (key v) = Some (ent f)"
    "\<forall>k. k \<notin> key ` fst ` set (take n xs) \<longrightarrow> look s' k = look s k"
    using map_seq_outcome [OF assms(1-3)] assms(4) by auto
  have "distinct (map fst (take n xs))" using assms(2) by (metis distinct_take take_map)
  moreover have "\<forall>v\<in>set (map fst (take n xs)). v \<in> pages \<and> (\<exists>f\<in>good. look s' (key v) = Some (ent f))"
    using s1(4) assms(3) by (fastforce dest: in_set_takeD)
  ultimately obtain s'' where s'': "unmap_seq um (map fst (take n xs)) s' = Some s''" "inva s''" "down s' s''"
    "look s'' = (\<lambda>k. if k \<in> key ` set (map fst (take n xs)) then None else look s' k)"
    using unmap_seq_outcome [OF s1(1)] by blast
  have "look s'' = look s"
  proof
    fix k show "look s'' k = look s k"
      using s1(4,5) unfolding s''(4) by (cases "k \<in> key ` fst ` set (take n xs)") (auto simp: split_def)
  qed
  then show ?thesis using s'' settled [OF assms(1) s1(2) down_trans [OF s1(3) s''(3)]] by auto
qed

end

end
