(* ===== verification/VmmPages.thy ===== *)
theory VmmPages
  imports VmmProps PageSpace
begin

text \<open>
  The page tables of \<open>Vmm\<close> as a provider of the contract \<open>page_space\<close>, and the steps that clients take around runs of pages:
  allocating the frames first and releasing them last.
\<close>

unbundle bit_operations_syntax

section \<open>One page of a run\<close>

text \<open>One page of a run: the code checks the address first.\<close>

definition map_at :: "AddressSpaceGeometry \<Rightarrow> PhysFrame \<Rightarrow> PageTableFlags \<Rightarrow> MappingDomain \<Rightarrow> u64 \<Rightarrow> PhysFrame \<Rightarrow> vm_state \<Rightarrow> ((VmmError + unit) \<times> vm_state) option" where
  "map_at g root fl d v f s = (case from_start_address g v of Inl e \<Rightarrow> Some (Err e, s) | Inr page \<Rightarrow> map_page g root page f fl d s)"

definition unmap_at :: "AddressSpaceGeometry \<Rightarrow> PhysFrame \<Rightarrow> u64 \<Rightarrow> vm_state \<Rightarrow> ((VmmError + PhysFrame) \<times> vm_state) option" where
  "unmap_at g root v s = (case from_start_address g v of Inl e \<Rightarrow> Some (Err e, s) | Inr page \<Rightarrow> unmap_page g root page s)"

section \<open>The contract\<close>

definition vm_inv :: "AddressSpaceGeometry \<Rightarrow> nat set \<Rightarrow> nat \<Rightarrow> PageTableFlags \<Rightarrow> vm_state \<Rightarrow> bool" where
  "vm_inv g R r fl s \<longleftrightarrow> geom_ok g \<and> virtual_bits g = 48 \<and> validate_leaf fl g = Ok () \<and> plain_flags g fl \<and> r \<in> R
     \<and> spaces g s R \<and> tight g s r []"

definition vm_look :: "AddressSpaceGeometry \<Rightarrow> nat set \<Rightarrow> vm_state \<Rightarrow> nat \<times> nat list \<Rightarrow> (nat \<times> PageTableEntry) option" where
  "vm_look g R s = (\<lambda>(r, q). if r \<in> R \<and> lpath q then leaf_at g (tables s) r q else None)"

definition vm_acct :: "AddressSpaceGeometry \<Rightarrow> nat set \<Rightarrow> vm_state \<Rightarrow> nat set \<times> nat set \<times> (nat \<Rightarrow> nat list \<rightharpoonup> nat)" where
  "vm_acct g R s = (free_of s, owned_of s, \<lambda>r. if r \<in> R then tab g (tables s) r else Map.empty)"

definition vm_pages :: "AddressSpaceGeometry \<Rightarrow> nat set \<Rightarrow> nat \<Rightarrow> u64 set" where
  "vm_pages g R r = {v. is_canonical g v \<and> v mod 4096 = 0 \<and> owns R r v}"

definition vm_frames :: "AddressSpaceGeometry \<Rightarrow> nat set" where
  "vm_frames g = {f. is_valid_phys_frame g f \<and> f \<le> U64_MAX}"

definition vm_entry :: "AddressSpaceGeometry \<Rightarrow> PageTableFlags \<Rightarrow> MappingDomain \<Rightarrow> nat \<Rightarrow> nat \<times> PageTableEntry" where
  "vm_entry g fl d f = (0, (word_of_nat f AND physical_mask g) OR leaf_flags fl d)"

lemma at_page: "v \<in> vm_pages g R r \<Longrightarrow> from_start_address g v = Ok v"
  by (simp add: vm_pages_def from_start_address_def)

lemma restored_shrank: "restored g R s s' \<Longrightarrow> r \<in> R \<Longrightarrow> shrank g R r s s'"
  by (auto simp: restored_def shrank_def map_le_def)

lemma restored_tight: "restored g R s s' \<Longrightarrow> r \<in> R \<Longrightarrow> tight g s r P \<Longrightarrow> tight g s' r P"
  unfolding restored_def tight_def same_entry_def by metis

lemma vm_lookI:
  assumes "\<forall>r'\<in>R. \<forall>q. lpath q \<longrightarrow> leaf_at g (tables s') r' q = (if r' = r \<and> q = vpath v then L else leaf_at g (tables s) r' q)" "r \<in> R"
  shows "vm_look g R s' = (vm_look g R s)((r, vpath v) := L)"
proof
  fix k show "vm_look g R s' k = ((vm_look g R s)((r, vpath v) := L)) k"
    using assms lpath_vpath [of v] by (cases k) (simp add: vm_look_def)
qed

lemma vm_map:
  assumes "vm_inv g R r fl s" "v \<in> vm_pages g R r" "f \<in> vm_frames g"
  shows "vm_look g R s (r, vpath v) \<noteq> None \<Longrightarrow> \<exists>e. map_at g r fl d v f s = Some (Inl e, s)"
    "vm_look g R s (r, vpath v) = None \<Longrightarrow> \<exists>res s'. map_at g r fl d v f s = Some (res, s') \<and> vm_inv g R r fl s' \<and>
      (case res of Inl _ \<Rightarrow> shrank g R r s s' \<and> vm_look g R s' = vm_look g R s
       | Inr _ \<Rightarrow> grew g R r s s' \<and> vm_look g R s' = (vm_look g R s)((r, vpath v) \<mapsto> vm_entry g fl d f))"
proof -
  let ?e = "(word_of_nat f AND physical_mask g) OR leaf_flags fl d"
  have a: "geom_ok g" "virtual_bits g = 48" "validate_leaf fl g = Ok ()" "plain_flags g fl" "r \<in> R" "spaces g s R" "tight g s r []"
    using assms(1) by (simp_all add: vm_inv_def)
  have v: "is_canonical g v" "owns R r v" "is_valid_phys_frame g f" "f \<le> U64_MAX" using assms(2,3) by (simp_all add: vm_pages_def vm_frames_def)
  note o = map_page_outcome [OF a(1,6) v(2,1,3,4) a(3,4), of d]
  have l: "vm_look g R s (r, vpath v) = leaf_at g (tables s) r (vpath v)" using a(5) lpath_vpath [of v] by (simp add: vm_look_def)
  show "\<exists>e. map_at g r fl d v f s = Some (Inl e, s)" if "vm_look g R s (r, vpath v) \<noteq> None"
    using o that unfolding l map_outcome_def by (auto simp: map_at_def at_page [OF assms(2)] split: option.splits nat.splits)
  show "\<exists>res s'. map_at g r fl d v f s = Some (res, s') \<and> vm_inv g R r fl s' \<and>
      (case res of Inl _ \<Rightarrow> shrank g R r s s' \<and> vm_look g R s' = vm_look g R s
       | Inr _ \<Rightarrow> grew g R r s s' \<and> vm_look g R s' = (vm_look g R s)((r, vpath v) \<mapsto> vm_entry g fl d f))"
    if n: "vm_look g R s (r, vpath v) = None"
  proof -
    obtain res s' where m: "map_page g r v f fl d s = Some (res, s')" and c: "case res of
             Inl er \<Rightarrow> er = OutOfMemory \<and> card (free_of s) < 3 \<and> restored g R s s'
           | Inr _ \<Rightarrow> grew g R r s s' \<and> on_path g r (vpath v) s s' \<and> (\<forall>r'\<in>R. \<forall>q. lpath q \<longrightarrow>
               leaf_at g (tables s') r' q = (if r' = r \<and> q = vpath v then Some (0, ?e) else leaf_at g (tables s) r' q))"
      using o n [unfolded l] by (auto simp: map_outcome_def)
    show ?thesis
    proof (cases res)
      case (Inl er)
      then have r: "restored g R s s'" using c by simp
      have "vm_look g R s' = vm_look g R s" using restored_leaves [OF r] by (intro ext) (auto simp: vm_look_def same_leaves_def)
      moreover have "vm_inv g R r fl s'" using a r restored_tight [OF r a(5,7)] by (simp add: vm_inv_def restored_def)
      ultimately show ?thesis using m Inl restored_shrank [OF r a(5)] by (simp add: map_at_def at_page [OF assms(2)])
    next
      case (Inr u)
      then have gr: "grew g R r s s'" and op: "on_path g r (vpath v) s s'" and lf: "\<forall>r'\<in>R. \<forall>q. lpath q \<longrightarrow>
          leaf_at g (tables s') r' q = (if r' = r \<and> q = vpath v then Some (0, ?e) else leaf_at g (tables s) r' q)" using c by simp_all
      have "tight g s' r []"
        by (rule map_keeps_tight [OF a(6,5) gr a(7)]) (use lf a(5) op lpath_vpath [of v] in \<open>auto simp: on_path_def\<close>)
      then have "vm_inv g R r fl s'" using a gr by (simp add: vm_inv_def grew_def)
      then show ?thesis using m Inr gr vm_lookI [OF lf a(5)] by (simp add: map_at_def at_page [OF assms(2)] vm_entry_def)
    qed
  qed
qed

lemma vm_unmap:
  assumes "vm_inv g R r fl s" "v \<in> vm_pages g R r" "f \<in> vm_frames g" "vm_look g R s (r, vpath v) = Some (vm_entry g fl d f)"
  shows "\<exists>s'. unmap_at g r v s = Some (Inr f, s') \<and> vm_inv g R r fl s' \<and> shrank g R r s s' \<and> vm_look g R s' = (vm_look g R s)((r, vpath v) := None)"
proof -
  let ?e = "(word_of_nat f AND physical_mask g) OR leaf_flags fl d"
  have a: "geom_ok g" "virtual_bits g = 48" "validate_leaf fl g = Ok ()" "plain_flags g fl" "r \<in> R" "spaces g s R" "tight g s r []"
    using assms(1) by (simp_all add: vm_inv_def)
  have v: "is_canonical g v" "owns R r v" "is_valid_phys_frame g f" "f \<le> U64_MAX" using assms(2,3) by (simp_all add: vm_pages_def vm_frames_def)
  have l: "leaf_at g (tables s) r (vpath v) = Some (0, ?e)" using assms(4) a(5) lpath_vpath [of v] by (simp add: vm_look_def vm_entry_def)
  have "table_addr g ?e = f" by (rule leaf_entry(2) [OF a(1) v(3,4) a(4) refl])
  then obtain s' where u: "unmap_page g r v s = Some (Ok f, s')" "shrank g R r s s'" "tight g s' r []"
    and lf: "\<forall>r'\<in>R. \<forall>q. lpath q \<longrightarrow> leaf_at g (tables s') r' q = (if r' = r \<and> q = vpath v then None else leaf_at g (tables s) r' q)"
    using unmap_page_outcome [OF a(6) v(2,1)] l a(7) by (auto simp: unmap_outcome_def)
  then show ?thesis using a vm_lookI [OF lf a(5)] by (simp add: unmap_at_def at_page [OF assms(2)] vm_inv_def shrank_def)
qed

lemma vm_settled:
  assumes "vm_inv g R r fl s" "grew g R r s s1" "shrank g R r s1 s2" "vm_inv g R r fl s2" "vm_look g R s2 = vm_look g R s"
  shows "vm_acct g R s2 = vm_acct g R s"
proof -
  have a: "r \<in> R" "spaces g s R" "tight g s r []" "tight g s2 r []" using assms(1,4) by (simp_all add: vm_inv_def)
  have "leaf_at g (tables s2) r q = leaf_at g (tables s) r q" if "lpath q" for q
    using fun_cong [OF assms(5), of "(r, q)"] that a(1) by (simp add: vm_look_def)
  from tight_same_dom [OF a(3,4) this] have "tab g (tables s) r = tab g (tables s2) r"
    using assms(2,3) by (intro map_le_dom_eq) (auto simp: grew_def shrank_def)
  then have tb: "tab g (tables s2) r = tab g (tables s) r" ..
  moreover have "tab g (tables s2) r' = tab g (tables s) r'" if "r' \<in> R" "r' \<noteq> r" for r' using assms(2,3) that by (simp add: grew_def shrank_def)
  ultimately have "tab g (tables s2) r' = tab g (tables s) r'" if "r' \<in> R" for r' using that by metis
  then have "(\<lambda>r'. if r' \<in> R then tab g (tables s2) r' else Map.empty) = (\<lambda>r'. if r' \<in> R then tab g (tables s) r' else Map.empty)" by auto
  then show ?thesis using grew_frames [OF assms(2,3) a(2) tb] by (simp add: vm_acct_def)
qed

lemma vm_key_inj:
  assumes "vm_inv g R r fl s" "v \<in> vm_pages g R r" "w \<in> vm_pages g R r" "(r, vpath v) = (r, vpath w)"
  shows "v = w"
proof -
  have a: "virtual_bits g = 48" "is_canonical g v" "is_canonical g w" "v mod 4096 = 0" "w mod 4096 = 0"
    using assms(1-3) unfolding vm_inv_def vm_pages_def by blast+
  have "vpath v = vpath w" using assms(4) by (rule Pair_inject)
  then show ?thesis by (rule vpath_inj [OF a(2,3,1,4,5)])
qed

interpretation vp: page_space "vm_inv g R r fl" "vm_look g R" "vm_acct g R" "grew g R r" "shrank g R r"
  "\<lambda>v. (r, vpath v)" "vm_pages g R r" "vm_frames g" "vm_entry g fl d" "map_at g r fl d" "unmap_at g r" for g R r fl d
proof (unfold_locales, goal_cases)
  case (1 s v f) then show ?case by (rule vm_map(1))
next
  case (2 s v f) then show ?case by (rule vm_map(2))
next
  case (3 s v f) then show ?case by (rule vm_unmap)
next
  case (4 s v w) then show ?case by (rule vm_key_inj)
next
  case (5 s) then show ?case by (simp add: vm_inv_def grew_refl)
next
  case (6 s) then show ?case by (auto simp: vm_inv_def shrank_def map_le_def)
next
  case 7 then show ?case by (rule grew_trans)
next
  case 8 then show ?case by (rule shrank_trans)
next
  case 9 then show ?case by (rule vm_settled)
qed

text \<open>Mapping a page takes at most three tables, so a run succeeds when three free frames are left for each page.\<close>

lemma new_tables:
  assumes "grew g R r s s'" "on_path g r (vpath v) s s'" "pmm_inv (frames s)"
  shows "card (free_of s) \<le> card (free_of s') + 3"
proof -
  let ?N = "tabs g s' r - tabs g s r" let ?Q = "{take 1 (vpath v), take 2 (vpath v), take 3 (vpath v)}"
  have "?N \<subseteq> (\<lambda>q. the (tab g (tables s') r q)) ` ?Q"
  proof
    fix t assume t: "t \<in> ?N"
    then obtain q where q: "tab g (tables s') r q = Some t" "tab g (tables s) r q \<noteq> Some t" by (auto simp: ran_def)
    then have "tab g (tables s') r q \<noteq> tab g (tables s) r q" by metis
    then obtain z where z: "vpath v = q @ z" using assms(2) by (auto simp: on_path_def)
    then have e: "q = take (length q) (vpath v)" by simp
    have l: "length q \<le> 3" using q(1) by (simp add: tab_def tpath_def split: if_splits)
    have "q \<noteq> []" using q by (auto simp: tab_def tpath_def)
    then have "0 < length q" by simp
    then have "length q \<in> {1, 2, 3}" using l unfolding insert_iff empty_iff by linarith
    then have "q \<in> ?Q" using e by (metis insertE insertI1 insertI2 singletonD)
    then show "t \<in> (\<lambda>q. the (tab g (tables s') r q)) ` ?Q" using q(1) by force
  qed
  then have "card ?N \<le> card ?Q" by (meson card_image_le card_mono finite.emptyI finite.insertI finite_imageI le_trans)
  also have "\<dots> \<le> 3" by (simp add: card_insert_if)
  finally have n: "card ?N \<le> 3" .
  have f: "finite (free_of s)" using pmm_fa.free_finite [OF assms(3)] by (simp add: free_of_def)
  have "free_of s' = free_of s - ?N" "?N \<subseteq> free_of s" using assms(1) by (simp_all add: grew_def)
  then have "card (free_of s') = card (free_of s) - card ?N" using f by (simp add: card_Diff_subset finite_subset)
  then show ?thesis using n by linarith
qed

lemma map_succeeds:
  assumes "vm_inv g R r fl s" "v \<in> vm_pages g R r" "f \<in> vm_frames g" "vm_look g R s (r, vpath v) = None" "3 \<le> card (free_of s)"
  shows "\<exists>s'. map_at g r fl d v f s = Some (Ok (), s') \<and> vm_inv g R r fl s' \<and> vm_look g R s' = (vm_look g R s)((r, vpath v) \<mapsto> vm_entry g fl d f)
    \<and> card (free_of s) \<le> card (free_of s') + 3"
proof -
  have a: "geom_ok g" "validate_leaf fl g = Ok ()" "plain_flags g fl" "r \<in> R" "spaces g s R" using assms(1) by (simp_all add: vm_inv_def)
  have v: "is_canonical g v" "owns R r v" "is_valid_phys_frame g f" "f \<le> U64_MAX" using assms(2,3) by (simp_all add: vm_pages_def vm_frames_def)
  have "leaf_at g (tables s) r (vpath v) = None" using assms(4) a(4) lpath_vpath [of v] by (simp add: vm_look_def)
  then obtain res s' where m0: "map_page g r v f fl d s = Some (res, s')" and c: "case res of Inl _ \<Rightarrow> card (free_of s) < 3 | Inr _ \<Rightarrow> grew g R r s s' \<and> on_path g r (vpath v) s s'"
    using map_page_outcome [OF a(1,5) v(2,1,3,4) a(2,3), of d] unfolding map_outcome_def
    by (elim exE conjE) (rule that, assumption, simp split: sum.splits)
  have s': "map_page g r v f fl d s = Some (Ok (), s')" "grew g R r s s'" "on_path g r (vpath v) s s'"
    using m0 c assms(5) by (cases res; simp)+
  then have m: "map_at g r fl d v f s = Some (Ok (), s')" by (simp add: map_at_def at_page [OF assms(2)])
  have "pmm_inv (frames s)" using a(5) by (simp add: spaces_def)
  from new_tables [OF s'(2,3) this] show ?thesis using vm_map(2) [OF assms(1-4), of d] m by auto
qed

lemma map_seq_succeeds:
  assumes "vm_inv g R r fl s" "distinct (map fst xs)" "\<forall>(v, f)\<in>set xs. v \<in> vm_pages g R r \<and> f \<in> vm_frames g \<and> vm_look g R s (r, vpath v) = None"
    "3 * length xs \<le> card (free_of s)"
  shows "\<exists>s'. map_seq (map_at g r fl d) xs s = Some (Ok (), s')"
  using assms
proof (induction xs arbitrary: s)
  case (Cons x xs)
  obtain v f where x: "x = (v, f)" by force
  have v: "v \<in> vm_pages g R r" "f \<in> vm_frames g" "vm_look g R s (r, vpath v) = None" using Cons.prems(3) x by auto
  obtain t where t: "map_at g r fl d v f s = Some (Ok (), t)" "vm_inv g R r fl t" "vm_look g R t = (vm_look g R s)((r, vpath v) \<mapsto> vm_entry g fl d f)"
    "card (free_of s) \<le> card (free_of t) + 3"
    using map_succeeds [OF Cons.prems(1) v, of d] Cons.prems(4) by auto
  have ne: "(r, vpath w) \<noteq> (r, vpath v)" if "(w, h) \<in> set xs" for w h
  proof
    assume e: "(r, vpath w) = (r, vpath v)"
    have "w \<in> vm_pages g R r" using that Cons.prems(3) by auto
    from vm_key_inj [OF Cons.prems(1) this v(1) e] show False using that Cons.prems(2) x by (force simp: image_iff)
  qed
  have "\<exists>s'. map_seq (map_at g r fl d) xs t = Some (Ok (), s')"
  proof (rule Cons.IH [OF t(2)])
    show "distinct (map fst xs)" "3 * length xs \<le> card (free_of t)" using Cons.prems(2,4) t(4) by simp_all
    show "\<forall>(v, f)\<in>set xs. v \<in> vm_pages g R r \<and> f \<in> vm_frames g \<and> vm_look g R t (r, vpath v) = None"
      using Cons.prems(3) ne unfolding t(3) by (fastforce simp: x)
  qed
  then show ?case using t(1) x by auto
qed simp

section \<open>Frames around a run\<close>

text \<open>Allocating and releasing frames that are no tables keeps the address spaces.\<close>

lemma spaces_frames:
  assumes "spaces g s R" "pmm_inv p" "\<And>r. r \<in> R \<Longrightarrow> addrs (frames_in p Free) \<inter> tabs g s r = {}"
  shows "spaces g (s\<lparr>frames := p\<rparr>) R"
proof -
  have "tree g (s\<lparr>frames := p\<rparr>) r" if r: "r \<in> R" for r
    by (rule tree_foreign [OF spaces_tree [OF assms(1) r], where F = "{}"]) (use assms(3) [OF r] in \<open>auto simp: free_of_def ran_def\<close>)
  moreover have "exclusive g (s\<lparr>frames := p\<rparr>) R r t" if "r \<in> R" "tab g (tables s) r q = Some t" "user_path q" for r q t
    using exclusive_user [OF assms(1) that] exclusive_cong [of R r g "s\<lparr>frames := p\<rparr>" s t] by simp
  ultimately show ?thesis unfolding spaces_def using assms(2) by simp
qed

lemma vm_inv_frames:
  assumes "vm_inv g R r fl s" "pmm_inv p" "\<And>r. r \<in> R \<Longrightarrow> addrs (frames_in p Free) \<inter> tabs g s r = {}"
  shows "vm_inv g R r fl (s\<lparr>frames := p\<rparr>)"
  using assms spaces_frames [OF _ assms(2,3)] by (simp add: vm_inv_def tight_def)

lemma free_not_table: "spaces g s R \<Longrightarrow> r \<in> R \<Longrightarrow> free_of s \<inter> tabs g s r = {}"
  using tree_range [OF spaces_tree] by (fastforce simp: ran_def)

text \<open>Tables were removed and the frames \<open>F\<close> released besides.\<close>

definition emptied :: "AddressSpaceGeometry \<Rightarrow> nat set \<Rightarrow> nat \<Rightarrow> nat set \<Rightarrow> vm_state \<Rightarrow> vm_state \<Rightarrow> bool" where
  "emptied g R r F s s' \<longleftrightarrow> (tab g (tables s') r \<subseteq>\<^sub>m tab g (tables s) r)
     \<and> (\<forall>r'\<in>R. r' \<noteq> r \<longrightarrow> tab g (tables s') r' = tab g (tables s) r')
     \<and> free_of s' = free_of s \<union> ((tabs g s r - tabs g s' r) \<inter> owned_of s) \<union> F
     \<and> owned_of s' = owned_of s - (tabs g s r - tabs g s' r) - F"

lemma emptied_step:
  assumes "emptied g R r F s s1" "shrank g R r s1 s2" "r \<in> R" "f \<in> owned_of s" "f \<notin> F" "\<And>r'. r' \<in> R \<Longrightarrow> f \<notin> tabs g s r'"
  shows "emptied g R r (insert f F) s (release_table f s2)" "spaces g (release_table f s2) R"
proof -
  have t: "tabs g s1 r \<subseteq> tabs g s r" "tabs g s2 r \<subseteq> tabs g s1 r" using assms(1,2) by (auto simp: emptied_def shrank_def dest: map_le_ran)
  have pi: "pmm_inv (frames s2)" and sp: "spaces g s2 R" using assms(2) by (simp_all add: shrank_def spaces_def)
  note e = free_frame_effect [OF pi, of f]
  have own: "f \<in> owned_of s2" using assms t by (auto simp: emptied_def shrank_def)
  have r: "free_of (release_table f s2) = insert f (free_of s2)" "owned_of (release_table f s2) = owned_of s2 - {f}"
    "tables (release_table f s2) = tables s2"
    using e own by (auto simp: release_table_def free_of_def owned_of_def)
  have le: "tab g (tables s2) r \<subseteq>\<^sub>m tab g (tables s) r" using assms(1,2) map_le_trans by (auto simp: emptied_def shrank_def)
  show "emptied g R r (insert f F) s (release_table f s2)"
    unfolding emptied_def r using le assms(1,2) t by (auto simp: emptied_def shrank_def)
  have nt: "f \<notin> tabs g s2 r'" if "r' \<in> R" for r'
    using assms(1,2,3) assms(6) [OF that] that t by (cases "r' = r") (auto simp: emptied_def shrank_def)
  have "addrs (frames_in (snd (free_frame f (frames s2))) Free) \<inter> tabs g s2 r' = {}" if "r' \<in> R" for r'
    using r(1) nt [OF that] free_not_table [OF sp that] by (auto simp: release_table_def free_of_def)
  then show "spaces g (release_table f s2) R" unfolding release_table_def using e by (intro spaces_frames [OF sp]) auto
qed

lemma emptied_settled:
  assumes "vm_inv g R r fl s" "grew g R r s s1" "emptied g R r F s1 s2" "vm_inv g R r fl s2" "vm_look g R s2 = vm_look g R s"
    "F \<subseteq> owned_of s"
  shows "\<forall>r'\<in>R. tab g (tables s2) r' = tab g (tables s) r'" "free_of s2 = free_of s \<union> F" "owned_of s2 = owned_of s - F"
proof -
  have a: "r \<in> R" "spaces g s R" "tight g s r []" "tight g s2 r []" using assms(1,4) by (simp_all add: vm_inv_def)
  have "leaf_at g (tables s2) r q = leaf_at g (tables s) r q" if "lpath q" for q
    using fun_cong [OF assms(5), of "(r, q)"] that a(1) by (simp add: vm_look_def)
  from tight_same_dom [OF a(3,4) this] have "tab g (tables s) r = tab g (tables s2) r"
    using assms(2,3) by (intro map_le_dom_eq) (auto simp: grew_def emptied_def)
  then have tb: "tab g (tables s2) r = tab g (tables s) r" ..
  moreover have "tab g (tables s2) r' = tab g (tables s) r'" if "r' \<in> R" "r' \<noteq> r" for r' using assms(2,3) that by (simp add: grew_def emptied_def)
  ultimately show "\<forall>r'\<in>R. tab g (tables s2) r' = tab g (tables s) r'" by metis
  show "free_of s2 = free_of s \<union> F" "owned_of s2 = owned_of s - F"
    using assms(2,3) tb free_owned_disjoint [OF a(2)] by (auto simp: grew_def emptied_def)
qed

lemma vm_look_frames [simp]: "vm_look g R (s\<lparr>frames := p\<rparr>) = vm_look g R s"
  by (rule ext) (auto simp: vm_look_def)

text \<open>Equal mappings mean equal walks.\<close>

lemma look_walks:
  assumes "spaces g s R" "spaces g s' R" "r \<in> R" "vm_look g R s' = vm_look g R s"
  shows "translate g r w s' = translate g r w s" "get_page_flags g r w s' = get_page_flags g r w s"
proof -
  have "leaf_at g (tables s') r q = leaf_at g (tables s) r q" if "lpath q" for q
    using fun_cong [OF assms(4), of "(r, q)"] that assms(3) by (simp add: vm_look_def)
  then show "translate g r w s' = translate g r w s" "get_page_flags g r w s' = get_page_flags g r w s"
    using same_leaf_walks [OF assms(1-3), of w] by simp_all
qed

lemma mapped_walks:
  assumes "vm_inv g R r fl s" "v \<in> vm_pages g R r" "f \<in> vm_frames g" "vm_look g R s (r, vpath v) = Some (vm_entry g fl d f)"
  shows "translate g r v s = Some (Ok f)" "get_page_flags g r v s = Some (Ok ((word_of_nat f AND physical_mask g) OR leaf_flags fl d))"
proof -
  let ?e = "(word_of_nat f AND physical_mask g) OR leaf_flags fl d"
  have a: "geom_ok g" "plain_flags g fl" "r \<in> R" "spaces g s R" using assms(1) by (simp_all add: vm_inv_def)
  have v: "is_canonical g v" "is_valid_phys_frame g f" "f \<le> U64_MAX" using assms(2,3) by (simp_all add: vm_pages_def vm_frames_def)
  have l: "leaf_at g (tables s) r (vpath v) = Some (0, ?e)" using assms(4) a(3) lpath_vpath [of v] by (simp add: vm_look_def vm_entry_def)
  have "table_addr g ?e = f" by (rule leaf_entry(2) [OF a(1) v(2,3) a(2) refl])
  then show "translate g r v s = Some (Ok f)" "get_page_flags g r v s = Some (Ok ?e)"
    using walks_by_leaf [OF a(4,3) v(1)] l by (simp_all add: leaf_frame_def)
qed

lemma unmapped_walks:
  assumes sp: "spaces g s R" "spaces g s' R" "r' \<in> R" and g: "virtual_bits g = 48" and vs: "set vs \<subseteq> vm_pages g R r"
    and w: "w mod 4096 = 0" "\<not> (r' = r \<and> w \<in> set vs)"
    and l: "\<forall>k. k \<notin> (\<lambda>v. (r, vpath v)) ` set vs \<longrightarrow> vm_look g R s' k = vm_look g R s k"
  shows "translate g r' w s' = translate g r' w s" "get_page_flags g r' w s' = get_page_flags g r' w s"
proof -
  have "leaf_at g (tables s') r' (vpath w) = leaf_at g (tables s) r' (vpath w)" if c: "is_canonical g w"
  proof -
    have "(r', vpath w) \<noteq> (r, vpath v)" if v: "v \<in> set vs" for v
    proof
      assume e: "(r', vpath w) = (r, vpath v)"
      have "is_canonical g v" "v mod 4096 = 0" using vs v by (auto simp: vm_pages_def)
      from vpath_inj [OF c this(1) g w(1) this(2)] e show False using w(2) v by simp
    qed
    then have "vm_look g R s' (r', vpath w) = vm_look g R s (r', vpath w)" using l by blast
    then show ?thesis using lpath_vpath [of w] sp(3) by (simp add: vm_look_def)
  qed
  then show "translate g r' w s' = translate g r' w s" "get_page_flags g r' w s' = get_page_flags g r' w s"
    using walks_by_leaf [OF sp(1,3), of w] walks_by_leaf [OF sp(2,3), of w] walks_noncanonical [of g w r']
    by (cases "is_canonical g w"; simp)+
qed

end
