(* ===== verification/Stack.thy ===== *)
theory Stack
  imports VmmPages
begin

text \<open>
  \<open>kernel/src/task/stack.rs\<close>: the arena of guarded kernel stacks. A stack is four frames mapped above a page that stays
  unmapped, in one of 64 slots of the kernel half. Allocation is a transaction over the frame manager, the slot bitmap and
  the active page table \<open>root\<close>. The address arithmetic of the arena stays below the end of the address space.
\<close>

unbundle bit_operations_syntax

section \<open>The arena\<close>

definition STACK_ARENA_START :: u64 where "STACK_ARENA_START = 0xFFFFFFFF90000000"
definition STACK_SLOT_SIZE :: u64 where "STACK_SLOT_SIZE = 0x5000"
definition STACK_GUARD_SIZE :: u64 where "STACK_GUARD_SIZE = 0x1000"
definition STACK_USABLE_SIZE :: u64 where "STACK_USABLE_SIZE = 0x4000"
definition STACK_PAGE_COUNT :: nat where "STACK_PAGE_COUNT = 4"
definition MAX_STACK_SLOTS :: nat where "MAX_STACK_SLOTS = 64"

datatype StackError = ArenaExhausted | PmmExhausted | VmmMappingFailed VmmError | InvalidSlot

record stack_state =
  stack_slot_bitmap :: u64
  vm :: vm_state

record StackAllocation =
  slot_idx :: nat
  guard_start :: u64
  guard_end :: u64
  stack_start :: u64
  stack_end :: u64
  stack_top :: u64
  stack_frames :: "PhysFrame list"

definition allocate_slot :: "u64 \<Rightarrow> (StackError + nat \<times> u64) \<times> u64" where
  "allocate_slot bm =
     (case find (\<lambda>idx. bm AND push_bit idx 1 = 0) [0..<MAX_STACK_SLOTS] of
        None \<Rightarrow> (Err ArenaExhausted, bm)
      | Some idx \<Rightarrow> (Ok (idx, STACK_ARENA_START + word_of_nat idx * STACK_SLOT_SIZE), bm OR push_bit idx 1))"

definition free_slot :: "nat \<Rightarrow> u64 \<Rightarrow> u64" where
  "free_slot idx bm = (if idx < MAX_STACK_SLOTS then bm AND NOT (push_bit idx 1) else bm)"

definition stack_flags :: PageTableFlags where
  "stack_flags = PRESENT OR PAGE_WRITABLE OR NO_EXECUTE"

definition stack_pages :: "u64 \<Rightarrow> u64 list" where
  "stack_pages start = map (\<lambda>k. start + word_of_nat k * 4096) [0..<STACK_PAGE_COUNT]"

text \<open>Returning the frames of a stack, ignoring the results.\<close>

definition return_frames :: "PhysFrame list \<Rightarrow> vm_state \<Rightarrow> vm_state" where
  "return_frames fs s = s\<lparr>frames := release_frames free_frame fs (frames s)\<rparr>"

section \<open>Allocation and destruction\<close>

definition stack_allocate :: "AddressSpaceGeometry \<Rightarrow> PhysFrame \<Rightarrow> stack_state \<Rightarrow> ((StackError + StackAllocation) \<times> stack_state) option" where
  "stack_allocate g root st =
     (case alloc_frames alloc_frame free_frame STACK_PAGE_COUNT [] (frames (vm st)) of
        None \<Rightarrow> None
      | Some (None, p) \<Rightarrow> Some (Err PmmExhausted, st\<lparr>vm := (vm st)\<lparr>frames := p\<rparr>\<rparr>)
      | Some (Some fs, p) \<Rightarrow>
          let s = (vm st)\<lparr>frames := p\<rparr> in
          (case allocate_slot (stack_slot_bitmap st) of
             (Inl e, _) \<Rightarrow> Some (Err e, st\<lparr>vm := return_frames fs s\<rparr>)
           | (Inr (idx, slot_base), bm) \<Rightarrow>
               let start = slot_base + STACK_GUARD_SIZE in
               (case map_seq (map_at g root stack_flags Kernel) (zip (stack_pages start) fs) s of
                  None \<Rightarrow> None
                | Some (Inl (k, e), s) \<Rightarrow> do {
                    s \<leftarrow> unmap_seq (unmap_at g root) (take k (stack_pages start)) s;
                    Some (Err (VmmMappingFailed e), \<lparr>stack_slot_bitmap = free_slot idx bm, vm = return_frames fs s\<rparr>)
                  }
                | Some (Inr _, s) \<Rightarrow>
                    Some (Ok \<lparr>slot_idx = idx, guard_start = slot_base, guard_end = start, stack_start = start,
                              stack_end = start + STACK_USABLE_SIZE, stack_top = start + STACK_USABLE_SIZE, stack_frames = fs\<rparr>,
                          \<lparr>stack_slot_bitmap = bm, vm = s\<rparr>))))"

text \<open>One page of the destruction: the frame that was mapped is released.\<close>

definition destroy_page :: "AddressSpaceGeometry \<Rightarrow> PhysFrame \<Rightarrow> u64 \<Rightarrow> vm_state \<Rightarrow> vm_state option" where
  "destroy_page g root v s =
     (case unmap_at g root v s of
        None \<Rightarrow> None
      | Some (Inl _, s) \<Rightarrow> Some s
      | Some (Inr f, s) \<Rightarrow> Some (release_table f s))"

definition stack_destroy :: "AddressSpaceGeometry \<Rightarrow> PhysFrame \<Rightarrow> StackAllocation \<Rightarrow> stack_state \<Rightarrow> stack_state option" where
  "stack_destroy g root a st =
     map_option (\<lambda>s. \<lparr>stack_slot_bitmap = free_slot (slot_idx a) (stack_slot_bitmap st), vm = s\<rparr>)
       (foldM (destroy_page g root) (stack_pages (stack_start a)) (vm st))"

section \<open>Addresses of the arena\<close>

lemma high_canonical:
  assumes "unat (NOT v) < 2 ^ (virtual_bits g - 1)" "virtual_bits g \<le> 64" shows "is_canonical g v"
proof -
  have b: "bit v n" if "virtual_bits g - 1 \<le> n" "n < 64" for n
  proof -
    have "unat (NOT v) < 2 ^ n"
      using less_le_trans [OF assms(1)] power_increasing [OF that(1), of "2::nat"] by simp
    then have "\<not> bit (unat (NOT v)) n" by (simp add: bit_iff_odd)
    then show ?thesis using that(2) by (simp add: bit_unsigned_iff bit_not_iff)
  qed
  have "signed_drop_bit (virtual_bits g - 1) v = NOT 0"
    by (intro bit_word_eqI) (use b assms(2) in \<open>auto simp: bit_signed_drop_bit_iff bit_not_iff\<close>)
  then show ?thesis by (simp add: is_canonical_def)
qed

definition slot_page :: "nat \<Rightarrow> nat \<Rightarrow> u64" where
  "slot_page idx k = STACK_ARENA_START + word_of_nat idx * STACK_SLOT_SIZE + word_of_nat k * 4096"

lemma slot_page_nat: "idx < 64 \<Longrightarrow> k < 5 \<Longrightarrow> slot_page idx k = word_of_nat (0xFFFFFFFF90000000 + (5 * idx + k) * 4096)"
  by (simp add: slot_page_def STACK_ARENA_START_def STACK_SLOT_SIZE_def algebra_simps)

lemma unat_slot_page: "idx < 64 \<Longrightarrow> k < 5 \<Longrightarrow> unat (slot_page idx k) = 0xFFFFFFFF90000000 + (5 * idx + k) * 4096"
  unfolding slot_page_nat unat_of_nat by simp

lemma slot_page_inj: "idx < 64 \<Longrightarrow> k < 5 \<Longrightarrow> jdx < 64 \<Longrightarrow> l < 5 \<Longrightarrow> slot_page idx k = slot_page jdx l \<Longrightarrow> idx = jdx \<and> k = l"
proof -
  assume a: "idx < 64" "k < 5" "jdx < 64" "l < 5" "slot_page idx k = slot_page jdx l"
  have "(5 * idx + k) * 4096 = (5 * jdx + l) * 4096"
    using unat_slot_page [OF a(1,2)] unat_slot_page [OF a(3,4)] unfolding a(5) by linarith
  then have e: "5 * idx + k = 5 * jdx + l" by simp
  have "idx = (5 * idx + k) div 5" "jdx = (5 * jdx + l) div 5" using a by simp_all
  then have "idx = jdx" unfolding e by simp
  then show "idx = jdx \<and> k = l" using e by simp
qed

lemma slot_page_valid:
  assumes "idx < 64" "k < 5" "virtual_bits g = 48" shows "slot_page idx k \<in> vm_pages g {r} r"
proof -
  note u = unat_slot_page [OF assms(1,2)]
  have "NOT (slot_page idx k) = - 1 - slot_page idx k" by (simp add: not_eq_complement)
  then have "unat (NOT (slot_page idx k)) = 2 ^ 64 - 1 - unat (slot_page idx k)"
    using unat_sub [of "slot_page idx k" "- 1"] by (simp add: unsigned_minus_1_eq_mask mask_eq_exp_minus_1)
  then have "unat (NOT (slot_page idx k)) < 2 ^ 47" using u by simp
  then have "is_canonical g (slot_page idx k)" using assms(3) by (intro high_canonical) simp_all
  moreover have "slot_page idx k mod 4096 = 0"
  proof -
    have "unat (slot_page idx k mod 4096) = 0" unfolding unat_mod_distrib u by simp
    then show ?thesis by (simp add: unat_eq_0)
  qed
  ultimately show ?thesis by (simp add: vm_pages_def owns_def)
qed

lemma slot_free: "bm AND push_bit idx 1 = 0 \<longleftrightarrow> \<not> bit bm idx" if "idx < 64" for bm :: u64
  using and_exp_eq_0_iff_not_bit [of bm idx] by (simp add: push_bit_eq_mult)

lemma allocate_slot_cases:
  obtains (full) "allocate_slot bm = (Err ArenaExhausted, bm)" "\<forall>i<64. bit bm i"
  | (slot) idx where "idx < 64" "\<not> bit bm idx" "allocate_slot bm = (Ok (idx, slot_page idx 0), bm OR push_bit idx 1)"
proof (cases "find (\<lambda>idx. bm AND push_bit idx 1 = 0) [0..<64]")
  case None
  have "allocate_slot bm = (Err ArenaExhausted, bm)" unfolding allocate_slot_def MAX_STACK_SLOTS_def None by simp
  moreover have "\<forall>i<64. bit bm i" using None slot_free [of _ bm] unfolding find_upt_None_iff by blast
  ultimately show thesis by (rule full)
next
  case (Some idx)
  then have "idx < 64" "\<not> bit bm idx" using find_upt_SomeD [OF Some] slot_free [of idx bm] by simp_all
  moreover have "allocate_slot bm = (Ok (idx, slot_page idx 0), bm OR push_bit idx 1)"
    unfolding allocate_slot_def MAX_STACK_SLOTS_def Some by (simp add: slot_page_def)
  ultimately show thesis by (rule slot)
qed

lemma free_slot_undo: "idx < 64 \<Longrightarrow> \<not> bit bm idx \<Longrightarrow> free_slot idx (bm OR push_bit idx 1) = bm"
  unfolding free_slot_def MAX_STACK_SLOTS_def by (auto intro!: bit_word_eqI simp: bit_simps)

lemma stack_pages_slot: "stack_pages (slot_page idx 0 + STACK_GUARD_SIZE) = map (\<lambda>k. slot_page idx (Suc k)) [0..<4]"
  by (simp add: stack_pages_def STACK_PAGE_COUNT_def slot_page_def STACK_GUARD_SIZE_def algebra_simps)

lemma slot_pages_distinct: "idx < 64 \<Longrightarrow> distinct (map (\<lambda>k. slot_page idx (Suc k)) [0..<4])"
  unfolding distinct_map inj_on_def using slot_page_inj [of idx "Suc _" idx "Suc _"] by (auto simp del: upt_rec_numeral)

section \<open>A transaction\<close>

text \<open>What every stack operation relies on: page tables of the kernel that form a tree without empty tables, and the
  protection against execution.\<close>

definition stack_inv :: "AddressSpaceGeometry \<Rightarrow> nat \<Rightarrow> vm_state \<Rightarrow> bool" where
  "stack_inv g r s \<longleftrightarrow> geom_ok g \<and> virtual_bits g = 48 \<and> nx_enabled g \<and> spaces g s {r} \<and> tight g s r []"

lemma stack_vm_inv: "stack_inv g r s \<Longrightarrow> vm_inv g {r} r stack_flags s"
proof -
  assume i: "stack_inv g r s"
  have "\<not> bit (physical_mask g) n" if "n < 12 \<or> n = 63" for n
    using i that by (auto simp: stack_inv_def geom_ok_def)
  moreover have fl: "stack_flags = push_bit 0 1 OR push_bit 1 1 OR push_bit 63 1"
    by (simp add: stack_flags_def PRESENT_def PAGE_WRITABLE_def NO_EXECUTE_def push_bit_eq_mult)
  have "n < 12 \<or> n = 63" if "bit stack_flags n" for n using that unfolding fl by (simp only: bit_simps) auto
  ultimately have "plain_flags g stack_flags" unfolding plain_flags_def by (intro bit_word_eqI) (auto simp: bit_and_iff)
  then show ?thesis using i by (simp add: vm_inv_def stack_inv_def validate_leaf_def stack_flags_def contains_def PRESENT_def PAGE_WRITABLE_def NO_EXECUTE_def HUGE_PAGE_def)
qed

lemma vm_inv_release:
  assumes "vm_inv g R r fl s" "spaces g (release_table f s) R" shows "vm_inv g R r fl (release_table f s)"
  using assms by (simp add: vm_inv_def release_table_def tight_def)

lemma destroy_run:
  assumes "vm_inv g R r fl s" "emptied g R r F s0 s" "distinct (map fst xs)" "distinct (map snd xs)" "snd ` set xs \<inter> F = {}"
    "\<forall>(v, f)\<in>set xs. v \<in> vm_pages g R r \<and> f \<in> vm_frames g \<and> vm_look g R s (r, vpath v) = Some (vm_entry g fl d f)
       \<and> f \<in> owned_of s0 \<and> (\<forall>r'\<in>R. f \<notin> tabs g s0 r')"
  shows "\<exists>s'. foldM (destroy_page g r) (map fst xs) s = Some s' \<and> vm_inv g R r fl s' \<and> emptied g R r (F \<union> snd ` set xs) s0 s'
    \<and> vm_look g R s' = (\<lambda>k. if k \<in> (\<lambda>v. (r, vpath v)) ` fst ` set xs then None else vm_look g R s k)"
  using assms
proof (induction xs arbitrary: s F)
  case (Cons x xs)
  obtain v f where x: "x = (v, f)" by force
  have v: "v \<in> vm_pages g R r" "f \<in> vm_frames g" "vm_look g R s (r, vpath v) = Some (vm_entry g fl d f)"
    and f: "f \<in> owned_of s0" "f \<notin> F" "\<And>r'. r' \<in> R \<Longrightarrow> f \<notin> tabs g s0 r'" using Cons.prems(5,6) x by auto
  obtain t where t: "unmap_at g r v s = Some (Inr f, t)" "vm_inv g R r fl t" "shrank g R r s t" "vm_look g R t = (vm_look g R s)((r, vpath v) := None)"
    using vm_unmap [OF Cons.prems(1) v] by blast
  have r: "r \<in> R" using Cons.prems(1) by (simp add: vm_inv_def)
  let ?u = "release_table f t"
  note e = emptied_step [OF Cons.prems(2) t(3) r f]
  have iu: "vm_inv g R r fl ?u" by (rule vm_inv_release [OF t(2) e(2)])
  have lu: "vm_look g R ?u = (vm_look g R s)((r, vpath v) := None)" using t(4) by (simp add: release_table_def)
  have ne: "(r, vpath w) \<noteq> (r, vpath v)" if "w \<in> fst ` set xs" for w
  proof
    assume q: "(r, vpath w) = (r, vpath v)"
    have "w \<in> vm_pages g R r" using that Cons.prems(6) by auto
    from vm_key_inj [OF Cons.prems(1) this v(1) q] show False using that Cons.prems(3) x by auto
  qed
  have "\<exists>s'. foldM (destroy_page g r) (map fst xs) ?u = Some s' \<and> vm_inv g R r fl s' \<and> emptied g R r (insert f F \<union> snd ` set xs) s0 s'
    \<and> vm_look g R s' = (\<lambda>k. if k \<in> (\<lambda>v. (r, vpath v)) ` fst ` set xs then None else vm_look g R ?u k)"
  proof (rule Cons.IH [OF iu e(1)])
    show "distinct (map fst xs)" "distinct (map snd xs)" "snd ` set xs \<inter> insert f F = {}" using Cons.prems(3-5) x by auto
    show "\<forall>(v, f)\<in>set xs. v \<in> vm_pages g R r \<and> f \<in> vm_frames g \<and> vm_look g R ?u (r, vpath v) = Some (vm_entry g fl d f)
       \<and> f \<in> owned_of s0 \<and> (\<forall>r'\<in>R. f \<notin> tabs g s0 r')"
      using Cons.prems(6) ne unfolding lu by (fastforce simp: x)
  qed
  then obtain s' where s': "foldM (destroy_page g r) (map fst xs) ?u = Some s'" "vm_inv g R r fl s'" "emptied g R r (insert f F \<union> snd ` set xs) s0 s'"
    "vm_look g R s' = (\<lambda>k. if k \<in> (\<lambda>v. (r, vpath v)) ` fst ` set xs then None else vm_look g R ?u k)" by (elim exE conjE) (rule that)
  have "foldM (destroy_page g r) (map fst (x # xs)) s = Some s'" using s'(1) t(1) x by (simp add: destroy_page_def)
  moreover have "vm_look g R s' = (\<lambda>k. if k \<in> (\<lambda>v. (r, vpath v)) ` fst ` set (x # xs) then None else vm_look g R s k)"
    unfolding s'(4) lu x by (intro ext) simp
  ultimately show ?case using s'(2,3) x by (intro exI [of _ s']) simp
qed simp

lemma return_frames_spec:
  assumes i: "vm_inv g R r fl s" and a: "vm_acct g R s = (free_of s0 - set fs, owned_of s0 \<union> set fs, T)" "set fs \<subseteq> free_of s0"
    and s0: "spaces g s0 R" "\<forall>r'\<in>R. tab g (tables s) r' = tab g (tables s0) r'" and d: "distinct fs"
  shows "vm_inv g R r fl (return_frames fs s)" "free_of (return_frames fs s) = free_of s0" "owned_of (return_frames fs s) = owned_of s0"
    "vm_look g R (return_frames fs s) = vm_look g R s"
proof -
  let ?p = "release_frames free_frame fs (frames s)"
  have pi: "pmm_inv (frames s)" using i by (simp add: vm_inv_def spaces_def)
  have fr: "free_of s = free_of s0 - set fs" "owned_of s = owned_of s0 \<union> set fs" using a(1) by (simp_all add: vm_acct_def)
  have "set fs \<subseteq> addrs (frames_in (frames s) Allocated)" using fr(2) by (simp add: owned_of_def)
  note rs = pmm_fa.release_frames_spec [OF pi d this]
  have f: "free_of (return_frames fs s) = free_of s0" using rs fr(1) a(2) by (auto simp: return_frames_def free_of_def)
  show "free_of (return_frames fs s) = free_of s0" by (rule f)
  show "owned_of (return_frames fs s) = owned_of s0"
    using rs fr(2) a(2) free_owned_disjoint [OF s0(1)] by (auto simp: return_frames_def owned_of_def)
  show "vm_look g R (return_frames fs s) = vm_look g R s" by (simp add: return_frames_def)
  have "addrs (frames_in ?p Free) \<inter> tabs g s r' = {}" if "r' \<in> R" for r'
    using f free_not_table [OF s0(1) that] s0(2) that by (simp add: return_frames_def free_of_def)
  then show "vm_inv g R r fl (return_frames fs s)" unfolding return_frames_def using rs by (intro vm_inv_frames [OF i]) auto
qed

definition stack_same :: "AddressSpaceGeometry \<Rightarrow> nat \<Rightarrow> stack_state \<Rightarrow> stack_state \<Rightarrow> bool" where
  "stack_same g r st st' \<longleftrightarrow> stack_inv g r (vm st') \<and> stack_slot_bitmap st' = stack_slot_bitmap st
     \<and> free_of (vm st') = free_of (vm st) \<and> owned_of (vm st') = owned_of (vm st)
     \<and> (\<forall>w. translate g r w (vm st') = translate g r w (vm st) \<and> get_page_flags g r w (vm st') = get_page_flags g r w (vm st))"

lemma stack_sameI:
  assumes "stack_inv g r (vm st)" "vm_inv g {r} r stack_flags (vm st')" "stack_slot_bitmap st' = stack_slot_bitmap st"
    "free_of (vm st') = free_of (vm st)" "owned_of (vm st') = owned_of (vm st)" "vm_look g {r} (vm st') = vm_look g {r} (vm st)"
  shows "stack_same g r st st'"
proof -
  have sp: "spaces g (vm st) {r}" "spaces g (vm st') {r}" using assms(1,2) by (simp_all add: stack_inv_def vm_inv_def)
  have "stack_inv g r (vm st')" using assms(1,2) by (simp add: stack_inv_def vm_inv_def)
  then show ?thesis using assms look_walks [OF sp _ assms(6)] by (simp add: stack_same_def)
qed

text \<open>The state after the frames of a stack were taken.\<close>

lemma taken_frames:
  assumes "vm_inv g R r fl s" "pmm_inv p" "addrs (frames_in p Free) = free_of s - set fs"
    "addrs (frames_in p Allocated) = owned_of s \<union> set fs" "set fs \<subseteq> free_of s"
  shows "vm_inv g R r fl (s\<lparr>frames := p\<rparr>)" "vm_acct g R (s\<lparr>frames := p\<rparr>) = (free_of s - set fs, owned_of s \<union> set fs, \<lambda>r. if r \<in> R then tab g (tables s) r else Map.empty)"
    "set fs \<subseteq> vm_frames g"
proof -
  have sp: "spaces g s R" "geom_ok g" using assms(1) by (simp_all add: vm_inv_def)
  have "addrs (frames_in p Free) \<inter> tabs g s r' = {}" if "r' \<in> R" for r' using free_not_table [OF sp(1) that] assms(3) by auto
  then show "vm_inv g R r fl (s\<lparr>frames := p\<rparr>)" by (rule vm_inv_frames [OF assms(1,2)])
  show "vm_acct g R (s\<lparr>frames := p\<rparr>) = (free_of s - set fs, owned_of s \<union> set fs, \<lambda>r. if r \<in> R then tab g (tables s) r else Map.empty)"
    using assms(3,4) by (simp add: vm_acct_def free_of_def owned_of_def cong: if_cong)
  show "set fs \<subseteq> vm_frames g"
  proof
    fix f assume "f \<in> set fs"
    then have "f \<in> addrs (frames_in (frames s) Free)" using assms(5) by (auto simp: free_of_def)
    from frame_facts [OF _ this] sp small_frame_valid [OF sp(2), of f] show "f \<in> vm_frames g" by (simp add: vm_frames_def spaces_def)
  qed
qed

lemma stack_rolled_back:
  assumes i: "stack_inv g r (vm st)" and p: "pmm_inv p" "addrs (frames_in p Free) = free_of (vm st) - set fs"
    "addrs (frames_in p Allocated) = owned_of (vm st) \<union> set fs" "set fs \<subseteq> free_of (vm st)" "distinct fs"
    and s: "vm_inv g {r} r stack_flags s" "vm_acct g {r} s = vm_acct g {r} ((vm st)\<lparr>frames := p\<rparr>)" "vm_look g {r} s = vm_look g {r} (vm st)"
  shows "stack_same g r st \<lparr>stack_slot_bitmap = stack_slot_bitmap st, vm = return_frames fs s\<rparr>"
proof -
  note t = taken_frames [OF stack_vm_inv [OF i] p(1-4)]
  have "tab g (tables s) r = tab g (tables (vm st)) r"
    using s(2) fun_cong [of _ _ r] by (auto simp: vm_acct_def dest: fun_cong [of _ _ r])
  then have tb: "\<forall>r'\<in>{r}. tab g (tables s) r' = tab g (tables (vm st)) r'" by simp
  have sp: "spaces g (vm st) {r}" using i by (simp add: stack_inv_def)
  note rf = return_frames_spec [OF s(1) s(2) [unfolded t(2)] p(4) sp tb p(5)]
  show ?thesis by (rule stack_sameI [OF i]) (use rf s(3) in simp_all)
qed

text \<open>A stack that was just mapped is destroyed without a trace.\<close>

lemma stack_destroyed:
  assumes i: "stack_inv g r (vm st)" and p: "pmm_inv p" "addrs (frames_in p Free) = free_of (vm st) - set fs"
    "addrs (frames_in p Allocated) = owned_of (vm st) \<union> set fs" "set fs \<subseteq> free_of (vm st)" "distinct fs"
    and vs: "length vs = length fs" "distinct vs" "set vs \<subseteq> vm_pages g {r} r"
    and s: "vm_inv g {r} r stack_flags s" "grew g {r} r ((vm st)\<lparr>frames := p\<rparr>) s"
      "\<forall>(v, f)\<in>set (zip vs fs). vm_look g {r} (vm st) (r, vpath v) = None \<and> vm_look g {r} s (r, vpath v) = Some (vm_entry g stack_flags Kernel f)"
      "\<forall>k. k \<notin> (\<lambda>v. (r, vpath v)) ` set vs \<longrightarrow> vm_look g {r} s k = vm_look g {r} (vm st) k"
  shows "\<exists>s'. foldM (destroy_page g r) vs s = Some s' \<and> stack_same g r st \<lparr>stack_slot_bitmap = stack_slot_bitmap st, vm = s'\<rparr>"
proof -
  let ?s1 = "(vm st)\<lparr>frames := p\<rparr>"
  note t = taken_frames [OF stack_vm_inv [OF i] p(1-4)]
  have sp: "spaces g (vm st) {r}" using i by (simp add: stack_inv_def)
  have f1: "free_of ?s1 = free_of (vm st) - set fs" "owned_of ?s1 = owned_of (vm st) \<union> set fs" using p by (simp_all add: free_of_def owned_of_def)
  have own: "set fs \<subseteq> owned_of s" using s(2) f1 by (auto simp: grew_def)
  have nt: "set fs \<inter> tabs g s r = {}"
  proof -
    have "tabs g s r - tabs g ?s1 r \<subseteq> free_of ?s1" using s(2) by (simp add: grew_def)
    moreover have "free_of (vm st) \<inter> tabs g ?s1 r = {}" using free_not_table [OF sp, of r] by simp
    ultimately show ?thesis using f1(1) p(4) by auto
  qed
  have mf: "map fst (zip vs fs) = vs" "map snd (zip vs fs) = fs" using vs(1) by simp_all
  then have sf: "fst ` set (zip vs fs) = set vs" "snd ` set (zip vs fs) = set fs" by (metis list.set_map)+
  have em: "emptied g {r} r {} s s" by (simp add: emptied_def)
  have all: "\<forall>(v, f)\<in>set (zip vs fs). v \<in> vm_pages g {r} r \<and> f \<in> vm_frames g \<and> vm_look g {r} s (r, vpath v) = Some (vm_entry g stack_flags Kernel f)
       \<and> f \<in> owned_of s \<and> (\<forall>r'\<in>{r}. f \<notin> tabs g s r')"
  proof (clarify, intro conjI)
    fix v f assume vf: "(v, f) \<in> set (zip vs fs)"
    then have "v \<in> set vs" "f \<in> set fs" by (auto dest: set_zip_leftD set_zip_rightD)
    then show "v \<in> vm_pages g {r} r" "f \<in> vm_frames g" "f \<in> owned_of s" "\<forall>r'\<in>{r}. f \<notin> tabs g s r'"
      using vs(3) t(3) own nt by auto
    show "vm_look g {r} s (r, vpath v) = Some (vm_entry g stack_flags Kernel f)" using s(3) vf by auto
  qed
  obtain s' where s': "foldM (destroy_page g r) vs s = Some s'" "vm_inv g {r} r stack_flags s'" "emptied g {r} r (set fs) s s'"
    and l: "vm_look g {r} s' = (\<lambda>k. if k \<in> (\<lambda>v. (r, vpath v)) ` set vs then None else vm_look g {r} s k)"
    using destroy_run [OF s(1) em, of "zip vs fs"] all vs(2) p(5) unfolding mf sf by auto
  have l1: "vm_look g {r} s' = vm_look g {r} ?s1"
  proof
    fix k show "vm_look g {r} s' k = vm_look g {r} ?s1 k"
    proof (cases "k \<in> (\<lambda>v. (r, vpath v)) ` set vs")
      case True
      then obtain v where "v \<in> set vs" "k = (r, vpath v)" by blast
      then obtain f where "(v, f) \<in> set (zip vs fs)" using vs(1) by (metis in_set_impl_in_set_zip1)
      then show ?thesis using s(3) True l \<open>k = _\<close> by auto
    next
      case False
      then show ?thesis using spec [OF s(4), of k] l by simp
    qed
  qed
  have sub: "set fs \<subseteq> owned_of ?s1" using f1(2) by simp
  note e = emptied_settled [OF t(1) s(2) s'(3,2) l1 sub]
  have "stack_same g r st \<lparr>stack_slot_bitmap = stack_slot_bitmap st, vm = s'\<rparr>"
    by (rule stack_sameI [OF i]) (use s'(2) e(2,3) f1 l1 p(4) free_owned_disjoint [OF sp] in auto)
  then show ?thesis using s'(1) by blast
qed

lemma stack_leaf_flags: "leaf_flags stack_flags Kernel = stack_flags"
  by (simp add: leaf_flags_def stack_flags_def PRESENT_def PAGE_WRITABLE_def NO_EXECUTE_def USER_ACCESSIBLE_def)

text \<open>What holds after the four pages were mapped.\<close>

definition stack_mapped :: "AddressSpaceGeometry \<Rightarrow> nat \<Rightarrow> stack_state \<Rightarrow> nat \<Rightarrow> PhysFrame list \<Rightarrow> vm_state \<Rightarrow> bool" where
  "stack_mapped g r st idx fs s \<longleftrightarrow>
     (\<forall>k<4. translate g r (slot_page idx (Suc k)) s = Some (Ok (fs ! k))
        \<and> get_page_flags g r (slot_page idx (Suc k)) s = Some (Ok ((word_of_nat (fs ! k) AND physical_mask g) OR stack_flags)))
     \<and> (\<forall>w. w mod 4096 = 0 \<longrightarrow> w \<notin> slot_page idx ` {1..4} \<longrightarrow> translate g r w s = translate g r w (vm st))
     \<and> (\<exists>s2. foldM (destroy_page g r) (map (\<lambda>k. slot_page idx (Suc k)) [0..<4]) s = Some s2
          \<and> stack_same g r st \<lparr>stack_slot_bitmap = stack_slot_bitmap st, vm = s2\<rparr>)"

lemma stack_maps:
  assumes i: "stack_inv g r (vm st)" and p: "pmm_inv p" "addrs (frames_in p Free) = free_of (vm st) - set fs"
    "addrs (frames_in p Allocated) = owned_of (vm st) \<union> set fs" "set fs \<subseteq> free_of (vm st)" and fs: "distinct fs" "length fs = 4" and idx: "idx < 64"
  defines "vs \<equiv> map (\<lambda>k. slot_page idx (Suc k)) [0..<4]" and "s1 \<equiv> (vm st)\<lparr>frames := p\<rparr>"
  shows "\<exists>res s'. map_seq (map_at g r stack_flags Kernel) (zip vs fs) s1 = Some (res, s') \<and>
    (case res of
       Inr _ \<Rightarrow> stack_mapped g r st idx fs s'
     | Inl (n, _) \<Rightarrow> \<exists>s''. unmap_seq (unmap_at g r) (take n vs) s' = Some s''
         \<and> stack_same g r st \<lparr>stack_slot_bitmap = stack_slot_bitmap st, vm = return_frames fs s''\<rparr>)"
proof -
  have vi: "vm_inv g {r} r stack_flags (vm st)" by (rule stack_vm_inv [OF i])
  have sp: "spaces g (vm st) {r}" and g: "geom_ok g" "virtual_bits g = 48" "plain_flags g stack_flags" using vi by (simp_all add: vm_inv_def)
  note t = taken_frames [OF vi p, folded s1_def]
  let ?xs = "zip vs fs"
  have vs: "length vs = length fs" "distinct vs" "set vs \<subseteq> vm_pages g {r} r" "\<And>k. k < 4 \<Longrightarrow> vs ! k = slot_page idx (Suc k)"
    using slot_pages_distinct [OF idx] slot_page_valid [OF idx _ g(2)] fs(2) by (auto simp: vs_def simp del: upt_rec_numeral)
  have mf: "map fst ?xs = vs" "\<And>n. map fst (take n ?xs) = take n vs" using vs(1) by (simp_all add: take_zip)
  have sf: "fst ` set ?xs = set vs" using mf(1) by (metis list.set_map)
  have gd: "\<forall>(v, f)\<in>set ?xs. v \<in> vm_pages g {r} r \<and> f \<in> vm_frames g"
    using vs(3) t(3) by (auto dest: set_zip_leftD set_zip_rightD)
  have dx: "distinct (map fst ?xs)" unfolding mf by (rule vs(2))
  obtain res t1 s' where m: "map_seq (map_at g r stack_flags Kernel) ?xs s1 = Some (res, s')" "vm_inv g {r} r stack_flags s'" "grew g {r} r s1 t1"
    and c: "case res of
       Inr _ \<Rightarrow> s' = t1 \<and> (\<forall>(v, f)\<in>set ?xs. vm_look g {r} s1 (r, vpath v) = None \<and> vm_look g {r} s' (r, vpath v) = Some (vm_entry g stack_flags Kernel f))
         \<and> (\<forall>k. k \<notin> (\<lambda>v. (r, vpath v)) ` fst ` set ?xs \<longrightarrow> vm_look g {r} s' k = vm_look g {r} s1 k)
     | Inl (n, _) \<Rightarrow> True"
    using vp.map_seq_outcome [OF t(1) dx gd, of Kernel] by (elim exE conjE) (rule that, auto split: sum.splits)
  show ?thesis
  proof (cases res)
    case (Inl ne)
    obtain n e where ne: "ne = (n, e)" by force
    obtain s'' where s'': "unmap_seq (unmap_at g r) (take n vs) s' = Some s''" "vm_inv g {r} r stack_flags s''" "vm_look g {r} s'' = vm_look g {r} s1"
      "vm_acct g {r} s'' = vm_acct g {r} s1"
      using vp.roll_back [OF t(1) dx gd m(1) [unfolded Inl ne]] unfolding mf by blast
    have "stack_same g r st \<lparr>stack_slot_bitmap = stack_slot_bitmap st, vm = return_frames fs s''\<rparr>"
      using stack_rolled_back [OF i p fs(1) s''(2)] s''(3,4) by (simp add: s1_def)
    then show ?thesis using m(1) Inl ne s''(1) by simp
  next
    case (Inr u)
    note c' = c [unfolded Inr sum.case sf s1_def vm_look_frames]
    have gr: "grew g {r} r s1 s'" using m(3) c' by simp
    note lk = c' [THEN conjunct2, THEN conjunct1] c' [THEN conjunct2, THEN conjunct2]
    have sp': "spaces g s' {r}" using m(2) by (simp add: vm_inv_def)
    have tr: "translate g r (slot_page idx (Suc k)) s' = Some (Ok (fs ! k))
        \<and> get_page_flags g r (slot_page idx (Suc k)) s' = Some (Ok ((word_of_nat (fs ! k) AND physical_mask g) OR stack_flags))" if k: "k < 4" for k
    proof -
      have "(vs ! k, fs ! k) \<in> set ?xs" using k vs(1) fs(2) by (auto simp: set_zip)
      with lk(1) gd have "vm_look g {r} s' (r, vpath (vs ! k)) = Some (vm_entry g stack_flags Kernel (fs ! k))" "vs ! k \<in> vm_pages g {r} r" "fs ! k \<in> vm_frames g"
        by auto
      from mapped_walks [OF m(2) this(2,3,1)] show ?thesis using vs(4) [OF k] by (simp add: stack_leaf_flags)
    qed
    have oth: "translate g r w s' = translate g r w (vm st)" if "w mod 4096 = 0" "w \<notin> slot_page idx ` {1..4}" for w
    proof (rule unmapped_walks(1) [OF sp sp' _ g(2) vs(3) that(1) _ lk(2)])
      show "\<not> (r = r \<and> w \<in> set vs)" using that(2) by (auto simp: vs_def simp del: upt_rec_numeral)
    qed simp
    have "stack_mapped g r st idx fs s'" unfolding stack_mapped_def
      using tr oth stack_destroyed [OF i p fs(1) vs(1-3) m(2) gr [unfolded s1_def] lk] unfolding vs_def by blast
    then show ?thesis using m(1) Inr by simp
  qed
qed

section \<open>The outcome of an allocation\<close>

lemma stack_allocate_outcome:
  assumes "stack_inv g r (vm st)"
  shows "\<exists>res st'. stack_allocate g r st = Some (res, st') \<and>
    (case res of
       Inl e \<Rightarrow> stack_same g r st st'
     | Inr a \<Rightarrow> slot_idx a < 64 \<and> \<not> bit (stack_slot_bitmap st) (slot_idx a) \<and> stack_slot_bitmap st' = stack_slot_bitmap st OR push_bit (slot_idx a) 1
         \<and> guard_start a = slot_page (slot_idx a) 0 \<and> stack_start a = slot_page (slot_idx a) 1 \<and> stack_top a = slot_page (slot_idx a) 5
         \<and> length (stack_frames a) = 4 \<and> distinct (stack_frames a) \<and> set (stack_frames a) \<subseteq> free_of (vm st)
         \<and> (\<forall>k<4. translate g r (slot_page (slot_idx a) (Suc k)) (vm st') = Some (Ok (stack_frames a ! k))
              \<and> get_page_flags g r (slot_page (slot_idx a) (Suc k)) (vm st')
                  = Some (Ok ((word_of_nat (stack_frames a ! k) AND physical_mask g) OR stack_flags)))
         \<and> (\<forall>w. w mod 4096 = 0 \<longrightarrow> w \<notin> slot_page (slot_idx a) ` {1..4} \<longrightarrow> translate g r w (vm st') = translate g r w (vm st))
         \<and> (\<exists>st2. stack_destroy g r a st' = Some st2 \<and> stack_same g r st st2))"
proof -
  have vi: "vm_inv g {r} r stack_flags (vm st)" by (rule stack_vm_inv [OF assms])
  have pi: "pmm_inv (frames (vm st))" and sp: "spaces g (vm st) {r}" using vi by (simp_all add: vm_inv_def spaces_def)
  note af = pmm_fa.alloc_frames_spec [OF pi distinct.simps(1) [THEN iffD2, OF TrueI], of 4]
  show ?thesis
  proof (cases "4 \<le> card (free_of (vm st))")
    case False
    then obtain p where p: "alloc_frames alloc_frame free_frame 4 [] (frames (vm st)) = Some (None, p)" "pmm_inv p"
      "addrs (frames_in p Free) = free_of (vm st)" "addrs (frames_in p Allocated) = owned_of (vm st)"
      using af by (auto simp: free_of_def owned_of_def)
    have "vm_inv g {r} r stack_flags ((vm st)\<lparr>frames := p\<rparr>)" by (rule vm_inv_frames [OF vi p(2)]) (use free_not_table [OF sp] p(3) in auto)
    then have "stack_same g r st (st\<lparr>vm := (vm st)\<lparr>frames := p\<rparr>\<rparr>)"
      by (intro stack_sameI [OF assms]) (use p in \<open>simp_all add: free_of_def owned_of_def\<close>)
    then show ?thesis using p(1) by (simp add: stack_allocate_def STACK_PAGE_COUNT_def)
  next
    case True
    then obtain fs p where fs: "alloc_frames alloc_frame free_frame 4 [] (frames (vm st)) = Some (Some fs, p)" "distinct fs" "length fs = 4"
      and p: "pmm_inv p" "addrs (frames_in p Free) = free_of (vm st) - set fs" "addrs (frames_in p Allocated) = owned_of (vm st) \<union> set fs"
        "set fs \<subseteq> free_of (vm st)"
      using af by (auto simp: free_of_def owned_of_def)
    show ?thesis
    proof (cases rule: allocate_slot_cases [of "stack_slot_bitmap st"])
      case full
      have "stack_same g r st (st\<lparr>vm := return_frames fs ((vm st)\<lparr>frames := p\<rparr>)\<rparr>)"
        using stack_rolled_back [OF assms p fs(2) taken_frames(1) [OF vi p] refl] by (cases st) simp
      then show ?thesis using fs(1) full(1) by (simp add: stack_allocate_def STACK_PAGE_COUNT_def)
    next
      case (slot idx)
      have ad: "slot_page idx 0 + STACK_GUARD_SIZE = slot_page idx 1" "slot_page idx 0 + STACK_GUARD_SIZE + STACK_USABLE_SIZE = slot_page idx 5"
        by (simp_all add: slot_page_def STACK_GUARD_SIZE_def STACK_USABLE_SIZE_def)
      note run = fs(1) slot(3) stack_pages_slot [of idx] free_slot_undo [OF slot(1,2)]
        and defs = stack_allocate_def stack_destroy_def stack_mapped_def STACK_PAGE_COUNT_def
      from stack_maps [OF assms p fs(2,3) slot(1)] show ?thesis
        using run slot(1,2) ad fs(2,3) p(4) by (fastforce simp: defs Let_def simp del: upt_rec_numeral split: sum.splits)
    qed
  qed
qed

text \<open>The pages of the arena: no guard page is mapped, and nothing of a slot that is not in use.\<close>

definition arena_ok :: "AddressSpaceGeometry \<Rightarrow> nat \<Rightarrow> stack_state \<Rightarrow> bool" where
  "arena_ok g r st \<longleftrightarrow> (\<forall>idx<MAX_STACK_SLOTS. \<forall>k<5. k = 0 \<or> \<not> bit (stack_slot_bitmap st) idx \<longrightarrow>
     translate g r (slot_page idx k) (vm st) = Some (Err NotMapped))"

lemma stack_fails_only_full:
  assumes i: "stack_inv g r (vm st)" and a: "arena_ok g r st" and n: "16 \<le> card (free_of (vm st))"
    and e: "stack_allocate g r st = Some (Inl e, st')"
  shows "e = ArenaExhausted \<and> (\<forall>idx<MAX_STACK_SLOTS. bit (stack_slot_bitmap st) idx)"
proof -
  have vi: "vm_inv g {r} r stack_flags (vm st)" by (rule stack_vm_inv [OF i])
  have pi: "pmm_inv (frames (vm st))" and sp: "spaces g (vm st) {r}" and g: "virtual_bits g = 48" using vi by (simp_all add: vm_inv_def spaces_def)
  have "4 \<le> card (free_of (vm st))" using n by simp
  then obtain fs p where fs: "alloc_frames alloc_frame free_frame 4 [] (frames (vm st)) = Some (Some fs, p)" "distinct fs" "length fs = 4"
    and p: "pmm_inv p" "addrs (frames_in p Free) = free_of (vm st) - set fs" "addrs (frames_in p Allocated) = owned_of (vm st) \<union> set fs"
      "set fs \<subseteq> free_of (vm st)"
    using pmm_fa.alloc_frames_spec [OF pi distinct.simps(1) [THEN iffD2, OF TrueI], of 4] by (auto simp: free_of_def owned_of_def)
  note t = taken_frames [OF vi p]
  show ?thesis
  proof (cases rule: allocate_slot_cases [of "stack_slot_bitmap st"])
    case full
    then show ?thesis using e fs(1) by (simp add: stack_allocate_def STACK_PAGE_COUNT_def MAX_STACK_SLOTS_def)
  next
    case (slot idx)
    let ?vs = "map (\<lambda>k. slot_page idx (Suc k)) [0..<4]"
    have lk: "vm_look g {r} ((vm st)\<lparr>frames := p\<rparr>) (r, vpath (slot_page idx k)) = None" if "k < 5" for k
    proof -
      have "is_canonical g (slot_page idx k)" using slot_page_valid [OF slot(1) that g] by (simp add: vm_pages_def)
      moreover have "translate g r (slot_page idx k) (vm st) = Some (Err NotMapped)"
        using a slot(1,2) that by (simp add: arena_ok_def MAX_STACK_SLOTS_def)
      ultimately show ?thesis using walks_by_leaf(1) [OF sp, of r "slot_page idx k"] by (auto simp: vm_look_def split: option.splits)
    qed
    have ok: "v \<in> vm_pages g {r} r \<and> vm_look g {r} ((vm st)\<lparr>frames := p\<rparr>) (r, vpath v) = None" if "v \<in> set ?vs" for v
    proof -
      from that obtain k where "k < 4" "v = slot_page idx (Suc k)" by (auto simp del: upt_rec_numeral)
      with slot_page_valid [OF slot(1) _ g, of "Suc k"] lk [of "Suc k"] show ?thesis by simp
    qed
    have all: "\<forall>(v, f)\<in>set (zip ?vs fs). v \<in> vm_pages g {r} r \<and> f \<in> vm_frames g \<and> vm_look g {r} ((vm st)\<lparr>frames := p\<rparr>) (r, vpath v) = None"
      using ok t(3) set_zip_leftD [of _ _ ?vs fs] set_zip_rightD [of _ _ ?vs fs] by blast
    have "card (free_of (vm st)) - 4 = card (free_of ((vm st)\<lparr>frames := p\<rparr>))"
      using p(2,4) fs(2,3) by (simp add: free_of_def card_Diff_subset distinct_card)
    then have c: "3 * length (zip ?vs fs) \<le> card (free_of ((vm st)\<lparr>frames := p\<rparr>))" using n fs(3) by simp
    have d: "distinct (map fst (zip ?vs fs))" using slot_pages_distinct [OF slot(1)] fs(3) by (simp del: upt_rec_numeral)
    obtain s' where "map_seq (map_at g r stack_flags Kernel) (zip ?vs fs) ((vm st)\<lparr>frames := p\<rparr>) = Some (Ok (), s')"
      using map_seq_succeeds [OF t(1) d all c] by blast
    then show ?thesis using e fs(1) slot(3) stack_pages_slot [of idx] by (simp add: stack_allocate_def STACK_PAGE_COUNT_def Let_def)
  qed
qed

lemma arena_ok_same: "arena_ok g r st \<Longrightarrow> stack_same g r st st' \<Longrightarrow> arena_ok g r st'"
  by (simp add: arena_ok_def stack_same_def)

lemma arena_ok_taken:
  assumes a: "arena_ok g r st" and g: "virtual_bits g = 48" and idx: "idx < 64" and bm: "stack_slot_bitmap st' = stack_slot_bitmap st OR push_bit idx 1"
    and tr: "\<And>w. w mod 4096 = 0 \<Longrightarrow> w \<notin> slot_page idx ` {1..4} \<Longrightarrow> translate g r w (vm st') = translate g r w (vm st)"
  shows "arena_ok g r st'"
  unfolding arena_ok_def
proof (intro allI impI)
  fix j k assume j: "j < MAX_STACK_SLOTS" "k < (5::nat)" "k = 0 \<or> \<not> bit (stack_slot_bitmap st') j"
  have j64: "j < 64" using j(1) by (simp add: MAX_STACK_SLOTS_def)
  have o: "k = 0 \<or> \<not> bit (stack_slot_bitmap st) j" "k = 0 \<or> j \<noteq> idx" using j(3) j64 unfolding bm by (auto simp: bit_simps)
  have "slot_page j k \<notin> slot_page idx ` {1..4}"
  proof
    assume "slot_page j k \<in> slot_page idx ` {1..4}"
    then obtain l where "l \<in> {1..4}" "slot_page j k = slot_page idx l" by blast
    with slot_page_inj [OF j64 j(2) idx, of l] o(2) show False by auto
  qed
  moreover have "slot_page j k mod 4096 = 0" using slot_page_valid [OF j64 j(2) g] by (simp add: vm_pages_def)
  ultimately show "translate g r (slot_page j k) (vm st') = Some (Err NotMapped)" using tr a [unfolded arena_ok_def, rule_format, OF j(1,2) o(1)] by simp
qed

text \<open>A machine with 29 free frames and empty tables.\<close>

definition demo_stack :: stack_state where
  "demo_stack = \<lparr>stack_slot_bitmap = 1, vm = demo_vm\<lparr>frames := \<lparr>bitmap = (\<lambda>w. if w = 0 then 0x1402 else NOT 0), tracked_frames = 32,
     free_frames = 29, allocated_frames = 2, reserved_frames = 1, unusable_frames = 0, initialized = True\<rparr>\<rparr>\<rparr>"

lemma demo_stack_sel: "tables (vm demo_stack) = tables demo_vm" "stack_slot_bitmap demo_stack = 1" "tracked_frames (frames (vm demo_stack)) = 32"
  by (simp_all add: demo_stack_def)

lemma demo_stack_frames:
  "frames_in (frames (vm demo_stack)) Free = {1..<32} - {5, 6}" "frames_in (frames (vm demo_stack)) Allocated = {5, 6}"
  "frames_in (frames (vm demo_stack)) Reserved = {0}" "frames_in (frames (vm demo_stack)) Unusable = {}"
proof -
  have "get_state (frames (vm demo_stack)) f = (if f = 0 then Reserved else if f = 5 \<or> f = 6 then Allocated else Free)" if "f < 32" for f
  proof -
    have "f \<in> set [0..<32]" using that by simp
    then show ?thesis by (auto simp: demo_stack_def get_state_bits state_of_def upt_rec)
  qed
  then show "frames_in (frames (vm demo_stack)) Free = {1..<32} - {5, 6}" "frames_in (frames (vm demo_stack)) Allocated = {5, 6}"
    "frames_in (frames (vm demo_stack)) Reserved = {0}" "frames_in (frames (vm demo_stack)) Unusable = {}"
    by (auto simp: frames_in_def demo_stack_sel split: if_splits)
qed

lemma demo_stack_inv: "stack_inv demo_geom 20480 (vm demo_stack)"
proof -
  have "pmm_inv (frames (vm demo_stack))"
    unfolding pmm_inv_def verify_invariants_iff demo_stack_frames by (simp add: demo_stack_def)
  moreover have "owned_of (vm demo_stack) = {20480, 24576}" by (auto simp: owned_of_def demo_stack_frames)
  moreover have "20480 \<notin> free_of (vm demo_stack)" by (auto simp: free_of_def demo_stack_frames)
  ultimately have "spaces demo_geom (vm demo_stack) {20480}"
    using demo_spaces by (auto simp: spaces_def tree_def exclusive_def demo_tab demo_stack_sel demo_free split: if_splits)
  then show ?thesis using demo_geom_sel by (simp add: stack_inv_def tight_def demo_tab demo_stack_sel)
qed

lemma demo_stack_arena: "arena_ok demo_geom 20480 demo_stack"
proof -
  have "translate demo_geom 20480 (slot_page idx k) (vm demo_stack) = Some (Err NotMapped)" if "idx < 64" "k < 5" for idx k
    using walks_by_leaf(1) [of demo_geom "vm demo_stack" "{20480}" 20480 "slot_page idx k"] demo_stack_inv slot_page_valid [OF that demo_geom_sel(2)]
    by (simp add: stack_inv_def demo_leaf demo_stack_sel vm_pages_def)
  then show ?thesis by (simp add: arena_ok_def MAX_STACK_SLOTS_def)
qed

lemma demo_stack_free: "card (free_of (vm demo_stack)) = 29"
proof -
  have "card ({1..<32} - {5, 6 :: nat}) = 29" by (subst card_Diff_subset) auto
  then show ?thesis by (simp add: free_of_def demo_stack_frames card_image inj_on_def)
qed

section \<open>Properties\<close>

text \<open>C15: allocating a kernel stack is a transaction, and destroying the stack undoes it. On a kernel page table without empty
  tables, where no guard page of the arena and no page of an unused slot is mapped, the allocation does not panic. Any failure leaves the
  slot bitmap, the free and the used frames and every translation as they were, and with sixteen free frames it fails only when every slot is taken.
  A success takes a free slot and four distinct free frames, maps them writable and not executable above the
  guard page, and changes no other translation; the guard page is unmapped, and the arena is again as the next allocation needs it.
  Destroying the new stack restores the bitmap, the frames and every translation.\<close>

theorem stack_transaction:
  assumes "stack_inv g r (vm st)" "arena_ok g r st"
  shows "\<exists>res st'. stack_allocate g r st = Some (res, st') \<and> arena_ok g r st' \<and>
    (case res of
       Inl e \<Rightarrow> stack_same g r st st'
         \<and> (16 \<le> card (free_of (vm st)) \<longrightarrow> e = ArenaExhausted \<and> (\<forall>idx<MAX_STACK_SLOTS. bit (stack_slot_bitmap st) idx))
     | Inr a \<Rightarrow> slot_idx a < 64 \<and> \<not> bit (stack_slot_bitmap st) (slot_idx a) \<and> stack_slot_bitmap st' = stack_slot_bitmap st OR push_bit (slot_idx a) 1
         \<and> guard_start a = slot_page (slot_idx a) 0 \<and> stack_start a = slot_page (slot_idx a) 1 \<and> stack_top a = slot_page (slot_idx a) 5
         \<and> length (stack_frames a) = 4 \<and> distinct (stack_frames a) \<and> set (stack_frames a) \<subseteq> free_of (vm st)
         \<and> (\<forall>k<4. translate g r (slot_page (slot_idx a) (Suc k)) (vm st') = Some (Ok (stack_frames a ! k))
              \<and> get_page_flags g r (slot_page (slot_idx a) (Suc k)) (vm st')
                  = Some (Ok ((word_of_nat (stack_frames a ! k) AND physical_mask g) OR stack_flags)))
         \<and> translate g r (guard_start a) (vm st') = Some (Err NotMapped)
         \<and> (\<forall>w. w mod 4096 = 0 \<longrightarrow> w \<notin> slot_page (slot_idx a) ` {1..4} \<longrightarrow> translate g r w (vm st') = translate g r w (vm st))
         \<and> (\<exists>st2. stack_destroy g r a st' = Some st2 \<and> stack_same g r st st2 \<and> arena_ok g r st2))"
proof -
  obtain res st' where e: "stack_allocate g r st = Some (res, st')"
    and o: "case res of
       Inl e \<Rightarrow> stack_same g r st st'
     | Inr a \<Rightarrow> slot_idx a < 64 \<and> \<not> bit (stack_slot_bitmap st) (slot_idx a) \<and> stack_slot_bitmap st' = stack_slot_bitmap st OR push_bit (slot_idx a) 1
         \<and> guard_start a = slot_page (slot_idx a) 0 \<and> stack_start a = slot_page (slot_idx a) 1 \<and> stack_top a = slot_page (slot_idx a) 5
         \<and> length (stack_frames a) = 4 \<and> distinct (stack_frames a) \<and> set (stack_frames a) \<subseteq> free_of (vm st)
         \<and> (\<forall>k<4. translate g r (slot_page (slot_idx a) (Suc k)) (vm st') = Some (Ok (stack_frames a ! k))
              \<and> get_page_flags g r (slot_page (slot_idx a) (Suc k)) (vm st')
                  = Some (Ok ((word_of_nat (stack_frames a ! k) AND physical_mask g) OR stack_flags)))
         \<and> (\<forall>w. w mod 4096 = 0 \<longrightarrow> w \<notin> slot_page (slot_idx a) ` {1..4} \<longrightarrow> translate g r w (vm st') = translate g r w (vm st))
         \<and> (\<exists>st2. stack_destroy g r a st' = Some st2 \<and> stack_same g r st st2)"
    using stack_allocate_outcome [OF assms(1)] by (elim exE conjE) (rule that)
  show ?thesis
  proof (cases res)
    case (Inl x)
    then show ?thesis using e o arena_ok_same [OF assms(2)] stack_fails_only_full [OF assms, of x st'] by auto
  next
    case (Inr a)
    have g: "virtual_bits g = 48" using assms(1) by (simp add: stack_inv_def)
    note o' = o [unfolded Inr sum.case]
    have a': "arena_ok g r st'" using o' by (intro arena_ok_taken [OF assms(2) g, of "slot_idx a"]) simp_all
    then have gd: "translate g r (guard_start a) (vm st') = Some (Err NotMapped)" using o' a' [unfolded arena_ok_def, rule_format, of "slot_idx a" 0] by (simp add: MAX_STACK_SLOTS_def)
    obtain st2 where "stack_destroy g r a st' = Some st2" "stack_same g r st st2" using o' by blast
    then have ds: "\<exists>st2. stack_destroy g r a st' = Some st2 \<and> stack_same g r st st2 \<and> arena_ok g r st2"
      using arena_ok_same [OF assms(2)] by blast
    show ?thesis using a' gd ds o' unfolding e Inr
      by (intro exI [of _ "Inr a"] exI [of _ st'] conjI refl) (assumption, unfold sum.case, elim conjE, intro conjI, assumption+)
  qed
qed

theorem stack_transaction_witness:
  "\<exists>a st' st2. stack_allocate demo_geom 20480 demo_stack = Some (Inr a, st') \<and> distinct (stack_frames a)
    \<and> translate demo_geom 20480 (stack_start a) (vm st') = Some (Ok (stack_frames a ! 0))
    \<and> translate demo_geom 20480 (guard_start a) (vm st') = Some (Err NotMapped)
    \<and> stack_destroy demo_geom 20480 a st' = Some st2 \<and> free_of (vm st2) = free_of (vm demo_stack)"
proof -
  have b: "\<not> (\<forall>idx<MAX_STACK_SLOTS. bit (stack_slot_bitmap demo_stack) idx)"
    by (simp add: demo_stack_sel MAX_STACK_SLOTS_def bit_1_iff) (rule exI [of _ 1], simp)
  note t = stack_transaction [OF demo_stack_inv demo_stack_arena]
  obtain res st' where e: "stack_allocate demo_geom 20480 demo_stack = Some (res, st')" using t by blast
  obtain a where a: "res = Inr a" using t e b demo_stack_free by (cases res) auto
  have "stack_start a = slot_page (slot_idx a) (Suc 0)" "\<forall>k<4. translate demo_geom 20480 (slot_page (slot_idx a) (Suc k)) (vm st') = Some (Ok (stack_frames a ! k))"
    using t e a by auto
  then have "translate demo_geom 20480 (stack_start a) (vm st') = Some (Ok (stack_frames a ! 0))" by simp
  then show ?thesis using t e a by (auto simp: stack_same_def)
qed

end
