(* ===== verification/Shm.thy ===== *)
theory Shm
  imports Channel Pmm
begin

text \<open>
  \<open>kernel/src/ipc/shm.rs\<close>: shared memory objects backed by physical frames. The state adds the object and
  mapping tables and the frame manager, which the code passes along. The contents of memory are not part
  of the state, so the zeroing of fresh frames is left out. Mapping and unmapping are in \<open>ShmMap\<close>.
\<close>

section \<open>Data\<close>

definition MAX_SHM_OBJECTS :: nat where [simp]: "MAX_SHM_OBJECTS = 64"
definition MAX_SHM_PAGES :: nat where [simp]: "MAX_SHM_PAGES = 16"
definition MAX_SHM_MAPPINGS :: nat where [simp]: "MAX_SHM_MAPPINGS = 64"

record ShmObject =
  shm_page_count :: nat
  shm_frames :: "PhysFrame list"
  shm_creator :: nat

definition empty_shm :: ShmObject where
  "empty_shm = \<lparr>shm_page_count = 0, shm_frames = replicate 16 0, shm_creator = 0\<rparr>"

record ShmMapping =
  map_occupied :: bool
  map_object :: nat
  map_generation :: u16
  map_rights :: u16
  map_process :: nat
  virtual_base :: nat
  map_pages :: nat

definition empty_mapping :: ShmMapping where
  "empty_mapping = \<lparr>map_occupied = False, map_object = 0, map_generation = 0, map_rights = 0, map_process = 0,
     virtual_base = 0, map_pages = 0\<rparr>"

record shm_state = chan_state +
  shm_table :: "nat \<Rightarrow> ShmObject"
  shm_mappings :: "nat \<Rightarrow> ShmMapping"
  pmm :: PhysicalMemoryManager

section \<open>Operations\<close>

definition set_shm :: "nat \<Rightarrow> ShmObject \<Rightarrow> 'a shm_state_scheme \<Rightarrow> 'a shm_state_scheme" where
  "set_shm i o' s = s\<lparr>shm_table := (shm_table s)(i := o')\<rparr>"

text \<open>The loops that return frames, which ignore the result of each release.\<close>

definition give_back :: "PhysFrame list \<Rightarrow> 'a shm_state_scheme \<Rightarrow> 'a shm_state_scheme" where
  "give_back fs s = s\<lparr>pmm := release_frames free_frame fs (pmm s)\<rparr>"

definition shm_is_free :: "'a shm_state_scheme \<Rightarrow> nat \<Rightarrow> bool" where
  "shm_is_free s i \<longleftrightarrow> shm_page_count (shm_table s i) = 0
     \<and> \<not> list_ex (\<lambda>k. o_occupied (objects s k) \<and> obj_type (objects s k) = ShmObjectType \<and> pool_index (objects s k) = i)
          [0..<MAX_KERNEL_OBJECTS]"

definition shm_rights :: u16 where
  "shm_rights = READ OR WRITE OR MAP_RO OR MAP_RW OR TRANSFER OR DUPLICATE OR SHM_MAP_READ OR SHM_MAP_WRITE OR SHM_UNMAP
     OR CAP_DUPLICATE OR CAP_TRANSFER OR CAP_REVOKE OR CAP_CLOSE OR CAP_INSPECT OR CAP_AUDIT"

text \<open>The end of a creation, once the frames \<open>fs\<close> and the table slot \<open>si\<close> are found.\<close>

definition shm_install :: "nat \<Rightarrow> nat \<Rightarrow> nat \<Rightarrow> PhysFrame list \<Rightarrow> 'a shm_state_scheme \<Rightarrow> ((IpcError + Handle) \<times> 'a shm_state_scheme) option" where
  "shm_install ps n si fs s =
     (case allocate_object_slot_locked ShmObjectType si (cur_pid s) s of
        (Inl e, s) \<Rightarrow> Some (Err e, give_back fs s)
      | (Inr obj, s) \<Rightarrow>
          let s = set_shm si \<lparr>shm_page_count = n, shm_frames = fs @ replicate (16 - n) 0, shm_creator = cur_pid s\<rparr> s
          in case allocate_handle_entry_locked ps obj shm_rights 0 s of
               None \<Rightarrow> None
             | Some (Inl e, s) \<Rightarrow>
                 map_option (\<lambda>s. (Err e, give_back fs (set_shm si empty_shm s))) (free_object_slot_locked obj s)
             | Some (Inr h, s) \<Rightarrow> Some (Ok h, s))"

definition shm_create :: "nat \<Rightarrow> 'a shm_state_scheme \<Rightarrow> ((IpcError + Handle) \<times> 'a shm_state_scheme) option" where
  "shm_create n s =
     (if n = 0 \<or> n > MAX_SHM_PAGES then Some (Err BadMessageSize, s)
      else case resolve_current_process_slot (cur_pid s) s of
        Inl e \<Rightarrow> Some (Err e, s)
      | Inr ps \<Rightarrow>
          case alloc_frames alloc_frame free_frame n [] (pmm s) of
            None \<Rightarrow> None
          | Some (None, p) \<Rightarrow> Some (Err PmmExhausted, s\<lparr>pmm := p\<rparr>)
          | Some (Some fs, p) \<Rightarrow>
              let s = s\<lparr>pmm := p\<rparr> in
              case find (shm_is_free s) [0..<MAX_SHM_OBJECTS] of
                None \<Rightarrow> Some (Err ShmTableFull, give_back fs s)
              | Some si \<Rightarrow> shm_install ps n si fs s)"

definition check_and_reclaim_shm_locked :: "nat \<Rightarrow> 'a shm_state_scheme \<Rightarrow> 'a shm_state_scheme option" where
  "check_and_reclaim_shm_locked obj s =
     (if \<not> obj < MAX_KERNEL_OBJECTS then None
      else if \<not> o_occupied (objects s obj) \<or> obj_type (objects s obj) \<noteq> ShmObjectType then Some s
      else if ref_count (header (objects s obj)) = 0
      then let s = update_header obj (\<lambda>h. h\<lparr>lifecycle := Reclaiming\<rparr>) s;
               si = pool_index (objects s obj); shm = shm_table s si in
           if \<not> (si < MAX_SHM_OBJECTS \<and> shm_page_count shm \<le> length (shm_frames shm)) then None
           else free_object_slot_locked obj (set_shm si empty_shm (give_back (take (shm_page_count shm) (shm_frames shm)) s))
      else Some s)"

definition shm_close :: "Handle \<Rightarrow> 'a shm_state_scheme \<Rightarrow> ((IpcError + unit) \<times> 'a shm_state_scheme) option" where
  "shm_close h s =
     (case resolve_current_process_slot (cur_pid s) s of
        Inl e \<Rightarrow> Some (Err e, s)
      | Inr ps \<Rightarrow> do {
          (r, s) \<leftarrow> close_handle_locked ps h s;
          case r of
            Inl e \<Rightarrow> Some (Err e, s)
          | Inr (obj, _) \<Rightarrow> do { s \<leftarrow> check_and_reclaim_shm_locked obj s; Some (Ok (), s) }
        })"

section \<open>What the capability operations leave alone\<close>

definition same_shm :: "'a shm_state_scheme \<Rightarrow> 'a shm_state_scheme \<Rightarrow> bool" where
  "same_shm s s' \<longleftrightarrow> pmm s' = pmm s \<and> shm_table s' = shm_table s \<and> sch s' = sch s \<and> processes s' = processes s"

lemma same_shm_alloc_object: "allocate_object_slot_locked ty i pid s = (r, s') \<Longrightarrow> same_shm s s'"
  by (auto simp: same_shm_def allocate_object_slot_locked_def allocate_object_id_def Let_def split: if_splits option.splits)

lemma same_shm_free_object: "free_object_slot_locked i s = Some s' \<Longrightarrow> same_shm s s'"
  by (auto simp: same_shm_def free_object_slot_locked_def split: if_splits)

lemma same_shm_commit: "commit_handle x obj s = Some (r, s') \<Longrightarrow> same_shm s s'"
  by (auto simp: same_shm_def commit_handle_def inc_hcount_def add_handle_ref_def update_header_def bind_eq_Some_conv
      split: if_splits option.splits)

lemma same_shm_install_root:
  assumes "install_root_capability_locked x obj r ep s = Some (out, s')" shows "same_shm s s'"
proof -
  have "same_shm s s'" if "commit_handle x obj (set_node x nd (set_entry x e (s\<lparr>next_capability_id := c\<rparr>))) = Some (out, s')" for nd e c
    using same_shm_commit [OF that] by (simp add: same_shm_def set_node_def set_entry_def)
  then show ?thesis using assms
    by (auto simp: install_root_capability_locked_def allocate_capability_id_def Let_def same_shm_def split: if_splits)
qed

lemma same_shm_handle_entry: "allocate_handle_entry_locked ps obj r ep s = Some (out, s') \<Longrightarrow> same_shm s s'"
  by (auto simp: allocate_handle_entry_locked_def same_shm_def dest: same_shm_install_root [unfolded same_shm_def] split: option.splits sum.splits)

lemma same_shm_close:
  assumes "capability_close_locked c s = Some (r, s')" shows "same_shm s s'"
  using assms by (auto simp: same_shm_def capability_close_locked_def Let_def bind_eq_Some_conv drop_handle_ref_def update_header_def
      dec_hcount_def set_entry_def split: if_splits)

lemma same_shm_close_handle: "close_handle_locked ps h s = Some (r, s') \<Longrightarrow> same_shm s s'"
  by (auto simp: close_handle_locked_def Let_def dest: same_shm_close split: if_splits) (simp_all add: same_shm_def)

lemma same_shm_trans: "same_shm s t \<Longrightarrow> same_shm t u \<Longrightarrow> same_shm s u"
  by (simp add: same_shm_def)

lemma same_shm_resolve: "same_shm s t \<Longrightarrow> resolve_current_process_slot (cur_pid t) t = resolve_current_process_slot (cur_pid s) s"
  by (simp add: same_shm_def resolve_current_process_slot_def cur_pid_def)

lemma caps_inv_shm [simp]:
  "caps_inv (s\<lparr>pmm := p\<rparr>) = caps_inv s" "caps_inv (set_shm i o' s) = caps_inv s" "caps_inv (give_back fs s) = caps_inv s"
  by (simp_all add: caps_inv_def set_shm_def give_back_def)

lemma shm_sel [simp]:
  "objects (set_shm i o' s) = objects s" "objects (give_back fs s) = objects s" "entries (set_shm i o' s) = entries s"
  "pmm (set_shm i o' s) = pmm s" "pmm (give_back fs s) = release_frames free_frame fs (pmm s)"
  "shm_table (set_shm i o' s) = (shm_table s)(i := o')" "shm_table (give_back fs s) = shm_table s"
  "sch (set_shm i o' s) = sch s" "processes (set_shm i o' s) = processes s"
  by (simp_all add: set_shm_def give_back_def)

text \<open>The frames that are free and in use, by address.\<close>

definition frames_of :: "'a shm_state_scheme \<Rightarrow> nat set \<times> nat set" where
  "frames_of s = (addrs (frames_in (pmm s) Free), addrs (frames_in (pmm s) Allocated))"

text \<open>What a new handle leaves of every object: all but the number of handles.\<close>

definition obj_data :: "KernelObjectSlot \<Rightarrow> KernelObjectType \<times> nat \<times> nat \<times> nat" where
  "obj_data ob = (obj_type ob, pool_index ob, mapping_refs (header ob), in_flight_op_refs (header ob))"

lemma handle_entry_data: "allocate_handle_entry_locked ps obj r ep s = Some (out, s') \<Longrightarrow> obj_data (objects s' k) = obj_data (objects s k)"
  by (auto simp: allocate_handle_entry_locked_def install_root_capability_locked_def allocate_capability_id_def Let_def commit_handle_def
      inc_hcount_def add_handle_ref_def update_header_def set_node_def set_entry_def obj_data_def split: option.splits sum.splits if_splits)

lemma alloc_object_data:
  "allocate_object_slot_locked ty i pid s = (Inr obj, s') \<Longrightarrow> obj_data (objects s' obj) = (ty, i, 0, 0)"
  by (auto simp: allocate_object_slot_locked_def allocate_object_id_def Let_def obj_data_def split: if_splits option.splits)

section \<open>Creation and the last close\<close>

text \<open>The caller holds the only handle on a shared memory object backed by the frames \<open>fs\<close>.\<close>

definition sole_shm_handle :: "'a shm_state_scheme \<Rightarrow> Handle \<Rightarrow> nat \<Rightarrow> PhysFrame list \<Rightarrow> bool" where
  "sole_shm_handle s h obj fs \<longleftrightarrow>
     (\<exists>ps i. resolve_current_process_slot (cur_pid s) s = Inr ps \<and> i < 32 \<and> occupied (entries s (Slot ps i))
        \<and> object_index (entries s (Slot ps i)) = obj \<and> rights (entries s (Slot ps i)) = shm_rights
        \<and> endpoint (entries s (Slot ps i)) = 0 \<and> h = handle_new i (handle_generation (entries s (Slot ps i))))
     \<and> obj < 256 \<and> handle_refs (header (objects s obj)) = 1
     \<and> (\<exists>si<64. obj_data (objects s obj) = (ShmObjectType, si, 0, 0) \<and> shm_page_count (shm_table s si) = length fs
          \<and> take (length fs) (shm_frames (shm_table s si)) = fs \<and> length fs \<le> length (shm_frames (shm_table s si)))"

lemma give_back_spec:
  assumes "pmm_inv (pmm s)" "distinct fs" "set fs \<subseteq> snd (frames_of s)"
  shows "pmm_inv (pmm (give_back fs s))" "frames_of (give_back fs s) = (fst (frames_of s) \<union> set fs, snd (frames_of s) - set fs)"
  using pmm_fa.release_frames_spec [of "pmm s" fs] assms by (simp_all add: frames_of_def)

lemma frames_of_cong: "pmm s' = pmm s \<Longrightarrow> frames_of s' = frames_of s"
  by (simp add: frames_of_def)

text \<open>The outcome of a creation: no frame moves when it fails; on success the frames of the new object, and
  only those, move from the free ones to those in use.\<close>

definition created :: "'a shm_state_scheme \<Rightarrow> nat \<Rightarrow> ((IpcError + Handle) \<times> 'a shm_state_scheme) option \<Rightarrow> bool" where
  "created s n out \<longleftrightarrow> (\<exists>r s'. out = Some (r, s') \<and> caps_inv s' \<and> pmm_inv (pmm s')
     \<and> (case r of
          Inl _ \<Rightarrow> frames_of s' = frames_of s
        | Inr h \<Rightarrow> \<exists>obj fs. sole_shm_handle s' h obj fs \<and> length fs = n \<and> distinct fs \<and> set fs \<subseteq> fst (frames_of s)
            \<and> frames_of s' = (fst (frames_of s) - set fs, snd (frames_of s) \<union> set fs)))"

lemma created_Err: "caps_inv s' \<Longrightarrow> pmm_inv (pmm s') \<Longrightarrow> frames_of s' = frames_of s \<Longrightarrow> created s n (Some (Inl e, s'))"
  by (simp add: created_def)

text \<open>Every failure after the frames were taken gives them back.\<close>

lemma created_rollback:
  assumes "caps_inv s'" "pmm_inv (pmm s')" "distinct fs" "set fs \<subseteq> fst (frames_of s)" "fst (frames_of s) \<inter> snd (frames_of s) = {}"
    "frames_of s' = (fst (frames_of s) - set fs, snd (frames_of s) \<union> set fs)"
  shows "created s n (Some (Inl e, give_back fs s'))"
proof (rule created_Err)
  have o: "set fs \<subseteq> snd (frames_of s')" using assms(6) by simp
  note g = give_back_spec [OF assms(2,3) o]
  show "caps_inv (give_back fs s')" using assms(1) by simp
  show "pmm_inv (pmm (give_back fs s'))" by (fact g(1))
  have "fst (frames_of s) - set fs \<union> set fs = fst (frames_of s)" "snd (frames_of s) \<union> set fs - set fs = snd (frames_of s)"
    using assms(4,5) by blast+
  then show "frames_of (give_back fs s') = frames_of s" unfolding g(2) assms(6) by simp
qed

lemma shm_install_created:
  assumes inv: "caps_inv s" "pmm_inv (pmm s)" and ps: "resolve_current_process_slot (cur_pid s) s = Inr ps" and si: "si < 64"
    and fs: "length fs = n" "distinct fs" "set fs \<subseteq> fst (frames_of s0)" "fst (frames_of s0) \<inter> snd (frames_of s0) = {}"
    "frames_of s = (fst (frames_of s0) - set fs, snd (frames_of s0) \<union> set fs)"
  shows "created s0 n (shm_install ps n si fs s)"
proof -
  obtain a s1 where a: "allocate_object_slot_locked ShmObjectType si (cur_pid s) s = (a, s1)" by force
  have i1: "caps_inv s1" using allocate_object_slot_inv [OF inv(1), of ShmObjectType si "cur_pid s"] a by simp
  note sm1 = same_shm_alloc_object [OF a]
  have p1: "pmm s1 = pmm s" using sm1 by (simp add: same_shm_def)
  show ?thesis
  proof (cases a)
    case (Inl e)
    have "created s0 n (Some (Inl e, give_back fs s1))"
      by (rule created_rollback) (use i1 inv fs p1 frames_of_cong [OF p1] in auto)
    then show ?thesis using a Inl by (simp add: shm_install_def)
  next
    case obj: (Inr obj)
    note f = allocated_object [OF a [unfolded obj]]
    define s2 where "s2 = set_shm si \<lparr>shm_page_count = n, shm_frames = fs @ replicate (16 - n) 0, shm_creator = cur_pid s1\<rparr> s1"
    have s2: "caps_inv s2" "objects s2 = objects s1" "entries s2 = entries s1" "pmm s2 = pmm s" "cur_pid s2 = cur_pid s1"
      "shm_table s2 si = \<lparr>shm_page_count = n, shm_frames = fs @ replicate (16 - n) 0, shm_creator = cur_pid s1\<rparr>"
      "processes s2 = processes s1"
      using i1 p1 unfolding s2_def by (simp_all add: cur_pid_def)
    have b: "obj < 256" "o_occupied (objects s2 obj)" "handle_refs (header (objects s2 obj)) = 0" using f s2(2) by simp_all
    have st: "shm_install ps n si fs s = (case allocate_handle_entry_locked ps obj shm_rights 0 s2 of
               None \<Rightarrow> None
             | Some (Inl e, s) \<Rightarrow>
                 map_option (\<lambda>s. (Err e, give_back fs (set_shm si empty_shm s))) (free_object_slot_locked obj s)
             | Some (Inr h, s) \<Rightarrow> Some (Ok h, s))"
      unfolding shm_install_def a obj s2_def by simp
    have r2: "resolve_current_process_slot (cur_pid s2) s2 = Inr ps"
      using ps same_shm_resolve [OF sm1] s2(5,7) by (simp add: resolve_current_process_slot_def)
    from handle_entry_cases [OF s2(1) resolve_slot [OF ps] b(1,2), of shm_rights 0] show ?thesis
    proof cases
      case (1 err)
      obtain s3 where s3: "free_object_slot_locked obj s2 = Some s3" "caps_inv s3" using free_object_slot_inv [OF s2(1) b] by blast
      have p3: "pmm (set_shm si empty_shm s3) = pmm s" using same_shm_free_object [OF s3(1)] s2(4) by (simp add: same_shm_def)
      have "created s0 n (Some (Inl err, give_back fs (set_shm si empty_shm s3)))"
        by (rule created_rollback) (use s3(2) inv fs p3 frames_of_cong [OF p3] in auto)
      then show ?thesis unfolding st 1 by (simp add: s3(1))
    next
      case (2 i s3)
      note sm3 = same_shm_handle_entry [OF 2(1)]
      have p3: "pmm s3 = pmm s" "shm_table s3 = shm_table s2" using sm3 s2(4) by (simp_all add: same_shm_def)
      have vs: "valid_slot (Slot ps i)" using 2(3) resolve_slot [OF ps] by (simp add: valid_slot_def)
      have h1: "handle_refs (header (objects s3 obj)) = 1" by (rule one_handle(1) [OF s2(1) 2(2) b 2(5) vs]) simp_all
      have d: "obj_data (objects s3 obj) = (ShmObjectType, si, 0, 0)"
        using handle_entry_data [OF 2(1), of obj] alloc_object_data [OF a [unfolded obj]] s2(2) by simp
      have "sole_shm_handle s3 (handle_new i (handle_generation (entries s2 (Slot ps i)))) obj fs"
        unfolding sole_shm_handle_def using same_shm_resolve [OF sm3] r2 2(3,5) b(1) h1 d si fs(1) p3(2) s2(6) by auto
      then show ?thesis using 2(1,2) fs inv(2) p3(1) frames_of_cong [OF p3(1)] unfolding st by (auto simp: created_def)
    qed
  qed
qed

lemma shm_create_created:
  assumes inv: "caps_inv s" "pmm_inv (pmm s)" shows "created s n (shm_create n s)"
proof (cases "n = 0 \<or> n > 16")
  case True then show ?thesis using inv created_Err [of s s] by (auto simp: shm_create_def)
next
  case n: False
  then have ng: "shm_create n s = (case resolve_current_process_slot (cur_pid s) s of Inl e \<Rightarrow> Some (Err e, s) | Inr ps \<Rightarrow>
      case alloc_frames alloc_frame free_frame n [] (pmm s) of None \<Rightarrow> None
      | Some (None, p) \<Rightarrow> Some (Err PmmExhausted, s\<lparr>pmm := p\<rparr>)
      | Some (Some fs, p) \<Rightarrow> (case find (shm_is_free (s\<lparr>pmm := p\<rparr>)) [0..<MAX_SHM_OBJECTS] of
          None \<Rightarrow> Some (Err ShmTableFull, give_back fs (s\<lparr>pmm := p\<rparr>)) | Some si \<Rightarrow> shm_install ps n si fs (s\<lparr>pmm := p\<rparr>)))"
    by (auto simp: shm_create_def Let_def split: sum.splits option.splits)
  show ?thesis
  proof (cases "resolve_current_process_slot (cur_pid s) s")
    case (Inl e) then show ?thesis unfolding ng using inv created_Err [of s s] by simp
  next
    case ps: (Inr ps)
    have disj: "fst (frames_of s) \<inter> snd (frames_of s) = {}" using pmm_fa.free_not_owned [OF inv(2)] by (simp add: frames_of_def)
    note spec = pmm_fa.alloc_frames_spec [OF inv(2), of "[]" n, simplified]
    show ?thesis
    proof (cases "n \<le> card (fst (frames_of s))")
      case False
      then obtain p where p: "alloc_frames alloc_frame free_frame n [] (pmm s) = Some (None, p)" "pmm_inv p"
        "frames_of (s\<lparr>pmm := p\<rparr>) = frames_of s"
        using spec by (auto simp: frames_of_def)
      then show ?thesis unfolding ng ps using inv created_Err [of "s\<lparr>pmm := p\<rparr>" s] by simp
    next
      case True
      then obtain fs p where p: "alloc_frames alloc_frame free_frame n [] (pmm s) = Some (Some fs, p)" "pmm_inv p"
        "length fs = n" "distinct fs" "set fs \<subseteq> fst (frames_of s)"
        "frames_of (s\<lparr>pmm := p\<rparr>) = (fst (frames_of s) - set fs, snd (frames_of s) \<union> set fs)"
        using spec by (auto simp: frames_of_def)
      have i: "caps_inv (s\<lparr>pmm := p\<rparr>)" "pmm_inv (pmm (s\<lparr>pmm := p\<rparr>))" using inv p(2) by simp_all
      have r: "resolve_current_process_slot (cur_pid (s\<lparr>pmm := p\<rparr>)) (s\<lparr>pmm := p\<rparr>) = Inr ps"
        using ps by (simp add: resolve_current_process_slot_def cur_pid_def)
      show ?thesis
      proof (cases "find (shm_is_free (s\<lparr>pmm := p\<rparr>)) [0..<MAX_SHM_OBJECTS]")
        case None then show ?thesis unfolding ng ps using p(1) created_rollback [OF i p(4,5) disj p(6)] by simp
      next
        case (Some si)
        then have "si < 64" by (simp add: find_upt_Some_iff)
        from shm_install_created [OF i r this p(3,4,5) disj p(6)] show ?thesis unfolding ng ps using p(1) Some by simp
      qed
    qed
  qed
qed

text \<open>The close of the only handle reclaims the object: exactly its frames become free.\<close>

lemma shm_close_reclaims:
  assumes inv: "caps_inv s" "pmm_inv (pmm s)" and h: "sole_shm_handle s h obj fs" and fs: "distinct fs" "set fs \<subseteq> snd (frames_of s)"
  shows "\<exists>s'. shm_close h s = Some (Ok (), s') \<and> caps_inv s' \<and> pmm_inv (pmm s') \<and> \<not> o_occupied (objects s' obj)
    \<and> frames_of s' = (fst (frames_of s) \<union> set fs, snd (frames_of s) - set fs)"
proof -
  obtain ps i si where r: "resolve_current_process_slot (cur_pid s) s = Inr ps" and i: "i < 32" "occupied (entries s (Slot ps i))"
      "object_index (entries s (Slot ps i)) = obj" "h = handle_new i (handle_generation (entries s (Slot ps i)))"
    and ob: "obj < 256" "handle_refs (header (objects s obj)) = 1" and si: "si < 64" "obj_data (objects s obj) = (ShmObjectType, si, 0, 0)"
      "shm_page_count (shm_table s si) = length fs" "take (length fs) (shm_frames (shm_table s si)) = fs" "length fs \<le> length (shm_frames (shm_table s si))"
    using h by (auto simp: sole_shm_handle_def)
  let ?x = "Slot ps i"
  have l: "live (entries s) ?x" using resolve_slot [OF r] i(1,2) by (simp add: live_def valid_slot_def)
  obtain s1 where c: "capability_close_locked ?x s = Some (Ok (obj, endpoint (entries s ?x)), s1)" "caps_inv s1"
    "objects s1 = (objects s)(obj := (objects s obj)\<lparr>header := (header (objects s obj))\<lparr>handle_refs := handle_refs (header (objects s obj)) - 1\<rparr>\<rparr>)"
    using close_spec [OF inv(1) l] unfolding i(3) by blast
  have cl: "close_handle_locked ps h s = Some (Ok (obj, endpoint (entries s ?x)), s1)"
    using c(1) resolve_slot [OF r] i by (simp add: close_handle_locked_def Let_def handle_slot_roundtrip handle_gen_roundtrip)
  have sm: "pmm s1 = pmm s" "shm_table s1 = shm_table s" using same_shm_close [OF c(1)] by (simp_all add: same_shm_def)
  define s2 where "s2 = update_header obj (\<lambda>h. h\<lparr>lifecycle := Reclaiming\<rparr>) s1"
  have o1: "o_occupied (objects s1 obj)" "obj_type (objects s1 obj) = ShmObjectType" "ref_count (header (objects s1 obj)) = 0"
    using refs_live [OF inv(1) l] i(3) c(3) si(2) ob(2) by (simp_all add: obj_data_def ref_count_def)
  have i2: "caps_inv s2" unfolding s2_def by (rule caps_inv_header [OF c(2)]) simp
  have s2: "pmm s2 = pmm s" "shm_table s2 = shm_table s" "pool_index (objects s2 obj) = si"
    "o_occupied (objects s2 obj)" "handle_refs (header (objects s2 obj)) = 0"
    unfolding s2_def using sm c(3) si(2) o1(1) ob(2)
    by (simp_all add: update_header_def obj_data_def)
  define s3 where "s3 = set_shm si empty_shm (give_back fs s2)"
  have g: "pmm_inv (pmm s3)" "frames_of s3 = (fst (frames_of s) \<union> set fs, snd (frames_of s) - set fs)"
    using give_back_spec [of s2 fs] fs inv(2) s2(1) frames_of_cong [OF s2(1)] unfolding s3_def by (simp_all add: frames_of_def)
  have s3: "caps_inv s3" "o_occupied (objects s3 obj)" "handle_refs (header (objects s3 obj)) = 0"
    unfolding s3_def using i2 s2 by simp_all
  obtain s4 where s4: "free_object_slot_locked obj s3 = Some s4" "caps_inv s4" using free_object_slot_inv [OF s3(1) ob(1) s3(2,3)] by blast
  have "check_and_reclaim_shm_locked obj s1 = Some s4"
    unfolding check_and_reclaim_shm_locked_def s2_def [symmetric] using ob(1) o1 s2 si s4(1) by (simp add: Let_def s3_def)
  then have e: "shm_close h s = Some (Ok (), s4)" using r cl by (simp add: shm_close_def)
  have p4: "pmm s4 = pmm s3" using same_shm_free_object [OF s4(1)] by (simp add: same_shm_def)
  have no: "\<not> o_occupied (objects s4 obj)" using s4(1) by (auto simp: free_object_slot_locked_def split: if_splits)
  show ?thesis using e s4(2) g no p4 frames_of_cong [OF p4] by auto
qed

lemma sole_shm_occupied:
  assumes "caps_inv s" "sole_shm_handle s h obj fs" shows "o_occupied (objects s obj)"
proof -
  obtain ps i where "resolve_current_process_slot (cur_pid s) s = Inr ps" "i < 32" "occupied (entries s (Slot ps i))"
    "object_index (entries s (Slot ps i)) = obj" using assms(2) by (auto simp: sole_shm_handle_def)
  then show ?thesis using refs_live [OF assms(1), of "Slot ps i"] resolve_slot by (auto simp: live_def valid_slot_def)
qed

section \<open>Properties\<close>

text \<open>C38: creating a shared memory object neither panics nor loses a frame. Whatever the outcome, the
  capability and frame invariants hold afterwards. When it fails, for any reason, the free and the used frames
  are those of before, so every partial allocation was rolled back. When it succeeds, exactly the requested number
  of distinct frames left the free ones, and the caller holds the only handle on an object that records them.\<close>

theorem shm_create_conserves_frames:
  assumes "caps_inv s" "pmm_inv (pmm s)"
  shows "\<exists>r s'. shm_create n s = Some (r, s') \<and> caps_inv s' \<and> pmm_inv (pmm s')
     \<and> (case r of
          Inl _ \<Rightarrow> frames_of s' = frames_of s
        | Inr h \<Rightarrow> \<exists>obj fs. sole_shm_handle s' h obj fs \<and> length fs = n \<and> distinct fs \<and> set fs \<subseteq> fst (frames_of s)
            \<and> frames_of s' = (fst (frames_of s) - set fs, snd (frames_of s) \<union> set fs))"
  using shm_create_created [OF assms, of n] unfolding created_def .

text \<open>C39: create followed by close is a round trip for physical memory: after a successful creation, closing the
  returned handle succeeds, reclaims the object, and leaves exactly the frames free that were free before the creation.\<close>

theorem shm_create_close_roundtrip:
  assumes "caps_inv s" "pmm_inv (pmm s)" "shm_create n s = Some (Ok h, s1)"
  shows "\<exists>s2 obj. shm_close h s1 = Some (Ok (), s2) \<and> caps_inv s2 \<and> pmm_inv (pmm s2)
    \<and> o_occupied (objects s1 obj) \<and> \<not> o_occupied (objects s2 obj) \<and> frames_of s2 = frames_of s"
proof -
  obtain obj fs where c: "caps_inv s1" "pmm_inv (pmm s1)" "sole_shm_handle s1 h obj fs" "distinct fs" "set fs \<subseteq> fst (frames_of s)"
    "frames_of s1 = (fst (frames_of s) - set fs, snd (frames_of s) \<union> set fs)"
    using shm_create_created [OF assms(1,2), of n] assms(3) by (auto simp: created_def)
  have disj: "fst (frames_of s) \<inter> snd (frames_of s) = {}" using pmm_fa.free_not_owned [OF assms(2)] by (simp add: frames_of_def)
  have "set fs \<subseteq> snd (frames_of s1)" using c(6) by simp
  from shm_close_reclaims [OF c(1-4) this] obtain s2 where s2: "shm_close h s1 = Some (Ok (), s2)" "caps_inv s2" "pmm_inv (pmm s2)"
    "\<not> o_occupied (objects s2 obj)" "frames_of s2 = (fst (frames_of s1) \<union> set fs, snd (frames_of s1) - set fs)"
    by blast
  have "o_occupied (objects s1 obj)" by (rule sole_shm_occupied [OF c(1,3)])
  moreover have "frames_of s2 = frames_of s"
    unfolding s2(5) c(6) using c(5) disj by (intro prod_eqI) auto
  ultimately show ?thesis using s2 by blast
qed

text \<open>C35: two system calls stop the kernel. Whenever the creation of a shared memory object succeeds, the handle it returns
  validates with the rights to read and write, which are also what the channel operations ask for, so sending or receiving on it
  passes the rights check and fails the assertion that the object is a channel: the kernel panics instead of returning an error.\<close>

theorem shm_handle_stops_kernel:
  assumes "caps_inv s" "pmm_inv (pmm s)" "shm_create n s = Some (Ok h, s1)"
  shows "\<exists>ps obj. resolve_current_process_slot (cur_pid s1) s1 = Ok ps
    \<and> validate_handle_locked ps h (READ OR WRITE) s1 = Some (Ok (obj, 0, shm_rights)) \<and> obj_type (objects s1 obj) = ShmObjectType
    \<and> channel_send root h m b s1 = None \<and> channel_receive root h b s1 = None"
proof -
  obtain obj fs where c: "caps_inv s1" "sole_shm_handle s1 h obj fs"
    using shm_create_created [OF assms(1,2), of n] assms(3) by (auto simp: created_def)
  then obtain ps i where x: "resolve_current_process_slot (cur_pid s1) s1 = Inr ps" "i < 32" "occupied (entries s1 (Slot ps i))"
    "object_index (entries s1 (Slot ps i)) = obj" "rights (entries s1 (Slot ps i)) = shm_rights" "endpoint (entries s1 (Slot ps i)) = 0"
    "h = handle_new i (handle_generation (entries s1 (Slot ps i)))" by (auto simp: sole_shm_handle_def)
  have t: "obj_type (objects s1 obj) = ShmObjectType" using c(2) by (auto simp: sole_shm_handle_def obj_data_def)
  have v: "validate_handle_locked ps h q s1 = Some (Ok (obj, 0, shm_rights))" if "has_rights shm_rights q" for q
    using validate_handle_eq [OF c(1) resolve_slot [OF x(1)], of h q] x that
    by (simp add: lookup_handle_def Let_def handle_slot_roundtrip handle_gen_roundtrip)
  have r: "has_rights shm_rights 0" "has_rights shm_rights (READ OR WRITE)" "shm_rights AND (WRITE OR CHANNEL_SEND) \<noteq> 0"
    "shm_rights AND (READ OR CHANNEL_RECEIVE) \<noteq> 0"
    by (simp_all add: has_rights_def shm_rights_def rights_defs)
  show ?thesis using wrong_type_panics [OF x(1) v [OF r(1)], of root m b] x(1) v [OF r(2)] t r(3,4) by auto
qed

definition shm_initial :: shm_state where
  "shm_initial = chan_state.extend chan_initial
     (shm_state.fields (\<lambda>_. empty_shm) (\<lambda>_. empty_mapping) demo_pmm)"

lemma shm_initial_inv: "caps_inv shm_initial" "pmm_inv (pmm shm_initial)"
  using chan_initial_inv demo_pmm_inv
  by (simp_all add: shm_initial_def chan_state.defs shm_state.defs caps_inv_def)

theorem shm_create_conserves_frames_witness:
  "\<exists>r s'. shm_create 2 shm_initial = Some (r, s') \<and> caps_inv s' \<and> pmm_inv (pmm s')"
  using shm_create_conserves_frames [OF shm_initial_inv, of 2] by blast

lemma shm_initial_pmm: "pmm shm_initial = demo_pmm"
  by (simp add: shm_initial_def chan_state.defs shm_state.defs)

lemma shm_initial_creates: "\<exists>h s1. shm_create 1 shm_initial = Some (Ok h, s1)"
proof -
  obtain fs p where a: "alloc_frames alloc_frame free_frame 1 [] demo_pmm = Some (Some fs, p)"
    using pmm_fa.alloc_frames_spec [OF demo_pmm_inv, of "[]" 1] by (auto simp: demo_pmm_frames card_insert_if)
  have r: "resolve_current_process_slot (cur_pid shm_initial) shm_initial = Ok 0"
    by (simp add: resolve_current_process_slot_def cur_pid_def shm_initial_def chan_state.defs shm_state.defs chan_initial_def demo_sched_def find_upt_0)
  have f: "shm_is_free (shm_initial\<lparr>pmm := p\<rparr>) 0"
    by (simp add: shm_is_free_def list_ex_iff shm_initial_def chan_state.defs shm_state.defs chan_initial_def empty_shm_def empty_object_slot_def)
  have i: "\<exists>h s1. shm_install 0 1 0 fs (shm_initial\<lparr>pmm := p\<rparr>) = Some (Ok h, s1)"
    by (simp add: shm_install_def allocate_object_slot_locked_def allocate_object_id_def shm_initial_def chan_state.defs shm_state.defs chan_initial_def
        empty_object_slot_def find_upt_0 set_shm_def allocate_handle_entry_locked_def allocate_handle_slot_locked_def empty_handle_entry_def
        install_root_capability_locked_def allocate_capability_id_def valid_slot_def commit_handle_def inc_hcount_def add_handle_ref_def
        set_entry_def set_node_def update_header_def Let_def)
  show ?thesis using a r f i by (simp add: shm_create_def find_upt_0 Let_def shm_initial_pmm)
qed

theorem shm_create_close_roundtrip_witness:
  "\<exists>h s1 s2. shm_create 1 shm_initial = Some (Ok h, s1) \<and> shm_close h s1 = Some (Ok (), s2) \<and> frames_of s2 = frames_of shm_initial"
  using shm_initial_creates shm_create_close_roundtrip [OF shm_initial_inv] by blast

theorem shm_handle_stops_kernel_witness:
  "\<exists>h s1. shm_create 1 shm_initial = Some (Ok h, s1) \<and> channel_send demo_root_of h empty_message True s1 = None"
  using shm_initial_creates shm_handle_stops_kernel [OF shm_initial_inv, of 1] by blast

end
