(* ===== verification/ShmMap.thy ===== *)
theory ShmMap
  imports Shm VmmPages
begin

text \<open>
  The second half of \<open>kernel/src/ipc/shm.rs\<close>: mapping a shared memory object into the caller's address space and unmapping it.
  The state joins the shared memory tables with the memory of the page tables; the frame manager is shared by both.
  \<open>root\<close> is the active page table.
\<close>

unbundle bit_operations_syntax

section \<open>State\<close>

record map_state = shm_state +
  mem_tables :: "nat \<Rightarrow> PageTable"
  reg_cr3 :: u64
  reg_master :: nat

definition vm_of :: "map_state \<Rightarrow> vm_state" where
  "vm_of s = \<lparr>tables = mem_tables s, frames = pmm s, cr3 = reg_cr3 s, master_pml4 = reg_master s\<rparr>"

definition put_vm :: "vm_state \<Rightarrow> map_state \<Rightarrow> map_state" where
  "put_vm v s = s\<lparr>mem_tables := tables v, pmm := frames v, reg_cr3 := cr3 v, reg_master := master_pml4 v\<rparr>"

section \<open>Operations\<close>

definition shm_flags :: "bool \<Rightarrow> PageTableFlags" where
  "shm_flags writable =
     (let fl = PRESENT OR USER_ACCESSIBLE OR NO_EXECUTE in if writable then fl OR PAGE_WRITABLE else fl)"

definition shm_pages :: "u64 \<Rightarrow> nat \<Rightarrow> u64 list" where
  "shm_pages vaddr n = map (\<lambda>i. vaddr + word_of_nat i * 4096) [0..<n]"

text \<open>The mapping loop. A page address that is not canonical ends it at once; any other failure first unmaps the pages before it.\<close>

definition shm_map_frames :: "AddressSpaceGeometry \<Rightarrow> PhysFrame \<Rightarrow> u64 \<Rightarrow> bool \<Rightarrow> PhysFrame list \<Rightarrow> map_state \<Rightarrow> ((IpcError + unit) \<times> map_state) option" where
  "shm_map_frames g root vaddr writable fs s =
     (let pages = shm_pages vaddr (length fs) in
      case map_seq (map_at g root (shm_flags writable) User) (zip pages fs) (vm_of s) of
        None \<Rightarrow> None
      | Some (Inl (k, _), v) \<Rightarrow>
          (case from_start_address g (pages ! k) of
             Inl _ \<Rightarrow> Some (Err InvalidAddress, put_vm v s)
           | Inr _ \<Rightarrow> do {
               v \<leftarrow> unmap_seq (unmap_at g root) (take k pages) v;
               Some (Err VmmError, put_vm v s)
             })
      | Some (Inr _, v) \<Rightarrow> Some (Ok (), put_vm v s))"

definition map_right :: "bool \<Rightarrow> u16" where
  "map_right writable = (if writable then MAP_RW OR SHM_MAP_WRITE else MAP_RO OR SHM_MAP_READ)"

definition shm_map :: "AddressSpaceGeometry \<Rightarrow> PhysFrame \<Rightarrow> Handle \<Rightarrow> u64 \<Rightarrow> bool \<Rightarrow> map_state \<Rightarrow> ((IpcError + unit) \<times> map_state) option" where
  "shm_map g root h vaddr writable s =
     (if vaddr mod 4096 \<noteq> 0 \<or> vaddr \<ge> 0x800000000000 then Some (Err InvalidAddress, s)
      else case resolve_current_process_slot (cur_pid s) s of
        Inl e \<Rightarrow> Some (Err e, s)
      | Inr ps \<Rightarrow>
        (case validate_handle_locked ps h 0 s of
           None \<Rightarrow> None
         | Some (Inl e) \<Rightarrow> Some (Err e, s)
         | Some (Inr (obj, _, rights_mask)) \<Rightarrow>
             if rights_mask AND map_right writable = 0 then Some (Err PermissionDenied, s)
             else if obj_type (objects s obj) \<noteq> ShmObjectType then None
             else
               let si = pool_index (objects s obj); shm = shm_table s si; n = shm_page_count shm in
               if \<not> (si < MAX_SHM_OBJECTS \<and> n \<le> length (shm_frames shm)) then None
               else case find (\<lambda>i. \<not> map_occupied (shm_mappings s i)) [0..<MAX_SHM_MAPPINGS] of
                 None \<Rightarrow> Some (Err MappingTableFull, s)
               | Some m \<Rightarrow>
                 (case shm_map_frames g root vaddr writable (take n (shm_frames shm)) s of
                    None \<Rightarrow> None
                  | Some (Inl e, s) \<Rightarrow> Some (Err e, s)
                  | Some (Inr _, s) \<Rightarrow>
                      if mapping_refs (header (objects s obj)) + 1 > U16_MAX then None
                      else Some (Ok (), update_header obj (\<lambda>h. h\<lparr>mapping_refs := mapping_refs h + 1\<rparr>)
                        (s\<lparr>shm_mappings := (shm_mappings s)(m :=
                           \<lparr>map_occupied = True, map_object = obj, map_generation = o_generation (objects s obj), map_rights = map_right writable,
                            map_process = cur_pid s, virtual_base = unat vaddr, map_pages = n\<rparr>)\<rparr>)))))"

definition shm_unmap :: "AddressSpaceGeometry \<Rightarrow> PhysFrame \<Rightarrow> Handle \<Rightarrow> u64 \<Rightarrow> map_state \<Rightarrow> ((IpcError + unit) \<times> map_state) option" where
  "shm_unmap g root h vaddr s =
     (case resolve_current_process_slot (cur_pid s) s of
        Inl e \<Rightarrow> Some (Err e, s)
      | Inr ps \<Rightarrow>
        (case find (\<lambda>i. map_occupied (shm_mappings s i) \<and> map_process (shm_mappings s i) = cur_pid s
                \<and> virtual_base (shm_mappings s i) = unat vaddr) [0..<MAX_SHM_MAPPINGS] of
           None \<Rightarrow> Some (Err InvalidAddress, s)
         | Some m \<Rightarrow>
             let mapping = shm_mappings s m; obj = map_object mapping in
             if obj \<ge> MAX_KERNEL_OBJECTS then Some (Err InvalidHandle, s)
             else if \<not> o_occupied (objects s obj) \<or> o_generation (objects s obj) \<noteq> map_generation mapping then Some (Err InvalidHandle, s)
             else
               (case validate_handle_locked ps h 0 s of
                  None \<Rightarrow> None
                | Some auth \<Rightarrow>
                    if (case auth of Inl _ \<Rightarrow> False | Inr (h_obj, _, _) \<Rightarrow> h_obj \<noteq> obj) then Some (Err PermissionDenied, s)
                    else do {
                      v \<leftarrow> unmap_seq (unmap_at g root) (shm_pages vaddr (map_pages mapping)) (vm_of s);
                      let s = put_vm v s;
                      let s = s\<lparr>shm_mappings := (shm_mappings s)(m := mapping\<lparr>map_occupied := False\<rparr>)\<rparr>;
                      let s = update_header obj (\<lambda>h. h\<lparr>mapping_refs := mapping_refs h - 1\<rparr>) s;
                      s \<leftarrow> check_and_reclaim_shm_locked obj s;
                      Some (Ok (), s)
                    })))"

section \<open>Addresses\<close>

lemma vm_put [simp]: "vm_of (put_vm v s) = v"
  by (simp add: vm_of_def put_vm_def)

lemma put_vm_sel [simp]: "shm_table (put_vm v s) = shm_table s" "shm_mappings (put_vm v s) = shm_mappings s" "objects (put_vm v s) = objects s"
  "entries (put_vm v s) = entries s" "nodes (put_vm v s) = nodes s" "processes (put_vm v s) = processes s" "cur_pid (put_vm v s) = cur_pid s"
  by (simp_all add: put_vm_def cur_pid_def)

lemma vm_of_cong [simp]: "vm_of (s\<lparr>shm_mappings := M\<rparr>) = vm_of s" "vm_of (update_header i f s) = vm_of s"
  by (simp_all add: vm_of_def update_header_def)

lemma shm_page_nat:
  fixes vaddr :: u64
  assumes "unat vaddr + 4096 * n \<le> 2 ^ 47" "i \<le> n"
  shows "unat (vaddr + word_of_nat i * 4096) = unat vaddr + 4096 * i"
proof -
  have "unat (word_of_nat i * 4096 :: u64) = 4096 * i"
    using assms unfolding unat_word_ariths unat_of_nat by (simp add: mult.commute)
  then show ?thesis using assms unfolding unat_word_ariths(1) by simp
qed

lemma shm_pages_valid:
  assumes "unat vaddr + 4096 * n \<le> 2 ^ 47" "vaddr mod 4096 = 0" "virtual_bits g = 48" "r \<in> R"
  shows "distinct (shm_pages vaddr n)" "set (shm_pages vaddr n) \<subseteq> vm_pages g R r" "length (shm_pages vaddr n) = n"
proof -
  have u: "unat (vaddr + word_of_nat i * 4096) = unat vaddr + 4096 * i" if "i < n" for i
    using shm_page_nat [OF assms(1), of i] that by simp
  have "inj_on (\<lambda>i. vaddr + word_of_nat i * 4096) {0..<n}"
  proof (rule inj_onI)
    fix i j assume i: "i \<in> {0..<n}" "j \<in> {0..<n}" "vaddr + word_of_nat i * 4096 = vaddr + word_of_nat j * 4096"
    have "unat (vaddr + word_of_nat i * 4096) = unat (vaddr + word_of_nat j * 4096)" unfolding i(3) ..
    then have "unat vaddr + 4096 * i = unat vaddr + 4096 * j" using u [of i] u [of j] i(1,2) by (metis atLeastLessThan_iff)
    then show "i = j" by linarith
  qed
  then show "distinct (shm_pages vaddr n)" by (simp add: shm_pages_def distinct_map)
  show "set (shm_pages vaddr n) \<subseteq> vm_pages g R r"
  proof
    fix v assume "v \<in> set (shm_pages vaddr n)"
    then obtain i where i: "i < n" "v = vaddr + word_of_nat i * 4096" by (auto simp: shm_pages_def)
    have uv: "unat v = unat vaddr + 4096 * i" unfolding i(2) by (rule u [OF i(1)])
    have uv2: "unat v < 2 ^ 47" using uv assms(1) i(1) by linarith
    have "is_canonical g v" using uv2 assms(3) by (intro low_canonical) simp_all
    moreover have "v mod 4096 = 0"
    proof -
      have "unat vaddr mod 4096 = unat (vaddr mod 4096)" unfolding unat_mod_distrib by simp
      then have "unat vaddr mod 4096 = 0" unfolding assms(2) by simp
      then have "unat (v mod 4096) = 0" unfolding unat_mod_distrib uv by simp
      then show ?thesis by (simp add: unat_eq_0)
    qed
    moreover have "p4_index v < 256"
    proof -
      have "drop_bit 39 v AND 0x1FF \<le> drop_bit 39 v" by (rule word_and_le2)
      then have "p4_index v \<le> unat (drop_bit 39 v)" by (simp add: p4_index_def word_le_nat_alt)
      also have "unat (drop_bit 39 v) = unat v div 2 ^ 39" by (simp add: drop_bit_eq_div unat_div)
      also have "\<dots> < 256" using uv2 by (simp add: div_less_iff_less_mult)
      finally show ?thesis .
    qed
    ultimately show "v \<in> vm_pages g R r" using assms(4) by (simp add: vm_pages_def owns_def)
  qed
  show "length (shm_pages vaddr n) = n" by (simp add: shm_pages_def)
qed

section \<open>Mapping as a transaction\<close>

text \<open>The same free and used frames, and the same translations in every address space.\<close>

definition space_same :: "AddressSpaceGeometry \<Rightarrow> nat set \<Rightarrow> vm_state \<Rightarrow> vm_state \<Rightarrow> bool" where
  "space_same g R v v' \<longleftrightarrow> spaces g v' R \<and> free_of v' = free_of v \<and> owned_of v' = owned_of v
     \<and> (\<forall>r\<in>R. \<forall>w. translate g r w v' = translate g r w v \<and> get_page_flags g r w v' = get_page_flags g r w v)"

lemma space_sameI:
  assumes "vm_inv g R r fl v" "vm_inv g R r fl v'" "vm_look g R v' = vm_look g R v" "vm_acct g R v' = vm_acct g R v"
  shows "space_same g R v v'"
proof -
  have sp: "spaces g v R" "spaces g v' R" using assms(1,2) by (simp_all add: vm_inv_def)
  show ?thesis using sp(2) assms(4) look_walks [OF sp _ assms(3)] by (simp add: space_same_def vm_acct_def)
qed

text \<open>The pages of the run translate to the frames, and nothing else changed.\<close>

definition run_mapped :: "AddressSpaceGeometry \<Rightarrow> nat set \<Rightarrow> nat \<Rightarrow> bool \<Rightarrow> u64 \<Rightarrow> PhysFrame list \<Rightarrow> vm_state \<Rightarrow> vm_state \<Rightarrow> bool" where
  "run_mapped g R r writable vaddr fs v v' \<longleftrightarrow> spaces g v' R
     \<and> (\<forall>i<length fs. translate g r (vaddr + word_of_nat i * 4096) v' = Some (Ok (fs ! i))
          \<and> get_page_flags g r (vaddr + word_of_nat i * 4096) v' = Some (Ok ((word_of_nat (fs ! i) AND physical_mask g) OR shm_flags writable)))
     \<and> (\<forall>r'\<in>R. \<forall>w. w mod 4096 = 0 \<longrightarrow> \<not> (r' = r \<and> w \<in> set (shm_pages vaddr (length fs))) \<longrightarrow>
          translate g r' w v' = translate g r' w v \<and> get_page_flags g r' w v' = get_page_flags g r' w v)"

lemma shm_leaf_flags: "leaf_flags (shm_flags writable) User = shm_flags writable"
  by (simp add: leaf_flags_def shm_flags_def Let_def PRESENT_def USER_ACCESSIBLE_def NO_EXECUTE_def PAGE_WRITABLE_def)

lemma shm_map_frames_outcome:
  assumes i: "vm_inv g R r (shm_flags writable) (vm_of s)" and v: "unat vaddr + 4096 * length fs \<le> 2 ^ 47" "vaddr mod 4096 = 0"
    and fs: "set fs \<subseteq> vm_frames g"
  shows "\<exists>res v'. shm_map_frames g r vaddr writable fs s = Some (res, put_vm v' s) \<and>
    (case res of
       Inl e \<Rightarrow> e = VmmError \<and> space_same g R (vm_of s) v'
     | Inr _ \<Rightarrow> run_mapped g R r writable vaddr fs (vm_of s) v'
         \<and> (\<exists>v2. unmap_seq (unmap_at g r) (shm_pages vaddr (length fs)) v' = Some v2 \<and> space_same g R (vm_of s) v2))"
proof -
  let ?vs = "shm_pages vaddr (length fs)" let ?xs = "zip ?vs fs" let ?fl = "shm_flags writable"
  have g: "virtual_bits g = 48" "r \<in> R" "spaces g (vm_of s) R" using i by (simp_all add: vm_inv_def)
  note vs = shm_pages_valid [OF v g(1,2)]
  have mf: "map fst ?xs = ?vs" "\<And>n. map fst (take n ?xs) = take n ?vs" "fst ` set ?xs = set ?vs"
    using vs(3) by (simp_all add: take_zip) (metis list.set_map map_fst_zip)
  have gd: "\<forall>(v, f)\<in>set ?xs. v \<in> vm_pages g R r \<and> f \<in> vm_frames g" using vs(2) fs by (auto dest: set_zip_leftD set_zip_rightD)
  have dx: "distinct (map fst ?xs)" unfolding mf by (rule vs(1))
  obtain res t1 v' where m: "map_seq (map_at g r ?fl User) ?xs (vm_of s) = Some (res, v')" "vm_inv g R r ?fl v'" "grew g R r (vm_of s) t1"
    and c: "case res of
       Inr _ \<Rightarrow> v' = t1 \<and> (\<forall>(v, f)\<in>set ?xs. vm_look g R (vm_of s) (r, vpath v) = None \<and> vm_look g R v' (r, vpath v) = Some (vm_entry g ?fl User f))
         \<and> (\<forall>k. k \<notin> (\<lambda>v. (r, vpath v)) ` fst ` set ?xs \<longrightarrow> vm_look g R v' k = vm_look g R (vm_of s) k)
     | Inl (n, _) \<Rightarrow> n < length ?xs"
    using vp.map_seq_outcome [OF i dx gd, of User] by (elim exE conjE) (rule that, auto split: sum.splits)
  show ?thesis
  proof (cases res)
    case (Inl ne)
    obtain n e where ne: "ne = (n, e)" by force
    obtain v'' where v'': "unmap_seq (unmap_at g r) (take n ?vs) v' = Some v''" "vm_inv g R r ?fl v''" "vm_look g R v'' = vm_look g R (vm_of s)"
      "vm_acct g R v'' = vm_acct g R (vm_of s)"
      using vp.roll_back [OF i dx gd m(1) [unfolded Inl ne]] unfolding mf by blast
    have "n < length ?vs" using c Inl ne vs(3) by simp
    then have "from_start_address g (?vs ! n) = Ok (?vs ! n)" by (intro at_page [of _ g R r]) (use vs(2) nth_mem in blast)
    then show ?thesis using m(1) Inl ne v''(1) space_sameI [OF i v''(2-4)]
      by (intro exI [of _ "Inl VmmError"] exI [of _ v'']) (simp add: shm_map_frames_def Let_def)
  next
    case (Inr u)
    note c' = c [unfolded Inr sum.case mf(3)]
    note lk = c' [THEN conjunct2, THEN conjunct1] c' [THEN conjunct2, THEN conjunct2]
    have gr: "grew g R r (vm_of s) v'" using m(3) c' by simp
    have sp': "spaces g v' R" using m(2) by (simp add: vm_inv_def)
    have tr: "translate g r (vaddr + word_of_nat i * 4096) v' = Some (Ok (fs ! i))
          \<and> get_page_flags g r (vaddr + word_of_nat i * 4096) v' = Some (Ok ((word_of_nat (fs ! i) AND physical_mask g) OR ?fl))" if k: "i < length fs" for i
    proof -
      have "(?vs ! i, fs ! i) \<in> set ?xs" using k vs(3) by (auto simp: set_zip)
      with lk(1) gd have "vm_look g R v' (r, vpath (?vs ! i)) = Some (vm_entry g ?fl User (fs ! i))" "?vs ! i \<in> vm_pages g R r" "fs ! i \<in> vm_frames g"
        by auto
      from mapped_walks [OF m(2) this(2,3,1)] show ?thesis using k by (simp add: shm_leaf_flags shm_pages_def)
    qed
    have "run_mapped g R r writable vaddr fs (vm_of s) v'"
      unfolding run_mapped_def
      by (intro conjI ballI allI impI sp' tr [THEN conjunct1] tr [THEN conjunct2] unmapped_walks [OF g(3) sp' _ g(1) vs(2) _ _ lk(2)])
    moreover have "\<exists>v2. unmap_seq (unmap_at g r) ?vs v' = Some v2 \<and> space_same g R (vm_of s) v2"
    proof -
      have "\<forall>v\<in>set ?vs. v \<in> vm_pages g R r \<and> (\<exists>f\<in>vm_frames g. vm_look g R v' (r, vpath v) = Some (vm_entry g ?fl User f))"
        using lk(1) gd mf(3) by fastforce
      then obtain v2 where v2: "unmap_seq (unmap_at g r) ?vs v' = Some v2" "vm_inv g R r ?fl v2" "shrank g R r v' v2"
        "vm_look g R v2 = (\<lambda>k. if k \<in> (\<lambda>v. (r, vpath v)) ` set ?vs then None else vm_look g R v' k)"
        using vp.unmap_seq_outcome [OF m(2) vs(1), of User] by blast
      have "vm_look g R v2 = vm_look g R (vm_of s)"
      proof
        fix k
        have "vm_look g R (vm_of s) (r, vpath v) = None" if "v \<in> set ?vs" for v
          using that lk(1) unfolding mf(3) [symmetric] by force
        then show "vm_look g R v2 k = vm_look g R (vm_of s) k" using spec [OF lk(2), of k] unfolding v2(4) by auto
      qed
      then show ?thesis using v2 space_sameI [OF i v2(2) _ vm_settled [OF i gr v2(3,2)]] by blast
    qed
    ultimately show ?thesis using m(1) Inr
      by (intro exI [of _ "Inr ()"] exI [of _ v']) (simp add: shm_map_frames_def Let_def)
  qed
qed

text \<open>A range that reaches past the end of the lower half: the loop maps the \<open>low_pages\<close> below it and then returns without unmapping them.\<close>

definition low_pages :: "u64 \<Rightarrow> nat" where
  "low_pages vaddr = (2 ^ 47 - unat vaddr) div 4096"

lemma low_pages_end:
  assumes "vaddr mod 4096 = 0" "unat vaddr < 2 ^ 47"
  shows "unat vaddr + 4096 * low_pages vaddr = 2 ^ 47"
proof -
  have "unat vaddr mod 4096 = unat (vaddr mod 4096)" unfolding unat_mod_distrib by simp
  then have "4096 dvd unat vaddr" unfolding assms(1) by (simp add: dvd_eq_mod_eq_0)
  then have "4096 dvd 2 ^ 47 - unat vaddr" by (intro dvd_diff_nat) simp_all
  then show ?thesis using assms(2) unfolding low_pages_def by simp
qed

lemma map_seq_refused:
  assumes "\<And>t. mp v f t = Some (Inl e, t)"
  shows "map_seq mp (xs @ (v, f) # ys) s = (case map_seq mp xs s of
      None \<Rightarrow> None | Some (Inl x, s') \<Rightarrow> Some (Inl x, s') | Some (Inr _, s') \<Rightarrow> Some (Inl (length xs, e), s'))"
proof (induction xs arbitrary: s)
  case Nil
  then show ?case using assms by simp
next
  case (Cons x xs)
  obtain w h where x: "x = (w, h)" by force
  show ?case unfolding x append_Cons map_seq.simps Cons.IH by (auto split: option.splits prod.splits sum.splits)
qed

lemma shm_map_frames_crossing:
  assumes g: "virtual_bits g = 48" and v: "vaddr mod 4096 = 0" "unat vaddr < 2 ^ 47" "2 ^ 47 < unat vaddr + 4096 * length fs"
    and o: "shm_map_frames g r vaddr writable (take (low_pages vaddr) fs) s = Some (res, s')" "\<And>e. res = Inl e \<Longrightarrow> e = VmmError"
  shows "shm_map_frames g r vaddr writable fs s = Some (case res of Inl _ \<Rightarrow> Inl VmmError | Inr _ \<Rightarrow> Inl InvalidAddress, s')"
proof -
  let ?k = "low_pages vaddr" let ?ps = "shm_pages vaddr (length fs)" let ?mp = "map_at g r (shm_flags writable) User"
  note le = low_pages_end [OF v(1,2)]
  have k: "?k < length fs" using le v(3) by linarith
  have pt: "take ?k ?ps = shm_pages vaddr ?k" "length ?ps = length fs" using k by (simp_all add: shm_pages_def take_map)
  have tl: "length (take ?k fs) = ?k" using k by simp
  have pk: "?ps ! ?k = 0x800000000000"
  proof -
    have "unat (vaddr + word_of_nat ?k * 4096) = 2 ^ 47" using shm_page_nat [of vaddr ?k ?k] le by simp
    then have "unat (?ps ! ?k) = unat (0x800000000000 :: u64)" using k by (simp add: shm_pages_def)
    then show ?thesis by (rule unsigned_word_eqI)
  qed
  have nc: "from_start_address g (0x800000000000 :: u64) = Err NonCanonicalAddress" using g by (simp add: from_start_address_def is_canonical_def)
  have z: "zip ?ps fs = zip (shm_pages vaddr ?k) (take ?k fs) @ (0x800000000000, fs ! ?k) # zip (drop (Suc ?k) ?ps) (drop (Suc ?k) fs)"
    using id_take_nth_drop [of ?k "zip ?ps fs"] k pt pk by (simp add: take_zip drop_zip)
  have q: "\<And>t. ?mp 0x800000000000 (fs ! ?k) t = Some (Inl NonCanonicalAddress, t)" by (simp add: map_at_def nc)
  have len: "length (zip (shm_pages vaddr ?k) (take ?k fs)) = ?k" using k by (simp add: shm_pages_def)
  have nth: "shm_pages vaddr ?k ! n = ?ps ! n" "take n (shm_pages vaddr ?k) = take n ?ps" if "n < ?k" for n
    using that k unfolding pt(1) [symmetric] by (simp_all add: min_absorb1)
  note o1 = o(1) [unfolded shm_map_frames_def Let_def tl]
  show ?thesis
  proof (cases "map_seq ?mp (zip (shm_pages vaddr ?k) (take ?k fs)) (vm_of s)")
    case None
    then show ?thesis using o1 by simp
  next
    case (Some y)
    obtain x t where y: "y = (x, t)" by force
    show ?thesis
    proof (cases x)
      case (Inr u)
      then show ?thesis using o1 Some y
        unfolding shm_map_frames_def Let_def z map_seq_refused [of ?mp, OF q] len by (auto simp: pk nc)
    next
      case (Inl ne)
      obtain n e' where ne: "ne = (n, e')" by force
      have n: "n < ?k" by (rule map_seq_count [OF Some [unfolded y Inl ne], unfolded len])
      show ?thesis using o1 o(2) Some y Inl ne nth [OF n]
        unfolding shm_map_frames_def Let_def z map_seq_refused [of ?mp, OF q] len
        by (auto simp: bind_eq_Some_conv split: sum.splits)
    qed
  qed
qed

text \<open>The situation of a call: \<open>h\<close> is a live handle, with the rights \<open>rt\<close>, on the shared memory object \<open>obj\<close> that
  owns the frames \<open>fs\<close>, and no mapping of the process is recorded at \<open>vaddr\<close>.\<close>

definition map_call :: "AddressSpaceGeometry \<Rightarrow> nat set \<Rightarrow> nat \<Rightarrow> Handle \<Rightarrow> u64 \<Rightarrow> nat \<Rightarrow> u16 \<Rightarrow> PhysFrame list \<Rightarrow> map_state \<Rightarrow> bool" where
  "map_call g R r h vaddr obj rt fs s \<longleftrightarrow> (\<forall>w. vm_inv g R r (shm_flags w) (vm_of s))
     \<and> (\<exists>ps e. resolve_current_process_slot (cur_pid s) s = Ok ps \<and> validate_handle_locked ps h 0 s = Some (Ok (obj, e, rt)))
     \<and> obj_type (objects s obj) = ShmObjectType \<and> pool_index (objects s obj) < MAX_SHM_OBJECTS
     \<and> shm_page_count (shm_table s (pool_index (objects s obj))) = length fs
     \<and> take (length fs) (shm_frames (shm_table s (pool_index (objects s obj)))) = fs \<and> set fs \<subseteq> vm_frames g
     \<and> 0 < handle_refs (header (objects s obj)) \<and> mapping_refs (header (objects s obj)) < U16_MAX
     \<and> (\<forall>i<MAX_SHM_MAPPINGS. \<not> (map_occupied (shm_mappings s i) \<and> map_process (shm_mappings s i) = cur_pid s
          \<and> virtual_base (shm_mappings s i) = unat vaddr))"

lemma shm_map_frames_any:
  assumes i: "vm_inv g R r (shm_flags writable) (vm_of s)" and v: "vaddr mod 4096 = 0" "unat vaddr < 2 ^ 47" and fs: "set fs \<subseteq> vm_frames g"
  shows "\<exists>res v'. shm_map_frames g r vaddr writable fs s = Some (res, put_vm v' s) \<and>
    (case res of
       Inl e \<Rightarrow> if e = InvalidAddress
         then 2 ^ 47 < unat vaddr + 4096 * length fs \<and> run_mapped g R r writable vaddr (take (low_pages vaddr) fs) (vm_of s) v'
         else space_same g R (vm_of s) v'
     | Inr _ \<Rightarrow> unat vaddr + 4096 * length fs \<le> 2 ^ 47 \<and> run_mapped g R r writable vaddr fs (vm_of s) v'
         \<and> (\<exists>v2. unmap_seq (unmap_at g r) (shm_pages vaddr (length fs)) v' = Some v2 \<and> space_same g R (vm_of s) v2))"
proof (cases "unat vaddr + 4096 * length fs \<le> 2 ^ 47")
  case True
  from shm_map_frames_outcome [OF i True v(1) fs] show ?thesis
  proof (elim exE conjE, goal_cases)
    case (1 res v')
    then show ?case using True by (intro exI [of _ res] exI [of _ v']) (auto split: sum.splits)
  qed
next
  case False
  have ln: "unat vaddr + 4096 * length (take (low_pages vaddr) fs) \<le> 2 ^ 47" using low_pages_end [OF v] by (simp add: min_def)
  have tf: "set (take (low_pages vaddr) fs) \<subseteq> vm_frames g" using fs set_take_subset by fast
  have g: "virtual_bits g = 48" using i by (simp add: vm_inv_def)
  obtain res v' where o: "shm_map_frames g r vaddr writable (take (low_pages vaddr) fs) s = Some (res, put_vm v' s)"
    "\<And>e. res = Inl e \<Longrightarrow> e = VmmError \<and> space_same g R (vm_of s) v'"
    "\<And>u. res = Inr u \<Longrightarrow> run_mapped g R r writable vaddr (take (low_pages vaddr) fs) (vm_of s) v'"
    using shm_map_frames_outcome [OF i ln v(1) tf] by (elim exE conjE) (rule that, assumption, simp_all)
  have "shm_map_frames g r vaddr writable fs s = Some (case res of Inl _ \<Rightarrow> Inl VmmError | Inr _ \<Rightarrow> Inl InvalidAddress, put_vm v' s)"
    by (rule shm_map_frames_crossing [OF g v _ o(1)]) (use False o(2) in auto)
  then show ?thesis using o(2,3) False by (cases res) auto
qed

lemma validate_mapped:
  "validate_handle_locked ps h q (update_header obj (\<lambda>h. h\<lparr>mapping_refs := k h\<rparr>) (put_vm v s\<lparr>shm_mappings := M\<rparr>)) = validate_handle_locked ps h q s"
proof -
  let ?s = "update_header obj (\<lambda>h. h\<lparr>mapping_refs := k h\<rparr>) (put_vm v s\<lparr>shm_mappings := M\<rparr>)"
  have "entries ?s = entries s" "nodes ?s = nodes s" "\<And>i. o_occupied (objects ?s i) = o_occupied (objects s i)"
    "\<And>i. o_generation (objects ?s i) = o_generation (objects s i)"
    by (simp_all add: update_header_def)
  then show ?thesis by (simp only: validate_handle_locked_def)
qed

lemma resolve_mapped:
  "resolve_current_process_slot p (update_header obj f (put_vm v s\<lparr>shm_mappings := M\<rparr>)) = resolve_current_process_slot p s"
  by (simp add: resolve_current_process_slot_def update_header_def)

lemma cur_pid_mapped: "cur_pid (update_header obj f (put_vm v s\<lparr>shm_mappings := M\<rparr>)) = cur_pid s"
  by (simp add: cur_pid_def update_header_def put_vm_def)

lemma validated_object:
  "validate_handle_locked ps h q s = Some (Ok (obj, e, rt)) \<Longrightarrow> obj < MAX_KERNEL_OBJECTS \<and> o_occupied (objects s obj)"
  by (auto simp: validate_handle_locked_def Let_def split: if_splits)

text \<open>Unmapping the run just recorded: the pages go, the record is cleared and the object keeps its handle references.\<close>

lemma shm_unmap_recorded:
  assumes c: "map_call g R r h vaddr obj rt fs s" and m: "m < MAX_SHM_MAPPINGS"
    and u: "unmap_seq (unmap_at g r) (shm_pages vaddr (length fs)) v = Some v2"
    and mp: "map_occupied mp" "map_object mp = obj" "map_generation mp = o_generation (objects s obj)" "map_process mp = cur_pid s"
      "virtual_base mp = unat vaddr" "map_pages mp = length fs"
  shows "\<exists>s2. shm_unmap g r h vaddr (update_header obj (\<lambda>h. h\<lparr>mapping_refs := mapping_refs h + 1\<rparr>) (put_vm v s\<lparr>shm_mappings := (shm_mappings s)(m := mp)\<rparr>))
      = Some (Ok (), s2) \<and> vm_of s2 = v2 \<and> objects s2 = objects s \<and> shm_mappings s2 = (shm_mappings s)(m := mp\<lparr>map_occupied := False\<rparr>)"
proof -
  let ?s = "update_header obj (\<lambda>h. h\<lparr>mapping_refs := mapping_refs h + 1\<rparr>) (put_vm v s\<lparr>shm_mappings := (shm_mappings s)(m := mp)\<rparr>)"
  obtain ps e where ps: "resolve_current_process_slot (cur_pid s) s = Ok ps" "validate_handle_locked ps h 0 s = Some (Ok (obj, e, rt))"
    using c by (auto simp: map_call_def)
  note ob = validated_object [OF ps(2)]
  have os: "objects ?s obj = (objects s obj)\<lparr>header := (header (objects s obj))\<lparr>mapping_refs := mapping_refs (header (objects s obj)) + 1\<rparr>\<rparr>"
    "vm_of ?s = v" "shm_mappings ?s = (shm_mappings s)(m := mp)"
    by (simp_all add: update_header_def vm_of_def put_vm_def)
  have f: "find (\<lambda>i. map_occupied (shm_mappings ?s i) \<and> map_process (shm_mappings ?s i) = cur_pid s \<and> virtual_base (shm_mappings ?s i) = unat vaddr)
      [0..<MAX_SHM_MAPPINGS] = Some m"
    using c m mp unfolding os(3) find_upt_Some_iff by (auto simp: map_call_def)
  have h0: "handle_refs (header (objects s obj)) > 0" using c by (simp add: map_call_def)
  let ?t = "update_header obj (\<lambda>h. h\<lparr>mapping_refs := mapping_refs h - 1\<rparr>)
      (put_vm v2 ?s\<lparr>shm_mappings := (shm_mappings ?s)(m := mp\<lparr>map_occupied := False\<rparr>)\<rparr>)"
  have t: "objects ?t = objects s" "vm_of ?t = v2" "shm_mappings ?t = (shm_mappings s)(m := mp\<lparr>map_occupied := False\<rparr>)"
    by (simp_all add: update_header_def vm_of_def put_vm_def)
  have "check_and_reclaim_shm_locked obj ?t = Some ?t"
    unfolding check_and_reclaim_shm_locked_def t(1) using ob h0 by (simp add: ref_count_def)
  then have "shm_unmap g r h vaddr ?s = Some (Ok (), ?t)"
    unfolding shm_unmap_def cur_pid_mapped resolve_mapped ps(1) sum.case f option.case validate_mapped ps(2) Let_def
    using ob mp u os by simp
  then show ?thesis using t by blast
qed

lemma shm_map_eq:
  assumes "resolve_current_process_slot (cur_pid s) s = Ok ps" "validate_handle_locked ps h 0 s = Some (Ok (obj, e, rt))"
    "obj_type (objects s obj) = ShmObjectType" "pool_index (objects s obj) < 64" "shm_table s (pool_index (objects s obj)) = shm"
    "shm_page_count shm \<le> length (shm_frames shm)" "take (shm_page_count shm) (shm_frames shm) = fs"
  shows "shm_map g r h vaddr writable s =
     (if vaddr mod 4096 \<noteq> 0 \<or> vaddr \<ge> 0x800000000000 then Some (Err InvalidAddress, s)
      else if rt AND map_right writable = 0 then Some (Err PermissionDenied, s)
      else case find (\<lambda>i. \<not> map_occupied (shm_mappings s i)) [0..<64] of
          None \<Rightarrow> Some (Err MappingTableFull, s)
        | Some m \<Rightarrow>
          (case shm_map_frames g r vaddr writable fs s of
             None \<Rightarrow> None
           | Some (Inl e, s) \<Rightarrow> Some (Err e, s)
           | Some (Inr _, s) \<Rightarrow>
               if mapping_refs (header (objects s obj)) + 1 > U16_MAX then None
               else Some (Ok (), update_header obj (\<lambda>h. h\<lparr>mapping_refs := mapping_refs h + 1\<rparr>)
                 (s\<lparr>shm_mappings := (shm_mappings s)(m :=
                    \<lparr>map_occupied = True, map_object = obj, map_generation = o_generation (objects s obj), map_rights = map_right writable,
                     map_process = cur_pid s, virtual_base = unat vaddr, map_pages = shm_page_count shm\<rparr>)\<rparr>))))"
  unfolding shm_map_def MAX_SHM_MAPPINGS_def assms(1) sum.case assms(2) option.case prod.case Let_def assms(5) assms(7) using assms(3,4,6) by simp

section \<open>Properties\<close>

text \<open>C14: the exact outcome of mapping shared memory, and unmapping undoes it. For a live handle on a shared memory object and any
  address, \<open>shm_map\<close> does not panic. A success needs a mapping right and a range that ends in the lower half, makes the pages translate to
  the frames of the object in order, writable only on request and never executable, changes no other page, and
  counts one mapping; unmapping then succeeds and restores the object, the frames and every translation. A failure
  leaves the free and the used frames, every translation of every address space and the rest of the state as they were, with one
  exception: a range that starts in the lower half and reaches past it is reported as an invalid address, but its pages in the
  lower half are left mapped, with no mapping recorded or counted.\<close>

theorem shm_map_exact:
  assumes c: "map_call g R r h vaddr obj rt fs s"
  shows "\<exists>res s'. shm_map g r h vaddr writable s = Some (res, s') \<and>
    (case res of
       Inl e \<Rightarrow> s' = put_vm (vm_of s') s
         \<and> (if e = InvalidAddress \<and> vaddr mod 4096 = 0 \<and> unat vaddr < 2 ^ 47
            then 2 ^ 47 < unat vaddr + 4096 * length fs \<and> run_mapped g R r writable vaddr (take (low_pages vaddr) fs) (vm_of s) (vm_of s')
            else space_same g R (vm_of s) (vm_of s'))
     | Inr _ \<Rightarrow> rt AND map_right writable \<noteq> 0 \<and> unat vaddr + 4096 * length fs \<le> 2 ^ 47
         \<and> run_mapped g R r writable vaddr fs (vm_of s) (vm_of s')
         \<and> mapping_refs (header (objects s' obj)) = mapping_refs (header (objects s obj)) + 1
         \<and> (\<exists>s2. shm_unmap g r h vaddr s' = Some (Ok (), s2) \<and> space_same g R (vm_of s) (vm_of s2) \<and> objects s2 = objects s))"
proof -
  obtain ps e where ps: "resolve_current_process_slot (cur_pid s) s = Ok ps" "validate_handle_locked ps h 0 s = Some (Ok (obj, e, rt))"
    and i: "vm_inv g R r (shm_flags writable) (vm_of s)" and ob: "obj_type (objects s obj) = ShmObjectType" "pool_index (objects s obj) < 64"
      "shm_page_count (shm_table s (pool_index (objects s obj))) = length fs" "take (length fs) (shm_frames (shm_table s (pool_index (objects s obj)))) = fs"
      "mapping_refs (header (objects s obj)) < U16_MAX" "set fs \<subseteq> vm_frames g"
    using c by (auto simp: map_call_def)
  have ln: "shm_page_count (shm_table s (pool_index (objects s obj))) \<le> length (shm_frames (shm_table s (pool_index (objects s obj))))"
    using arg_cong [OF ob(4), of length] ob(3) by simp
  note sh = shm_map_eq [OF ps ob(1,2) refl ln ob(4) [folded ob(3)], of g r vaddr writable, unfolded ob(3)]
  define al where "al \<longleftrightarrow> vaddr mod 4096 = 0"
  have lo: "vaddr < 0x800000000000 \<longleftrightarrow> unat vaddr < 2 ^ 47" by (simp add: word_less_nat_alt)
  have sm: "space_same g R (vm_of s) (vm_of s)" "s = put_vm (vm_of s) s" using i by (simp_all add: space_sameI put_vm_def vm_of_def)
  show ?thesis
  proof (cases "al \<and> unat vaddr < 2 ^ 47 \<and> rt AND map_right writable \<noteq> 0
      \<and> find (\<lambda>i. \<not> map_occupied (shm_mappings s i)) [0..<64] \<noteq> None")
    case False
    then have "\<exists>x. shm_map g r h vaddr writable s = Some (Inl x, s) \<and> (x = InvalidAddress \<longrightarrow> \<not> (al \<and> unat vaddr < 2 ^ 47))"
      unfolding sh al_def [symmetric] not_less [symmetric] lo by auto
    then obtain x where "shm_map g r h vaddr writable s = Some (Inl x, s)" "x = InvalidAddress \<longrightarrow> \<not> (al \<and> unat vaddr < 2 ^ 47)" by blast
    then show ?thesis using sm unfolding al_def by (intro exI [of _ "Inl x"] exI [of _ s]) auto
  next
    case True
    then have a: "vaddr mod 4096 = 0" "unat vaddr < 2 ^ 47" by (simp_all add: al_def)
    obtain m where m: "find (\<lambda>i. \<not> map_occupied (shm_mappings s i)) [0..<64] = Some m" "m < MAX_SHM_MAPPINGS"
      using True by (auto simp: find_upt_Some_iff)
    obtain res v' where f: "shm_map_frames g r vaddr writable fs s = Some (res, put_vm v' s)"
      and o1: "\<And>e. res = Inl e \<Longrightarrow> if e = InvalidAddress
         then 2 ^ 47 < unat vaddr + 4096 * length fs \<and> run_mapped g R r writable vaddr (take (low_pages vaddr) fs) (vm_of s) v'
         else space_same g R (vm_of s) v'"
      and o2: "\<And>u. res = Inr u \<Longrightarrow> unat vaddr + 4096 * length fs \<le> 2 ^ 47 \<and> run_mapped g R r writable vaddr fs (vm_of s) v'
         \<and> (\<exists>v2. unmap_seq (unmap_at g r) (shm_pages vaddr (length fs)) v' = Some v2 \<and> space_same g R (vm_of s) v2)"
      using shm_map_frames_any [OF i a ob(6)] by (elim exE conjE) (rule that, assumption, simp_all)
    let ?mp = "\<lparr>map_occupied = True, map_object = obj, map_generation = o_generation (objects s obj), map_rights = map_right writable,
      map_process = cur_pid s, virtual_base = unat vaddr, map_pages = length fs\<rparr>"
    let ?s = "update_header obj (\<lambda>h. h\<lparr>mapping_refs := mapping_refs h + 1\<rparr>) (put_vm v' s\<lparr>shm_mappings := (shm_mappings s)(m := ?mp)\<rparr>)"
    have "vaddr < 0x800000000000" using a(2) lo by simp
    then have e: "shm_map g r h vaddr writable s = Some (case res of Inl e \<Rightarrow> (Inl e, put_vm v' s) | Inr _ \<Rightarrow> (Ok (), ?s))"
      unfolding sh al_def [symmetric] using ob(5) True m(1) f by (simp add: not_le [symmetric] split: sum.splits)
    show ?thesis
    proof (cases res)
      case (Inl x) then show ?thesis using e o1 [OF Inl] a by (intro exI [of _ "Inl x"] exI [of _ "put_vm v' s"]) (auto split: if_splits)
    next
      case (Inr u)
      obtain v2 where v2: "unmap_seq (unmap_at g r) (shm_pages vaddr (length fs)) v' = Some v2" "space_same g R (vm_of s) v2"
        "run_mapped g R r writable vaddr fs (vm_of s) v'" "unat vaddr + 4096 * length fs \<le> 2 ^ 47" using o2 [OF Inr] by auto
      obtain s2 where "shm_unmap g r h vaddr ?s = Some (Ok (), s2)" "vm_of s2 = v2" "objects s2 = objects s"
        using shm_unmap_recorded [OF c m(2) v2(1), of ?mp] by auto
      moreover have "vm_of ?s = v'" "mapping_refs (header (objects ?s obj)) = mapping_refs (header (objects s obj)) + 1"
        by (simp_all add: vm_of_def put_vm_def update_header_def)
      ultimately show ?thesis using e Inr True v2 by (intro exI [of _ "Ok ()"] exI [of _ ?s]) simp
    qed
  qed
qed

text \<open>One shared memory object of two pages, with a handle of the running process.\<close>

definition demo_map :: map_state where
  "demo_map = \<lparr>objects = objects (demo_chan ShmObjectType), next_object_id = 2,
     entries = (\<lambda>_. empty_handle_entry)(Slot 0 0 := (demo_entry 0)\<lparr>rights := shm_rights\<rparr>), hcount = (\<lambda>_. 0)(0 := 1),
     processes = processes (demo_chan ShmObjectType), nodes = (\<lambda>_. empty_node)(Slot 0 0 := root_node 1), next_capability_id = 2,
     channels = \<lambda>_. empty_channel, thread_ipc = \<lambda>_. \<lparr>ipc_occupied = False, ipc_object = 0\<rparr>, sch = demo_sched,
     shm_table = (\<lambda>_. empty_shm)(0 := \<lparr>shm_page_count = 2, shm_frames = [0x100000, 0x101000] @ replicate 14 0, shm_creator = 0\<rparr>),
     shm_mappings = \<lambda>_. empty_mapping, pmm = frames demo_vm, mem_tables = tables demo_vm, reg_cr3 = cr3 demo_vm, reg_master = master_pml4 demo_vm\<rparr>"

lemma demo_map_vm: "vm_of demo_map = demo_vm"
  by (simp add: vm_of_def demo_map_def)

lemma demo_map_inv: "vm_inv demo_geom {20480, 24576} 24576 (shm_flags w) demo_vm"
  using demo_geom_sel demo_spaces
  by (auto simp: vm_inv_def tight_def demo_tab validate_leaf_def plain_flags_def contains_def shm_flags_def Let_def
      PRESENT_def USER_ACCESSIBLE_def NO_EXECUTE_def PAGE_WRITABLE_def HUGE_PAGE_def)

lemma demo_map_handle:
  "resolve_current_process_slot (cur_pid demo_map) demo_map = Ok 0" "validate_handle_locked 0 (handle_new 0 1) 0 demo_map = Some (Ok (0, 0, shm_rights))"
  by (simp_all add: resolve_current_process_slot_def cur_pid_def demo_map_def demo_chan_def demo_sched_def find_upt_0 validate_handle_locked_def
      handle_slot_roundtrip handle_gen_roundtrip Let_def demo_entry_def root_node_def)

lemma demo_map_object:
  "obj_type (objects demo_map 0) = ShmObjectType" "pool_index (objects demo_map 0) = 0" "handle_refs (header (objects demo_map 0)) = 2"
  "mapping_refs (header (objects demo_map 0)) = 0" "shm_mappings demo_map = (\<lambda>_. empty_mapping)"
  "shm_table demo_map 0 = \<lparr>shm_page_count = 2, shm_frames = [0x100000, 0x101000] @ replicate 14 0, shm_creator = 0\<rparr>"
  by (simp_all add: demo_map_def demo_chan_def)

lemma demo_map_frame: "0x100000 \<in> vm_frames demo_geom" "0x101000 \<in> vm_frames demo_geom"
  by (simp_all add: vm_frames_def is_valid_phys_frame_def demo_geom_sel)

text \<open>The address check looks at the first page only: an object of two or more pages mapped at the last page of the lower half fails
  at its second page.\<close>

lemma last_page: "virtual_bits g = 48 \<Longrightarrow> from_start_address g 0x7FFFFFFFF000 = Ok 0x7FFFFFFFF000"
  "virtual_bits g = 48 \<Longrightarrow> from_start_address g 0x800000000000 = Err NonCanonicalAddress"
  by (simp_all add: from_start_address_def is_canonical_def)

lemma shm_map_last_page:
  assumes ps: "resolve_current_process_slot (cur_pid s) s = Ok ps" "validate_handle_locked ps h 0 s = Some (Ok (obj, e, rt))"
    and ob: "obj_type (objects s obj) = ShmObjectType" "pool_index (objects s obj) < 64" "shm_table s (pool_index (objects s obj)) = shm"
      "shm_page_count shm \<le> length (shm_frames shm)" "take (shm_page_count shm) (shm_frames shm) = f # f' # fs"
    and rt: "rt AND map_right writable \<noteq> 0" and m: "i < 64" "\<not> map_occupied (shm_mappings s i)" and g: "virtual_bits g = 48"
    and mp: "map_page g r 0x7FFFFFFFF000 f (shm_flags writable) User (vm_of s) = Some (Ok (), v1)"
  shows "shm_map g r h 0x7FFFFFFFF000 writable s = Some (Err InvalidAddress, put_vm v1 s)"
proof -
  note c = last_page [OF g]
  have z: "[0..<Suc (Suc n)] = 0 # 1 # [2..<Suc (Suc n)]" for n by (simp add: upt_conv_Cons numeral_2_eq_2 del: upt_Suc)
  have p: "shm_pages 0x7FFFFFFFF000 (length (f # f' # fs)) = 0x7FFFFFFFF000 # 0x800000000000 # map (\<lambda>i. 0x7FFFFFFFF000 + word_of_nat i * 4096) [2..<Suc (Suc (length fs))]"
    unfolding shm_pages_def length_Cons z by simp
  have "map_seq (map_at g r (shm_flags writable) User) (zip (shm_pages 0x7FFFFFFFF000 (length (f # f' # fs))) (f # f' # fs)) (vm_of s)
      = Some (Inl (1, NonCanonicalAddress), v1)"
    unfolding p using c mp by (simp add: map_at_def)
  then have fr: "shm_map_frames g r 0x7FFFFFFFF000 writable (f # f' # fs) s = Some (Err InvalidAddress, put_vm v1 s)"
    unfolding shm_map_frames_def Let_def p by (simp add: c)
  obtain m where mi: "find (\<lambda>i. \<not> map_occupied (shm_mappings s i)) [0..<64] = Some m"
    using m by (cases "find (\<lambda>i. \<not> map_occupied (shm_mappings s i)) [0..<64]") (auto simp: find_None_iff)
  show ?thesis unfolding shm_map_eq [OF ps ob] mi using rt fr by simp
qed

lemma demo_map_page:
  assumes "is_canonical demo_geom v" "p4_index v < 256"
  shows "\<exists>s1. map_page demo_geom 24576 v 0x100000 (shm_flags True) User demo_vm = Some (Ok (), s1)"
proof -
  have o: "owns {20480, 24576} 24576 v" using assms(2) by (simp add: owns_def)
  have fl: "validate_leaf (shm_flags True) demo_geom = Ok ()" "plain_flags demo_geom (shm_flags True)" using demo_map_inv by (simp_all add: vm_inv_def)
  show ?thesis using map_page_outcome [OF demo_geom_sel(1) demo_spaces o assms(1) demo_args(2,5) fl, of User]
    by (auto simp: map_outcome_def demo_leaf demo_free split: sum.splits unit.splits) (metis old.sum.exhaust old.unit.exhaust)
qed

lemma demo_shm_right: "shm_rights AND map_right True \<noteq> 0"
  by (simp add: shm_rights_def map_right_def rights_defs)

text \<open>The same object with one page.\<close>

definition demo_map1 :: map_state where
  "demo_map1 = demo_map\<lparr>shm_table := (\<lambda>_. empty_shm)(0 := \<lparr>shm_page_count = 1, shm_frames = 0x100000 # replicate 15 0, shm_creator = 0\<rparr>)\<rparr>"

lemma demo_map1_facts:
  "resolve_current_process_slot (cur_pid demo_map1) demo_map1 = Ok 0" "validate_handle_locked 0 (handle_new 0 1) 0 demo_map1 = Some (Ok (0, 0, shm_rights))"
  "objects demo_map1 = objects demo_map" "shm_mappings demo_map1 = shm_mappings demo_map" "vm_of demo_map1 = demo_vm"
  "shm_table demo_map1 0 = \<lparr>shm_page_count = 1, shm_frames = 0x100000 # replicate 15 0, shm_creator = 0\<rparr>"
proof -
  have sel: "entries demo_map1 = entries demo_map" "nodes demo_map1 = nodes demo_map" "processes demo_map1 = processes demo_map"
    "cur_pid demo_map1 = cur_pid demo_map"
    by (simp_all add: demo_map1_def cur_pid_def)
  show o: "objects demo_map1 = objects demo_map" "shm_mappings demo_map1 = shm_mappings demo_map" "vm_of demo_map1 = demo_vm"
    "shm_table demo_map1 0 = \<lparr>shm_page_count = 1, shm_frames = 0x100000 # replicate 15 0, shm_creator = 0\<rparr>"
    using demo_map_vm by (simp_all add: demo_map1_def vm_of_def)
  show "resolve_current_process_slot (cur_pid demo_map1) demo_map1 = Ok 0"
    using demo_map_handle(1) unfolding resolve_current_process_slot_def sel .
  show "validate_handle_locked 0 (handle_new 0 1) 0 demo_map1 = Some (Ok (0, 0, shm_rights))"
    using demo_map_handle(2) unfolding validate_handle_locked_def sel o .
qed

lemma demo_map1_succeeds: "\<exists>s'. shm_map demo_geom 24576 (handle_new 0 1) 0x400000 True demo_map1 = Some (Ok (), s')"
proof -
  have c: "is_canonical demo_geom 0x400000" "p4_index 0x400000 < 256" by (simp_all add: demo_geom_sel is_canonical_def p4_index_def)
  obtain s1 where "map_page demo_geom 24576 0x400000 0x100000 (shm_flags True) User demo_vm = Some (Ok (), s1)" using demo_map_page [OF c] by blast
  then have "shm_map_frames demo_geom 24576 0x400000 True [0x100000] demo_map1 = Some (Ok (), put_vm s1 demo_map1)"
    using c by (simp add: shm_map_frames_def shm_pages_def map_at_def from_start_address_def demo_map1_facts(5))
  then show ?thesis
    using shm_map_eq [OF demo_map1_facts(1,2), of _ "[0x100000]" demo_geom 24576 "0x400000" True] demo_map_object demo_shm_right
    by (simp add: demo_map1_facts empty_mapping_def find_upt_0)
qed

theorem shm_map_exact_witness:
  "(\<exists>s' s2. shm_map demo_geom 24576 (handle_new 0 1) 0x400000 True demo_map1 = Some (Ok (), s')
      \<and> translate demo_geom 24576 0x400000 (vm_of s') = Some (Ok 0x100000)
      \<and> shm_unmap demo_geom 24576 (handle_new 0 1) 0x400000 s' = Some (Ok (), s2) \<and> free_of (vm_of s2) = free_of demo_vm)
   \<and> (\<exists>s'. shm_map demo_geom 24576 (handle_new 0 1) 0x7FFFFFFFF000 True demo_map = Some (Err InvalidAddress, s')
      \<and> shm_mappings s' = shm_mappings demo_map \<and> translate demo_geom 24576 0x7FFFFFFFF000 (vm_of s') = Some (Ok 0x100000))"
proof
  let ?R = "{20480, 24576}"
  have c1: "map_call demo_geom ?R 24576 (handle_new 0 1) 0x400000 0 shm_rights [0x100000] demo_map1"
    using demo_map1_facts demo_map_object demo_map_frame demo_map_inv by (simp add: map_call_def empty_mapping_def)
  obtain s' where s': "shm_map demo_geom 24576 (handle_new 0 1) 0x400000 True demo_map1 = Some (Ok (), s')" using demo_map1_succeeds by blast
  then obtain s2 where s2: "run_mapped demo_geom ?R 24576 True 0x400000 [0x100000] demo_vm (vm_of s')"
    "shm_unmap demo_geom 24576 (handle_new 0 1) 0x400000 s' = Some (Ok (), s2)" "space_same demo_geom ?R demo_vm (vm_of s2)"
    using shm_map_exact [OF c1, of True] by (auto simp: demo_map1_facts(5))
  have "translate demo_geom 24576 0x400000 (vm_of s') = Some (Ok 0x100000)"
    using s2(1) [unfolded run_mapped_def, THEN conjunct2, THEN conjunct1, THEN spec, of 0] by simp
  then show "\<exists>s' s2. shm_map demo_geom 24576 (handle_new 0 1) 0x400000 True demo_map1 = Some (Ok (), s')
      \<and> translate demo_geom 24576 0x400000 (vm_of s') = Some (Ok 0x100000)
      \<and> shm_unmap demo_geom 24576 (handle_new 0 1) 0x400000 s' = Some (Ok (), s2) \<and> free_of (vm_of s2) = free_of demo_vm"
    using s' s2(2,3) by (auto simp: space_same_def)
  have c2: "is_canonical demo_geom 0x7FFFFFFFF000" "p4_index 0x7FFFFFFFF000 < 256" by (simp_all add: demo_geom_sel is_canonical_def p4_index_def)
  obtain s1 where "map_page demo_geom 24576 0x7FFFFFFFF000 0x100000 (shm_flags True) User (vm_of demo_map) = Some (Ok (), s1)"
    using demo_map_page [OF c2] by (auto simp: demo_map_vm)
  then have e: "shm_map demo_geom 24576 (handle_new 0 1) 0x7FFFFFFFF000 True demo_map = Some (Err InvalidAddress, put_vm s1 demo_map)"
    using shm_map_last_page [OF demo_map_handle demo_map_object(1), of _ "0x100000" "0x101000" "[]" True 0 demo_geom 24576 s1]
      demo_map_object demo_shm_right demo_geom_sel(2) by (auto simp: empty_mapping_def)
  have c3: "map_call demo_geom ?R 24576 (handle_new 0 1) 0x7FFFFFFFF000 0 shm_rights [0x100000, 0x101000] demo_map"
    using demo_map_handle demo_map_object demo_map_frame demo_map_inv by (simp add: map_call_def demo_map_vm empty_mapping_def)
  have "low_pages 0x7FFFFFFFF000 = 1" by (simp add: low_pages_def)
  then have "run_mapped demo_geom ?R 24576 True 0x7FFFFFFFF000 [0x100000] demo_vm s1"
    using shm_map_exact [OF c3, of True] e by (simp add: demo_map_vm)
  then have "translate demo_geom 24576 0x7FFFFFFFF000 s1 = Some (Ok 0x100000)"
    by (simp add: run_mapped_def)
  then show "\<exists>s'. shm_map demo_geom 24576 (handle_new 0 1) 0x7FFFFFFFF000 True demo_map = Some (Err InvalidAddress, s')
      \<and> shm_mappings s' = shm_mappings demo_map \<and> translate demo_geom 24576 0x7FFFFFFFF000 (vm_of s') = Some (Ok 0x100000)"
    using e by simp
qed

end
