(* ===== verification/Revoke.thy ===== *)
theory Revoke
  imports ShmMap CapProps
begin

text \<open>
  The rest of \<open>kernel/src/cap/ops.rs\<close>: revocation of the capabilities derived from one, closing with the
  reclamation of the object, and the cleanup of an exiting process. The loop of the revocation walks the subtree with a work list
  of at most 512 slots; the list always suffices, since there are 512 slots and none is visited twice.
\<close>

unbundle bit_operations_syntax

section \<open>Revocation\<close>

partial_function (option) collect_children :: "(slot \<Rightarrow> CapabilityNode) \<Rightarrow> slot \<Rightarrow> slot list \<Rightarrow> slot list option" where
  "collect_children N cur wl =
     (if pslot cur \<noteq> 0xFF \<and> hslot cur \<noteq> 0xFF
      then if valid_slot cur
           then collect_children N (next_sibling (N cur)) (if length wl < 512 then wl @ [cur] else wl)
           else None
      else Some wl)"

text \<open>The waiters of both endpoints are woken in the order of the code.\<close>

definition wake_endpoints :: "nat \<Rightarrow> nat \<Rightarrow> 'a chan_state_scheme \<Rightarrow> 'a chan_state_scheme option" where
  "wake_endpoints ci e s = (let ch = channels s ci; me = my_ep e ch; peer = peer_ep e ch in do {
     (q1, s) \<leftarrow> drain_waiters (waiters_rx me) s;
     (q2, s) \<leftarrow> drain_waiters (waiters_tx me) s;
     (q3, s) \<leftarrow> drain_waiters (waiters_rx peer) s;
     (q4, s) \<leftarrow> drain_waiters (waiters_tx peer) s;
     Some (set_channel ci
       (set_my_ep e (me\<lparr>waiters_rx := q1, waiters_tx := q2\<rparr>)
         (set_peer_ep e (peer\<lparr>waiters_rx := q3, waiters_tx := q4\<rparr>) ch)) s)
   })"

definition revoke_object :: "nat \<Rightarrow> nat \<Rightarrow> 'a shm_state_scheme \<Rightarrow> 'a shm_state_scheme option" where
  "revoke_object obj e s =
     (if obj < MAX_KERNEL_OBJECTS \<and> o_occupied (objects s obj)
      then
        let s = update_header obj (\<lambda>h. h\<lparr>handle_refs := handle_refs h - 1\<rparr>) s in
        if obj_type (objects s obj) = ChannelObject
        then let ci = pool_index (objects s obj); ch = channels s ci; me = my_ep e ch in
             if \<not> ci < MAX_CHANNELS then None
             else do {
               s \<leftarrow> wake_endpoints ci e (set_channel ci (set_my_ep e (me\<lparr>ep_handle_refs := ep_handle_refs me - 1\<rparr>) ch) s);
               check_and_reclaim_channel_locked obj s
             }
        else if obj_type (objects s obj) = ShmObjectType then check_and_reclaim_shm_locked obj s
        else Some s
      else Some s)"

definition revoked_node :: "CapabilityNode \<Rightarrow> CapabilityNode" where
  "revoked_node n = n\<lparr>is_revoked := True, first_child := NO_SLOT, next_sibling := NO_SLOT\<rparr>"

definition revoke_slot :: "slot \<Rightarrow> 'a shm_state_scheme \<Rightarrow> (bool \<times> 'a shm_state_scheme) option" where
  "revoke_slot x s =
     (let s = set_node x (revoked_node (nodes s x)) s; e = entries s x in
      if occupied e
      then map_option (Pair True)
             (revoke_object (object_index e) (endpoint e) (dec_hcount (pslot x) (set_entry x (invalidate_entry e) s)))
      else Some (False, s))"

partial_function (option) revoke_loop :: "nat \<Rightarrow> slot list \<Rightarrow> nat \<Rightarrow> 'a shm_state_scheme \<Rightarrow> (nat \<times> 'a shm_state_scheme) option" where
  "revoke_loop idx wl n s =
     (if idx < length wl
      then let x = wl ! idx in
           if \<not> valid_slot x then revoke_loop (idx + 1) wl n s
           else do {
             wl \<leftarrow> collect_children (nodes s) (first_child (nodes s x)) wl;
             (b, s) \<leftarrow> revoke_slot x s;
             revoke_loop (idx + 1) wl (if b then n + 1 else n) s
           }
      else Some (n, s))"

definition revoke_descendants_tree_locked :: "slot \<Rightarrow> 'a shm_state_scheme \<Rightarrow> (nat \<times> 'a shm_state_scheme) option" where
  "revoke_descendants_tree_locked x s =
     (if \<not> valid_slot x then None
      else do {
        wl \<leftarrow> collect_children (nodes s) (first_child (nodes s x)) [];
        revoke_loop 0 wl 0 (set_node x ((nodes s x)\<lparr>first_child := NO_SLOT\<rparr>) s)
      })"

definition capability_revoke_descendants_locked :: "slot \<Rightarrow> 'a shm_state_scheme \<Rightarrow> ((IpcError + nat) \<times> 'a shm_state_scheme) option" where
  "capability_revoke_descendants_locked x s =
     (if \<not> valid_slot x then None
      else if \<not> occupied (entries s x) then Some (Err InvalidHandle, s)
      else if is_revoked (nodes s x) then Some (Err CapabilityRevoked, s)
      else if rights (entries s x) AND CAP_REVOKE = 0 then Some (Err PermissionDenied, s)
      else map_option (map_prod Ok id) (revoke_descendants_tree_locked x s))"

section \<open>Closing with reclamation, and process exit\<close>

definition close_and_reclaim_capability_locked :: "slot \<Rightarrow> 'a shm_state_scheme \<Rightarrow> ((IpcError + unit) \<times> 'a shm_state_scheme) option" where
  "close_and_reclaim_capability_locked x s = do {
     (r, s) \<leftarrow> capability_close_locked x s;
     case r of
       Inl e \<Rightarrow> Some (Err e, s)
     | Inr (obj, e) \<Rightarrow>
         if obj < MAX_KERNEL_OBJECTS \<and> o_occupied (objects s obj)
         then if obj_type (objects s obj) = ChannelObject
              then let ci = pool_index (objects s obj); ch = channels s ci; me = my_ep e ch;
                       me' = me\<lparr>ep_handle_refs := ep_handle_refs me - 1\<rparr> in
                   if \<not> ci < MAX_CHANNELS then None
                   else do {
                     let s = set_channel ci (set_my_ep e me' ch) s;
                     s \<leftarrow> (if ep_handle_refs me' = 0 then close_endpoint obj ci e s else Some s);
                     s \<leftarrow> check_and_reclaim_channel_locked obj s;
                     Some (Ok (), s)
                   }
              else if obj_type (objects s obj) = ShmObjectType
              then map_option (Pair (Ok ())) (check_and_reclaim_shm_locked obj s)
              else Some (Ok (), s)
         else Some (Ok (), s)
   }"

definition exit_mapping :: "AddressSpaceGeometry \<Rightarrow> PhysFrame \<Rightarrow> nat \<Rightarrow> nat \<Rightarrow> map_state \<Rightarrow> map_state option" where
  "exit_mapping g root pid i s =
     (let m = shm_mappings s i; obj = map_object m in
      if map_occupied m \<and> map_process m = pid
      then do {
        v \<leftarrow> unmap_seq (unmap_at g root) (shm_pages (word_of_nat (virtual_base m)) (map_pages m)) (vm_of s);
        let s = put_vm v s;
        let s = s\<lparr>shm_mappings := (shm_mappings s)(i := m\<lparr>map_occupied := False\<rparr>)\<rparr>;
        if obj < MAX_KERNEL_OBJECTS
        then check_and_reclaim_shm_locked obj (update_header obj (\<lambda>h. h\<lparr>mapping_refs := mapping_refs h - 1\<rparr>) s)
        else None
      }
      else Some s)"

definition exit_handle :: "nat \<Rightarrow> nat \<Rightarrow> 'a shm_state_scheme \<Rightarrow> 'a shm_state_scheme option" where
  "exit_handle ps i s =
     (if occupied (entries s (Slot ps i)) then map_option snd (close_and_reclaim_capability_locked (Slot ps i) s) else Some s)"

definition teardown_complete :: "nat \<Rightarrow> 'a shm_state_scheme \<Rightarrow> bool" where
  "teardown_complete ps s \<longleftrightarrow> hcount s ps = 0
     \<and> list_all (\<lambda>i. \<not> occupied (entries s (Slot ps i)) \<and> capability_id (nodes s (Slot ps i)) = 0
          \<and> pslot (first_child (nodes s (Slot ps i))) = 0xFF) [0..<MAX_HANDLES_PER_PROCESS]"

definition process_exit_capability_cleanup_locked :: "AddressSpaceGeometry \<Rightarrow> PhysFrame \<Rightarrow> nat \<Rightarrow> nat \<Rightarrow> map_state \<Rightarrow> map_state option" where
  "process_exit_capability_cleanup_locked g root ps pid s =
     (if \<not> ps < MAX_PROCESSES then None
      else do {
        s \<leftarrow> foldM (exit_mapping g root pid) [0..<MAX_SHM_MAPPINGS] s;
        s \<leftarrow> foldM (exit_handle ps) [0..<MAX_HANDLES_PER_PROCESS] s;
        if teardown_complete ps s then Some s else None
      })"

section \<open>Waking and releasing\<close>

lemma collect_children_chain:
  assumes "chain N l cs" "link_ok l" "\<And>c. c \<in> set cs \<Longrightarrow> link_ok (next_sibling (N c))" "length wl + length cs \<le> 512"
  shows "collect_children N l wl = Some (wl @ cs)"
  using assms
proof (induction cs arbitrary: l wl)
  case Nil
  then have "l = NO_SLOT" by (simp add: link_ok_def)
  then show ?case by (simp add: collect_children.simps NO_SLOT_def)
next
  case (Cons c cs)
  have c: "l = c" "valid_slot c" "pslot c \<noteq> 0xFF" "hslot c \<noteq> 0xFF" "chain N (next_sibling (N c)) cs" using Cons.prems(1) by (auto simp: valid_slot_def)
  have "collect_children N (next_sibling (N c)) (wl @ [c]) = Some ((wl @ [c]) @ cs)"
    by (rule Cons.IH [OF c(5)]) (use Cons.prems(3,4) in simp_all)
  then show ?case using c Cons.prems(4) by (subst collect_children.simps) simp
qed

lemma drain_ok:
  assumes "sched_inv root sc R" "waiting sc q xs" "sch s = sc"
  shows "\<exists>q' sc' R'. drain_waiters q s = Some (q', s\<lparr>sch := sc'\<rparr>) \<and> sched_inv root sc' R' \<and> waiting sc' q' []
    \<and> (\<forall>q2 ys. waiting sc q2 ys \<longrightarrow> set xs \<inter> set ys = {} \<longrightarrow> waiting sc' q2 ys)"
proof -
  obtain q' sc' where w: "wake_all q sc = Some (length xs, q', sc')" "sched_inv root sc' (woken sc xs R)" "queue_rep q' (next_waiter sc') []"
    "\<forall>t. t_state sc' t = (if t \<in> set xs then Ready else t_state sc t)"
    "\<forall>t. next_waiter sc' t = (if t \<in> set xs then None else next_waiter sc t)" "t_priority sc' = t_priority sc"
    using wake_all_spec [OF assms(1,2)] by blast
  have "waiting sc' q2 ys" if y: "waiting sc q2 ys" "set xs \<inter> set ys = {}" for q2 ys
  proof -
    have n: "t \<notin> set xs" if "t \<in> set ys" for t using y(2) that by auto
    have "queue_rep q2 (next_waiter sc') ys"
      by (rule queue_rep_cong [of q2 "next_waiter sc"]) (use y(1) n w(5) in \<open>auto simp: waiting_def\<close>)
    then show ?thesis using y(1) n w(4,6) by (simp add: waiting_def)
  qed
  moreover have "waiting sc' q' []" using w(3) by (simp add: waiting_def)
  ultimately show ?thesis using w(1,2) assms(3) by (auto simp: drain_waiters_def)
qed

lemma wq_drained:
  assumes "e < 2" "f < 2"
  shows "wq f b (set_my_ep e (me\<lparr>waiters_rx := q1, waiters_tx := q2\<rparr>) (set_peer_ep e (peer\<lparr>waiters_rx := q3, waiters_tx := q4\<rparr>) ch))
      = (if f = e then if b then q2 else q1 else if b then q4 else q3)"
    "tx_ring f (set_my_ep e d (set_peer_ep e d' ch)) = tx_ring f ch"
  using assms by (auto simp: wq_def my_ep_def set_my_ep_def set_peer_ep_def tx_ring_def less_2_cases_iff)

lemma wake_endpoints_ok:
  assumes inv: "chan_inv root s ci X W" and e: "e < 2"
  shows "\<exists>ch sc. wake_endpoints ci e s = Some (set_channel ci ch (s\<lparr>sch := sc\<rparr>))
    \<and> chan_inv root (set_channel ci ch (s\<lparr>sch := sc\<rparr>)) ci X (\<lambda>_ _. [])"
proof -
  let ?c = "channels s ci"
  have p: "peer_ep e ?c = my_ep (1 - e) ?c" "1 - e < 2" "1 - e \<noteq> e" using e by (auto simp: peer_ep_def my_ep_def less_2_cases_iff)
  note d = chan_invD(4) [OF inv]
  have w: "waiting (sch s) (waiters_rx (my_ep e ?c)) (W e False)" "waiting (sch s) (waiters_tx (my_ep e ?c)) (W e True)"
    "waiting (sch s) (waiters_rx (my_ep (1 - e) ?c)) (W (1 - e) False)" "waiting (sch s) (waiters_tx (my_ep (1 - e) ?c)) (W (1 - e) True)"
    using chan_invD(3) [OF inv e, of False] chan_invD(3) [OF inv e, of True] chan_invD(3) [OF inv p(2), of False] chan_invD(3) [OF inv p(2), of True]
    by (simp_all add: wq_def)
  obtain R where R: "sched_inv root (sch s) R" using chan_invD(1) [OF inv] by blast
  from drain_ok [OF R w(1) refl] obtain q1 s1 R1 where 1: "drain_waiters (waiters_rx (my_ep e ?c)) s = Some (q1, s\<lparr>sch := s1\<rparr>)"
    "sched_inv root s1 R1" "waiting s1 q1 []" and f1: "\<And>q2 ys. waiting (sch s) q2 ys \<Longrightarrow> set (W e False) \<inter> set ys = {} \<Longrightarrow> waiting s1 q2 ys" by blast
  have w1: "waiting s1 (waiters_tx (my_ep e ?c)) (W e True)" "waiting s1 (waiters_rx (my_ep (1 - e) ?c)) (W (1 - e) False)"
    "waiting s1 (waiters_tx (my_ep (1 - e) ?c)) (W (1 - e) True)"
    by (rule f1 [OF w(2)] f1 [OF w(3)] f1 [OF w(4)], rule d; use e p in simp)+
  from drain_ok [OF 1(2) w1(1), of "s\<lparr>sch := s1\<rparr>"] obtain q2 s2 R2 where 2: "drain_waiters (waiters_tx (my_ep e ?c)) (s\<lparr>sch := s1\<rparr>) = Some (q2, s\<lparr>sch := s2\<rparr>)"
    "sched_inv root s2 R2" "waiting s2 q2 []" and f2: "\<And>q2 ys. waiting s1 q2 ys \<Longrightarrow> set (W e True) \<inter> set ys = {} \<Longrightarrow> waiting s2 q2 ys" by auto
  have w2: "waiting s2 (waiters_rx (my_ep (1 - e) ?c)) (W (1 - e) False)" "waiting s2 (waiters_tx (my_ep (1 - e) ?c)) (W (1 - e) True)"
    by (rule f2 [OF w1(2)] f2 [OF w1(3)], rule d; use e p in simp)+
  from drain_ok [OF 2(2) w2(1), of "s\<lparr>sch := s2\<rparr>"] obtain q3 s3 R3 where 3: "drain_waiters (waiters_rx (my_ep (1 - e) ?c)) (s\<lparr>sch := s2\<rparr>) = Some (q3, s\<lparr>sch := s3\<rparr>)"
    "sched_inv root s3 R3" "waiting s3 q3 []" and f3: "\<And>q2 ys. waiting s2 q2 ys \<Longrightarrow> set (W (1 - e) False) \<inter> set ys = {} \<Longrightarrow> waiting s3 q2 ys" by auto
  have w3: "waiting s3 (waiters_tx (my_ep (1 - e) ?c)) (W (1 - e) True)" by (rule f3 [OF w2(2)], rule d; use e p in simp)
  from drain_ok [OF 3(2) w3, of "s\<lparr>sch := s3\<rparr>"] obtain q4 s4 R4 where 4: "drain_waiters (waiters_tx (my_ep (1 - e) ?c)) (s\<lparr>sch := s3\<rparr>) = Some (q4, s\<lparr>sch := s4\<rparr>)"
    "sched_inv root s4 R4" "waiting s4 q4 []" and f4: "\<And>q2 ys. waiting s3 q2 ys \<Longrightarrow> set (W (1 - e) True) \<inter> set ys = {} \<Longrightarrow> waiting s4 q2 ys" by auto
  have q: "waiting s4 q1 []" "waiting s4 q2 []" "waiting s4 q3 []" using 1(3) 2(3) 3(3) f2 f3 f4 by simp_all
  let ?ch = "set_my_ep e ((my_ep e ?c)\<lparr>waiters_rx := q1, waiters_tx := q2\<rparr>) (set_peer_ep e ((my_ep (1 - e) ?c)\<lparr>waiters_rx := q3, waiters_tx := q4\<rparr>) ?c)"
  have "wake_endpoints ci e s = Some (set_channel ci ?ch (s\<lparr>sch := s4\<rparr>))"
    using 1(1) 2(1) 3(1) 4(1) by (simp add: wake_endpoints_def p(1) Let_def)
  moreover have "chan_inv root (set_channel ci ?ch (s\<lparr>sch := s4\<rparr>)) ci X (\<lambda>_ _. [])"
    by (rule chan_invI [of _ _ R4]) (use 4(2,3) q chan_invD(2) [OF inv] wq_drained [OF e] in \<open>simp_all add: set_channel_def\<close>)
  ultimately show ?thesis by blast
qed

section \<open>The loop\<close>

text \<open>What the release of one reference needs of the object: a channel has consistent rings and wait queues.\<close>

definition obj_ready :: "address_spaces \<Rightarrow> nat \<Rightarrow> 'a shm_state_scheme \<Rightarrow> bool" where
  "obj_ready root obj s \<longleftrightarrow> (obj_type (objects s obj) = ChannelObject \<longrightarrow>
     pool_index (objects s obj) < MAX_CHANNELS \<and> (\<exists>X W. chan_inv root s (pool_index (objects s obj)) X W))"

definition drop_ref :: "KernelObjectSlot \<Rightarrow> KernelObjectSlot" where
  "drop_ref ob = ob\<lparr>header := (header ob)\<lparr>handle_refs := handle_refs (header ob) - 1\<rparr>\<rparr>"

definition same_caps :: "'a shm_state_scheme \<Rightarrow> 'a shm_state_scheme \<Rightarrow> bool" where
  "same_caps s s' \<longleftrightarrow> entries s' = entries s \<and> nodes s' = nodes s \<and> hcount s' = hcount s \<and> next_capability_id s' = next_capability_id s
     \<and> shm_table s' = shm_table s \<and> shm_mappings s' = shm_mappings s \<and> pmm s' = pmm s"

lemma chan_inv_cong: "channels s' = channels s \<Longrightarrow> sch s' = sch s \<Longrightarrow> chan_inv root s' ci X W = chan_inv root s ci X W"
  by (simp add: chan_inv_def)

lemma chan_inv_refs:
  assumes "chan_inv root s ci X W" "e < 2"
  shows "chan_inv root (set_channel ci (set_my_ep e ((my_ep e (channels s ci))\<lparr>ep_handle_refs := k\<rparr>) (channels s ci)) s) ci X W"
proof -
  let ?ch = "set_my_ep e ((my_ep e (channels s ci))\<lparr>ep_handle_refs := k\<rparr>) (channels s ci)"
  have "wq f b ?ch = wq f b (channels s ci)" "tx_ring f ?ch = tx_ring f (channels s ci)" if "f < 2" for f b
    using assms(2) that by (auto simp: wq_def my_ep_def set_my_ep_def tx_ring_def less_2_cases_iff)
  then show ?thesis using assms(1) by (simp add: chan_inv_def set_channel_def)
qed

lemma revoke_object_ok:
  assumes o: "obj < 256" "o_occupied (objects s obj)" "1 < handle_refs (header (objects s obj))" and r: "obj_ready root obj s" and e: "e < 2"
  shows "\<exists>s'. revoke_object obj e s = Some s' \<and> same_caps s s' \<and> objects s' = (objects s)(obj := drop_ref (objects s obj)) \<and> obj_ready root obj s'"
proof -
  let ?s = "update_header obj (\<lambda>h. h\<lparr>handle_refs := handle_refs h - 1\<rparr>) s"
  have u: "objects ?s = (objects s)(obj := drop_ref (objects s obj))" "same_caps s ?s" "channels ?s = channels s" "sch ?s = sch s"
    by (simp_all add: update_header_def drop_ref_def same_caps_def)
  have dr: "obj_type (drop_ref ob) = obj_type ob" "pool_index (drop_ref ob) = pool_index ob" "o_occupied (drop_ref ob) = o_occupied ob"
    "handle_refs (header (drop_ref ob)) = handle_refs (header ob) - 1" for ob by (simp_all add: drop_ref_def)
  have rc: "ref_count (header (drop_ref (objects s obj))) \<noteq> 0" using o(3) by (simp add: drop_ref_def ref_count_def)
  show ?thesis
  proof (cases "obj_type (objects s obj) = ChannelObject")
    case True
    let ?ci = "pool_index (objects s obj)"
    obtain X W where c: "?ci < 32" "chan_inv root s ?ci X W" using r True by (auto simp: obj_ready_def)
    let ?s1 = "set_channel ?ci (set_my_ep e ((my_ep e (channels s ?ci))\<lparr>ep_handle_refs := ep_handle_refs (my_ep e (channels s ?ci)) - 1\<rparr>) (channels s ?ci)) ?s"
    have "chan_inv root ?s ?ci X W" using c(2) chan_inv_cong [OF u(3,4)] by blast
    from chan_inv_refs [OF this e, unfolded u(3)] have "chan_inv root ?s1 ?ci X W" .
    from wake_endpoints_ok [OF this e] obtain ch sc where w: "wake_endpoints ?ci e ?s1 = Some (set_channel ?ci ch (?s1\<lparr>sch := sc\<rparr>))"
      "chan_inv root (set_channel ?ci ch (?s1\<lparr>sch := sc\<rparr>)) ?ci X (\<lambda>_ _. [])" by blast
    let ?s2 = "set_channel ?ci ch (?s1\<lparr>sch := sc\<rparr>)"
    have s2: "objects ?s2 = (objects s)(obj := drop_ref (objects s obj))" "same_caps s ?s2"
      using u(1,2) by (simp_all add: set_channel_def same_caps_def)
    have "check_and_reclaim_channel_locked obj ?s2 = Some ?s2"
      unfolding check_and_reclaim_channel_locked_def s2(1) using o True c(1) rc by (simp add: dr Let_def)
    then have "revoke_object obj e s = Some ?s2"
      unfolding revoke_object_def Let_def u(1,3) using o(1,2) True c(1) w(1) by (simp add: dr)
    moreover have "obj_ready root obj ?s2" using w(2) c(1) unfolding obj_ready_def s2(1) by (auto simp: dr)
    ultimately show ?thesis using s2 by blast
  next
    case False
    have "check_and_reclaim_shm_locked obj ?s = Some ?s"
      unfolding check_and_reclaim_shm_locked_def u(1) using o rc by simp
    then have "revoke_object obj e s = Some ?s" unfolding revoke_object_def Let_def u(1) using o(1,2) False by (simp add: dr)
    moreover have "obj_ready root obj ?s" unfolding obj_ready_def u(1) using False by (simp add: dr)
    ultimately show ?thesis using u by blast
  qed
qed

text \<open>The state of the loop: the slots before \<open>idx\<close> are revoked, everything else is as at the start; the work list holds
  exactly the children of the slots already handled.\<close>

definition revoking :: "address_spaces \<Rightarrow> 'a shm_state_scheme \<Rightarrow> slot \<Rightarrow> nat \<Rightarrow> slot list \<Rightarrow> 'a shm_state_scheme \<Rightarrow> bool" where
  "revoking root s0 x idx wl s \<longleftrightarrow> idx \<le> length wl \<and> distinct wl \<and> x \<notin> set wl
     \<and> (\<forall>y\<in>set wl. live (entries s0) y \<and> parent (nodes s0 y) \<in> insert x (set (take idx wl))
          \<and> object_index (entries s0 y) = object_index (entries s0 x) \<and> endpoint (entries s0 y) = endpoint (entries s0 x)
          \<and> derivation_depth (nodes s0 x) < derivation_depth (nodes s0 y))
     \<and> (\<forall>y\<in>insert x (set (take idx wl)). children (entries s0) (nodes s0) y \<subseteq> set wl)
     \<and> nodes s = (\<lambda>y. if y = x then (nodes s0 x)\<lparr>first_child := NO_SLOT\<rparr> else if y \<in> set (take idx wl) then revoked_node (nodes s0 y) else nodes s0 y)
     \<and> entries s = (\<lambda>y. if y \<in> set (take idx wl) then invalidate_entry (entries s0 y) else entries s0 y)
     \<and> hcount_ok (entries s) (hcount s) \<and> refs_ok (objects s) (entries s) \<and> next_capability_id s = next_capability_id s0
     \<and> shm_table s = shm_table s0 \<and> pmm s = pmm s0 \<and> obj_ready root (object_index (entries s0 x)) s"

lemma work_list_fits:
  assumes "distinct wl" "\<forall>y\<in>set wl. live E y" shows "length wl \<le> 512"
  using assms card_mono [OF finite_valid, of "set wl"] card_valid distinct_card [of wl] by (auto simp: live_def)

lemma revoke_slot_ok:
  assumes h: "hcount_ok (entries s) (hcount s)" and rf: "refs_ok (objects s) (entries s)" and y: "live (entries s) y" and x: "live (entries s) x" "x \<noteq> y"
    and same: "object_index (entries s y) = obj" "object_index (entries s x) = obj" "endpoint (entries s y) < 2" and r: "obj_ready root obj s"
  shows "\<exists>s'. revoke_slot y s = Some (True, s') \<and> nodes s' = (nodes s)(y := revoked_node (nodes s y))
    \<and> entries s' = (entries s)(y := invalidate_entry (entries s y)) \<and> hcount_ok (entries s') (hcount s') \<and> refs_ok (objects s') (entries s')
    \<and> next_capability_id s' = next_capability_id s \<and> shm_table s' = shm_table s \<and> pmm s' = pmm s \<and> obj_ready root obj s'"
proof -
  let ?e = "invalidate_entry (entries s y)"
  let ?s = "dec_hcount (pslot y) (set_entry y ?e (set_node y (revoked_node (nodes s y)) s))"
  have v: "valid_slot y" "occupied (entries s y)" using y by (simp_all add: live_def)
  have ne: "\<not> occupied ?e" by simp
  have u: "objects ?s = objects s" "entries ?s = (entries s)(y := ?e)" "nodes ?s = (nodes s)(y := revoked_node (nodes s y))"
    "next_capability_id ?s = next_capability_id s" "shm_table ?s = shm_table s" "pmm ?s = pmm s" "obj_ready root obj ?s"
    "hcount ?s = (hcount s)(pslot y := hcount s (pslot y) - 1)"
    using r by (simp_all add: cap_upd_defs obj_ready_def chan_inv_def)
  have ob: "obj < 256" "o_occupied (objects s obj)" using rf y same(1) by (auto simp: refs_ok_def)
  have "{x, y} \<subseteq> {z. live (entries s) z \<and> object_index (entries s z) = obj}" using x y same by auto
  then have "card {x, y} \<le> handle_refs (header (objects s obj))"
    using card_mono [OF finite_live(1), of "{x, y}" "entries s" "\<lambda>z. object_index (entries s z) = obj"] rf ob by (simp add: refs_ok_def)
  then have rc: "1 < handle_refs (header (objects s obj))" using x(2) by simp
  obtain s' where s': "revoke_object obj (endpoint (entries s y)) ?s = Some s'" "same_caps ?s s'" "objects s' = (objects s)(obj := drop_ref (objects s obj))"
    "obj_ready root obj s'"
    using revoke_object_ok [of obj ?s root "endpoint (entries s y)"] ob rc u same(3) by auto
  have "revoke_slot y s = Some (True, s')"
    unfolding revoke_slot_def Let_def using v(2) s'(1) same(1) by (simp add: set_node_def)
  moreover have "refs_ok (objects s') ((entries s)(y := ?e))"
    by (rule refs_del(1) [OF rf y ne same(1)]) (simp add: s'(3) drop_ref_def)
  moreover have "hcount_ok ((entries s)(y := ?e)) ((hcount s)(pslot y := hcount s (pslot y) - 1))" by (rule hcount_del [OF h v ne])
  ultimately show ?thesis using s'(2,4) u by (simp add: same_caps_def)
qed

lemma revoke_step:
  assumes inv: "caps_inv s0" and x: "live (entries s0) x" "endpoint (entries s0 x) < 2"
    and r: "revoking root s0 x idx wl s" and i: "idx < length wl"
  shows "\<exists>cs s'. collect_children (nodes s) (first_child (nodes s (wl ! idx))) wl = Some (wl @ cs)
    \<and> revoke_slot (wl ! idx) s = Some (True, s') \<and> revoking root s0 x (idx + 1) (wl @ cs) s'"
proof -
  let ?y = "wl ! idx" let ?E = "entries s0" let ?N = "nodes s0" let ?P = "set (take idx wl)"
  let ?below = "\<lambda>y. object_index (?E y) = object_index (?E x) \<and> endpoint (?E y) = endpoint (?E x)
    \<and> derivation_depth (?N x) < derivation_depth (?N y)"
  have c: "cdt ?E ?N (next_capability_id s0)" using inv by (simp add: caps_inv_def)
  have wl: "distinct wl" "x \<notin> set wl" "\<And>y. y \<in> set wl \<Longrightarrow> live ?E y \<and> parent (?N y) \<in> insert x ?P \<and> ?below y"
    "\<And>y. y \<in> insert x ?P \<Longrightarrow> children ?E ?N y \<subseteq> set wl"
    using r unfolding revoking_def by blast+
  have st: "nodes s = (\<lambda>y. if y = x then (?N x)\<lparr>first_child := NO_SLOT\<rparr> else if y \<in> ?P then revoked_node (?N y) else ?N y)"
      "entries s = (\<lambda>y. if y \<in> ?P then invalidate_entry (?E y) else ?E y)"
      "hcount_ok (entries s) (hcount s)" "refs_ok (objects s) (entries s)" "next_capability_id s = next_capability_id s0"
      "shm_table s = shm_table s0" "pmm s = pmm s0" "obj_ready root (object_index (?E x)) s"
    using r unfolding revoking_def by - (elim conjE, assumption)+
  have y: "?y \<in> set wl" "?y \<noteq> x" "?y \<notin> ?P" "take (idx + 1) wl = take idx wl @ [?y]"
    using i wl(1,2) nth_mem [OF i] by (auto simp: take_Suc_conv_app_nth in_set_conv_nth nth_eq_iff_index_eq)
  note y4 = wl(3) [OF y(1), THEN conjunct1] note yb = wl(3) [OF y(1), THEN conjunct2, THEN conjunct2]
  obtain cs where cs: "chain ?N (first_child (?N ?y)) cs" "set cs = children ?E ?N ?y" using cdtD(2) [OF c y4] by (auto simp: chain_ok_def)
  have new: "z \<notin> set wl" "z \<noteq> x" "live ?E z" "parent (?N z) = ?y" "?below z" if "z \<in> set cs" for z
  proof -
    have e: "edge_ok ?E ?N ?y z" using child_edge [OF c y4] that cs(2) by blast
    show z: "live ?E z" "parent (?N z) = ?y" using that cs(2) by (auto simp: children_def)
    show "z \<notin> set wl" using wl(3) [of z] z(2) y(2,3) by auto
    show "?below z" using e yb by (simp add: edge_ok_def)
    then show "z \<noteq> x" by auto
  qed
  have dw: "distinct (wl @ cs)" using wl(1) chain_distinct [OF cs(1)] new(1) by auto
  have lw: "\<forall>z\<in>set (wl @ cs). live ?E z" using wl(3) new(3) by auto
  have nz: "nodes s z = ?N z" if "z \<in> insert ?y (set cs)" for z
    using that new(1,2) y(2,3) set_take_subset [of idx wl] unfolding st(1) by auto
  have "collect_children (nodes s) (first_child (nodes s ?y)) wl = Some (wl @ cs)"
  proof (rule collect_children_chain)
    show "chain (nodes s) (first_child (nodes s ?y)) cs" unfolding nz [OF insertI1] by (rule chain_frame [OF cs(1)]) (simp add: nz)
    show "link_ok (first_child (nodes s ?y))" using cdtD(1) [OF c y4] nz by (simp add: local_ok_def)
    show "link_ok (next_sibling (nodes s z))" if "z \<in> set cs" for z using cdtD(1) [OF c new(3) [OF that]] nz that by (simp add: local_ok_def)
    show "length wl + length cs \<le> 512" using work_list_fits [OF dw lw] by simp
  qed
  moreover
  have xs: "entries s x = ?E x" "entries s ?y = ?E ?y" using wl(2) y(3) set_take_subset [of idx wl] unfolding st(2) by auto
  obtain s' where s': "revoke_slot ?y s = Some (True, s')" "nodes s' = (nodes s)(?y := revoked_node (nodes s ?y))"
    "entries s' = (entries s)(?y := invalidate_entry (entries s ?y))" "hcount_ok (entries s') (hcount s')" "refs_ok (objects s') (entries s')"
    "next_capability_id s' = next_capability_id s" "shm_table s' = shm_table s" "pmm s' = pmm s" "obj_ready root (object_index (?E x)) s'"
    using revoke_slot_ok [OF st(3,4), of ?y x "object_index (?E x)" root] x y(2) y4 yb xs st(8) by (auto simp: live_def)
  have tk: "set (take (idx + 1) (wl @ cs)) = insert ?y ?P" using y(4) i by simp
  have "revoking root s0 x (idx + 1) (wl @ cs) s'"
    unfolding revoking_def tk
  proof (intro conjI ballI)
    show "nodes s' = (\<lambda>z. if z = x then (?N x)\<lparr>first_child := NO_SLOT\<rparr> else if z \<in> insert ?y ?P then revoked_node (?N z) else ?N z)"
      unfolding s'(2) nz [OF insertI1] using y(2) by (auto simp: st(1))
    show "entries s' = (\<lambda>z. if z \<in> insert ?y ?P then invalidate_entry (?E z) else ?E z)" unfolding s'(3) xs(2) by (auto simp: st(2))
    show "children ?E ?N z \<subseteq> set (wl @ cs)" if "z \<in> insert x (insert ?y ?P)" for z using that wl(4) [of z] cs(2) by auto
    fix z assume z: "z \<in> set (wl @ cs)"
    show "live ?E z" using z lw by blast
    show "parent (?N z) \<in> insert x (insert ?y ?P)" using z wl(3) [of z] new(4) by auto
    show "object_index (?E z) = object_index (?E x)" "endpoint (?E z) = endpoint (?E x)" "derivation_depth (?N x) < derivation_depth (?N z)"
      using z wl(3) [of z] new(5) [of z] by auto
  qed (use i dw wl(2) new(2) s' st in auto)
  ultimately show ?thesis using s'(1) by blast
qed

lemma revoke_loop_ok:
  assumes inv: "caps_inv s0" and x: "live (entries s0) x" "endpoint (entries s0 x) < 2" and r: "revoking root s0 x idx wl s"
  shows "\<exists>wl' s'. revoke_loop idx wl n s = Some (n + (length wl' - idx), s') \<and> idx \<le> length wl' \<and> revoking root s0 x (length wl') wl' s'"
  using r
proof (induction "512 - idx" arbitrary: idx wl s n rule: less_induct)
  case less
  have le: "idx \<le> length wl" "length wl \<le> 512" using less.prems work_list_fits [of wl "entries s0"] by (auto simp: revoking_def)
  show ?case
  proof (cases "idx < length wl")
    case False
    then show ?thesis using less.prems le(1) by (intro exI [of _ wl] exI [of _ s]) (simp add: revoke_loop.simps)
  next
    case True
    obtain cs s1 where s1: "collect_children (nodes s) (first_child (nodes s (wl ! idx))) wl = Some (wl @ cs)" "revoke_slot (wl ! idx) s = Some (True, s1)"
      "revoking root s0 x (idx + 1) (wl @ cs) s1" using revoke_step [OF inv x less.prems True] by blast
    have v: "valid_slot (wl ! idx)" using less.prems nth_mem [OF True] by (auto simp: revoking_def live_def)
    have "512 - (idx + 1) < 512 - idx" using True le(2) by simp
    from less.hyps [OF this s1(3), of "n + 1"] obtain wl' s' where s': "revoke_loop (idx + 1) (wl @ cs) (n + 1) s1 = Some (n + 1 + (length wl' - (idx + 1)), s')" "idx + 1 \<le> length wl'" "revoking root s0 x (length wl') wl' s'"
      by blast
    have "revoke_loop idx wl n s = Some (n + 1 + (length wl' - (idx + 1)), s')"
      using True v s1(1,2) s'(1) by (subst revoke_loop.simps) simp
    then show ?thesis using s'(2,3) by (intro exI [of _ wl'] exI [of _ s']) simp
  qed
qed

section \<open>What revocation leaves\<close>

lemma revoked_set:
  assumes inv: "caps_inv s0" and x: "live (entries s0) x" and r: "revoking root s0 x (length wl) wl s"
  shows "set wl = {y. (derived_from s0)\<^sup>+\<^sup>+ y x}"
proof -
  have wl: "\<And>y. y \<in> set wl \<Longrightarrow> live (entries s0) y \<and> parent (nodes s0 y) \<in> insert x (set wl)"
    "\<And>y. y \<in> insert x (set wl) \<Longrightarrow> children (entries s0) (nodes s0) y \<subseteq> set wl"
    using r unfolding revoking_def by auto
  have par: "y \<in> children (entries s0) (nodes s0) z" if "derived_from s0 y z" for y z
    using that by (simp add: derived_from_def children_def)
  have "y \<in> set wl" if "(derived_from s0)\<^sup>+\<^sup>+ y x" for y
    using that by (induction rule: converse_tranclp_induct) (use wl(2) par in blast)+
  moreover have "(derived_from s0)\<^sup>+\<^sup>+ y x" if "y \<in> set wl" for y
    using that
  proof (induction "derivation_depth (nodes s0 y)" arbitrary: y rule: less_induct)
    case less
    let ?p = "parent (nodes s0 y)"
    have "live (entries s0) ?p" using wl(1) [OF less.prems] wl(1) [of ?p] x by auto
    then have d: "derived_from s0 y ?p" using wl(1) [OF less.prems] live_not_NO_SLOT by (auto simp: derived_from_def)
    show ?case
    proof (cases "?p = x")
      case False
      then have p: "?p \<in> set wl" using wl(1) [OF less.prems] by auto
      have "(derived_from s0)\<^sup>+\<^sup>+ ?p x" by (rule less.hyps [OF _ p]) (use derived_from_edge [OF inv d] in \<open>simp add: edge_ok_def\<close>)
      then show ?thesis using d by (meson tranclp_into_tranclp2)
    qed (use d in auto)
  qed
  ultimately show ?thesis by blast
qed

lemma revoked_inv:
  assumes inv: "caps_inv s0" and x: "live (entries s0) x" and r: "revoking root s0 x (length wl) wl s"
  shows "caps_inv s" "children (entries s) (nodes s) x = {}"
proof -
  let ?E = "entries s0" let ?N = "nodes s0"
  have c: "cdt ?E ?N (next_capability_id s0)" using inv by (simp add: caps_inv_def)
  have wl: "x \<notin> set wl" "\<And>y. y \<in> set wl \<Longrightarrow> parent (?N y) \<in> insert x (set wl)" "\<And>y. y \<in> insert x (set wl) \<Longrightarrow> children ?E ?N y \<subseteq> set wl"
    using r unfolding revoking_def by auto
  have st: "nodes s = (\<lambda>y. if y = x then (?N x)\<lparr>first_child := NO_SLOT\<rparr> else if y \<in> set (take (length wl) wl) then revoked_node (?N y) else ?N y)"
      "entries s = (\<lambda>y. if y \<in> set (take (length wl) wl) then invalidate_entry (?E y) else ?E y)"
      "hcount_ok (entries s) (hcount s)" "refs_ok (objects s) (entries s)" "next_capability_id s = next_capability_id s0"
    using r unfolding revoking_def by - (elim conjE, assumption)+
  have lv: "live (entries s) y \<longleftrightarrow> y \<notin> set wl \<and> live ?E y" for y by (auto simp: live_def st(2))
  have sel: "parent (nodes s y) = parent (?N y)" "parent_gen (nodes s y) = parent_gen (?N y)" "derivation_depth (nodes s y) = derivation_depth (?N y)"
    "capability_id (nodes s y) = capability_id (?N y)" for y by (simp_all add: st(1) revoked_node_def)
  have keep: "is_revoked (nodes s y) = is_revoked (?N y)" "next_sibling (nodes s y) = next_sibling (?N y)"
    "first_child (nodes s y) = (if y = x then NO_SLOT else first_child (?N y))" "entries s y = ?E y" if "y \<notin> set wl" for y
    using that by (simp_all add: st(1,2))
  have ch: "children (entries s) (nodes s) y = (if y = x then {} else children ?E ?N y)" if "y \<notin> set wl" for y
    using that wl(2,3) by (auto simp: children_def lv sel)
  show "children (entries s) (nodes s) x = {}" using ch wl(1) by simp
  have up: "parent (?N y) \<notin> set wl" if "live (entries s) y" for y using that wl(3) [of "parent (?N y)"] by (auto simp: lv children_def)
  have "cdt (entries s) (nodes s) (next_capability_id s)"
  proof (rule cdtI)
    show "inj_on (\<lambda>y. capability_id (nodes s y)) {y. live (entries s) y}" "0 < next_capability_id s"
      using c unfolding sel st(5) by (auto simp: cdt_def lv intro: inj_on_subset)
    fix y assume "live (entries s) y"
    then have y: "live ?E y" "y \<notin> set wl" and py: "parent (?N y) \<notin> set wl" using lv up by auto
    show "local_ok (nodes s) (next_capability_id s) y"
      using cdtD(1) [OF c y(1)] keep [OF y(2)] by (simp add: local_ok_def sel st(5) link_ok_def)
    show "chain_ok (entries s) (nodes s) y"
    proof (cases "y = x")
      case True then show ?thesis using ch [OF y(2)] keep(3) [OF y(2)] by (auto simp: chain_ok_def)
    next
      case False
      then have "next_sibling (nodes s z) = next_sibling (?N z)" if "z \<in> children ?E ?N y" for z
        using that wl(2) [of z] y(2) keep(2) [of z] by (auto simp: children_def)
      then show ?thesis using False by (intro chain_ok_frame [OF cdtD(2) [OF c y(1)]]) (simp_all add: keep [OF y(2)] ch [OF y(2)])
    qed
    show "up_ok (entries s) (nodes s) y"
      using cdtD(3) [OF c y(1)] py keep(4) [OF y(2)] keep(4) [OF py] by (auto simp: up_ok_def edge_ok_def sel lv)
  qed
  then show "caps_inv s" using st(3,4) by (simp add: caps_inv_def)
qed

lemma revoke_runs:
  assumes inv: "caps_inv s" and x: "live (entries s) x" "endpoint (entries s x) < 2" "rights (entries s x) AND CAP_REVOKE \<noteq> 0"
    and o: "obj_ready root (object_index (entries s x)) s"
  shows "\<exists>wl s'. capability_revoke_descendants_locked x s = Some (Ok (length wl), s') \<and> revoking root s x (length wl) wl s'"
proof -
  let ?E = "entries s" let ?N = "nodes s"
  have c: "cdt ?E ?N (next_capability_id s)" using inv by (simp add: caps_inv_def)
  note lo = cdtD(1) [OF c x(1)]
  obtain cs where cs: "chain ?N (first_child (?N x)) cs" "set cs = children ?E ?N x" using cdtD(2) [OF c x(1)] by (auto simp: chain_ok_def)
  have ce: "edge_ok ?E ?N x y" "live ?E y" "parent (?N y) = x" if "y \<in> set cs" for y
    using that cs(2) child_edge [OF c x(1)] by (auto simp: children_def)
  have ln: "length cs \<le> 512" using work_list_fits [OF chain_distinct [OF cs(1)], of ?E] ce(2) by blast
  have cc: "collect_children ?N (first_child (?N x)) [] = Some cs"
    using collect_children_chain [OF cs(1), of "[]"] lo ce(2) cdtD(1) [OF c] ln by (auto simp: local_ok_def)
  let ?s = "set_node x ((?N x)\<lparr>first_child := NO_SLOT\<rparr>) s"
  have u: "entries ?s = ?E" "hcount ?s = hcount s" "objects ?s = objects s" "next_capability_id ?s = next_capability_id s" "shm_table ?s = shm_table s"
    "pmm ?s = pmm s" "nodes ?s = ?N(x := (?N x)\<lparr>first_child := NO_SLOT\<rparr>)" "obj_ready root (object_index (?E x)) ?s"
    using o by (simp_all add: set_node_def obj_ready_def chan_inv_def)
  have "revoking root s x 0 cs ?s"
    unfolding revoking_def u(1-7) using u(8) inv ce chain_distinct [OF cs(1)] cs(2) child_not_self [OF c x(1)]
    by (auto simp: caps_inv_def edge_ok_def)
  from revoke_loop_ok [OF inv x(1,2) this, of 0] obtain wl s' where s': "revoke_loop 0 cs 0 ?s = Some (length wl, s')" and rv: "revoking root s x (length wl) wl s'"
    by auto
  have "capability_revoke_descendants_locked x s = Some (Ok (length wl), s')"
    using x lo s' cc by (simp add: capability_revoke_descendants_locked_def revoke_descendants_tree_locked_def live_def local_ok_def)
  then show ?thesis using rv by blast
qed

section \<open>Properties\<close>

text \<open>C3: revocation kills exactly the capabilities derived from a capability. For a live capability with the revoke right, whatever object
  it names, the operation neither panics nor fails, and its loop ends. It reports the number of capabilities derived from it,
  directly or not; in the resulting state each of their tokens is rejected, every other handle of every process, the capability itself
  included, validates as before, and the tree and the reference counts stay consistent.\<close>

theorem revoke_kills_descendants:
  assumes inv: "caps_inv s" and x: "live (entries s) x" "endpoint (entries s x) < 2" "rights (entries s x) AND CAP_REVOKE \<noteq> 0"
    and o: "obj_ready root (object_index (entries s x)) s"
  shows "\<exists>n s'. capability_revoke_descendants_locked x s = Some (Ok n, s') \<and> caps_inv s'
    \<and> n = card {y. (derived_from s)\<^sup>+\<^sup>+ y x}
    \<and> (\<forall>y q. (derived_from s)\<^sup>+\<^sup>+ y x \<longrightarrow>
          validate_handle_locked (pslot y) (handle_new (hslot y) (handle_generation (entries s y))) q s' = Some (Err BadHandleGeneration))
    \<and> (\<forall>ps<MAX_PROCESSES. \<forall>h q. \<not> (derived_from s)\<^sup>+\<^sup>+ (Slot ps (handle_slot_index h)) x \<longrightarrow>
          validate_handle_locked ps h q s' = validate_handle_locked ps h q s)
    \<and> (\<forall>y. \<not> derived_from s' y x)"
proof -
  let ?E = "entries s"
  obtain wl s' where s': "capability_revoke_descendants_locked x s = Some (Ok (length wl), s')" and rv: "revoking root s x (length wl) wl s'"
    using revoke_runs [OF inv x o] by blast
  have st: "entries s' = (\<lambda>y. if y \<in> set wl then invalidate_entry (?E y) else ?E y)" "distinct wl"
    using rv unfolding revoking_def by - (elim conjE, simp)+
  note D = revoked_set [OF inv x(1) rv] and i' = revoked_inv [OF inv x(1) rv]
  have "length wl = card {y. (derived_from s)\<^sup>+\<^sup>+ y x}" using D distinct_card [OF st(2)] by simp
  moreover have "validate_handle_locked (pslot y) (handle_new (hslot y) (handle_generation (?E y))) q s' = Some (Err BadHandleGeneration)"
    if "(derived_from s)\<^sup>+\<^sup>+ y x" for y q
  proof -
    have y: "y \<in> set wl" "valid_slot y" using that D rv by (auto simp: revoking_def live_def)
    then have v: "pslot y < 16" "hslot y < 32" "Slot (pslot y) (hslot y) = y" by (simp_all add: valid_slot_def)
    have "lookup_handle (pslot y) (handle_new (hslot y) (handle_generation (?E y))) q (entries s') = Err BadHandleGeneration"
      using v y(1) invalidate_entry_simps(2) [of "?E y"] by (simp add: lookup_handle_def Let_def st(1) handle_slot_roundtrip handle_gen_roundtrip)
    then show ?thesis using validate_handle_eq [OF i'(1) v(1)] by simp
  qed
  moreover have "validate_handle_locked ps h q s' = validate_handle_locked ps h q s"
    if "ps < 16" "\<not> (derived_from s)\<^sup>+\<^sup>+ (Slot ps (handle_slot_index h)) x" for ps h q
    using that D by (simp add: validate_handle_eq [OF i'(1)] validate_handle_eq [OF inv] lookup_handle_def st(1))
  moreover have "\<not> derived_from s' y x" for y using i'(2) by (auto simp: derived_from_def children_def)
  ultimately show ?thesis using s' i'(1) by (intro exI [of _ "length wl"] exI [of _ s']) simp
qed

text \<open>The capability system as a transition system: objects and root capabilities are created, any process derives, duplicates, moves,
  delegates or closes, threads use the channels, and the derivatives of a capability are revoked, where the object is in the state
  that the revocation needs.\<close>

inductive cap_step :: "address_spaces \<Rightarrow> 'a shm_state_scheme \<Rightarrow> 'a shm_state_scheme \<Rightarrow> bool" for root where
  object: "allocate_object_slot_locked ty i pid s = (r, s') \<Longrightarrow> cap_step root s s'"
| handle: "ps < MAX_PROCESSES \<Longrightarrow> obj < MAX_KERNEL_OBJECTS \<Longrightarrow> o_occupied (objects s obj) \<Longrightarrow>
    allocate_handle_entry_locked ps obj q ep s = Some (out, s') \<Longrightarrow> cap_step root s s'"
| derive: "capability_derive pid h q s = Some (out, s') \<Longrightarrow> cap_step root s s'"
| duplicate: "capability_duplicate pid h s = Some (out, s') \<Longrightarrow> cap_step root s s'"
| move: "transfer_move_locked c ps s = Some (out, s') \<Longrightarrow> cap_step root s s'"
| delegate: "transfer_delegate_locked c ps q s = Some (out, s') \<Longrightarrow> cap_step root s s'"
| close: "close_handle_locked ps h s = Some (closed, s') \<Longrightarrow> cap_step root s s'"
| channel: "chan_step root s s' \<Longrightarrow> cap_step root s s'"
| revoke: "obj_ready root (object_index (entries s x)) s \<Longrightarrow> endpoint (entries s x) < 2 \<Longrightarrow>
    capability_revoke_descendants_locked x s = Some (n, s') \<Longrightarrow> cap_step root s s'"

lemma cap_safe_inv: "cap_safe out \<Longrightarrow> out = Some (r, s') \<Longrightarrow> caps_inv s'"
  by simp

lemma revoke_inv:
  assumes "caps_inv s" "obj_ready root (object_index (entries s x)) s" "endpoint (entries s x) < 2"
    "capability_revoke_descendants_locked x s = Some (r, s')"
  shows "caps_inv s'"
proof (cases "live (entries s) x \<and> rights (entries s x) AND CAP_REVOKE \<noteq> 0")
  case True
  then show ?thesis using revoke_runs [OF assms(1) _ assms(3) _ assms(2)] revoked_inv(1) [OF assms(1)] assms(4) by fastforce
next
  case False
  then have "s' = s" using assms(4) by (auto simp: capability_revoke_descendants_locked_def live_def split: if_splits)
  then show ?thesis using assms(1) by simp
qed

lemma cap_step_inv: "cap_step root s s' \<Longrightarrow> caps_inv s \<Longrightarrow> caps_inv s'"
proof (induction rule: cap_step.induct)
  case (object ty i pid s r s')
  then show ?case using allocate_object_slot_inv [of s ty i pid] by simp
next
  case (handle ps obj s q ep out s')
  then show ?case by (auto intro: cap_safe_inv [OF allocate_handle_entry_safe])
next
  case (derive pid h q s out s')
  then show ?case by (auto intro: cap_safe_inv [OF derive_safe])
next
  case (duplicate pid h s out s')
  then show ?case by (auto intro: cap_safe_inv [OF duplicate_safe])
next
  case (move c ps s out s')
  then have "valid_slot c \<and> ps < 16" by (auto simp: transfer_move_locked_def split: if_splits)
  then show ?case using move by (auto intro: cap_safe_inv [OF transfer_move_safe])
next
  case (delegate c ps q s out s')
  then have "valid_slot c \<and> ps < 16" by (auto simp: transfer_delegate_locked_def split: if_splits)
  then show ?case using delegate by (auto intro: cap_safe_inv [OF transfer_delegate_safe])
next
  case (close ps h s r s')
  then have "ps < 16" by (auto simp: close_handle_locked_def split: if_splits)
  then show ?case using close by (auto intro: cap_safe_inv [OF close_handle_safe])
next
  case (channel s s')
  then show ?case by (rule_tac chan_step_inv)
next
  case (revoke s x n s')
  then show ?case by (rule_tac revoke_inv)
qed

lemma cap_reach_inv: "(cap_step root)\<^sup>*\<^sup>* s s' \<Longrightarrow> caps_inv s \<Longrightarrow> caps_inv s'"
  by (induction rule: rtranclp_induct) (auto intro: cap_step_inv)

lemma boot_caps_inv: "caps_state.truncate s = caps_initial procs \<Longrightarrow> caps_inv s"
  using caps_initial_inv [of procs] by (simp add: caps_state.defs caps_initial_def caps_inv_def)

text \<open>C20: no sequence of operations amplifies authority. Start from the empty tables of boot and let processes create objects and
  capabilities, derive, duplicate, move, delegate, close, use channels and revoke, in any order, a revocation being a step where the threads that wait on
  the object it ends are in the queues of its channel as the scheduler keeps them. In every state that is
  reached, every ancestor of a live capability, at any distance
  in the derivation tree, is itself live, names the same object in the same generation through the
  same endpoint, holds every right its descendant holds, and is strictly closer to its root, so no
  capability is its own ancestor and no derivation path is longer than the maximum depth.\<close>

theorem no_amplification:
  assumes "caps_state.truncate s0 = caps_initial procs" "(cap_step root)\<^sup>*\<^sup>* s0 s" "(derived_from s)\<^sup>+\<^sup>+ x a"
  shows "live (entries s) a \<and> is_rights_subset (rights (entries s x)) (rights (entries s a))
    \<and> object_index (entries s x) = object_index (entries s a)
    \<and> object_generation (entries s x) = object_generation (entries s a)
    \<and> endpoint (entries s x) = endpoint (entries s a)
    \<and> derivation_depth (nodes s a) < derivation_depth (nodes s x)
    \<and> derivation_depth (nodes s x) \<le> MAX_DERIVATION_DEPTH"
  by (rule ancestor_bounds [OF cap_reach_inv [OF assms(2) boot_caps_inv [OF assms(1)]] assms(3)])

text \<open>A capability on a channel and one derived from it.\<close>

definition demo_tree :: map_state where
  "demo_tree = \<lparr>objects = objects demo_child, next_object_id = next_object_id demo_child, entries = entries demo_child, hcount = hcount demo_child,
     processes = processes demo_child, nodes = nodes demo_child, next_capability_id = next_capability_id demo_child,
     channels = \<lambda>_. empty_channel, thread_ipc = \<lambda>_. \<lparr>ipc_occupied = False, ipc_object = 0\<rparr>, sch = demo_sched,
     shm_table = \<lambda>_. empty_shm, shm_mappings = \<lambda>_. empty_mapping, pmm = frames demo_vm, mem_tables = tables demo_vm, reg_cr3 = cr3 demo_vm,
     reg_master = master_pml4 demo_vm\<rparr>"

lemma demo_tree_facts:
  "caps_inv demo_tree" "live (entries demo_tree) (Slot 0 0)" "endpoint (entries demo_tree (Slot 0 0)) < 2"
  "rights (entries demo_tree (Slot 0 0)) AND CAP_REVOKE \<noteq> 0" "obj_ready demo_root_of (object_index (entries demo_tree (Slot 0 0))) demo_tree"
  "(derived_from demo_tree)\<^sup>+\<^sup>+ (Slot 0 1) (Slot 0 0)"
proof -
  have e: "entries demo_tree (Slot 0 0) = entries demo_root (Slot 0 0)" using demo_child_facts(3) by (simp add: demo_tree_def)
  show "caps_inv demo_tree" using demo_child_facts(1) by (simp add: caps_inv_def demo_tree_def)
  show "live (entries demo_tree) (Slot 0 0)" "endpoint (entries demo_tree (Slot 0 0)) < 2" "rights (entries demo_tree (Slot 0 0)) AND CAP_REVOKE \<noteq> 0"
    by (simp_all add: live_def valid_slot_def e demo_root_facts demo_rights_def rights_defs)
  have "chan_inv demo_root_of demo_tree 0 (\<lambda>_. []) (\<lambda>_ _. [])"
    using demo_chan_inv by (simp add: chan_inv_def demo_tree_def demo_chan_def)
  moreover have "pool_index (objects demo_tree 0) = 0"
  proof -
    have "pool_index (objects demo_obj 0) = 0"
      by (simp add: demo_obj_def allocate_object_slot_locked_def allocate_object_id_def Let_def caps_initial_def empty_object_slot_def find_upt_0)
    then have "pool_index (objects demo_root 0) = 0"
      by (simp add: demo_root_def demo_obj_facts valid_slot_def empty_handle_entry_def install_root_capability_locked_def capability_id_cases Let_def
          cap_upd_defs commit_handle_def)
    then show ?thesis by (simp add: demo_tree_def demo_child_def derived_state_def Let_def)
  qed
  ultimately show "obj_ready demo_root_of (object_index (entries demo_tree (Slot 0 0))) demo_tree" by (auto simp: obj_ready_def e demo_root_facts)
  have "derived_from demo_tree (Slot 0 1) (Slot 0 0)" using demo_child_facts(2) by (simp add: derived_from_def demo_tree_def)
  then show "(derived_from demo_tree)\<^sup>+\<^sup>+ (Slot 0 1) (Slot 0 0)" by blast
qed

text \<open>The empty tables, and three steps from them: an object, a capability on it and a derived one.\<close>

definition demo_boot :: map_state where
  "demo_boot = demo_tree\<lparr>objects := \<lambda>_. empty_object_slot, next_object_id := 1, entries := \<lambda>_. empty_handle_entry, hcount := \<lambda>_. 0,
     processes := demo_procs, nodes := \<lambda>_. empty_node, next_capability_id := 1\<rparr>"

lemma demo_boot_caps: "caps_state.truncate demo_boot = caps_initial demo_procs"
  by (simp add: demo_boot_def caps_initial_def caps_state.defs)

lemma demo_boot_derives:
  "\<exists>s. (cap_step root)\<^sup>*\<^sup>* demo_boot s \<and> derived_from s (Slot 0 1) (Slot 0 0) \<and> rights (entries s (Slot 0 1)) = READ
     \<and> rights (entries s (Slot 0 0)) = demo_rights"
proof -
  have v: "valid_slot (Slot 0 0)" "valid_slot (Slot 0 1)" by (simp_all add: valid_slot_def)
  obtain s1 where s1: "allocate_object_slot_locked ChannelObject 0 7 demo_boot = (Ok 0, s1)" "o_occupied (objects s1 0)"
    "entries s1 = (\<lambda>_. empty_handle_entry)" "nodes s1 = (\<lambda>_. empty_node)" "next_capability_id s1 = 1" "processes s1 = demo_procs"
    by (simp add: allocate_object_slot_locked_def allocate_object_id_def Let_def demo_boot_def empty_object_slot_def find_upt_0)
  have st1: "cap_step root demo_boot s1" by (rule cap_step.object [OF s1(1)])
  have i1: "caps_inv s1" by (rule cap_step_inv [OF st1 boot_caps_inv [OF demo_boot_caps]])
  have f1: "allocate_handle_slot_locked 0 s1 = Some (Ok 0)"
    by (simp add: allocate_handle_slot_locked_def s1(3) empty_handle_entry_def find_upt_0)
  obtain out s2 where s2: "install_root_capability_locked (Slot 0 0) 0 demo_rights 0 s1 = Some (out, s2)"
    "entries s2 = (\<lambda>_. empty_handle_entry)(Slot 0 0 := empty_handle_entry\<lparr>occupied := True, object_index := 0,
       object_generation := o_generation (objects s1 0), rights := demo_rights, endpoint := 0\<rparr>)"
    "nodes s2 = (\<lambda>_. empty_node)(Slot 0 0 := root_node 1)" "processes s2 = demo_procs" "next_capability_id s2 = 2"
    using install_root_spec [OF i1 v(1), of 0 demo_rights 0] s1(2)
    by (auto simp: s1 install_root_capability_locked_def capability_id_cases Let_def cap_upd_defs commit_handle_def empty_handle_entry_def valid_slot_def
        split: if_splits option.splits)
  have st2: "cap_step root s1 s2"
    by (rule cap_step.handle [of 0 0 s1 demo_rights 0 out]) (use s1(2) f1 s2(1) in \<open>simp_all add: allocate_handle_entry_locked_def\<close>)
  have i2: "caps_inv s2" by (rule cap_step_inv [OF st2 i1])
  have e: "\<not> occupied (entries s2 (Slot 0 1))" "derive_error (Slot 0 0) READ s2 = None"
    by (simp_all add: s2 derive_error_def demo_rights_def rights_defs root_node_def is_rights_subset_def empty_handle_entry_def)
  let ?s = "derived_state (Slot 0 1) (Slot 0 0) READ s2"
  have "resolve_current_process_slot 7 s2 = Ok 0" "allocate_handle_slot_locked 0 s2 = Some (Ok 1)"
    by (simp_all add: resolve_current_process_slot_def allocate_handle_slot_locked_def s2 demo_procs_def empty_handle_entry_def find_upt_0 find_upt_1)
  then have "\<exists>out. capability_derive 7 (handle_new 0 1) READ s2 = Some (out, ?s)"
    using install_derived_ok(1) [OF i2 v(2) e(1) v(1) e(2)] by (simp add: capability_derive_def handle_slot_roundtrip del: One_nat_def)
  then have "cap_step root s2 ?s" by (blast intro: cap_step.derive)
  then have "(cap_step root)\<^sup>*\<^sup>* demo_boot ?s" using st1 st2 by (meson converse_rtranclp_into_rtranclp rtranclp.rtrancl_refl)
  moreover have "derived_from ?s (Slot 0 1) (Slot 0 0)" "rights (entries ?s (Slot 0 1)) = READ" "rights (entries ?s (Slot 0 0)) = demo_rights"
    by (simp_all add: derived_from_def derived_state_def Let_def live_def valid_slot_def NO_SLOT_def s2(2))
  ultimately show ?thesis by blast
qed

theorem no_amplification_witness:
  "\<exists>s. (cap_step demo_root_of)\<^sup>*\<^sup>* demo_boot s \<and> derived_from s (Slot 0 1) (Slot 0 0) \<and> live (entries s) (Slot 0 0)
     \<and> is_rights_subset READ demo_rights \<and> derivation_depth (nodes s (Slot 0 0)) < derivation_depth (nodes s (Slot 0 1))"
proof -
  obtain s where s: "(cap_step demo_root_of)\<^sup>*\<^sup>* demo_boot s" "derived_from s (Slot 0 1) (Slot 0 0)" "rights (entries s (Slot 0 1)) = READ"
    "rights (entries s (Slot 0 0)) = demo_rights" using demo_boot_derives by blast
  then have "(derived_from s)\<^sup>+\<^sup>+ (Slot 0 1) (Slot 0 0)" by blast
  from no_amplification [OF demo_boot_caps s(1) this] s show ?thesis by auto
qed

theorem revoke_kills_descendants_witness:
  "\<exists>n s'. capability_revoke_descendants_locked (Slot 0 0) demo_tree = Some (Ok n, s') \<and> caps_inv s'
    \<and> validate_handle_locked 0 (handle_new 1 (handle_generation (entries demo_tree (Slot 0 1)))) 0 s' = Some (Err BadHandleGeneration)"
  using revoke_kills_descendants [OF demo_tree_facts(1-5)] demo_tree_facts(6) by fastforce

text \<open>The cleanup of an exiting process asserts that every node of the process has the identifier zero. Revocation leaves the identifiers of the
  nodes it revokes, and the cleanup only resets nodes of occupied handles. So a process that holds a slot with a revoked
  capability cannot exit: the cleanup panics.\<close>

definition dead_node :: "nat \<Rightarrow> nat \<Rightarrow> 'a shm_state_scheme \<Rightarrow> bool" where
  "dead_node ps i s \<longleftrightarrow> caps_inv s \<and> \<not> occupied (entries s (Slot ps i)) \<and> capability_id (nodes s (Slot ps i)) \<noteq> 0"

lemma reclaim_shm_frame:
  assumes "check_and_reclaim_shm_locked obj s = Some s'" "caps_inv s"
  shows "caps_inv s'" "entries s' = entries s" "nodes s' = nodes s"
proof -
  let ?s = "update_header obj (\<lambda>h. h\<lparr>lifecycle := Reclaiming\<rparr>) s"
  let ?t = "\<lambda>si fs. set_shm si empty_shm (give_back fs ?s)"
  consider "s' = s" | si fs where "obj < 256" "o_occupied (objects s obj)" "ref_count (header (objects s obj)) = 0" "free_object_slot_locked obj (?t si fs) = Some s'"
    using assms(1) by (auto simp: check_and_reclaim_shm_locked_def Let_def split: if_splits)
  then have "caps_inv s' \<and> entries s' = entries s \<and> nodes s' = nodes s"
  proof cases
    case 2
    have i: "caps_inv (?t si fs)" using caps_inv_header [OF assms(2)] by simp
    have "obj < 256" "o_occupied (objects (?t si fs) obj)" "handle_refs (header (objects (?t si fs) obj)) = 0"
      using 2 by (simp_all add: set_shm_def give_back_def update_header_def ref_count_def)
    from free_object_slot_inv [OF i this] show ?thesis using 2(4)
      by (auto simp: free_object_slot_locked_def set_shm_def give_back_def update_header_def split: if_splits)
  qed (use assms in simp)
  then show "caps_inv s'" "entries s' = entries s" "nodes s' = nodes s" by simp_all
qed

lemma reclaim_channel_frame:
  "check_and_reclaim_channel_locked obj s = Some s' \<Longrightarrow> entries s' = entries s \<and> nodes s' = nodes s"
  by (auto simp: check_and_reclaim_channel_locked_def free_object_slot_locked_def set_channel_def update_header_def Let_def split: if_splits)

lemma close_endpoint_frame: "close_endpoint obj ci e s = Some s' \<Longrightarrow> entries s' = entries s \<and> nodes s' = nodes s"
  by (auto simp: close_endpoint_def drain_waiters_def set_channel_def update_header_def Let_def bind_eq_Some_conv)

lemma dead_node_exit_handle:
  assumes "dead_node ps i s" "exit_handle ps j s = Some s'" "ps < 16" "j < 32"
  shows "dead_node ps i s'"
proof (cases "occupied (entries s (Slot ps j))")
  case True
  let ?c = "Slot ps j"
  have l: "live (entries s) ?c" using True assms(3,4) by (simp add: live_def valid_slot_def)
  have ne: "Slot ps i \<noteq> ?c" using True assms(1) by (auto simp: dead_node_def)
  have inv: "caps_inv s" using assms(1) by (simp add: dead_node_def)
  obtain s1 where s1: "capability_close_locked ?c s = Some (Ok (object_index (entries s ?c), endpoint (entries s ?c)), s1)" "caps_inv s1"
    "entries s1 = (entries s)(?c := invalidate_entry (entries s ?c))"
    "\<forall>x. x \<noteq> ?c \<longrightarrow> core (nodes s1 x) = (if x \<in> children (entries s) (nodes s) ?c then core (adopted ?c (nodes s) (nodes s x)) else core (nodes s x))"
    using close_spec [OF inv l] by blast
  have "capability_id (nodes s1 (Slot ps i)) = capability_id (nodes s (Slot ps i))"
    using s1(4) [THEN spec, THEN mp, OF ne] by (auto simp: core_def adopted_def split: if_splits)
  then have d: "dead_node ps i s1" using assms(1) s1(2,3) ne by (simp add: dead_node_def)
  have rs: "dead_node ps i s'" if "check_and_reclaim_shm_locked obj t = Some s'" "dead_node ps i t" for obj t
    using reclaim_shm_frame [OF that(1)] that(2) by (auto simp: dead_node_def)
  have rc: "dead_node ps i s'" if "check_and_reclaim_channel_locked obj t = Some s'" "dead_node ps i t" for obj t
    using reclaim_channel_frame [OF that(1)] reclaim_inv [OF _ that(1)] that(2) by (auto simp: dead_node_def)
  have sc: "dead_node ps i (set_channel ci ch s1)" for ci ch
    using d by (simp add: dead_node_def) (simp add: set_channel_def)
  have ce: "dead_node ps i t" if "close_endpoint obj ci e (set_channel ci ch s1) = Some t" for obj ci e ch t
    using close_endpoint_frame [OF that] close_endpoint_inv [OF _ that] sc [of ci ch] by (auto simp: dead_node_def)
  show ?thesis using assms(2) True s1(1) d rs rc sc ce
    by (auto simp: exit_handle_def close_and_reclaim_capability_locked_def Let_def bind_eq_Some_conv split: if_splits)
qed (use assms in \<open>simp add: exit_handle_def\<close>)

lemma dead_node_exit_mapping:
  assumes "dead_node ps i s" "exit_mapping g r pid j s = Some s'" shows "dead_node ps i s'"
proof -
  let ?t = "\<lambda>v. update_header (map_object (shm_mappings s j)) (\<lambda>h. h\<lparr>mapping_refs := mapping_refs h - 1\<rparr>)
    (put_vm v s\<lparr>shm_mappings := (shm_mappings s)(j := (shm_mappings s j)\<lparr>map_occupied := False\<rparr>)\<rparr>)"
  have "caps_inv (put_vm v s\<lparr>shm_mappings := M\<rparr>)" for v M using assms(1) by (simp add: dead_node_def caps_inv_def put_vm_def)
  then have "caps_inv (?t v)" for v by (rule caps_inv_header) simp
  then have d: "dead_node ps i (?t v)" for v using assms(1) by (simp add: dead_node_def) (simp add: update_header_def)
  have rs: "dead_node ps i s'" if "check_and_reclaim_shm_locked obj t = Some s'" "dead_node ps i t" for obj t
    using reclaim_shm_frame [OF that(1)] that(2) by (auto simp: dead_node_def)
  show ?thesis using assms d rs by (auto simp: exit_mapping_def Let_def bind_eq_Some_conv split: if_splits)
qed

lemma dead_node_panics:
  assumes "dead_node ps i s" "ps < 16" "i < 32"
  shows "process_exit_capability_cleanup_locked g r ps pid s = None"
proof (rule ccontr)
  assume "process_exit_capability_cleanup_locked g r ps pid s \<noteq> None"
  then obtain s1 s2 where s1: "foldM (exit_mapping g r pid) [0..<64] s = Some s1" and s2: "foldM (exit_handle ps) [0..<32] s1 = Some s2"
    and t: "teardown_complete ps s2"
    by (auto simp: process_exit_capability_cleanup_locked_def bind_eq_Some_conv split: if_splits)
  have "dead_node ps i s1" by (rule foldM_invariant [OF s1, of "dead_node ps i", OF assms(1)]) (rule dead_node_exit_mapping)
  then have "dead_node ps i s2" by (rule foldM_invariant [OF s2, of "dead_node ps i"]) (auto intro: dead_node_exit_handle simp: assms(2))
  then show False using t assms(3) by (simp add: teardown_complete_def dead_node_def list_all_iff)
qed

theorem exit_after_revoke_panics:
  assumes inv: "caps_inv s" and x: "live (entries s) x" "endpoint (entries s x) < 2" "rights (entries s x) AND CAP_REVOKE \<noteq> 0"
    and o: "obj_ready root (object_index (entries s x)) s" and y: "(derived_from s)\<^sup>+\<^sup>+ y x"
  shows "\<exists>n s'. capability_revoke_descendants_locked x s = Some (Ok n, s')
    \<and> (\<forall>pid. process_exit_capability_cleanup_locked g r (pslot y) pid s' = None)"
proof -
  obtain wl s' where s': "capability_revoke_descendants_locked x s = Some (Ok (length wl), s')" and rv: "revoking root s x (length wl) wl s'"
    using revoke_runs [OF inv x o] by blast
  have yw: "y \<in> set wl" "y \<noteq> x" "live (entries s) y" using revoked_set [OF inv x(1) rv] y rv by (auto simp: revoking_def)
  have "nodes s' y = revoked_node (nodes s y)" "entries s' y = invalidate_entry (entries s y)"
    using rv yw(1,2) unfolding revoking_def by - (elim conjE, simp)+
  moreover have "capability_id (nodes s y) \<noteq> 0" using inv cdtD(1) yw(3) by (fastforce simp: caps_inv_def local_ok_def)
  moreover have v: "Slot (pslot y) (hslot y) = y" "pslot y < 16" "hslot y < 32" using yw(3) by (simp_all add: live_def valid_slot_def)
  ultimately have "dead_node (pslot y) (hslot y) s'" using revoked_inv(1) [OF inv x(1) rv] by (simp add: dead_node_def revoked_node_def)
  then show ?thesis using s' dead_node_panics v by blast
qed

theorem exit_after_revoke_panics_witness:
  "\<exists>n s'. capability_revoke_descendants_locked (Slot 0 0) demo_tree = Some (Ok n, s')
    \<and> process_exit_capability_cleanup_locked demo_geom 24576 0 7 s' = None"
  using exit_after_revoke_panics [OF demo_tree_facts, of demo_geom 24576] by auto

end
