(* ===== verification/Elf.thy ===== *)
theory Elf
  imports UserPtr
begin

text \<open>
  \<open>types.rs\<close> and \<open>validate.rs\<close> of \<open>kernel/src/elf\<close>: the ELF header and program headers as they lie in the image, and the
  validation of an image before it is loaded. A read outside the image is \<open>None\<close>, and so is the dereference of a header pointer that is
  not aligned to eight bytes: it is undefined in Rust, and a build with debug assertions panics on it. The records have the
  fields that the validation reads; the array of segments with its count is the list of its first entries.
\<close>

unbundle bit_operations_syntax

section \<open>The file format\<close>

definition ELFMAG :: "u8 list" where "ELFMAG = [0x7F, 0x45, 0x4C, 0x46]"
definition ELFCLASS64 :: u8 where "ELFCLASS64 = 2"
definition ELFDATA2LSB :: u8 where "ELFDATA2LSB = 1"
definition ET_EXEC :: u16 where "ET_EXEC = 2"
definition EM_X86_64 :: u16 where "EM_X86_64 = 0x3E"
definition PT_LOAD :: u32 where "PT_LOAD = 1"
definition PT_NOTE :: u32 where "PT_NOTE = 4"
definition PT_PHDR :: u32 where "PT_PHDR = 6"
definition PT_GNU_STACK :: u32 where "PT_GNU_STACK = 0x6474E551"
definition PF_X :: u32 where "PF_X = 1"
definition PF_W :: u32 where "PF_W = 2"
definition PF_R :: u32 where "PF_R = 4"
definition MAX_PROGRAM_HEADERS :: nat where "MAX_PROGRAM_HEADERS = 16"
definition USER_STACK_SIZE :: u64 where "USER_STACK_SIZE = 16 * 1024"
definition USER_STACK_PAGES :: nat where "USER_STACK_PAGES = 4"
definition USER_STACK_TOP :: u64 where "USER_STACK_TOP = 0x7F7FFFFF0000"
definition USER_STACK_BASE :: u64 where "USER_STACK_BASE = USER_STACK_TOP - USER_STACK_SIZE"
definition USER_STACK_GUARD :: u64 where "USER_STACK_GUARD = USER_STACK_BASE - 4096"

record Elf64Ehdr =
  e_type :: u16
  e_machine :: u16
  e_version :: u32
  e_entry :: u64
  e_phoff :: u64
  e_ehsize :: u16
  e_phentsize :: u16
  e_phnum :: u16

record Elf64Phdr =
  p_type :: u32
  p_flags :: u32
  p_offset :: u64
  p_vaddr :: u64
  p_filesz :: u64
  p_memsz :: u64
  p_align :: u64

datatype ElfError = ImageTooSmall | InvalidMagic | UnsupportedClass | UnsupportedEndian | UnsupportedVersion | UnsupportedType
  | UnsupportedMachine | InvalidHeader | UnsupportedProgramHeader | ExecutableStackRejected | MalformedSegment | FileBoundsExceeded
  | VirtualAddressOverflow | OutOfUserBounds | InvalidAlignment | MisalignedOffsetCongruence | OverlappingSegments
  | PagePermissionConflict | WwxViolation | InvalidPermissions | InvalidEntryPoint | CapacityExceeded | ElfOutOfMemory | MappingFailed
  | StackCreationFailed | ProcessCreationFailed | ThreadCreationFailed

text \<open>The casts of the image to header structures: little-endian fields at the offsets of the C layout.\<close>

primrec le_nat :: "u8 list \<Rightarrow> nat" where
  "le_nat [] = 0"
| "le_nat (b # bs) = unat b + 256 * le_nat bs"

definition field :: "nat \<Rightarrow> nat \<Rightarrow> u8 list \<Rightarrow> 'w::len word option" where
  "field off n img = (if off + n \<le> length img then Some (word_of_nat (le_nat (take n (drop off img)))) else None)"

definition decode_ehdr :: "u8 list \<Rightarrow> Elf64Ehdr option" where
  "decode_ehdr img = do {
     ty \<leftarrow> field 16 2 img; machine \<leftarrow> field 18 2 img; version \<leftarrow> field 20 4 img; entry \<leftarrow> field 24 8 img;
     phoff \<leftarrow> field 32 8 img; ehsize \<leftarrow> field 52 2 img; phentsize \<leftarrow> field 54 2 img; phnum \<leftarrow> field 56 2 img;
     Some \<lparr>e_type = ty, e_machine = machine, e_version = version, e_entry = entry, e_phoff = phoff, e_ehsize = ehsize,
       e_phentsize = phentsize, e_phnum = phnum\<rparr>
   }"

definition decode_phdr :: "u8 list \<Rightarrow> nat \<Rightarrow> Elf64Phdr option" where
  "decode_phdr img off = do {
     ty \<leftarrow> field off 4 img; fl \<leftarrow> field (off + 4) 4 img; offset \<leftarrow> field (off + 8) 8 img; vaddr \<leftarrow> field (off + 16) 8 img;
     filesz \<leftarrow> field (off + 32) 8 img; memsz \<leftarrow> field (off + 40) 8 img; align \<leftarrow> field (off + 48) 8 img;
     Some \<lparr>p_type = ty, p_flags = fl, p_offset = offset, p_vaddr = vaddr, p_filesz = filesz, p_memsz = memsz, p_align = align\<rparr>
   }"

text \<open>The dereferences; \<open>base\<close> is the address of the image.\<close>

definition read_ehdr :: "nat \<Rightarrow> u8 list \<Rightarrow> Elf64Ehdr option" where
  "read_ehdr base img = (if 8 dvd base then decode_ehdr img else None)"

definition read_phdr :: "nat \<Rightarrow> u8 list \<Rightarrow> nat \<Rightarrow> Elf64Phdr option" where
  "read_phdr base img off = (if 8 dvd base + off then decode_phdr img off else None)"

section \<open>Validation\<close>

record ValidatedSegment =
  seg_flags :: u32
  seg_offset :: u64
  seg_vaddr :: u64
  seg_filesz :: u64
  seg_memsz :: u64
  page_start :: u64
  page_end :: u64

record ElfValidationSummary =
  entry_point :: u64
  segments :: "ValidatedSegment list"

definition is_power_of_two :: "u64 \<Rightarrow> bool" where
  "is_power_of_two a \<longleftrightarrow> a \<noteq> 0 \<and> a AND (a - 1) = 0"

text \<open>One loadable segment: the checks in the order of the code, up to the page range.\<close>

definition check_load :: "AddressSpaceGeometry \<Rightarrow> nat \<Rightarrow> Elf64Phdr \<Rightarrow> ElfError + ValidatedSegment" where
  "check_load g len ph =
     (case checked_add64 (p_offset ph) (p_filesz ph) of
        None \<Rightarrow> Err FileBoundsExceeded
      | Some file_end \<Rightarrow>
        if unat file_end > len then Err FileBoundsExceeded
        else if p_filesz ph > p_memsz ph then Err MalformedSegment
        else case checked_add64 (p_vaddr ph) (p_memsz ph) of
          None \<Rightarrow> Err VirtualAddressOverflow
        | Some mem_end \<Rightarrow>
          if p_vaddr ph < USER_VA_MIN \<or> mem_end > USER_VA_MAX_EXCLUSIVE then Err OutOfUserBounds
          else if \<not> is_canonical g (p_vaddr ph) \<or> p_memsz ph > 0 \<and> \<not> is_canonical g (mem_end - 1) then Err OutOfUserBounds
          else if p_align ph > 1 \<and> (\<not> is_power_of_two (p_align ph) \<or> p_align ph < 4096) then Err InvalidAlignment
          else if p_align ph > 1 \<and> p_vaddr ph mod p_align ph \<noteq> p_offset ph mod p_align ph then Err MisalignedOffsetCongruence
          else if p_vaddr ph mod 4096 \<noteq> p_offset ph mod 4096 then Err MisalignedOffsetCongruence
          else if p_flags ph AND PF_W \<noteq> 0 \<and> p_flags ph AND PF_X \<noteq> 0 then Err WwxViolation
          else if p_flags ph AND PF_R = 0 then Err InvalidPermissions
          else case checked_add64 mem_end 0xFFF of
            None \<Rightarrow> Err VirtualAddressOverflow
          | Some up \<Rightarrow>
            let pstart = p_vaddr ph AND NOT 0xFFF; pend = up AND NOT 0xFFF in
            if pstart < USER_STACK_TOP \<and> pend > USER_STACK_GUARD then Err OverlappingSegments
            else Ok \<lparr>seg_flags = p_flags ph, seg_offset = p_offset ph, seg_vaddr = p_vaddr ph, seg_filesz = p_filesz ph,
                      seg_memsz = p_memsz ph, page_start = pstart, page_end = pend\<rparr>)"

definition seg_overlaps :: "ValidatedSegment \<Rightarrow> ValidatedSegment \<Rightarrow> bool" where
  "seg_overlaps seg prev \<longleftrightarrow> page_start seg < page_end prev \<and> page_end seg > page_start prev"

definition covers_entry :: "u64 \<Rightarrow> ValidatedSegment \<Rightarrow> bool" where
  "covers_entry entry seg \<longleftrightarrow> seg_flags seg AND PF_X \<noteq> 0 \<and> entry \<ge> seg_vaddr seg \<and> entry < seg_vaddr seg + seg_memsz seg"

text \<open>The loop over the program headers; the state is the array of segments so far and whether one covers the entry point.\<close>

primrec process_headers :: "AddressSpaceGeometry \<Rightarrow> nat \<Rightarrow> u8 list \<Rightarrow> Elf64Ehdr \<Rightarrow> nat list \<Rightarrow> ValidatedSegment list \<times> bool
    \<Rightarrow> (ElfError + ValidatedSegment list \<times> bool) option" where
  "process_headers g base img ehdr [] st = Some (Ok st)"
| "process_headers g base img ehdr (i # is) st = do {
     ph \<leftarrow> read_phdr base img (unat (e_phoff ehdr) + i * 56);
     if p_type ph = PT_LOAD
     then (case check_load g (length img) ph of
             Inl e \<Rightarrow> Some (Err e)
           | Inr seg \<Rightarrow>
               if list_ex (seg_overlaps seg) (fst st) then Some (Err OverlappingSegments)
               else if length (fst st) \<ge> MAX_PROGRAM_HEADERS then None
               else process_headers g base img ehdr is (fst st @ [seg], snd st \<or> covers_entry (e_entry ehdr) seg))
     else if p_type ph = PT_PHDR \<or> p_type ph = PT_NOTE
     then (case checked_add64 (p_offset ph) (p_filesz ph) of
             None \<Rightarrow> Some (Err FileBoundsExceeded)
           | Some file_end \<Rightarrow>
               if unat file_end > length img then Some (Err FileBoundsExceeded) else process_headers g base img ehdr is st)
     else if p_type ph = PT_GNU_STACK
     then if p_flags ph AND PF_X \<noteq> 0 then Some (Err ExecutableStackRejected) else process_headers g base img ehdr is st
     else Some (Err UnsupportedProgramHeader)
   }"

definition validate_elf :: "AddressSpaceGeometry \<Rightarrow> nat \<Rightarrow> u8 list \<Rightarrow> (ElfError + ElfValidationSummary) option" where
  "validate_elf g base img =
     (if length img < 64 then Some (Err ImageTooSmall)
      else if take 4 img \<noteq> ELFMAG then Some (Err InvalidMagic)
      else if img ! 4 \<noteq> ELFCLASS64 then Some (Err UnsupportedClass)
      else if img ! 5 \<noteq> ELFDATA2LSB then Some (Err UnsupportedEndian)
      else if img ! 6 \<noteq> 1 then Some (Err UnsupportedVersion)
      else do {
        ehdr \<leftarrow> read_ehdr base img;
        if e_type ehdr \<noteq> ET_EXEC then Some (Err UnsupportedType)
        else if e_machine ehdr \<noteq> EM_X86_64 then Some (Err UnsupportedMachine)
        else if e_version ehdr \<noteq> 1 then Some (Err UnsupportedVersion)
        else if e_ehsize ehdr \<noteq> 64 \<or> e_phentsize ehdr \<noteq> 56 then Some (Err InvalidHeader)
        else if e_phnum ehdr = 0 \<or> unat (e_phnum ehdr) > MAX_PROGRAM_HEADERS then Some (Err InvalidHeader)
        else case checked_add64 (e_phoff ehdr) (word_of_nat (unat (e_phnum ehdr) * 56)) of
          None \<Rightarrow> Some (Err FileBoundsExceeded)
        | Some ph_table_end \<Rightarrow>
          if unat ph_table_end > length img then Some (Err FileBoundsExceeded)
          else do {
            r \<leftarrow> process_headers g base img ehdr [0..<unat (e_phnum ehdr)] ([], False);
            case r of
              Inl e \<Rightarrow> Some (Err e)
            | Inr (segs, entry_covered) \<Rightarrow>
                if segs = [] then Some (Err MalformedSegment)
                else if \<not> is_canonical g (e_entry ehdr) \<or> e_entry ehdr < USER_VA_MIN \<or> e_entry ehdr \<ge> USER_VA_MAX_EXCLUSIVE
                   \<or> \<not> entry_covered
                then Some (Err InvalidEntryPoint)
                else Some (Ok \<lparr>entry_point = e_entry ehdr, segments = segs\<rparr>)
          }
      })"

section \<open>What a valid image is\<close>

text \<open>The declarative counterpart: which program headers are acceptable, and which images.\<close>

definition load_ok :: "nat \<Rightarrow> Elf64Phdr \<Rightarrow> bool" where
  "load_ok len ph \<longleftrightarrow> (let off = unat (p_offset ph); fsz = unat (p_filesz ph); v = unat (p_vaddr ph); msz = unat (p_memsz ph); al = unat (p_align ph) in
     off + fsz \<le> len \<and> fsz \<le> msz \<and> 0x200000 \<le> v \<and> v + msz \<le> 0x7F8000000000
     \<and> (al \<le> 1 \<or> (\<exists>k\<ge>12. al = 2 ^ k) \<and> v mod al = off mod al) \<and> v mod 4096 = off mod 4096
     \<and> (p_flags ph AND PF_W = 0 \<or> p_flags ph AND PF_X = 0) \<and> p_flags ph AND PF_R \<noteq> 0
     \<and> (0x7F7FFFFF0000 \<le> v div 4096 * 4096 \<or> (v + msz + 4095) div 4096 * 4096 \<le> 0x7F7FFFFEB000))"

definition segment_of :: "Elf64Phdr \<Rightarrow> ValidatedSegment" where
  "segment_of ph = \<lparr>seg_flags = p_flags ph, seg_offset = p_offset ph, seg_vaddr = p_vaddr ph, seg_filesz = p_filesz ph, seg_memsz = p_memsz ph,
     page_start = p_vaddr ph AND NOT 0xFFF, page_end = (p_vaddr ph + p_memsz ph + 0xFFF) AND NOT 0xFFF\<rparr>"

definition header_ok :: "nat \<Rightarrow> Elf64Phdr \<Rightarrow> bool" where
  "header_ok len ph \<longleftrightarrow>
     (if p_type ph = PT_LOAD then load_ok len ph
      else if p_type ph = PT_PHDR \<or> p_type ph = PT_NOTE then unat (p_offset ph) + unat (p_filesz ph) \<le> len
      else p_type ph = PT_GNU_STACK \<and> p_flags ph AND PF_X = 0)"

definition loads :: "Elf64Phdr list \<Rightarrow> ValidatedSegment list" where
  "loads phs = map segment_of (filter (\<lambda>ph. p_type ph = PT_LOAD) phs)"

definition apart :: "ValidatedSegment \<Rightarrow> ValidatedSegment \<Rightarrow> bool" where
  "apart a b \<longleftrightarrow> page_end a \<le> page_start b \<or> page_end b \<le> page_start a"

definition headers :: "u8 list \<Rightarrow> Elf64Ehdr \<Rightarrow> Elf64Phdr list" where
  "headers img eh = map (\<lambda>i. the (decode_phdr img (unat (e_phoff eh) + i * 56))) [0..<unat (e_phnum eh)]"

definition ident_ok :: "u8 list \<Rightarrow> bool" where
  "ident_ok img \<longleftrightarrow> 64 \<le> length img \<and> take 4 img = ELFMAG \<and> img ! 4 = ELFCLASS64 \<and> img ! 5 = ELFDATA2LSB \<and> img ! 6 = 1"

definition table_ok :: "nat \<Rightarrow> Elf64Ehdr \<Rightarrow> bool" where
  "table_ok len eh \<longleftrightarrow> e_type eh = ET_EXEC \<and> e_machine eh = EM_X86_64 \<and> e_version eh = 1 \<and> e_ehsize eh = 64 \<and> e_phentsize eh = 56
     \<and> 1 \<le> unat (e_phnum eh) \<and> unat (e_phnum eh) \<le> 16 \<and> unat (e_phoff eh) + unat (e_phnum eh) * 56 \<le> len"

definition headers_ok :: "u8 list \<Rightarrow> Elf64Ehdr \<Rightarrow> bool" where
  "headers_ok img eh \<longleftrightarrow> list_all (header_ok (length img)) (headers img eh) \<and> sorted_wrt apart (loads (headers img eh))
     \<and> list_ex (covers_entry (e_entry eh)) (loads (headers img eh))"

definition elf_ok :: "u8 list \<Rightarrow> bool" where
  "elf_ok img \<longleftrightarrow> ident_ok img \<and> (let eh = the (decode_ehdr img) in table_ok (length img) eh \<and> headers_ok img eh)"

text \<open>The images on which the validation reaches a header that is not aligned.\<close>

definition misaligned :: "nat \<Rightarrow> u8 list \<Rightarrow> bool" where
  "misaligned base img \<longleftrightarrow> ident_ok img \<and> (let eh = the (decode_ehdr img) in
     \<not> 8 dvd base \<or> table_ok (length img) eh \<and> \<not> 8 dvd unat (e_phoff eh))"

lemma power_of_two_iff: "is_power_of_two a \<longleftrightarrow> (\<exists>k. unat a = 2 ^ k)"
proof
  assume a: "is_power_of_two a"
  then have "1 \<le> unat a" by (simp add: is_power_of_two_def unat_gt_0 Suc_le_eq)
  then obtain k where k: "2 ^ k \<le> unat a" "unat a < 2 ^ (k + 1)" using ex_power_ivl1 [of 2 "unat a"] by auto
  have b: "bit n k" if "2 ^ k \<le> n" "n < 2 ^ (k + 1)" for n :: nat
  proof -
    have "n div 2 ^ k = 1" using that by (intro div_nat_eqI) simp_all
    then show ?thesis by (simp add: bit_iff_odd)
  qed
  have "unat a = 2 ^ k"
  proof (rule ccontr)
    assume "unat a \<noteq> 2 ^ k"
    then have "2 ^ k \<le> unat a - 1" "unat a - 1 < 2 ^ (k + 1)" using k by simp_all
    moreover have "unat (a - 1) = unat a - 1" using a by (simp add: is_power_of_two_def unat_minus_one)
    ultimately have "bit (unat a) k" "bit (unat (a - 1)) k" using b [OF k] b [of "unat (a - 1)"] by simp_all
    then have "bit a k" "bit (a - 1) k" by (simp_all only: bit_unsigned_iff)
    then have "bit (a AND (a - 1)) k" by (simp add: bit_and_iff)
    then show False using a by (simp add: is_power_of_two_def)
  qed
  then show "\<exists>k. unat a = 2 ^ k" ..
next
  assume "\<exists>k. unat a = 2 ^ k"
  then obtain k where k: "unat a = 2 ^ k" ..
  have "a = word_of_nat (unat a)" by simp
  then have e: "a = 2 ^ k" unfolding k by simp
  have "(2 ^ k :: u64) AND (2 ^ k - 1) = 0" unfolding mask_eq_exp_minus_1 [symmetric]
    by (rule bit_word_eqI) (auto simp: bit_simps)
  moreover have "a \<noteq> 0" using k by auto
  ultimately show "is_power_of_two a" by (simp add: is_power_of_two_def e)
qed

lemma checked_add_Some: "unat a + unat b < 2 ^ 64 \<Longrightarrow> checked_add64 a b = Some (a + b) \<and> unat (a + b) = unat a + unat b"
  by (simp add: checked_add64_def unat_word_ariths)

lemma checked_add_None: "\<not> unat a + unat b < 2 ^ 64 \<Longrightarrow> checked_add64 a b = None"
  by (simp add: checked_add64_def)

lemma unat_page_of: "unat (v AND NOT 0xFFF) = unat v div 4096 * 4096" for v :: u64
proof -
  have "unat v < 2 ^ 64" using unsigned_less [of v] by simp
  then have "unat v div 4096 < 2 ^ 52" by (simp add: div_less_iff_less_mult)
  from unat_page [OF this] show ?thesis unfolding page_of by simp
qed

lemma big_power: "(\<exists>k\<ge>12. n = 2 ^ k) \<longleftrightarrow> (\<exists>k. n = 2 ^ k) \<and> 4096 \<le> n" for n :: nat
proof -
  have "12 \<le> k \<longleftrightarrow> (4096 :: nat) \<le> 2 ^ k" for k using power_increasing_iff [of "2 :: nat" 12 k] by simp
  then show ?thesis by auto
qed

lemma unat_mod_eq: "a mod b = c mod d \<longleftrightarrow> unat a mod unat b = unat c mod unat d" for a b c d :: u64
  by (simp add: word_unat_eq_iff unat_mod_distrib)

lemma check_load_exact:
  assumes len: "len < 2 ^ 64" and g: "virtual_bits g = 48"
  shows "if load_ok len ph then check_load g len ph = Ok (segment_of ph) else \<exists>e. check_load g len ph = Err e"
proof -
  let ?off = "unat (p_offset ph)" let ?fsz = "unat (p_filesz ph)" let ?v = "unat (p_vaddr ph)" let ?msz = "unat (p_memsz ph)" let ?al = "unat (p_align ph)"
  show ?thesis
  proof (cases "?off + ?fsz \<le> len \<and> ?fsz \<le> ?msz \<and> 0x200000 \<le> ?v \<and> ?v + ?msz \<le> 0x7F8000000000")
    case False
    then have "\<not> load_ok len ph" by (auto simp: load_ok_def Let_def)
    moreover have "\<exists>e. check_load g len ph = Err e"
    proof (cases "?off + ?fsz < 2 ^ 64")
      case t: True
      show ?thesis
      proof (cases "?v + ?msz < 2 ^ 64")
        case True
        have "unat (p_offset ph + p_filesz ph) > len \<or> p_filesz ph > p_memsz ph \<or> p_vaddr ph < USER_VA_MIN \<or> p_vaddr ph + p_memsz ph > USER_VA_MAX_EXCLUSIVE"
          using False checked_add_Some [OF t] checked_add_Some [OF True]
          by (auto simp: word_less_nat_alt USER_VA_MIN_def USER_VA_MAX_EXCLUSIVE_def)
        then show ?thesis using checked_add_Some [OF t] checked_add_Some [OF True] by (auto simp: check_load_def)
      qed (use checked_add_Some [OF t] checked_add_None in \<open>auto simp: check_load_def\<close>)
    qed (use checked_add_None in \<open>auto simp: check_load_def\<close>)
    ultimately show ?thesis by simp
  next
    case True
    have a1: "checked_add64 (p_offset ph) (p_filesz ph) = Some (p_offset ph + p_filesz ph)" "unat (p_offset ph + p_filesz ph) = ?off + ?fsz"
      using checked_add_Some [of "p_offset ph" "p_filesz ph"] True len by auto
    have a2: "checked_add64 (p_vaddr ph) (p_memsz ph) = Some (p_vaddr ph + p_memsz ph)" "unat (p_vaddr ph + p_memsz ph) = ?v + ?msz"
      using checked_add_Some [of "p_vaddr ph" "p_memsz ph"] True by auto
    have a3: "checked_add64 (p_vaddr ph + p_memsz ph) 0xFFF = Some (p_vaddr ph + p_memsz ph + 0xFFF)" "unat (p_vaddr ph + p_memsz ph + 0xFFF) = ?v + ?msz + 4095"
      using checked_add_Some [of "p_vaddr ph + p_memsz ph" "0xFFF"] a2(2) True by auto
    have c1: "is_canonical g (p_vaddr ph)" using True g by (intro low_canonical) auto
    have c2: "is_canonical g (p_vaddr ph + p_memsz ph - 1)" if "p_memsz ph > 0"
    proof -
      have "p_vaddr ph + p_memsz ph \<noteq> 0" using a2(2) True by (metis unsigned_0 add_is_0 not_numeral_le_zero)
      then have "unat (p_vaddr ph + p_memsz ph - 1) = ?v + ?msz - 1" using a2(2) by (simp add: unat_minus_one)
      then show ?thesis using True g by (intro low_canonical) auto
    qed
    have cc: "\<not> (\<not> is_canonical g (p_vaddr ph) \<or> p_memsz ph > 0 \<and> \<not> is_canonical g (p_vaddr ph + p_memsz ph - 1))" using c1 c2 by blast
    have w: "\<not> p_filesz ph > p_memsz ph" "\<not> (p_vaddr ph < USER_VA_MIN \<or> p_vaddr ph + p_memsz ph > USER_VA_MAX_EXCLUSIVE)" "\<not> unat (p_offset ph + p_filesz ph) > len"
      using True a1 a2 by (auto simp: word_less_nat_alt USER_VA_MIN_def USER_VA_MAX_EXCLUSIVE_def)
    have al: "p_align ph > 1 \<longleftrightarrow> 1 < ?al" "is_power_of_two (p_align ph) \<longleftrightarrow> (\<exists>k. ?al = 2 ^ k)" "p_align ph < 4096 \<longleftrightarrow> ?al < 4096"
      "p_vaddr ph mod p_align ph = p_offset ph mod p_align ph \<longleftrightarrow> ?v mod ?al = ?off mod ?al"
      "p_vaddr ph mod 4096 = p_offset ph mod 4096 \<longleftrightarrow> ?v mod 4096 = ?off mod 4096"
      by (simp_all add: word_less_nat_alt power_of_two_iff unat_mod_eq)
    have st: "p_vaddr ph AND NOT 0xFFF < USER_STACK_TOP \<longleftrightarrow> \<not> 0x7F7FFFFF0000 \<le> ?v div 4096 * 4096"
      "(p_vaddr ph + p_memsz ph + 0xFFF) AND NOT 0xFFF > USER_STACK_GUARD \<longleftrightarrow> \<not> (?v + ?msz + 4095) div 4096 * 4096 \<le> 0x7F7FFFFEB000"
      unfolding word_less_nat_alt unat_page_of a3(2)
      by (simp_all add: USER_STACK_TOP_def USER_STACK_GUARD_def USER_STACK_BASE_def USER_STACK_SIZE_def not_le)
    have ok: "load_ok len ph \<longleftrightarrow> (1 < ?al \<longrightarrow> (\<exists>k. ?al = 2 ^ k) \<and> 4096 \<le> ?al \<and> ?v mod ?al = ?off mod ?al) \<and> ?v mod 4096 = ?off mod 4096
      \<and> \<not> (p_flags ph AND PF_W \<noteq> 0 \<and> p_flags ph AND PF_X \<noteq> 0) \<and> p_flags ph AND PF_R \<noteq> 0
      \<and> \<not> (\<not> 0x7F7FFFFF0000 \<le> ?v div 4096 * 4096 \<and> \<not> (?v + ?msz + 4095) div 4096 * 4096 \<le> 0x7F7FFFFEB000)"
      unfolding load_ok_def Let_def big_power not_less [of 1 ?al, symmetric] using True by blast
    have "check_load g len ph =
       (if 1 < ?al \<and> (\<not> (\<exists>k. ?al = 2 ^ k) \<or> ?al < 4096) then Err InvalidAlignment
        else if 1 < ?al \<and> ?v mod ?al \<noteq> ?off mod ?al then Err MisalignedOffsetCongruence
        else if ?v mod 4096 \<noteq> ?off mod 4096 then Err MisalignedOffsetCongruence
        else if p_flags ph AND PF_W \<noteq> 0 \<and> p_flags ph AND PF_X \<noteq> 0 then Err WwxViolation
        else if p_flags ph AND PF_R = 0 then Err InvalidPermissions
        else if \<not> 0x7F7FFFFF0000 \<le> ?v div 4096 * 4096 \<and> \<not> (?v + ?msz + 4095) div 4096 * 4096 \<le> 0x7F7FFFFEB000 then Err OverlappingSegments
        else Ok (segment_of ph))"
      unfolding check_load_def a1(1) a2(1) a3(1) option.case Let_def if_not_P [OF w(1)] if_not_P [OF w(2)] if_not_P [OF w(3)] if_not_P [OF cc] al st
        segment_of_def by (rule refl)
    then show ?thesis unfolding ok not_less [of ?al 4096, symmetric] by (simp split: if_split)
  qed
qed

section \<open>The loop over the headers\<close>

lemma apart_iff: "apart a b \<longleftrightarrow> \<not> seg_overlaps b a"
  by (auto simp: apart_def seg_overlaps_def)

lemma loads_Cons: "loads (ph # phs) = (if p_type ph = PT_LOAD then segment_of ph # loads phs else loads phs)"
  by (simp add: loads_def)

lemma process_headers_exact:
  assumes len: "length img < 2 ^ 64" and g: "virtual_bits g = 48"
    and rd: "\<And>i. i \<in> set is \<Longrightarrow> read_phdr base img (unat (e_phoff eh) + i * 56) = Some (ph i)"
    and n: "length segs + length is \<le> 16" and ap: "sorted_wrt apart segs"
  shows "\<exists>res. process_headers g base img eh is (segs, cov) = Some res \<and>
    (let new = loads (map ph is); good = list_all (header_ok (length img)) (map ph is) \<and> sorted_wrt apart (segs @ new) in
     case res of Inl _ \<Rightarrow> \<not> good | Inr st \<Rightarrow> good \<and> st = (segs @ new, cov \<or> list_ex (covers_entry (e_entry eh)) new))"
  using rd n ap
proof (induction "is" arbitrary: segs cov)
  case Nil
  then show ?case by (simp add: loads_def)
next
  case (Cons i "is")
  let ?ph = "ph i" let ?len = "length img"
  have r: "read_phdr base img (unat (e_phoff eh) + i * 56) = Some ?ph" using Cons.prems(1) by simp
  have rd: "\<And>j. j \<in> set is \<Longrightarrow> read_phdr base img (unat (e_phoff eh) + j * 56) = Some (ph j)" using Cons.prems(1) by simp
  show ?case
  proof (cases "header_ok ?len ?ph")
    case False
    have "\<exists>e. process_headers g base img eh (i # is) (segs, cov) = Some (Err e)"
    proof (cases "p_type ?ph = PT_LOAD")
      case True
      then have "\<not> load_ok ?len ?ph" using False by (simp add: header_ok_def)
      then show ?thesis using check_load_exact [OF len g, of ?ph] True r by auto
    next
      case nl: False
      show ?thesis
      proof (cases "p_type ?ph = PT_PHDR \<or> p_type ?ph = PT_NOTE")
        case True
        then have "\<not> unat (p_offset ?ph) + unat (p_filesz ?ph) \<le> ?len" using False nl by (simp add: header_ok_def)
        then show ?thesis using True nl r by (cases "unat (p_offset ?ph) + unat (p_filesz ?ph) < 2 ^ 64") (auto simp: checked_add_Some checked_add_None)
      qed (use False nl r in \<open>auto simp: header_ok_def\<close>)
    qed
    then show ?thesis using False by auto
  next
    case True
    have next_eq: "process_headers g base img eh (i # is) (segs, cov) = process_headers g base img eh is (segs, cov)" if "p_type ?ph \<noteq> PT_LOAD"
    proof (cases "p_type ?ph = PT_PHDR \<or> p_type ?ph = PT_NOTE")
      case t: True
      then have le: "unat (p_offset ?ph) + unat (p_filesz ?ph) \<le> ?len" using True that by (simp add: header_ok_def)
      then have "unat (p_offset ?ph) + unat (p_filesz ?ph) < 2 ^ 64" using len by simp
      then show ?thesis using t that r le by (simp add: checked_add_Some)
    qed (use True that r in \<open>simp add: header_ok_def\<close>)
    show ?thesis
    proof (cases "p_type ?ph = PT_LOAD")
      case False
      then have l: "loads (map ph (i # is)) = loads (map ph is)" by (simp add: loads_Cons)
      have "length segs + length is \<le> 16" using Cons.prems(2) by simp
      from Cons.IH [OF rd this Cons.prems(3), of cov] show ?thesis unfolding next_eq [OF False] l using True by simp
    next
      case ld: True
      then have c: "check_load g ?len ?ph = Ok (segment_of ?ph)" using check_load_exact [OF len g, of ?ph] True by (simp add: header_ok_def)
      show ?thesis
      proof (cases "list_ex (seg_overlaps (segment_of ?ph)) segs")
        case ov: True
        then have "\<not> sorted_wrt apart (segs @ loads (map ph (i # is)))"
          using ld by (auto simp: loads_Cons sorted_wrt_append list_ex_iff apart_iff)
        moreover have "process_headers g base img eh (i # is) (segs, cov) = Some (Err OverlappingSegments)" using r ld c ov by simp
        ultimately show ?thesis by (simp add: Let_def)
      next
        case no: False
        have ap': "sorted_wrt apart (segs @ [segment_of ?ph])" using Cons.prems(3) no by (simp add: sorted_wrt_append list_ex_iff) (simp add: apart_iff)
        have e: "process_headers g base img eh (i # is) (segs, cov) = process_headers g base img eh is (segs @ [segment_of ?ph], cov \<or> covers_entry (e_entry eh) (segment_of ?ph))"
          using r ld c no Cons.prems(2) by (simp add: MAX_PROGRAM_HEADERS_def)
        have "length (segs @ [segment_of ?ph]) + length is \<le> 16" using Cons.prems(2) by simp
        note ih = Cons.IH [OF rd this ap', of "cov \<or> covers_entry (e_entry eh) (segment_of ?ph)"]
        have l: "loads (map ph (i # is)) = segment_of ?ph # loads (map ph is)"
          "list_all (header_ok ?len) (map ph (i # is)) = list_all (header_ok ?len) (map ph is)" "list_ex P (segment_of ?ph # segs) = (P (segment_of ?ph) \<or> list_ex P segs)" for P segs
          using ld True by (simp_all add: loads_Cons)
        show ?thesis using ih unfolding e l Let_def append_assoc append_Cons append_Nil disj_assoc .
      qed
    qed
  qed
qed

lemma field_Some: "off + n \<le> length img \<Longrightarrow> \<exists>w. field off n img = Some (w :: 'w::len word)"
  by (simp add: field_def)

lemma decode_ehdr_Some: "64 \<le> length img \<Longrightarrow> \<exists>eh. decode_ehdr img = Some eh"
  by (simp add: decode_ehdr_def field_def)

lemma decode_phdr_Some: "off + 56 \<le> length img \<Longrightarrow> \<exists>ph. decode_phdr img off = Some ph"
  by (simp add: decode_phdr_def field_def)

lemma entry_in_bounds:
  assumes "list_all (header_ok len) phs" "list_ex (covers_entry x) (loads phs)" "virtual_bits g = 48"
  shows "is_canonical g x" "\<not> x < USER_VA_MIN" "\<not> x \<ge> USER_VA_MAX_EXCLUSIVE"
proof -
  obtain ph where ph: "load_ok len ph" "covers_entry x (segment_of ph)"
    using assms(1,2) by (auto simp: list_ex_iff list_all_iff loads_def header_ok_def)
  have b: "0x200000 \<le> unat (p_vaddr ph)" "unat (p_vaddr ph) + unat (p_memsz ph) \<le> 0x7F8000000000" using ph(1) by (simp_all add: load_ok_def Let_def)
  have "unat (p_vaddr ph + p_memsz ph) = unat (p_vaddr ph) + unat (p_memsz ph)" using checked_add_Some [of "p_vaddr ph" "p_memsz ph"] b(2) by simp
  then have x: "unat (p_vaddr ph) \<le> unat x" "unat x < unat (p_vaddr ph) + unat (p_memsz ph)"
    using ph(2) by (simp_all add: covers_entry_def segment_of_def word_le_nat_alt word_less_nat_alt)
  then show "is_canonical g x" using b(2) assms(3) by (intro low_canonical) simp_all
  show "\<not> x < USER_VA_MIN" "\<not> x \<ge> USER_VA_MAX_EXCLUSIVE" using x b by (simp_all add: word_le_nat_alt word_less_nat_alt USER_VA_MIN_def USER_VA_MAX_EXCLUSIVE_def)
qed

section \<open>Validation in three stages\<close>

lemma validate_elf_ident: "\<not> ident_ok img \<Longrightarrow> \<exists>e. validate_elf g base img = Some (Err e)"
  by (auto simp: validate_elf_def ident_ok_def not_less)

lemma validate_elf_unaligned: "ident_ok img \<Longrightarrow> \<not> 8 dvd base \<Longrightarrow> validate_elf g base img = None"
  by (simp add: validate_elf_def ident_ok_def read_ehdr_def not_less)

lemma phnum_bytes: "unat (e_phnum eh) \<le> 16 \<Longrightarrow> unat (word_of_nat (unat (e_phnum eh) * 56) :: u64) = unat (e_phnum eh) * 56"
  unfolding unat_of_nat by simp

lemma phnum_zero: "e_phnum eh = 0 \<longleftrightarrow> unat (e_phnum eh) = 0"
  by (simp add: unat_eq_0)

lemma validate_elf_table:
  assumes id: "ident_ok img" "8 dvd base" and eh: "decode_ehdr img = Some eh" and bad: "\<not> table_ok (length img) eh"
  shows "\<exists>e. validate_elf g base img = Some (Err e)"
proof (cases "unat (e_phnum eh) \<le> 16")
  case n: True
  show ?thesis
  proof (cases "unat (e_phoff eh) + unat (e_phnum eh) * 56 < 2 ^ 64")
    case True
    then show ?thesis using id eh bad n checked_add_Some [of "e_phoff eh" "word_of_nat (unat (e_phnum eh) * 56)"] phnum_bytes [OF n] phnum_zero [of eh]
      by (auto simp: validate_elf_def read_ehdr_def ident_ok_def table_ok_def MAX_PROGRAM_HEADERS_def)
  qed (use id eh checked_add_None [of "e_phoff eh" "word_of_nat (unat (e_phnum eh) * 56)"] phnum_bytes [OF n] in
      \<open>auto simp: validate_elf_def read_ehdr_def ident_ok_def\<close>)
qed (use id eh in \<open>auto simp: validate_elf_def read_ehdr_def ident_ok_def MAX_PROGRAM_HEADERS_def\<close>)

definition finish :: "AddressSpaceGeometry \<Rightarrow> Elf64Ehdr \<Rightarrow> ElfError + ValidatedSegment list \<times> bool \<Rightarrow> (ElfError + ElfValidationSummary) option" where
  "finish g eh res = (case res of
      Inl e \<Rightarrow> Some (Err e)
    | Inr (segs, entry_covered) \<Rightarrow>
        if segs = [] then Some (Err MalformedSegment)
        else if \<not> is_canonical g (e_entry eh) \<or> e_entry eh < USER_VA_MIN \<or> e_entry eh \<ge> USER_VA_MAX_EXCLUSIVE \<or> \<not> entry_covered
        then Some (Err InvalidEntryPoint)
        else Some (Ok \<lparr>entry_point = e_entry eh, segments = segs\<rparr>))"

lemma validate_elf_loop:
  assumes "ident_ok img" "8 dvd base" "decode_ehdr img = Some eh" "table_ok (length img) eh" "length img < 2 ^ 64"
  shows "validate_elf g base img = Option.bind (process_headers g base img eh [0..<unat (e_phnum eh)] ([], False)) (finish g eh)"
  using assms phnum_bytes [of eh] phnum_zero [of eh] checked_add_Some [of "e_phoff eh" "word_of_nat (unat (e_phnum eh) * 56)"]
  by (simp add: validate_elf_def finish_def [abs_def] read_ehdr_def ident_ok_def table_ok_def MAX_PROGRAM_HEADERS_def)

lemma process_headers_unaligned:
  assumes "8 dvd base" "\<not> 8 dvd unat (e_phoff eh)" "1 \<le> n"
  shows "process_headers g base img eh [0..<n] st = None"
  using assms by (simp add: upt_conv_Cons read_phdr_def dvd_add_right_iff)

lemma read_phdr_Some:
  assumes "table_ok (length img) eh" "8 dvd base" "8 dvd unat (e_phoff eh)" "i \<in> set [0..<unat (e_phnum eh)]"
  shows "read_phdr base img (unat (e_phoff eh) + i * 56) = Some (the (decode_phdr img (unat (e_phoff eh) + i * 56)))"
proof -
  have "i + 1 \<le> unat (e_phnum eh)" using assms(4) by simp
  then have "(i + 1) * 56 \<le> unat (e_phnum eh) * 56" by (rule mult_le_mono1)
  then have "unat (e_phoff eh) + i * 56 + 56 \<le> length img" using assms(1) by (simp add: table_ok_def)
  then obtain ph where "decode_phdr img (unat (e_phoff eh) + i * 56) = Some ph" using decode_phdr_Some by blast
  moreover have "8 dvd i * 56" by (rule dvd_mult) simp
  then have "8 dvd base + (unat (e_phoff eh) + i * 56)" using assms(2,3) by (intro dvd_add)
  ultimately show ?thesis by (simp add: read_phdr_def)
qed

lemma finish_exact:
  assumes "virtual_bits g = 48" "case res of
      Inl _ \<Rightarrow> \<not> (list_all (header_ok (length img)) (headers img eh) \<and> sorted_wrt apart (loads (headers img eh)))
    | Inr st \<Rightarrow> (list_all (header_ok (length img)) (headers img eh) \<and> sorted_wrt apart (loads (headers img eh)))
        \<and> st = (loads (headers img eh), list_ex (covers_entry (e_entry eh)) (loads (headers img eh)))"
  shows "\<exists>r. finish g eh res = Some r \<and> (case r of Inl _ \<Rightarrow> \<not> headers_ok img eh
    | Inr sm \<Rightarrow> headers_ok img eh \<and> entry_point sm = e_entry eh \<and> segments sm = loads (headers img eh))"
proof (cases res)
  case (Inl x) then show ?thesis using assms(2) by (auto simp: finish_def headers_ok_def)
next
  case (Inr st)
  then have st: "list_all (header_ok (length img)) (headers img eh)" "sorted_wrt apart (loads (headers img eh))"
    "st = (loads (headers img eh), list_ex (covers_entry (e_entry eh)) (loads (headers img eh)))" using assms(2) by simp_all
  show ?thesis
  proof (cases "list_ex (covers_entry (e_entry eh)) (loads (headers img eh))")
    case True
    then have "loads (headers img eh) \<noteq> []" by auto
    then show ?thesis using Inr st True entry_in_bounds [OF st(1) True assms(1)] by (simp add: finish_def headers_ok_def)
  qed (use Inr st in \<open>auto simp: finish_def headers_ok_def\<close>)
qed

lemma validate_elf_headers:
  assumes "ident_ok img" "8 dvd base" "decode_ehdr img = Some eh" "table_ok (length img) eh" "8 dvd unat (e_phoff eh)"
    and len: "length img < 2 ^ 64" and g: "virtual_bits g = 48"
  shows "\<exists>r. validate_elf g base img = Some r \<and> (case r of Inl _ \<Rightarrow> \<not> headers_ok img eh
    | Inr sm \<Rightarrow> headers_ok img eh \<and> entry_point sm = e_entry eh \<and> segments sm = loads (headers img eh))"
proof -
  let ?ph = "\<lambda>i. the (decode_phdr img (unat (e_phoff eh) + i * 56))" let ?is = "[0..<unat (e_phnum eh)]"
  have h: "map ?ph ?is = headers img eh" by (simp add: headers_def)
  have pre: "length ([] :: ValidatedSegment list) + length ?is \<le> 16" "sorted_wrt apart []" "(False \<or> P) = P" for P
    using assms(4) by (simp_all add: table_ok_def)
  obtain res where p: "process_headers g base img eh ?is ([], False) = Some res"
    and c: "case res of Inl _ \<Rightarrow> \<not> (list_all (header_ok (length img)) (headers img eh) \<and> sorted_wrt apart (loads (headers img eh)))
      | Inr st \<Rightarrow> (list_all (header_ok (length img)) (headers img eh) \<and> sorted_wrt apart (loads (headers img eh)))
          \<and> st = (loads (headers img eh), list_ex (covers_entry (e_entry eh)) (loads (headers img eh)))"
    using process_headers_exact [OF len g, of ?is base eh ?ph "[]" False, OF read_phdr_Some [OF assms(4,2,5)] pre(1,2)]
    unfolding h Let_def append_Nil pre(3) by blast
  show ?thesis unfolding validate_elf_loop [OF assms(1-4) len] p bind.bind_lunit using finish_exact [OF g c] .
qed

section \<open>Properties\<close>

text \<open>C13: the validation of an executable accepts exactly the well-formed images. For every image, whatever its bytes, it reads only
  inside the image, and it panics exactly when it reaches a header that is not aligned to eight bytes. Otherwise it accepts the image
  if and only if the header is that of a 64-bit x86 executable, its
  table of at most sixteen program headers lies in the image, every header is acceptable, the pages of the loadable segments do
  not overlap, and an executable segment contains the entry point. An acceptable loadable segment lies in the image and in the user
  addresses, outside the stack and its guard page, is readable, is not both writable and executable, and its address and
  file offset agree modulo the page size and its alignment. The summary lists the loadable segments in order.\<close>

theorem validate_elf_exact:
  assumes "length img < 2 ^ 64" "virtual_bits g = 48"
  shows "case validate_elf g base img of
       None \<Rightarrow> misaligned base img
     | Some (Inl _) \<Rightarrow> \<not> misaligned base img \<and> \<not> elf_ok img
     | Some (Inr sm) \<Rightarrow> \<not> misaligned base img \<and> elf_ok img \<and> entry_point sm = e_entry (the (decode_ehdr img))
         \<and> segments sm = loads (headers img (the (decode_ehdr img)))"
proof (cases "ident_ok img \<and> 8 dvd base")
  case False
  then show ?thesis using validate_elf_ident [of img g base] validate_elf_unaligned [of img base g]
    by (cases "ident_ok img") (auto simp: elf_ok_def misaligned_def)
next
  case id: True
  then obtain eh where eh: "decode_ehdr img = Some eh" using decode_ehdr_Some [of img] by (auto simp: ident_ok_def)
  show ?thesis
  proof (cases "table_ok (length img) eh \<and> 8 dvd unat (e_phoff eh)")
    case True
    with validate_elf_headers [OF _ _ eh _ _ assms, of base] id obtain r where "validate_elf g base img = Some r"
      "case r of Inl _ \<Rightarrow> \<not> headers_ok img eh | Inr sm \<Rightarrow> headers_ok img eh \<and> entry_point sm = e_entry eh \<and> segments sm = loads (headers img eh)"
      by blast
    then show ?thesis using id eh True by (cases r) (auto simp: elf_ok_def misaligned_def)
  next
    case False
    then show ?thesis using id eh validate_elf_table [OF _ _ eh, of base g] validate_elf_loop [OF _ _ eh _ assms(1), of base g]
        process_headers_unaligned [of base eh "unat (e_phnum eh)" g img]
      by (cases "table_ok (length img) eh") (auto simp: elf_ok_def misaligned_def table_ok_def)
  qed
qed

text \<open>A small executable: one readable and executable page at the lowest user address, with the entry point at its start.\<close>

definition demo_elf :: "u8 list" where
  "demo_elf = [0x7F, 0x45, 0x4C, 0x46, 2, 1, 1, 0, 0, 0, 0, 0, 0, 0, 0, 0, 2, 0, 0x3E, 0, 1, 0, 0, 0, 0, 0, 0x20, 0, 0, 0, 0, 0, 64, 0, 0, 0, 0, 0, 0, 0,
     0, 0, 0, 0, 0, 0, 0, 0, 0, 0, 0, 0, 64, 0, 56, 0, 1, 0, 0, 0, 0, 0, 0, 0,
     1, 0, 0, 0, 5, 0, 0, 0, 0, 0, 0, 0, 0, 0, 0, 0, 0, 0, 0x20, 0, 0, 0, 0, 0, 0, 0, 0, 0, 0, 0, 0, 0, 120, 0, 0, 0, 0, 0, 0, 0,
     120, 0, 0, 0, 0, 0, 0, 0, 0, 16, 0, 0, 0, 0, 0, 0]"

lemma demo_elf_headers:
  "length demo_elf = 120" "take 4 demo_elf = ELFMAG" "demo_elf ! 4 = ELFCLASS64" "demo_elf ! 5 = ELFDATA2LSB" "demo_elf ! 6 = 1"
  "decode_ehdr demo_elf = Some \<lparr>e_type = ET_EXEC, e_machine = EM_X86_64, e_version = 1, e_entry = 0x200000, e_phoff = 64, e_ehsize = 64,
     e_phentsize = 56, e_phnum = 1\<rparr>"
  "decode_phdr demo_elf 64 = Some \<lparr>p_type = PT_LOAD, p_flags = 5, p_offset = 0, p_vaddr = 0x200000, p_filesz = 120, p_memsz = 120, p_align = 4096\<rparr>"
  by (simp_all add: demo_elf_def ELFMAG_def ELFCLASS64_def ELFDATA2LSB_def decode_ehdr_def decode_phdr_def field_def ET_EXEC_def EM_X86_64_def PT_LOAD_def)

theorem validate_elf_exact_witness:
  "elf_ok demo_elf \<and> (\<exists>sm. validate_elf demo_geom 0x1000 demo_elf = Some (Ok sm) \<and> entry_point sm = 0x200000)
   \<and> validate_elf demo_geom 0x1001 demo_elf = None"
proof -
  have "\<exists>k\<ge>12. (4096 :: nat) = 2 ^ k" by (rule exI [of _ 12]) simp
  then have ok: "elf_ok demo_elf"
    by (simp add: elf_ok_def ident_ok_def table_ok_def headers_ok_def demo_elf_headers headers_def loads_def header_ok_def load_ok_def segment_of_def
        covers_entry_def PF_W_def PF_X_def PF_R_def)
  have al: "\<not> misaligned 0x1000 demo_elf" "misaligned 0x1001 demo_elf"
    using ok by (simp_all add: misaligned_def elf_ok_def demo_elf_headers(6) Let_def)
  have l: "length demo_elf < 2 ^ 64" by (simp add: demo_elf_headers)
  show ?thesis using ok al validate_elf_exact [OF l demo_geom_sel(2), of "0x1000"] validate_elf_exact [OF l demo_geom_sel(2), of "0x1001"]
    by (auto simp: demo_elf_headers(6) split: option.splits sum.splits)
qed

end
