(* ===== verification/Spec2Isabelle.thy ===== *)
theory Spec2Isabelle
  imports Prelude Inventory Pmm Heap CapProps Queues Sched Sync Channel UserPtr Stack Revoke Elf
begin

text \<open>
  A verification development for Project Zero, a capability-based x86-64 kernel in Rust with
  its user-space services (sources under \<open>src/\<close>).

  \<^bold>\<open>Conventions.\<close> The kernel is built with overflow checks and aborting panics, so a function that can
  panic returns an option and \<open>None\<close> is the panic (overflow, failed assertion, index out of range). A Rust
  \<open>Result\<close> is a sum, \<open>Ok\<close> on the right. Static tables are functions from indices; fields whose overflow
  is checked are natural numbers with the check written out, fields used bitwise or allowed to wrap are
  words. A lock with interrupts off makes the section it protects one atomic step. Loops over linked
  structures are partial functions into option, and their termination is proved where they are used, so no
  fuel is chosen anywhere.

  \<^bold>\<open>Parts of the program and where they are modelled.\<close>

  \<^item> \<open>Prelude\<close>: result types, checked arithmetic, first-match scans, null-terminated pointer
    lists, generation counters.
  \<^item> \<open>Inventory\<close> (\<open>kernel/src/mm/inventory.rs\<close>): the Multiboot memory map parser and the interval
    arithmetic that turns firmware regions and reservations into page-aligned frame candidates.
  \<^item> \<open>Pmm\<close> (\<open>kernel/src/mm/pmm.rs\<close>): the two-bit frame bitmap, initialisation from the inventory,
    allocation, release and the smoke test.
  \<^item> \<open>Heap\<close> (\<open>kernel/src/mm/heap.rs\<close>): the first-fit kernel heap with splitting and coalescing.
  \<^item> \<open>IpcTypes\<close>, \<open>Objects\<close>, \<open>Handles\<close> (\<open>kernel/src/ipc/types.rs\<close>, \<open>object.rs\<close>, \<open>handle.rs\<close>): error codes,
    rights, the kernel object table with generations, handle tokens and per-process handle tables.
  \<^item> \<open>CapNode\<close>, \<open>CapOps\<close> (\<open>kernel/src/cap/node.rs\<close>, \<open>ops.rs\<close>, \<open>transfer.rs\<close>): the capability derivation tree
    as the linked nodes of the code, and installation, derivation, duplication, transfer, validation and
    closing. \<open>CapInv\<close> has the tree invariant and its preservation, \<open>CapSpec\<close> what each operation does to the
    whole state, \<open>CapProps\<close> the guarantees.
  \<^item> \<open>Queues\<close> (\<open>RunQueue\<close> of \<open>kernel/src/task/scheduler.rs\<close>, \<open>WaitQueue\<close> of \<open>waitqueue.rs\<close>): the intrusive lists,
    related to the lists they hold. The locale \<open>thread_queue\<close> is the contract of both.
  \<^item> \<open>Sched\<close> (\<open>kernel/src/task/scheduler.rs\<close>): run queues by priority, yielding, blocking and waking, and the switch of the address
    space with the lookup of a process's page table root (\<open>kernel/src/task/process.rs\<close>).
  \<^item> \<open>Sync\<close> (\<open>mutex.rs\<close>, \<open>event.rs\<close>, \<open>condvar.rs\<close>, \<open>sleep.rs\<close> of \<open>kernel/src/task\<close>): the blocking primitives.
  \<^item> \<open>Channel\<close> (\<open>kernel/src/ipc/channel.rs\<close>): messages, rings, and the channel operations over capabilities
    and the scheduler. The locale \<open>bounded_fifo\<close> is the contract of a ring.
  \<^item> \<open>Shm\<close> (\<open>kernel/src/ipc/shm.rs\<close>): creation, close and reclamation of shared memory objects, over
    capabilities and the frame manager. It uses the locale \<open>frame_allocator\<close> of \<open>Pmm\<close>.
  \<^item> \<open>Vmm\<close> (\<open>kernel/src/mm/vmm.rs\<close>): page table entries, four-level walks, mapping and unmapping with roll-back and table
    reclamation, address spaces, the control register and the self-test at boot. \<open>VmmTree\<close> has the tables of an address space as a tree, \<open>VmmSpace\<close>
    the invariant over several address spaces and the outcome of each operation, \<open>VmmProps\<close> the guarantees.
  \<^item> \<open>PageSpace\<close>, \<open>VmmPages\<close>: mapping and unmapping runs of pages. The locale \<open>page_space\<close> is the contract between an address
    space and its clients, and the page tables provide it.
  \<^item> \<open>UserPtr\<close> (\<open>pointer.rs\<close>, \<open>abi.rs\<close>, \<open>numbers.rs\<close> of \<open>kernel/src/syscall\<close>): validation of user buffers and of the state before a
    return to user mode.
  \<^item> \<open>Stack\<close> (\<open>kernel/src/task/stack.rs\<close>): guarded kernel stacks. \<open>ShmMap\<close> (\<open>kernel/src/ipc/shm.rs\<close>): mapping and unmapping of shared memory.
    Both use the locale \<open>page_space\<close> through its interpretation on the page tables.
  \<^item> \<open>Revoke\<close> (\<open>kernel/src/cap/ops.rs\<close>): revocation of the capabilities derived from one, the cleanup of an exiting process, and the
    capability operations together as one step relation.
  \<^item> \<open>Elf\<close> (\<open>types.rs\<close>, \<open>validate.rs\<close> of \<open>kernel/src/elf\<close>): the ELF headers as they lie in an image, and the validation of an
    executable before it is loaded.

  The states extend one another in the order of the code's dependencies: objects, handles, capabilities,
  channels, shared memory. Operations on an earlier state apply unchanged to a later one, and so do their lemmas. A
  context switch is the change of the current thread; an operation that blocks returns at the switch, and
  what it does when it runs again is a definition with the suffix \<open>_resumed\<close>.

  \<^bold>\<open>What the theorems show.\<close> Boot memory: every frame handed out after boot is usable RAM outside every
  reservation, allocation, release and the usable ranges are exact, and the two self-tests that run at boot stop the kernel exactly on
  the machines the theorems name. Heap: allocations never overlap, and
  releases leave no fragmentation. Capabilities: in every state that the operations reach from boot no
  derived capability has a right its ancestors lack, and closing, deriving, moving and revoking change exactly the handles they should. Scheduling:
  the highest ready priority runs, in the address space of its process, threads of one priority share it in bounded time, and waiters are
  served in order. Synchronisation: mutual exclusion, exact event signalling, sleepers woken on time.
  Channels: messages are delivered once and in order, and no channel operation takes an object away from a
  live handle. Shared memory: no frame is lost or used twice, on success and on every failure, and mapping it is a transaction except at the top of the user addresses. Page tables: mapping and
  unmapping change exactly one translation of one address space, failures change none, and table frames are neither lost nor
  released twice. System calls: a user buffer is accepted exactly when user code may access all of it.
  Executables: validation accepts exactly the well-formed images. Kernel
  stacks: allocation is a transaction that destruction undoes, and with enough memory it fails only when every slot is taken.
  Some theorems show where the code does not do what it means to: a stale token accepted by
  derivation, the boot thread unable to hold a mutex, a kernel panic that any process can cause by sending on a handle of a shared memory object, a channel lost
  when creation fails, heap alignments that are not honoured, a boot that fails on processors reporting more than 48 address bits, a page left mapped by a failed shared memory mapping,
  a process that cannot exit after a revocation, and a panic on an executable whose program headers are not aligned.

  \<^bold>\<open>Parameters.\<close> Physical memory at boot and the ranges the linker lays out are arguments of the memory map parser, and the
  processor's identification registers of the discovery of the paging geometry. The scheduler reads the processes' identifiers and page
  table roots, which it never changes, from the record \<open>address_spaces\<close>; its theorems ask that the roots it may load are valid frames, which
  is what the code asserts when it loads one.

  \<^bold>\<open>Not modelled.\<close> The process lifecycle, the file system, the network stack, devices and drivers, symmetric
  multiprocessing, the system call dispatcher and the loading of a validated executable (which creates a process) are not modelled yet. Of the scheduler, thread
  exit, timer preemption and the saved register frames are left out, and of the mutex, cancellation for a
  terminating process. Boot code in assembly, hardware access, diagnostics printing and the in-kernel test
  suites have no state that the modelled parts depend on. The user-space services and their library are
  separate programs over the system call interface.
\<close>

section \<open>From the firmware memory map to allocated frames\<close>

definition demo_layout :: BootLayout where
  "demo_layout = (let e = \<lparr>res_name = '''', res_start = 0, res_end = 0\<rparr> in
     \<lparr>kimage = e, kbss = e, ptables = e, guard = e, kstack = e, idt = e, ist1 = e, gdt = e, tss = e,
      pmm_metadata_range = (0x100000, 0x104000)\<rparr>)"

definition demo_mem :: "nat \<Rightarrow> u8" where
  "demo_mem = (\<lambda>_. 0)(0x9000 := 64, 0x9000 + 44 := 24, 0x9000 + 49 := 0xA0,
     0xA000 := 20, 0xA006 := 0x10, 0xA000 + 14 := 0x10, 0xA000 + 20 := 1)"

definition demo_iv1 :: PhysicalMemoryInventory where
  "demo_iv1 = new_inventory\<lparr>raw_regions := [new_region 0x100000 0x200000 AvailableRAM],
     total_address_space_bytes := 0x100000, firmware_type1_available_bytes := 0x100000\<rparr>"

definition demo_reservations :: "ReservationEntry list" where
  "demo_reservations = [\<lparr>res_name = ''Low Memory (IVT/BDA/ROM)'', res_start = 0, res_end = 0x100000\<rparr>,
     \<lparr>res_name = ''Multiboot Info Structure'', res_start = 0x9000, res_end = 0x9078\<rparr>,
     \<lparr>res_name = ''Multiboot Memory-Map Storage'', res_start = 0xA000, res_end = 0xA018\<rparr>]"

definition demo_meta :: ReservationEntry where
  "demo_meta = \<lparr>res_name = ''PMM Bitmap Metadata'', res_start = 0x100000, res_end = 0x104000\<rparr>"

lemma demo_mbi: "read_multiboot_info demo_mem 0x9000 =
  \<lparr>flags = 64, mods_count = 0, mods_addr = 0, mmap_length = 24, mmap_addr = 0xA000\<rparr>"
  by (simp add: read_multiboot_info_def read_u32_def demo_mem_def)

lemma demo_parse_entries:
  "parse_entries demo_mem 0xA000 24 0 new_inventory =
     account_region AvailableRAM 0x100000 (new_inventory\<lparr>raw_regions := [new_region 0x100000 0x200000 AvailableRAM]\<rparr>)"
  by (simp add: parse_entries.simps Let_def read_u32_def read_u64_def demo_mem_def add_raw_region_def
      from_multiboot_def inventory_sizes new_inventory_def split: option.splits)

lemma demo_entries: "parse_entries demo_mem 0xA000 24 0 new_inventory = Some demo_iv1"
  unfolding demo_parse_entries
  by (simp add: account_region_def new_inventory_def add64_def demo_iv1_def)

lemma demo_boot: "boot_reservations demo_layout 0x9000
    \<lparr>flags = 64, mods_count = 0, mods_addr = 0, mmap_length = 24, mmap_addr = 0xA000\<rparr> demo_iv1
  = Some (demo_iv1\<lparr>reservations := demo_reservations\<rparr>)"
  by (simp add: boot_reservations_def demo_layout_def Let_def add_entry_def add_reservation_def
      SIZEOF_MULTIBOOT_INFO_def add64_def inventory_sizes demo_iv1_def new_inventory_def demo_reservations_def)

lemma demo_compute1: "\<exists>iv. compute_usable_memory_inventory (demo_iv1\<lparr>reservations := demo_reservations\<rparr>) = Some iv
   \<and> raw_regions iv = raw_regions demo_iv1 \<and> reservations iv = demo_reservations"
  by (simp add: inventory_eval demo_iv1_def new_inventory_def demo_reservations_def)

lemma demo_compute2: "raw_regions iv = raw_regions demo_iv1 \<Longrightarrow> reservations iv = demo_reservations @ [demo_meta] \<Longrightarrow>
   \<exists>iv'. compute_usable_memory_inventory iv = Some iv'
   \<and> frame_candidates iv' = [new_region 0x104000 0x200000 AvailableRAM] \<and> raw_regions iv' = raw_regions demo_iv1
   \<and> reservations iv' = demo_reservations @ [demo_meta]"
  by (simp add: inventory_eval demo_iv1_def new_inventory_def demo_reservations_def demo_meta_def)

lemma demo_parse:
  "\<exists>iv. parse_memory_map demo_mem demo_layout 0x9000 MULTIBOOT_BOOTLOADER_MAGIC = Some (Ok iv)
    \<and> frame_candidates iv = [new_region 0x104000 0x200000 AvailableRAM] \<and> raw_regions iv = raw_regions demo_iv1
    \<and> reservations iv = demo_reservations @ [demo_meta]"
proof -
  obtain iv where iv: "compute_usable_memory_inventory (demo_iv1\<lparr>reservations := demo_reservations\<rparr>) = Some iv"
    "raw_regions iv = raw_regions demo_iv1" "reservations iv = demo_reservations"
    using demo_compute1 by blast
  let ?m = "add_reservation ''PMM Bitmap Metadata'' 0x100000 0x104000 iv"
  have "reservations ?m = demo_reservations @ [demo_meta]"
    using iv(3) by (simp add: add_reservation_def inventory_sizes demo_reservations_def demo_meta_def)
  then obtain iv' where iv': "compute_usable_memory_inventory ?m = Some iv'"
    "frame_candidates iv' = [new_region 0x104000 0x200000 AvailableRAM]" "raw_regions iv' = raw_regions demo_iv1"
    "reservations iv' = demo_reservations @ [demo_meta]"
    using demo_compute2 [of ?m] iv(2) by auto
  have ov: "\<not> list_ex (\<lambda>r. overlaps_range r 0x100000 0x104000) (reservations iv)"
    unfolding iv(3) by (simp add: demo_reservations_def overlaps_range_def)
  have raw: "raw_regions demo_iv1 \<noteq> []" by (simp add: demo_iv1_def)
  have meta: "pmm_metadata_range demo_layout = (0x100000, 0x104000)" by (simp add: demo_layout_def Let_def)
  have flag: "bit (64 :: nat) 6" by (simp add: bit_numeral_rec bit_Suc_0_iff)
  show ?thesis
    using iv(1) iv' ov raw flag
    by (simp add: parse_memory_map_def demo_mbi demo_entries demo_boot Let_def meta sub64_def)
qed

lemma demo_init:
  obtains iv pm0 where "parse_memory_map demo_mem demo_layout 0x9000 MULTIBOOT_BOOTLOADER_MAGIC = Some (Ok iv)"
    "init_from_inventory iv new_pmm = Some (Ok (), pm0)" "{0x104..<0x200} \<subseteq> frames_in pm0 Free"
proof -
  obtain iv where iv: "parse_memory_map demo_mem demo_layout 0x9000 MULTIBOOT_BOOTLOADER_MAGIC = Some (Ok iv)"
    "frame_candidates iv = [new_region 0x104000 0x200000 AvailableRAM]" "raw_regions iv = raw_regions demo_iv1"
    "reservations iv = demo_reservations @ [demo_meta]"
    using demo_parse by blast
  have m: "max_ram_addr iv = 0x200000"
    using iv by (simp add: max_ram_addr_def demo_iv1_def)
  have "\<forall>r\<in>set (reservations iv). res_end r + 4096 \<le> U64_MAX"
    using iv(4) by (simp add: demo_reservations_def demo_meta_def)
  then obtain pm0 where p: "init_from_inventory iv new_pmm = Some (Ok (), pm0)"
    using init_from_inventory_total [of iv new_pmm] iv(2) m by auto
  note i = init_from_inventory_spec [OF p]
  have "{0x104..<0x200} \<subseteq> frames_in pm0 Free" unfolding i(3) i(4) m using iv(2) by (auto simp: candidate_frames_def)
  with iv(1) p show ?thesis by (rule that)
qed

text \<open>C1: every frame the kernel ever hands out is usable RAM. If the boot-time memory map
  parses, the frame manager initialises from the resulting inventory, and then any sequence of
  allocations and releases (successful or rejected) is performed, the page returned by the next
  successful allocation lies entirely inside firmware-available RAM and overlaps none of the
  reservations; in particular it does not overlap low memory, the kernel's own image, stacks and
  tables, the Multiboot structure, or the frame bitmap itself.\<close>

theorem boot_frames_safe:
  assumes "parse_memory_map mem lay p magic = Some (Ok iv)"
    "init_from_inventory iv pm = Some (Ok (), pmm0)"
    "pmm_reach pmm0 q" "alloc_frame q = Some (Some a, q')"
  shows "{a..<a + PAGE_SIZE} \<subseteq> available_bytes (raw_regions iv) - reserved_bytes (reservations iv)
    \<and> {a..<a + PAGE_SIZE} \<inter> ({0..<0x100000} \<union> reserved_bytes (layout_entries lay)
            \<union> {p..<p + SIZEOF_MULTIBOOT_INFO} \<union> ival (pmm_metadata_range lay)) = {}"
proof -
  note ps = parse_memory_map_sound [OF assms(1)] and init = init_from_inventory_spec [OF assms(2)]
  have q: "pmm_inv q" "pool q = pool pmm0" using pmm_reach_inv [OF assms(3) init(1)] by auto
  obtain f where f: "first_free q = Some f" "a = f * 4096"
    using alloc_frame_eq [OF q(1)] assms(4) by (auto split: option.splits)
  have "f \<in> pool pmm0" using first_free_Some [OF f(1)] q(2) by (auto simp: pool_def)
  then have "f \<in> candidate_frames iv" using init(2,3) by (auto simp: pool_def)
  then obtain c where c: "c \<in> set (frame_candidates iv)" "r_start c div 4096 \<le> f" "f < r_end c div 4096"
    by (auto simp: candidate_frames_def)
  have al: "4096 dvd r_start c" "rcover c \<subseteq> available_bytes (raw_regions iv) - reserved_bytes (reservations iv)"
    using ps(1) c(1) by auto
  have "r_start c \<le> f * 4096" using al(1) c(2) by (auto elim!: dvdE)
  moreover have "f * 4096 + 4096 \<le> r_end c"
    using c(3) mult_le_mono1 [of "Suc f" "r_end c div 4096" 4096] div_times_less_eq_dividend [of "r_end c" 4096]
    by simp
  ultimately have "{a..<a + PAGE_SIZE} \<subseteq> rcover c" using f(2) by (auto simp: rcover_def)
  with al(2) have "{a..<a + PAGE_SIZE} \<subseteq> available_bytes (raw_regions iv) - reserved_bytes (reservations iv)"
    by blast
  with ps(2) show ?thesis by blast
qed

theorem boot_frames_safe_witness:
  "\<exists>iv pmm0 a q'. parse_memory_map demo_mem demo_layout 0x9000 MULTIBOOT_BOOTLOADER_MAGIC = Some (Ok iv)
    \<and> init_from_inventory iv new_pmm = Some (Ok (), pmm0) \<and> alloc_frame pmm0 = Some (Some a, q')
    \<and> {a..<a + 4096} \<inter> {0x100000..<0x104000} = {}"
proof -
  obtain iv pmm0 where iv: "parse_memory_map demo_mem demo_layout 0x9000 MULTIBOOT_BOOTLOADER_MAGIC = Some (Ok iv)"
    and p0: "init_from_inventory iv new_pmm = Some (Ok (), pmm0)" and fr: "{0x104..<0x200} \<subseteq> frames_in pmm0 Free"
    by (rule demo_init)
  have "0x104 \<in> frames_in pmm0 Free" using fr by auto
  then obtain f where "first_free pmm0 = Some f" using first_free_None [of pmm0] by auto
  then have al: "alloc_frame pmm0 = Some (Some (f * 4096), grant f pmm0)" using alloc_frame_eq [OF init_from_inventory_spec(1) [OF p0]] by simp
  have "ival (pmm_metadata_range demo_layout) = {0x100000..<0x104000}"
    by (simp add: demo_layout_def Let_def ival_def)
  with boot_frames_safe [OF iv p0 pmm_reach.start al]
  have "{f * 4096..<f * 4096 + 4096} \<inter> {0x100000..<0x104000} = {}"
    by (simp add: Int_Un_distrib)
  with iv p0 al show ?thesis by blast
qed

text \<open>C32: the smoke test that runs at boot, right after the frame manager is initialised, stops the kernel exactly on a machine with fewer than
  two free frames. When the memory map parses and the frame manager initialises from it, \<open>run_smoke_test\<close> panics if fewer than two frames are free;
  otherwise every \<open>assert!\<close> and \<open>expect\<close> in it succeeds (both allocated frames are candidates, the freed frame is reused
  first, the double release, the release of frame 0 and the misaligned release are rejected as expected) and every frame has the state it had before.\<close>

theorem boot_smoke_test:
  assumes "parse_memory_map mem lay p magic = Some (Ok iv)" "init_from_inventory iv pm = Some (Ok (), pm0)"
  shows "case run_smoke_test iv pm0 of
      None \<Rightarrow> free_frames pm0 < 2
    | Some pm1 \<Rightarrow> 2 \<le> free_frames pm0 \<and> pmm_inv pm1 \<and> (\<forall>f. get_state pm1 f = get_state pm0 f)"
proof -
  note ps = parse_memory_map_sound [OF assms(1)] and init = init_from_inventory_spec [OF assms(2)]
  have fc: "free_frames pm0 = card (frames_in pm0 Free)" using init(1) by (simp add: pmm_inv_def verify_invariants_iff)
  show ?thesis
  proof (cases "2 \<le> card (frames_in pm0 Free)")
    case True
    then have t: "0 < tracked_frames pm0" by (auto simp: frames_in_def intro: ccontr)
    have z: "(0::nat) \<in> reserved_bytes (reservations iv)" using ps(2) by auto
    have "0 \<notin> candidate_frames iv"
    proof
      assume "0 \<in> candidate_frames iv"
      then obtain c where c: "c \<in> set (frame_candidates iv)" "r_start c div 4096 = 0" by (auto simp: candidate_frames_def)
      then have "0 \<in> rcover c" using ps(1) by (auto simp: rcover_def elim!: dvdE)
      then show False using ps(1) c(1) z by blast
    qed
    moreover obtain r where "r \<in> set (reservations iv)" "res_start r = 0" "0 < res_end r" using z by (auto simp: reserved_bytes_def)
    ultimately have r0: "get_state pm0 0 = Reserved" using init(5) [of r 0] t by simp
    have "is_candidate_address iv (f * PAGE_SIZE)" if f: "f \<in> frames_in pm0 Free" for f
    proof -
      obtain c where c: "c \<in> set (frame_candidates iv)" "r_start c div 4096 \<le> f" "f < r_end c div 4096"
        using f unfolding init(3) candidate_frames_def by blast
      moreover have "4096 dvd r_start c" using ps(1) c(1) by blast
      ultimately have "r_start c \<le> f * 4096" "f * 4096 < r_end c" by (auto elim!: dvdE)
      with c(1) show ?thesis by (auto simp: is_candidate_address_def list_ex_iff)
    qed
    then show ?thesis using run_smoke_test_passes [OF init(1) True t r0, of iv] fc True by auto
  next
    case False
    then show ?thesis using run_smoke_test_short [OF init(1)] fc by simp
  qed
qed

theorem boot_smoke_test_witness:
  "\<exists>iv pm0 pm1. parse_memory_map demo_mem demo_layout 0x9000 MULTIBOOT_BOOTLOADER_MAGIC = Some (Ok iv)
    \<and> init_from_inventory iv new_pmm = Some (Ok (), pm0) \<and> run_smoke_test iv pm0 = Some pm1 \<and> get_state pm1 0x104 = Free"
proof -
  obtain iv pm0 where iv: "parse_memory_map demo_mem demo_layout 0x9000 MULTIBOOT_BOOTLOADER_MAGIC = Some (Ok iv)"
    and p: "init_from_inventory iv new_pmm = Some (Ok (), pm0)" and f: "{0x104..<0x200} \<subseteq> frames_in pm0 Free"
    by (rule demo_init)
  have "card {0x104..<0x200 :: nat} \<le> card (frames_in pm0 Free)" by (rule card_mono [OF _ f]) simp
  then have "2 \<le> free_frames pm0" using init_from_inventory_spec(1) [OF p] by (simp add: pmm_inv_def verify_invariants_iff)
  then obtain pm1 where "run_smoke_test iv pm0 = Some pm1" "\<forall>f. get_state pm1 f = get_state pm0 f"
    using boot_smoke_test [OF iv p] by (auto split: option.splits)
  moreover have "get_state pm0 0x104 = Free" using subsetD [OF f, of "0x104"] by (simp add: frames_in_def)
  ultimately show ?thesis using iv p by auto
qed

end
